(* ===== verification/Prelude.thy ===== *)
theory Prelude
  imports Main "HOL-Library.Word" "HOL-Library.Multiset"
begin

text \<open>
  What the components share: the error values of the model, the result type of fallible C code
  with its sequencing operator, the C integer conversions, and generic lemmas about lists and
  sums over cell tables.

  \<^verbatim>\<open>error(prefix,text,suffix)\<close> of \<open>src/src/toplevel.c\<close> never returns: it jumps to the top level.
  The model makes it a value, \<open>Lush text\<close>, of the left side of a sum. \<open>Undef\<close> stands for an
  access that C leaves undefined (a freed cell, an index past the end of an array, a signed
  overflow), so that a theorem with a right result also says the code never does one of these.
  \<open>NoFuel\<close> is the value of a bounded loop that ran out of its bound; every such loop has a lemma
  saying that the bound it is called with is enough.
\<close>

section \<open>Results of fallible code\<close>

datatype lush_error = Lush string | Undef string | NoFuel

type_synonym 'a res = "lush_error + 'a"

definition res_bind :: "'a res \<Rightarrow> ('a \<Rightarrow> 'b res) \<Rightarrow> 'b res" where
  "res_bind m f = (case m of Inl e \<Rightarrow> Inl e | Inr x \<Rightarrow> f x)"

lemma res_bind_simps [simp]:
  "res_bind (Inl e) f = Inl e"
  "res_bind (Inr x) f = f x"
  "res_bind m Inr = m"
  by (simp_all add: res_bind_def split: sum.split)

lemma res_bind_Inr_iff: "res_bind m f = Inr y \<longleftrightarrow> (\<exists>x. m = Inr x \<and> f x = Inr y)"
  by (cases m) auto

lemma res_bind_assoc: "res_bind (res_bind m f) g = res_bind m (\<lambda>x. res_bind (f x) g)"
  by (cases m) auto

lemma res_bind_cong [fundef_cong]:
  "m = m' \<Longrightarrow> (\<And>x. m' = Inr x \<Longrightarrow> f x = g x) \<Longrightarrow> res_bind m f = res_bind m' g"
  by (cases m') auto

text \<open>A loop that collects the results of its body, and stops at the first error.\<close>

fun res_map :: "('a \<Rightarrow> 'b res) \<Rightarrow> 'a list \<Rightarrow> 'b list res" where
  "res_map f [] = Inr []"
| "res_map f (x # xs) = res_bind (f x) (\<lambda>y. res_bind (res_map f xs) (\<lambda>ys. Inr (y # ys)))"

lemma res_map_cong [fundef_cong]:
  "xs = ys \<Longrightarrow> (\<And>x. x \<in> set ys \<Longrightarrow> f x = g x) \<Longrightarrow> res_map f xs = res_map g ys"
proof (induction xs arbitrary: ys)
  case (Cons x xs)
  then show ?case by (cases ys) auto
qed simp

lemma res_map_Inr: "(\<And>x. x \<in> set xs \<Longrightarrow> f x = Inr (g x)) \<Longrightarrow> res_map f xs = Inr (map g xs)"
  by (induction xs) auto

text \<open>A closed computation that succeeds, with a property of what it returns.\<close>

lemma case_InrI: "\<exists>x. r = Inr x \<Longrightarrow> (\<And>x. r = Inr x \<Longrightarrow> P x) \<Longrightarrow> case r of Inl _ \<Rightarrow> False | Inr x \<Rightarrow> P x"
  by auto

section \<open>C integers\<close>

text \<open>
  The configuration header \<open>src/include/lushconf.h\<close> defines \<open>INTG_IS_LONG\<close>: \<open>intg\<close> is a 64-bit
  \<open>long\<close>. Narrowing a value to \<open>int\<close> keeps the low 32 bits, read in two's complement.
\<close>

definition int32 :: "int \<Rightarrow> int" where
  "int32 x = sint (word_of_int x :: 32 word)"

definition in_int32 :: "int \<Rightarrow> bool" where
  "in_int32 x \<longleftrightarrow> - 2147483648 \<le> x \<and> x \<le> 2147483647"

definition in_int64 :: "int \<Rightarrow> bool" where
  "in_int64 x \<longleftrightarrow> - 9223372036854775808 \<le> x \<and> x \<le> 9223372036854775807"

lemma int32_id: "in_int32 x \<Longrightarrow> int32 x = x"
  by (simp add: in_int32_def int32_def sint_sbintrunc' signed_take_bit_int_eq_self)

text \<open>C division and remainder truncate towards zero.\<close>

definition cdiv :: "int \<Rightarrow> int \<Rightarrow> int" where
  "cdiv a b = sgn a * sgn b * (\<bar>a\<bar> div \<bar>b\<bar>)"

definition crem :: "int \<Rightarrow> int \<Rightarrow> int" where
  "crem a b = a - b * cdiv a b"

lemma cdiv_nonneg: "0 \<le> a \<Longrightarrow> 0 < b \<Longrightarrow> cdiv a b = a div b"
  by (cases "a = 0") (auto simp: cdiv_def)

lemma crem_nonneg: "0 \<le> a \<Longrightarrow> 0 < b \<Longrightarrow> crem a b = a mod b"
  by (simp add: crem_def cdiv_nonneg minus_div_mult_eq_mod [symmetric] mult.commute)

end
