(* ===== verification/Heap.thy ===== *)
theory Heap
  imports Prelude
begin

text \<open>
  The cells of Lush (\<open>struct at\<close>, \<open>src/include/header.h\<close>), their allocator
  (\<open>src/src/allocate.c\<close>) and the reference counts kept by the macros \<open>LOCK\<close> and \<open>UNLOCK\<close> and by
  \<open>purge\<close> (\<open>src/src/at.c\<close>).

  The arena is the list of all cells of all chunks; an address is a position in it and the
  C pointer \<open>NIL\<close> is \<open>None\<close>. A free cell is one on the free list: it holds \<open>Free\<close> and its count
  is 0 (\<open>empty_alloc.used\<close> overlays \<open>at.count\<close>). The type bits of \<open>flags\<close> are the constructors of
  \<open>obj\<close>; \<open>C_FINALIZER\<close> and \<open>C_GARBAGE\<close> are fields of the cell.
\<close>

section \<open>Cells\<close>

type_synonym ptr = "nat option"

text \<open>
  One frame of a symbol (\<open>struct symbol\<close>); \<open>fr_bound\<close> says that \<open>valueptr\<close> is set, and it then
  points to the frame's own \<open>value\<close>.
\<close>

record frame =
  fr_mode :: int
  fr_nopurge :: bool
  fr_value :: ptr
  fr_bound :: bool

datatype fkind = DE | DF | DM

datatype ckind = DX | DY

text \<open>
  The external objects: a symbol with its stack of frames, a string, an interpreted function
  (formal arguments and body), a primitive (its C function, by number, and its name), and an
  object of any other class, of which the cell layer uses only the references that the class's
  \<open>self_action\<close> visits and its \<open>self_dispose\<close> unlocks.
\<close>

datatype xobj =
    XSymbol "frame list"
  | XString string
  | XLfunc fkind ptr ptr
  | XCfunc ckind nat ptr
  | XOther nat "ptr list"

datatype obj =
    Cons ptr ptr
  | Number "64 word"
  | Gptr "64 word"
  | Extern xobj
  | Zombie
  | Free

record at =
  count :: nat
  obj :: obj
  fin :: bool
  garb :: bool

text \<open>A registered finalizer: its target, the C function (by number) and its argument.\<close>

record finalizer =
  target :: nat
  func :: nat
  arg :: nat

text \<open>
  The state of the cell layer. \<open>chunksize\<close> is \<open>at_alloc.chunksize\<close>; \<open>os_chunks\<close> is the number of
  chunks that \<open>malloc\<close> still grants (after that it returns 0). \<open>finalizers\<close> is the table of
  registered finalizers: the entries of one target all live in one bucket, so the list keeps the
  only order the code depends on. \<open>fin_log\<close> records the finalizer calls made so far. \<open>protected\<close>
  and \<open>bump_list\<close> are the static roots of \<open>allocate.c\<close> and \<open>at.c\<close>.
\<close>

record lheap =
  cells :: "at list"
  freelist :: "nat list"
  chunksize :: nat
  os_chunks :: nat
  finalizers :: "finalizer list"
  fin_log :: "finalizer list"
  protected :: ptr
  bump_active :: bool
  bump_list :: ptr

definition free_at :: at where
  "free_at = \<lparr>count = 0, obj = Free, fin = False, garb = False\<rparr>"

definition cell :: "lheap \<Rightarrow> nat \<Rightarrow> at" where
  "cell h a = (if a < length (cells h) then cells h ! a else free_at)"

definition set_cell :: "nat \<Rightarrow> at \<Rightarrow> lheap \<Rightarrow> lheap" where
  "set_cell a c h = h\<lparr>cells := (cells h)[a := c]\<rparr>"

definition set_count :: "nat \<Rightarrow> nat \<Rightarrow> lheap \<Rightarrow> lheap" where
  "set_count a n h = set_cell a ((cell h a)\<lparr>count := n\<rparr>) h"

definition set_obj :: "nat \<Rightarrow> obj \<Rightarrow> lheap \<Rightarrow> lheap" where
  "set_obj a x h = set_cell a ((cell h a)\<lparr>obj := x\<rparr>) h"

definition objof :: "lheap \<Rightarrow> ptr \<Rightarrow> obj" where
  "objof h p = (case p of None \<Rightarrow> Free | Some a \<Rightarrow> obj (cell h a))"

definition CONSP :: "lheap \<Rightarrow> ptr \<Rightarrow> bool" where
  "CONSP h p = (case objof h p of Cons _ _ \<Rightarrow> True | _ \<Rightarrow> False)"

definition LISTP :: "lheap \<Rightarrow> ptr \<Rightarrow> bool" where
  "LISTP h p = (p = None \<or> CONSP h p)"

definition NUMBERP :: "lheap \<Rightarrow> ptr \<Rightarrow> bool" where
  "NUMBERP h p = (case objof h p of Number _ \<Rightarrow> True | _ \<Rightarrow> False)"

definition GPTRP :: "lheap \<Rightarrow> ptr \<Rightarrow> bool" where
  "GPTRP h p = (case objof h p of Gptr _ \<Rightarrow> True | _ \<Rightarrow> False)"

definition carof :: "lheap \<Rightarrow> ptr \<Rightarrow> ptr" where
  "carof h p = (case objof h p of Cons a _ \<Rightarrow> a | _ \<Rightarrow> None)"

definition cdrof :: "lheap \<Rightarrow> ptr \<Rightarrow> ptr" where
  "cdrof h p = (case objof h p of Cons _ d \<Rightarrow> d | _ \<Rightarrow> None)"

text \<open>The references an external object holds, in the order its \<open>self_dispose\<close> unlocks them.\<close>

fun xrefs :: "xobj \<Rightarrow> ptr list" where
  "xrefs (XSymbol fs) = map fr_value fs"
| "xrefs (XString s) = []"
| "xrefs (XLfunc k formal body) = [formal, body]"
| "xrefs (XCfunc k c name) = [name]"
| "xrefs (XOther cl rs) = rs"

section \<open>The allocator\<close>

text \<open>
  \<open>allocate\<close>: when the free list is empty, a new chunk is added whose elements are pushed on the
  free list in address order, so the last one comes first; then the head is taken and marked used.
\<close>

definition grow :: "lheap \<Rightarrow> lheap" where
  "grow h = (let n = length (cells h) in
     h\<lparr>cells := cells h @ replicate (chunksize h) free_at,
       freelist := rev [n ..< n + chunksize h] @ freelist h,
       os_chunks := os_chunks h - 1\<rparr>)"

definition allocate :: "lheap \<Rightarrow> (nat \<times> lheap) res" where
  "allocate h = (
     if freelist h = [] \<and> os_chunks h = 0 then Inl (Lush ''not enough memory'')
     else let h1 = (if freelist h = [] then grow h else h) in
       case freelist h1 of
         [] \<Rightarrow> Inl (Undef ''empty chunk'')
       | a # rest \<Rightarrow> Inr (a, set_count a 4294967295 (h1\<lparr>freelist := rest\<rparr>)))"

definition deallocate :: "nat \<Rightarrow> lheap \<Rightarrow> lheap" where
  "deallocate a h = set_cell a ((cell h a)\<lparr>count := 0, obj := Free\<rparr>) (h\<lparr>freelist := a # freelist h\<rparr>)"

section \<open>Finalizers\<close>

definition add_finalizer :: "ptr \<Rightarrow> nat \<Rightarrow> nat \<Rightarrow> lheap \<Rightarrow> lheap" where
  "add_finalizer q fn x h = (case q of None \<Rightarrow> h
     | Some a \<Rightarrow>
       if fin (cell h a) \<and> \<lparr>target = a, func = fn, arg = x\<rparr> \<in> set (finalizers h) then h
       else set_cell a ((cell h a)\<lparr>fin := True\<rparr>)
              (h\<lparr>finalizers := \<lparr>target = a, func = fn, arg = x\<rparr> # finalizers h\<rparr>))"

definition del_finalizers :: "nat \<Rightarrow> lheap \<Rightarrow> lheap" where
  "del_finalizers x h = h\<lparr>finalizers := filter (\<lambda>f. arg f \<noteq> x) (finalizers h)\<rparr>"

text \<open>
  \<open>run_finalizers\<close> moves the entries of its target to a list \<open>todo\<close>, each in front of the ones
  found before, clears the flag of the target and then calls them in the order of \<open>todo\<close>.
\<close>

fun collect_finalizers :: "nat \<Rightarrow> finalizer list \<Rightarrow> finalizer list \<Rightarrow> finalizer list \<times> finalizer list" where
  "collect_finalizers q [] todo = ([], todo)"
| "collect_finalizers q (f # fs) todo =
     (if target f \<noteq> q
      then let (rest, todo') = collect_finalizers q fs todo in (f # rest, todo')
      else collect_finalizers q fs (f # todo))"

definition run_finalizers :: "nat \<Rightarrow> lheap \<Rightarrow> lheap" where
  "run_finalizers q h = (let (rest, todo) = collect_finalizers q (finalizers h) [] in
     set_cell q ((cell h q)\<lparr>fin := False\<rparr>)
       (h\<lparr>finalizers := rest, fin_log := fin_log h @ todo\<rparr>))"

section \<open>Reference counts\<close>

text \<open>
  \<open>LOCK\<close> and \<open>UNLOCK\<close>. Locking or unlocking a cell whose count is 0 uses a cell that was given
  back: \<open>Undef\<close>. \<open>unlock_with\<close> is \<open>UNLOCK\<close> over the function that purges.
\<close>

definition LOCK :: "ptr \<Rightarrow> lheap \<Rightarrow> lheap res" where
  "LOCK p h = (case p of None \<Rightarrow> Inr h
     | Some a \<Rightarrow> if count (cell h a) = 0 then Inl (Undef ''lock of a freed cell'')
                 else Inr (set_count a (Suc (count (cell h a))) h))"

definition unlock_with :: "(nat \<Rightarrow> lheap \<Rightarrow> lheap res) \<Rightarrow> ptr \<Rightarrow> lheap \<Rightarrow> lheap res" where
  "unlock_with pg p h = (case p of None \<Rightarrow> Inr h
     | Some a \<Rightarrow> (case count (cell h a) of
         0 \<Rightarrow> Inl (Undef ''unlock of a freed cell'')
       | Suc c \<Rightarrow> let h' = set_count a c h in if c = 0 then pg a h' else Inr h'))"

fun unlock_all :: "(ptr \<Rightarrow> lheap \<Rightarrow> lheap res) \<Rightarrow> ptr list \<Rightarrow> lheap \<Rightarrow> lheap res" where
  "unlock_all un [] h = Inr h"
| "unlock_all un (p # ps) h = res_bind (un p h) (unlock_all un ps)"

text \<open>
  \<open>purge\<close>: run the finalizers, release the references of the cell and push it on the free list.
  A cons is pushed after its \<open>Car\<close> was released and before its \<open>Cdr\<close> is, which the C code does by a
  jump back to its start. The recursion is bounded by fuel.
\<close>

definition purge_step :: "(nat \<Rightarrow> lheap \<Rightarrow> lheap res) \<Rightarrow> nat \<Rightarrow> lheap \<Rightarrow> lheap res" where
  "purge_step pg q h0 = (
     let h = (if fin (cell h0 q) then run_finalizers q h0 else h0) in
     case obj (cell h q) of
       Cons a _ \<Rightarrow> res_bind (unlock_with pg a h) (\<lambda>h1.
         let d = cdrof h1 (Some q) in unlock_with pg d (deallocate q h1))
     | Extern x \<Rightarrow> res_bind (unlock_all (unlock_with pg) (xrefs x) h) (\<lambda>h1. Inr (deallocate q h1))
     | Free \<Rightarrow> Inl (Undef ''purge of a free cell'')
     | _ \<Rightarrow> Inr (deallocate q h))"

primrec purge :: "nat \<Rightarrow> nat \<Rightarrow> lheap \<Rightarrow> lheap res" where
  "purge 0 = (\<lambda>q h. Inl NoFuel)"
| "purge (Suc n) = purge_step (purge n)"

definition UNLOCK :: "ptr \<Rightarrow> lheap \<Rightarrow> lheap res" where
  "UNLOCK p h = unlock_with (purge (Suc (length (cells h)))) p h"

end
