(* ===== verification/Refcount.thy ===== *)
theory Refcount
  imports Heap
begin

text \<open>
  The invariant of the cell layer, reference-count exactness, and the proof that allocation,
  \<open>LOCK\<close>, \<open>UNLOCK\<close> and \<open>purge\<close> keep it.

  \<open>rc_inv P R h\<close> says: the count of every cell is the number of references to it held by the
  other cells, by the static roots and by the running C code (the multiset \<open>R\<close>); every reference
  is inside the arena; the free list lists each free cell once; and a cell with count 0 is free,
  apart from the cells of \<open>P\<close>, whose count just reached 0 and which are being purged.
\<close>

section \<open>References\<close>

definition ref :: "ptr \<Rightarrow> nat multiset" where
  "ref p = (case p of None \<Rightarrow> {#} | Some a \<Rightarrow> {#a#})"

definition refs :: "ptr list \<Rightarrow> nat multiset" where
  "refs ps = sum_list (map ref ps)"

fun orefs :: "obj \<Rightarrow> nat multiset" where
  "orefs (Cons a d) = ref a + ref d"
| "orefs (Extern x) = refs (xrefs x)"
| "orefs _ = {#}"

definition hrefs :: "lheap \<Rightarrow> nat set \<Rightarrow> nat multiset" where
  "hrefs h P = (\<Sum>a \<in> {..<length (cells h)} - P. orefs (obj (cell h a)))"

definition hroots :: "lheap \<Rightarrow> nat multiset" where
  "hroots h = ref (protected h) + ref (bump_list h)"

definition rc_table :: "nat set \<Rightarrow> nat multiset \<Rightarrow> lheap \<Rightarrow> bool" where
  "rc_table P T h \<longleftrightarrow>
     (\<forall>a < length (cells h). count (cell h a) = Multiset.count T a) \<and>
     set_mset T \<subseteq> {..<length (cells h)} \<and>
     distinct (freelist h) \<and>
     set (freelist h) = {a. a < length (cells h) \<and> obj (cell h a) = Free} \<and>
     (\<forall>a < length (cells h). (count (cell h a) = 0) = (obj (cell h a) = Free \<or> a \<in> P)) \<and>
     (\<forall>a \<in> P. a < length (cells h) \<and> obj (cell h a) \<noteq> Free)"

definition rc_inv :: "nat set \<Rightarrow> nat multiset \<Rightarrow> lheap \<Rightarrow> bool" where
  "rc_inv P R h \<longleftrightarrow> rc_table P (hrefs h P + hroots h + R) h"

lemma ref_simps [simp]: "ref None = {#}" "ref (Some a) = {#a#}"
  by (simp_all add: ref_def)

lemma refs_simps [simp]: "refs [] = {#}" "refs (p # ps) = ref p + refs ps"
  by (simp_all add: refs_def)

section \<open>Updating one cell\<close>

lemma length_set_cell [simp]: "length (cells (set_cell a c h)) = length (cells h)"
  by (simp add: set_cell_def)

lemma cell_set_cell: "a < length (cells h) \<Longrightarrow> cell (set_cell a c h) b = (if b = a then c else cell h b)"
  by (simp add: cell_def set_cell_def)

lemma set_cell_fields [simp]:
  "freelist (set_cell a c h) = freelist h" "protected (set_cell a c h) = protected h"
  "bump_list (set_cell a c h) = bump_list h" "finalizers (set_cell a c h) = finalizers h"
  "fin_log (set_cell a c h) = fin_log h" "chunksize (set_cell a c h) = chunksize h"
  "os_chunks (set_cell a c h) = os_chunks h" "bump_active (set_cell a c h) = bump_active h"
  by (simp_all add: set_cell_def)

lemma hroots_set_cell [simp]: "hroots (set_cell a c h) = hroots h"
  by (simp add: hroots_def)

lemma hrefs_split:
  "a < length (cells h) \<Longrightarrow> a \<notin> P \<Longrightarrow> hrefs h P = orefs (obj (cell h a)) + hrefs h (insert a P)"
proof -
  assume "a < length (cells h)" "a \<notin> P"
  then have eq: "{..<length (cells h)} - P = insert a ({..<length (cells h)} - insert a P)" by auto
  show ?thesis unfolding hrefs_def by (subst eq, subst sum.insert) auto
qed

lemma hrefs_set_cell_in: "a \<in> P \<Longrightarrow> hrefs (set_cell a c h) P = hrefs h P"
  unfolding hrefs_def
  by (rule sum.cong) (auto simp: set_cell_def cell_def, metis nth_list_update_neq)

lemma hrefs_set_cell:
  "a < length (cells h) \<Longrightarrow> a \<notin> P \<Longrightarrow>
   hrefs (set_cell a c h) P = orefs (obj c) + hrefs h (insert a P)"
  using hrefs_split [of a "set_cell a c h" P]
  by (simp add: hrefs_set_cell_in cell_set_cell)

lemma hrefs_same_obj:
  "a < length (cells h) \<Longrightarrow> obj c = obj (cell h a) \<Longrightarrow> hrefs (set_cell a c h) P = hrefs h P"
  by (cases "a \<in> P") (simp_all add: hrefs_set_cell_in hrefs_set_cell hrefs_split [of a h P])

lemma hrefs_cong:
  "cells h' = cells h \<Longrightarrow> hrefs h' P = hrefs h P"
  by (simp add: hrefs_def cell_def)

lemma cell_cong: "cells h' = cells h \<Longrightarrow> cell h' = cell h"
  by (simp add: cell_def fun_eq_iff)

section \<open>What an operation may change\<close>

text \<open>
  \<open>frees h h'\<close>: objects of \<open>h'\<close> are those of \<open>h\<close>, some of them given back. \<open>extends h h'\<close>: all
  objects of \<open>h\<close> are still there. \<open>live h\<close> counts the cells whose count is not 0.
\<close>

definition frees :: "lheap \<Rightarrow> lheap \<Rightarrow> bool" where
  "frees h h' \<longleftrightarrow> length (cells h') = length (cells h) \<and>
     protected h' = protected h \<and> bump_list h' = bump_list h \<and> bump_active h' = bump_active h \<and>
     chunksize h' = chunksize h \<and> os_chunks h' = os_chunks h \<and>
     (\<forall>a. obj (cell h' a) = obj (cell h a) \<or> obj (cell h' a) = Free)"

definition extends :: "lheap \<Rightarrow> lheap \<Rightarrow> bool" where
  "extends h h' \<longleftrightarrow> (\<forall>a. obj (cell h a) \<noteq> Free \<longrightarrow> obj (cell h' a) = obj (cell h a))"

definition live :: "lheap \<Rightarrow> nat" where
  "live h = card {a. a < length (cells h) \<and> count (cell h a) \<noteq> 0}"

lemma frees_refl [simp]: "frees h h"
  by (simp add: frees_def)

lemma frees_trans: "frees h h1 \<Longrightarrow> frees h1 h2 \<Longrightarrow> frees h h2"
  unfolding frees_def by metis

lemma extends_refl [simp]: "extends h h"
  by (simp add: extends_def)

lemma extends_trans [trans]: "extends h h1 \<Longrightarrow> extends h1 h2 \<Longrightarrow> extends h h2"
  by (simp add: extends_def)

lemma live_le_length: "live h \<le> length (cells h)"
proof -
  have "live h \<le> card {..<length (cells h)}"
    unfolding live_def by (rule card_mono) auto
  then show ?thesis by simp
qed

lemma frees_set_count [simp]: "frees h (set_count a n h)"
  by (auto simp: frees_def set_count_def set_cell_def cell_def nth_list_update)

lemma frees_deallocate [simp]: "frees h (deallocate a h)"
  by (auto simp: frees_def deallocate_def set_cell_def cell_def nth_list_update)

section \<open>The invariant under the primitive updates\<close>

lemma rc_tableI:
  assumes "\<And>a. a < length (cells h) \<Longrightarrow> count (cell h a) = Multiset.count T a"
    and "\<And>x. x \<in># T \<Longrightarrow> x < length (cells h)"
    and "distinct (freelist h)"
    and "set (freelist h) = {a. a < length (cells h) \<and> obj (cell h a) = Free}"
    and "\<And>a. a < length (cells h) \<Longrightarrow> (count (cell h a) = 0) = (obj (cell h a) = Free \<or> a \<in> P)"
    and "\<And>a. a \<in> P \<Longrightarrow> a < length (cells h) \<and> obj (cell h a) \<noteq> Free"
  shows "rc_table P T h"
  using assms unfolding rc_table_def by blast

lemma rc_tableD:
  assumes "rc_table P T h"
  shows "a < length (cells h) \<Longrightarrow> count (cell h a) = Multiset.count T a"
    and "x \<in># T \<Longrightarrow> x < length (cells h)"
    and "distinct (freelist h)"
    and "set (freelist h) = {a. a < length (cells h) \<and> obj (cell h a) = Free}"
    and "a < length (cells h) \<Longrightarrow> (count (cell h a) = 0) = (obj (cell h a) = Free \<or> a \<in> P)"
    and "a \<in> P \<Longrightarrow> a < length (cells h) \<and> obj (cell h a) \<noteq> Free"
  using assms unfolding rc_table_def by blast+

lemmas rc_invD = rc_tableD [OF rc_inv_def [THEN iffD1]]

lemma rc_inv_ext: "rc_inv P (add_mset a R) h \<Longrightarrow> a < length (cells h) \<and> count (cell h a) \<noteq> 0"
  using rc_invD(1) [of P "add_mset a R" h a] rc_invD(2) [of P "add_mset a R" h a] by auto

lemma length_set_count [simp]: "length (cells (set_count a n h)) = length (cells h)"
  by (simp add: set_count_def)

lemma cell_set_count:
  "a < length (cells h) \<Longrightarrow>
   cell (set_count a n h) b = (if b = a then (cell h a)\<lparr>count := n\<rparr> else cell h b)"
  by (simp add: set_count_def cell_set_cell)

lemma obj_set_count [simp]: "obj (cell (set_count a n h) b) = obj (cell h b)"
  by (auto simp: set_count_def set_cell_def cell_def nth_list_update)

lemma hrefs_set_count [simp]: "hrefs (set_count a n h) P = hrefs h P"
  by (simp add: hrefs_def)

lemma set_count_fields [simp]:
  "freelist (set_count a n h) = freelist h" "hroots (set_count a n h) = hroots h"
  by (simp_all add: set_count_def)

lemma rc_table_set_count:
  assumes inv: "rc_table P T h" and a: "a < length (cells h)"
    and n: "n = Multiset.count T' a" "\<And>b. b \<noteq> a \<Longrightarrow> Multiset.count T' b = Multiset.count T b"
    and P: "\<And>b. b \<noteq> a \<Longrightarrow> b \<in> P' \<longleftrightarrow> b \<in> P" "(n = 0) = (obj (cell h a) = Free \<or> a \<in> P')"
      "a \<in> P' \<Longrightarrow> obj (cell h a) \<noteq> Free"
  shows "rc_table P' T' (set_count a n h)"
proof (rule rc_tableI, goal_cases)
  case (1 b) then show ?case using rc_tableD(1) [OF inv, of b] a n by (simp add: cell_set_count)
next
  case (2 b)
  then have "b = a \<or> b \<in># T" using n(2) [of b] by (metis count_greater_zero_iff)
  then show ?case using a rc_tableD(2) [OF inv, of b] by auto
next
  case 3 then show ?case using rc_tableD(3) [OF inv] by simp
next
  case 4 then show ?case using rc_tableD(4) [OF inv] by simp
next
  case (5 b) then show ?case using rc_tableD(5) [OF inv, of b] a P by (simp add: cell_set_count)
next
  case (6 b) then show ?case using rc_tableD(6) [OF inv, of b] a P by (cases "b = a") auto
qed

lemma rc_inv_dec:
  assumes inv: "rc_inv P (add_mset a R) h" and c: "count (cell h a) = Suc c" "c \<noteq> 0"
  shows "rc_inv P R (set_count a c h)"
proof -
  have a: "a < length (cells h)" using rc_inv_ext [OF inv] by simp
  show ?thesis
    using rc_invD(1) [OF inv a] rc_invD(5) [OF inv a] c a
    unfolding rc_inv_def hrefs_set_count set_count_fields
    by (intro rc_table_set_count [OF inv [unfolded rc_inv_def]]) (auto dest: rc_invD(6) [OF inv])
qed

lemma rc_inv_lock:
  assumes inv: "rc_inv P R h" and a: "a < length (cells h)" "count (cell h a) \<noteq> 0"
  shows "rc_inv P (add_mset a R) (set_count a (Suc (count (cell h a))) h)"
  using rc_invD(1) [OF inv a(1)] rc_invD(5) [OF inv a(1)] a
  unfolding rc_inv_def hrefs_set_count set_count_fields
  by (intro rc_table_set_count [OF inv [unfolded rc_inv_def]]) (auto dest: rc_invD(6) [OF inv])

lemma rc_inv_zero:
  assumes inv: "rc_inv P (add_mset a R) h" and c: "count (cell h a) = Suc 0"
  shows "rc_inv (insert a P) (R + orefs (obj (cell h a))) (set_count a 0 h)" and "a \<notin> P"
proof -
  have a: "a < length (cells h)" using rc_inv_ext [OF inv] by simp
  show nP: "a \<notin> P" using rc_invD(5) [OF inv a] c by auto
  have nf: "obj (cell h a) \<noteq> Free" using rc_invD(5) [OF inv a] c by auto
  have split: "hrefs h P = orefs (obj (cell h a)) + hrefs h (insert a P)"
    by (rule hrefs_split [OF a nP])
  have T: "hrefs h P + hroots h + add_mset a R =
      add_mset a (hrefs h (insert a P) + hroots h + (R + orefs (obj (cell h a))))"
    unfolding split by (simp add: ac_simps)
  have t: "rc_table P (add_mset a (hrefs h (insert a P) + hroots h + (R + orefs (obj (cell h a))))) h"
    using inv unfolding rc_inv_def T .
  show "rc_inv (insert a P) (R + orefs (obj (cell h a))) (set_count a 0 h)"
    using rc_tableD(1) [OF t a] c a nf
    unfolding rc_inv_def hrefs_set_count set_count_fields
    by (intro rc_table_set_count [OF t]) auto
qed

lemma length_deallocate [simp]: "length (cells (deallocate q h)) = length (cells h)"
  by (simp add: deallocate_def)

lemma rc_inv_deallocate:
  assumes inv: "rc_inv (insert q P) R h" and q: "q \<notin> P"
  shows "rc_inv P R (deallocate q h)"
proof -
  have a: "q < length (cells h)" "obj (cell h q) \<noteq> Free" using rc_invD(6) [OF inv] by auto
  have c: "count (cell h q) = 0" using rc_invD(5) [OF inv a(1)] by auto
  let ?h = "h\<lparr>freelist := q # freelist h\<rparr>"
  have cell: "cell (deallocate q h) b = (if b = q then (cell h q)\<lparr>count := 0, obj := Free\<rparr> else cell h b)" for b
    using a cell_set_cell [of q ?h] cell_cong [of ?h h] by (simp add: deallocate_def)
  have refs: "hrefs (deallocate q h) P = hrefs h (insert q P)"
    using hrefs_set_cell [of q ?h P] a q hrefs_cong [of ?h h] by (simp add: deallocate_def)
  have roots: "hroots (deallocate q h) = hroots h" by (simp add: deallocate_def hroots_def)
  have fl: "freelist (deallocate q h) = q # freelist h" by (simp add: deallocate_def)
  show ?thesis unfolding rc_inv_def refs roots
  proof (rule rc_tableI, goal_cases)
    case (1 b) then show ?case using rc_invD(1) [OF inv, of b] c by (cases "b = q") (simp_all add: cell)
  next
    case (2 b) then show ?case using rc_invD(2) [OF inv, of b] by simp
  next
    case 3 then show ?case using rc_invD(3,4) [OF inv] a by (simp add: fl)
  next
    case 4 then show ?case using rc_invD(4) [OF inv] a by (auto simp add: fl cell)
  next
    case (5 b) then show ?case using rc_invD(5) [OF inv, of b] q by (simp add: cell)
  next
    case (6 b) then show ?case using rc_invD(6) [OF inv, of b] q by (auto simp add: cell)
  qed
qed

lemma rc_inv_same:
  assumes "length (cells h') = length (cells h)"
    and "\<And>a. count (cell h' a) = count (cell h a) \<and> obj (cell h' a) = obj (cell h a)"
    and "freelist h' = freelist h" "hroots h' = hroots h"
  shows "rc_inv P R h' = rc_inv P R h"
proof -
  have "hrefs h' P = hrefs h P" using assms by (simp add: hrefs_def)
  then show ?thesis using assms by (simp add: rc_inv_def rc_table_def)
qed

lemma length_run_finalizers [simp]: "length (cells (run_finalizers q h)) = length (cells h)"
  by (simp add: run_finalizers_def split: prod.split)

lemma cell_run_finalizers:
  "count (cell (run_finalizers q h) a) = count (cell h a) \<and>
   obj (cell (run_finalizers q h) a) = obj (cell h a)"
  by (auto simp: run_finalizers_def set_cell_def cell_def nth_list_update split: prod.split)

lemma run_finalizers_fields [simp]:
  "freelist (run_finalizers q h) = freelist h" "protected (run_finalizers q h) = protected h"
  "bump_list (run_finalizers q h) = bump_list h" "bump_active (run_finalizers q h) = bump_active h"
  "chunksize (run_finalizers q h) = chunksize h" "os_chunks (run_finalizers q h) = os_chunks h"
  by (simp_all add: run_finalizers_def split: prod.split)

lemma rc_inv_run_finalizers [simp]: "rc_inv P R (run_finalizers q h) = rc_inv P R h"
  by (rule rc_inv_same) (simp_all add: cell_run_finalizers hroots_def)

lemma frees_run_finalizers [simp]: "frees h (run_finalizers q h)"
  by (simp add: frees_def cell_run_finalizers)

lemma live_run_finalizers [simp]: "live (run_finalizers q h) = live h"
  by (simp add: live_def cell_run_finalizers)

section \<open>\<open>UNLOCK\<close> and \<open>purge\<close> keep the invariant\<close>

lemma live_set_count:
  assumes "a < length (cells h)" "count (cell h a) \<noteq> 0"
  shows "live (set_count a 0 h) < live h" and "live (set_count a n h) \<le> live h"
proof -
  have f: "finite {b. b < length (cells h) \<and> count (cell h b) \<noteq> 0}" by simp
  show "live (set_count a 0 h) < live h" unfolding live_def
    by (rule psubset_card_mono [OF f]) (use assms in \<open>auto simp: cell_set_count\<close>)
  show "live (set_count a n h) \<le> live h" unfolding live_def
    by (rule card_mono [OF f]) (use assms in \<open>auto simp: cell_set_count split: if_splits\<close>)
qed

lemma live_deallocate: "live (deallocate a h) \<le> live h"
  unfolding live_def
  by (rule card_mono) (auto simp: deallocate_def set_cell_def cell_def nth_list_update split: if_splits)

text \<open>What a purging function that is good enough for \<open>n\<close> live cells does.\<close>

definition purges :: "nat \<Rightarrow> (nat \<Rightarrow> lheap \<Rightarrow> lheap res) \<Rightarrow> bool" where
  "purges n pg \<longleftrightarrow> (\<forall>q h P R.
     rc_inv (insert q P) (R + orefs (obj (cell h q))) h \<longrightarrow> q \<notin> P \<longrightarrow> live h < n \<longrightarrow>
     (\<exists>h'. pg q h = Inr h' \<and> rc_inv P R h' \<and> live h' \<le> live h \<and> frees h h'))"

lemma unlock_with_ok:
  assumes pg: "purges n pg" and inv: "rc_inv P (R + ref p) h" and l: "live h \<le> n"
  shows "\<exists>h'. unlock_with pg p h = Inr h' \<and> rc_inv P R h' \<and> live h' \<le> live h \<and> frees h h'"
proof (cases p)
  case None
  then show ?thesis using inv by (simp add: unlock_with_def)
next
  case (Some a)
  then have inv: "rc_inv P (add_mset a R) h" using inv by simp
  then obtain c where a: "a < length (cells h)" and c: "count (cell h a) = Suc c"
    using rc_inv_ext [OF inv] by (auto simp: gr0_conv_Suc)
  show ?thesis
  proof (cases "c = 0")
    case False
    then show ?thesis using Some c rc_inv_dec [OF inv c] live_set_count [of a h] a
      by (simp add: unlock_with_def)
  next
    case True
    let ?h = "set_count a 0 h"
    have z: "rc_inv (insert a P) (R + orefs (obj (cell ?h a))) ?h" and nP: "a \<notin> P"
      using rc_inv_zero [OF inv] c True by simp_all
    have lt: "live ?h < n" using live_set_count(1) [of a h] a c l by simp
    obtain h' where "pg a ?h = Inr h'" "rc_inv P R h'" "live h' \<le> live ?h" "frees ?h h'"
      using pg z nP lt unfolding purges_def by blast
    then show ?thesis using Some c True live_set_count(2) [of a h 0] a
        frees_trans [OF frees_set_count [of h a 0]]
      by (auto simp: unlock_with_def)
  qed
qed

lemma unlock_all_ok:
  assumes pg: "purges n pg" and inv: "rc_inv P (R + refs ps) h" and l: "live h \<le> n"
  shows "\<exists>h'. unlock_all (unlock_with pg) ps h = Inr h' \<and> rc_inv P R h' \<and> live h' \<le> live h \<and> frees h h'"
  using inv l
proof (induction ps arbitrary: h)
  case Nil
  then show ?case by simp
next
  case (Cons p ps)
  have "rc_inv P ((R + refs ps) + ref p) h" using Cons.prems(1) by (simp add: ac_simps)
  then obtain h1 where h1: "unlock_with pg p h = Inr h1" "rc_inv P (R + refs ps) h1"
      "live h1 \<le> live h" "frees h h1"
    using unlock_with_ok [OF pg _ Cons.prems(2)] by blast
  obtain h2 where "unlock_all (unlock_with pg) ps h1 = Inr h2" "rc_inv P R h2" "live h2 \<le> live h1"
      "frees h1 h2"
    using Cons.IH [OF h1(2)] h1(3) Cons.prems(2) by auto
  then show ?case using h1 frees_trans by auto
qed

lemma frees_keeps: "frees h h' \<Longrightarrow> obj (cell h' a) \<noteq> Free \<Longrightarrow> obj (cell h' a) = obj (cell h a)"
  unfolding frees_def by metis

lemma purge_step_ok:
  assumes pg: "purges n pg"
  shows "purges (Suc n) (purge_step pg)"
  unfolding purges_def
proof (intro allI impI)
  fix q h0 P R
  assume inv0: "rc_inv (insert q P) (R + orefs (obj (cell h0 q))) h0" and q: "q \<notin> P"
    and l0: "live h0 < Suc n"
  define h where "h = (if fin (cell h0 q) then run_finalizers q h0 else h0)"
  have o: "obj (cell h q) = obj (cell h0 q)" and l: "live h \<le> n" "live h = live h0" and fr: "frees h0 h"
    using l0 by (simp_all add: h_def cell_run_finalizers)
  have inv: "rc_inv (insert q P) (R + orefs (obj (cell h q))) h"
    using inv0 by (simp add: h_def cell_run_finalizers)
  have nf: "obj (cell h q) \<noteq> Free" using rc_invD(6) [OF inv] by simp
  have plain: "\<exists>h'. Inr (deallocate q h1) = Inr h' \<and> rc_inv P R h' \<and> live h' \<le> live h0 \<and> frees h0 h'"
    if "rc_inv (insert q P) R h1" "live h1 \<le> live h0" "frees h h1" for h1
    using rc_inv_deallocate [OF that(1) q] live_deallocate [of q h1] that
      frees_trans [OF fr frees_trans [OF that(3) frees_deallocate]] by auto
  show "\<exists>h'. purge_step pg q h0 = Inr h' \<and> rc_inv P R h' \<and> live h' \<le> live h0 \<and> frees h0 h'"
  proof (cases "obj (cell h q)")
    case (Cons a d)
    then have "rc_inv (insert q P) ((R + ref d) + ref a) h" using inv by (simp add: ac_simps)
    then obtain h1 where h1: "unlock_with pg a h = Inr h1" "rc_inv (insert q P) (R + ref d) h1"
        "live h1 \<le> live h" "frees h h1"
      using unlock_with_ok [OF pg _ l(1)] by blast
    have "obj (cell h1 q) = Cons a d"
      using frees_keeps [OF h1(4)] rc_invD(6) [OF h1(2)] Cons by auto
    then have d: "cdrof h1 (Some q) = d" by (simp add: cdrof_def objof_def)
    have inv2: "rc_inv P (R + ref d) (deallocate q h1)" by (rule rc_inv_deallocate [OF h1(2) q])
    have l2: "live (deallocate q h1) \<le> n" using live_deallocate [of q h1] h1(3) l by simp
    obtain h2 where h2: "unlock_with pg d (deallocate q h1) = Inr h2" "rc_inv P R h2"
        "live h2 \<le> live (deallocate q h1)" "frees (deallocate q h1) h2"
      using unlock_with_ok [OF pg inv2 l2] by blast
    have "frees h0 h2"
      using frees_trans [OF fr frees_trans [OF h1(4) frees_trans [OF frees_deallocate h2(4)]]] .
    then show ?thesis using h1 h2 d Cons live_deallocate [of q h1] l
      by (simp add: purge_step_def h_def [symmetric])
  next
    case (Extern x)
    obtain h1 where h1: "unlock_all (unlock_with pg) (xrefs x) h = Inr h1" "rc_inv (insert q P) R h1"
        "live h1 \<le> live h" "frees h h1"
      using unlock_all_ok [OF pg _ l(1), of "insert q P" R "xrefs x"] inv Extern by auto
    then show ?thesis using plain [OF h1(2)] l Extern by (simp add: purge_step_def h_def [symmetric])
  qed (use nf inv l plain [of h] in \<open>simp_all add: purge_step_def h_def [symmetric]\<close>)
qed

lemma purge_ok: "purges n (purge n)"
proof (induction n)
  case 0
  show ?case by (simp add: purges_def)
next
  case (Suc n)
  then show ?case using purge_step_ok by simp
qed

lemma UNLOCK_ok:
  assumes "rc_inv P (R + ref p) h"
  obtains h' where "UNLOCK p h = Inr h'" "rc_inv P R h'" "frees h h'"
  using unlock_with_ok [OF purge_ok assms] live_le_length [of h] unfolding UNLOCK_def
  by (metis le_SucI)

section \<open>\<open>LOCK\<close> and allocation keep the invariant\<close>

definition alive :: "lheap \<Rightarrow> ptr \<Rightarrow> bool" where
  "alive h p \<longleftrightarrow> (case p of None \<Rightarrow> True | Some a \<Rightarrow> count (cell h a) \<noteq> 0)"

text \<open>The number of cells that can still be allocated.\<close>

definition avail :: "lheap \<Rightarrow> nat" where
  "avail h = length (freelist h) + os_chunks h * chunksize h"

lemma alive_None [simp]: "alive h None"
  by (simp add: alive_def)

lemma alive_length: "alive h (Some a) \<Longrightarrow> a < length (cells h)"
  by (rule ccontr) (simp add: alive_def cell_def free_at_def)

lemma alive_held: "rc_inv P (R + ref p) h \<Longrightarrow> alive h p"
  using rc_inv_ext by (cases p) (auto simp: alive_def)

text \<open>A cell that a live cell refers to is live.\<close>

lemma alive_orefs:
  assumes inv: "rc_inv P R h" and a: "obj (cell h a) \<noteq> Free" "a \<notin> P" and b: "b \<in># orefs (obj (cell h a))"
  shows "alive h (Some b)"
proof -
  have len: "a < length (cells h)" using a(1) by (rule contrapos_np) (simp add: cell_def free_at_def)
  have "b \<in># hrefs h P" using hrefs_split [OF len a(2)] b by simp
  then have "b \<in># hrefs h P + hroots h + R" by simp
  then show ?thesis using rc_invD(1) [OF inv rc_invD(2) [OF inv]] by (simp add: alive_def)
qed

lemma alive_carof: "rc_inv {} R h \<Longrightarrow> alive h (carof h q)"
  using alive_orefs [of "{}" R h "the q"]
  by (auto simp: carof_def objof_def ref_def alive_def split: option.splits obj.splits)

lemma alive_cdrof: "rc_inv {} R h \<Longrightarrow> alive h (cdrof h q)"
  using alive_orefs [of "{}" R h "the q"]
  by (auto simp: cdrof_def objof_def ref_def alive_def split: option.splits obj.splits)

lemma alive_not_Free: "rc_inv {} R h \<Longrightarrow> a < length (cells h) \<Longrightarrow>
    alive h (Some a) \<longleftrightarrow> obj (cell h a) \<noteq> Free"
  using rc_invD(5) [of "{}" R h a] by (auto simp: alive_def)

lemma alive_obj: "rc_inv {} R h \<Longrightarrow> alive h (Some a) \<longleftrightarrow> obj (cell h a) \<noteq> Free"
  using alive_not_Free by (cases "a < length (cells h)") (auto simp: alive_def cell_def free_at_def)

text \<open>\<open>locks h h'\<close>: only counts of live cells changed, and none to 0.\<close>

definition locks :: "lheap \<Rightarrow> lheap \<Rightarrow> bool" where
  "locks h h' \<longleftrightarrow> (\<exists>cs. h' = h\<lparr>cells := cs\<rparr> \<and> length cs = length (cells h)) \<and>
     (\<forall>a. obj (cell h' a) = obj (cell h a)) \<and> (\<forall>p. alive h' p \<longleftrightarrow> alive h p)"

lemma locks_refl [simp]: "locks h h"
  unfolding locks_def by (auto intro: exI [of _ "cells h"])

lemma locks_trans: "locks h h1 \<Longrightarrow> locks h1 h2 \<Longrightarrow> locks h h2"
  unfolding locks_def by auto

lemma locks_extends: "locks h h' \<Longrightarrow> extends h h'"
  by (simp add: locks_def extends_def)

lemma locks_avail: "locks h h' \<Longrightarrow> avail h' = avail h"
  by (auto simp: locks_def avail_def)

lemma LOCK_ok:
  assumes inv: "rc_inv P R h" and p: "alive h p"
  obtains h' where "LOCK p h = Inr h'" "rc_inv P (R + ref p) h'" "locks h h'"
proof (cases p)
  case None
  then show ?thesis using inv that by (simp add: LOCK_def)
next
  case (Some a)
  then have a: "a < length (cells h)" "count (cell h a) \<noteq> 0"
    using p alive_length by (auto simp: alive_def)
  have "locks h (set_count a (Suc (count (cell h a))) h)"
    using a by (auto simp: locks_def alive_def cell_set_count split: option.splits)
      (auto simp: set_count_def set_cell_def intro: exI [of _ "(cells h)[a := c]" for c])
  then show ?thesis using that [of "set_count a (Suc (count (cell h a))) h"] Some a
      rc_inv_lock [OF inv a] by (simp add: LOCK_def)
qed

lemma cell_grow [simp]: "cell (grow h) b = cell h b"
  by (simp add: grow_def cell_def nth_append Let_def)

lemma grow_free:
  assumes "freelist h = []" "set (freelist h) = {b. b < length (cells h) \<and> obj (cell h b) = Free}"
  shows "distinct (freelist (grow h))"
    and "set (freelist (grow h)) = {b. b < length (cells (grow h)) \<and> obj (cell (grow h) b) = Free}"
proof -
  have out: "obj (cell h b) = Free \<longleftrightarrow> length (cells h) \<le> b" for b
    using assms by (auto simp: cell_def free_at_def)
  show "distinct (freelist (grow h))" using assms by (simp add: grow_def Let_def)
  show "set (freelist (grow h)) = {b. b < length (cells (grow h)) \<and> obj (cell (grow h) b) = Free}"
    using assms(1) by (simp add: out) (auto simp: grow_def Let_def)
qed

lemma allocate_ok:
  assumes inv: "rc_inv {} R h" and av: "0 < avail h"
  obtains a h1 where "allocate h = Inr (a, h1)" "a < length (cells h1)" "obj (cell h a) = Free"
    "avail h1 = avail h - 1" "extends h h1" "hroots h1 = hroots h" "bump_active h1 = bump_active h"
    "bump_list h1 = bump_list h" "protected h1 = protected h" "length (cells h) \<le> length (cells h1)"
    "\<And>b. b \<noteq> a \<Longrightarrow> cell h1 b = cell h b" "a \<notin> set (freelist h1)" "distinct (freelist h1)"
    "set (freelist h1) = {b. b < length (cells h1) \<and> b \<noteq> a \<and> obj (cell h1 b) = Free}"
proof -
  define g where "g = (if freelist h = [] then grow h else h)"
  have g: "freelist g \<noteq> []" "avail g = avail h" "hroots g = hroots h" "bump_active g = bump_active h"
      "bump_list g = bump_list h" "protected g = protected h" "length (cells h) \<le> length (cells g)"
    using av by (cases "os_chunks h"; cases "chunksize h";
        auto simp: g_def grow_def avail_def hroots_def Let_def)+
  have gc: "cell g b = cell h b" for b
    by (auto simp: g_def grow_def cell_def nth_append Let_def)
  have gd: "distinct (freelist g)" "set (freelist g) = {b. b < length (cells g) \<and> obj (cell g b) = Free}"
    using rc_invD(3,4) [OF inv] grow_free [OF _ rc_invD(4) [OF inv]] by (auto simp: g_def)
  obtain a rest where fl: "freelist g = a # rest" using g(1) by (cases "freelist g") auto
  define h1 where "h1 = set_count a 4294967295 (g\<lparr>freelist := rest\<rparr>)"
  have al: "allocate h = Inr (a, h1)"
    using av fl by (auto simp: allocate_def h1_def g_def avail_def)
  have a: "a < length (cells g)" "obj (cell g a) = Free" using gd fl by auto
  have c1: "cell h1 b = (if b = a then (cell h a)\<lparr>count := 4294967295\<rparr> else cell h b)" for b
    using a cell_set_count [of a "g\<lparr>freelist := rest\<rparr>" 4294967295 b] gc
    by (simp add: h1_def cell_cong [of "g\<lparr>freelist := rest\<rparr>" g])
  have f1: "freelist h1 = rest" "length (cells h1) = length (cells g)" "hroots h1 = hroots h"
      "bump_active h1 = bump_active h" "bump_list h1 = bump_list h" "protected h1 = protected h"
      "avail h1 = avail h - 1"
    using g fl by (simp_all add: h1_def set_count_def hroots_def avail_def)
  show ?thesis
  proof (rule that [OF al])
    show "set (freelist h1) = {b. b < length (cells h1) \<and> b \<noteq> a \<and> obj (cell h1 b) = Free}"
      using gd fl f1 c1 gc by auto
  qed (use f1 g gd fl a gc c1 in \<open>auto simp: extends_def\<close>)
qed

end
