(* ===== verification/Cells.thy ===== *)
theory Cells
  imports Refcount
begin

text \<open>
  The constructors and accessors of \<open>src/src/at.c\<close>: \<open>cons\<close>, \<open>new_cons\<close>, the other cell
  constructors, \<open>car\<close>, \<open>cdr\<close> and their compositions, \<open>rplaca\<close>, \<open>rplacd\<close>, \<open>displace\<close> and the type
  predicates, each with the reference counting it does, and the root lists of \<open>allocate.c\<close>.
  A function that returns an \<open>at*\<close> returns it locked: its lemma adds the result to \<open>R\<close>.
\<close>

section \<open>Constructors\<close>

definition init_cell :: "nat \<Rightarrow> obj \<Rightarrow> lheap \<Rightarrow> lheap" where
  "init_cell a x h = set_cell a \<lparr>count = 1, obj = x, fin = False, garb = False\<rparr> h"

text \<open>\<open>cons\<close> takes over the references of its arguments, \<open>new_cons\<close> locks them.\<close>

definition cons :: "ptr \<Rightarrow> ptr \<Rightarrow> lheap \<Rightarrow> (ptr \<times> lheap) res" where
  "cons a d h = res_bind (allocate h) (\<lambda>(new, h1). Inr (Some new, init_cell new (Cons a d) h1))"

definition new_cons :: "ptr \<Rightarrow> ptr \<Rightarrow> lheap \<Rightarrow> (ptr \<times> lheap) res" where
  "new_cons a d h = res_bind (allocate h) (\<lambda>(new, h1).
     res_bind (LOCK a h1) (\<lambda>h2. res_bind (LOCK d h2) (\<lambda>h3.
       Inr (Some new, init_cell new (Cons a d) h3))))"

definition new_number :: "64 word \<Rightarrow> lheap \<Rightarrow> (ptr \<times> lheap) res" where
  "new_number x h = res_bind (allocate h) (\<lambda>(new, h1). Inr (Some new, init_cell new (Number x) h1))"

definition new_gptr :: "64 word \<Rightarrow> lheap \<Rightarrow> (ptr \<times> lheap) res" where
  "new_gptr x h = res_bind (allocate h) (\<lambda>(new, h1). Inr (Some new, init_cell new (Gptr x) h1))"

text \<open>
  \<open>new_extern\<close>: while \<open>compute-bump\<close> is active the new object is also pushed on the bump list,
  and locked once more for it.
\<close>

definition new_extern :: "xobj \<Rightarrow> lheap \<Rightarrow> (ptr \<times> lheap) res" where
  "new_extern x h = res_bind (allocate h) (\<lambda>(new, h1).
     let h2 = init_cell new (Extern x) h1 in
     if bump_active h2
     then res_bind (cons (Some new) (bump_list h2) h2) (\<lambda>(b, h3).
            res_bind (LOCK (Some new) (h3\<lparr>bump_list := b\<rparr>)) (\<lambda>h4. Inr (Some new, h4)))
     else Inr (Some new, h2))"

section \<open>Accessors\<close>

definition car :: "ptr \<Rightarrow> lheap \<Rightarrow> (ptr \<times> lheap) res" where
  "car q h = (if q = None then Inr (None, h)
     else if \<not> CONSP h q then Inl (Lush ''not a list'')
     else res_bind (LOCK (carof h q) h) (\<lambda>h1. Inr (carof h q, h1)))"

definition cdr :: "ptr \<Rightarrow> lheap \<Rightarrow> (ptr \<times> lheap) res" where
  "cdr q h = (if q = None then Inr (None, h)
     else if \<not> CONSP h q then Inl (Lush ''not a list'')
     else res_bind (LOCK (cdrof h q) h) (\<lambda>h1. Inr (cdrof h q, h1)))"

text \<open>\<open>caar\<close>, \<open>cadr\<close>, \<open>cdar\<close> and \<open>cddr\<close> release the intermediate result.\<close>

definition caar :: "ptr \<Rightarrow> lheap \<Rightarrow> (ptr \<times> lheap) res" where
  "caar q h = res_bind (car q h) (\<lambda>(p, h1). res_bind (car p h1) (\<lambda>(r, h2).
     res_bind (UNLOCK p h2) (\<lambda>h3. Inr (r, h3))))"

definition cadr :: "ptr \<Rightarrow> lheap \<Rightarrow> (ptr \<times> lheap) res" where
  "cadr q h = res_bind (cdr q h) (\<lambda>(p, h1). res_bind (car p h1) (\<lambda>(r, h2).
     res_bind (UNLOCK p h2) (\<lambda>h3. Inr (r, h3))))"

definition cdar :: "ptr \<Rightarrow> lheap \<Rightarrow> (ptr \<times> lheap) res" where
  "cdar q h = res_bind (car q h) (\<lambda>(p, h1). res_bind (cdr p h1) (\<lambda>(r, h2).
     res_bind (UNLOCK p h2) (\<lambda>h3. Inr (r, h3))))"

definition cddr :: "ptr \<Rightarrow> lheap \<Rightarrow> (ptr \<times> lheap) res" where
  "cddr q h = res_bind (cdr q h) (\<lambda>(p, h1). res_bind (cdr p h1) (\<lambda>(r, h2).
     res_bind (UNLOCK p h2) (\<lambda>h3. Inr (r, h3))))"

text \<open>Destructive updates: the new reference is locked before the old one is released.\<close>

definition rplaca :: "ptr \<Rightarrow> ptr \<Rightarrow> lheap \<Rightarrow> (ptr \<times> lheap) res" where
  "rplaca q p h = (if CONSP h q
     then let t = carof h q in
       res_bind (LOCK p h) (\<lambda>h1.
       res_bind (UNLOCK t (set_obj (the q) (Cons p (cdrof h1 q)) h1)) (\<lambda>h2.
       res_bind (LOCK q h2) (\<lambda>h3. Inr (q, h3))))
     else Inl (Lush ''not a cons''))"

definition rplacd :: "ptr \<Rightarrow> ptr \<Rightarrow> lheap \<Rightarrow> (ptr \<times> lheap) res" where
  "rplacd q p h = (if CONSP h q
     then let t = cdrof h q in
       res_bind (LOCK p h) (\<lambda>h1.
       res_bind (UNLOCK t (set_obj (the q) (Cons (carof h1 q) p) h1)) (\<lambda>h2.
       res_bind (LOCK q h2) (\<lambda>h3. Inr (q, h3))))
     else Inl (Lush ''not a cons''))"

text \<open>
  \<open>displace\<close> copies both fields of \<open>p\<close> into \<open>q\<close>. The code tests \<open>q\<close> and not \<open>p\<close>: the fields of a
  \<open>p\<close> that is not a cons are not references, and reading them as such is undefined.
\<close>

definition displace :: "ptr \<Rightarrow> ptr \<Rightarrow> lheap \<Rightarrow> (ptr \<times> lheap) res" where
  "displace q p h = (if CONSP h q
     then if \<not> CONSP h p then Inl (Undef ''displace from an object that is not a cons'')
     else let t1 = carof h q; t2 = cdrof h q in
       res_bind (LOCK (carof h p) h) (\<lambda>h1.
       res_bind (LOCK (cdrof h1 p) h1) (\<lambda>h2.
       let h3 = set_obj (the q) (Cons (carof h2 p) (cdrof h2 q)) h2;
           h4 = set_obj (the q) (Cons (carof h3 q) (cdrof h3 p)) h3 in
       res_bind (UNLOCK t1 h4) (\<lambda>h5.
       res_bind (UNLOCK t2 h5) (\<lambda>h6.
       res_bind (LOCK q h6) (\<lambda>h7. Inr (q, h7))))))
     else Inl (Lush ''not a cons''))"

section \<open>Predicates\<close>

text \<open>\<open>tr\<close> is the symbol \<open>t\<close> that \<open>true()\<close> returns locked.\<close>

definition return_locked :: "ptr \<Rightarrow> lheap \<Rightarrow> (ptr \<times> lheap) res" where
  "return_locked p h = res_bind (LOCK p h) (\<lambda>h1. Inr (p, h1))"

definition listp :: "ptr \<Rightarrow> ptr \<Rightarrow> lheap \<Rightarrow> (ptr \<times> lheap) res" where
  "listp tr q h = (if q = None then return_locked tr h
     else if CONSP h q then return_locked q h else Inr (None, h))"

definition consp :: "ptr \<Rightarrow> lheap \<Rightarrow> (ptr \<times> lheap) res" where
  "consp q h = (if CONSP h q then return_locked q h else Inr (None, h))"

definition atomp :: "ptr \<Rightarrow> ptr \<Rightarrow> lheap \<Rightarrow> (ptr \<times> lheap) res" where
  "atomp tr q h = (if q = None then return_locked tr h
     else if \<not> CONSP h q then return_locked q h else Inr (None, h))"

definition numberp :: "ptr \<Rightarrow> lheap \<Rightarrow> (ptr \<times> lheap) res" where
  "numberp q h = (if NUMBERP h q then return_locked q h else Inr (None, h))"

definition externp :: "ptr \<Rightarrow> lheap \<Rightarrow> (ptr \<times> lheap) res" where
  "externp q h = (case objof h q of
       Extern x \<Rightarrow> return_locked q h | Zombie \<Rightarrow> return_locked q h | _ \<Rightarrow> Inr (None, h))"

definition null_at :: "ptr \<Rightarrow> ptr \<Rightarrow> lheap \<Rightarrow> (ptr \<times> lheap) res" where
  "null_at tr q h = (if q = None then return_locked tr h else Inr (None, h))"

section \<open>The list of protected objects\<close>

fun protected_loop :: "nat \<Rightarrow> lheap \<Rightarrow> ptr \<Rightarrow> ptr \<Rightarrow> bool res" where
  "protected_loop 0 h q p = Inl NoFuel"
| "protected_loop (Suc n) h q p =
     (if CONSP h p then if carof h p = q then Inr True else protected_loop n h q (cdrof h p)
      else Inr False)"

definition protect :: "ptr \<Rightarrow> lheap \<Rightarrow> lheap res" where
  "protect q h = res_bind (protected_loop (Suc (length (cells h))) h q (protected h)) (\<lambda>found.
     if found then Inr h
     else res_bind (LOCK q h) (\<lambda>h1. res_bind (cons q (protected h1) h1) (\<lambda>(p, h2).
            Inr (h2\<lparr>protected := p\<rparr>))))"

section \<open>The constructors keep the invariant\<close>

text \<open>\<open>fresh h h' n x\<close>: the cell \<open>n\<close>, free before, now holds \<open>x\<close>; one allocation was made.\<close>

definition fresh :: "lheap \<Rightarrow> lheap \<Rightarrow> nat \<Rightarrow> obj \<Rightarrow> bool" where
  "fresh h h' n x \<longleftrightarrow> obj (cell h' n) = x \<and> obj (cell h n) = Free \<and> extends h h' \<and>
     avail h' = avail h - 1 \<and> bump_active h' = bump_active h \<and> bump_list h' = bump_list h \<and>
     protected h' = protected h \<and> length (cells h) \<le> length (cells h')"

lemma init_cell_fields [simp]:
  "length (cells (init_cell n x h)) = length (cells h)" "freelist (init_cell n x h) = freelist h"
  "hroots (init_cell n x h) = hroots h" "bump_active (init_cell n x h) = bump_active h"
  "bump_list (init_cell n x h) = bump_list h" "protected (init_cell n x h) = protected h"
  "avail (init_cell n x h) = avail h"
  by (simp_all add: init_cell_def avail_def)

lemma cell_init_cell:
  "n < length (cells h) \<Longrightarrow> cell (init_cell n x h) b =
     (if b = n then \<lparr>count = 1, obj = x, fin = False, garb = False\<rparr> else cell h b)"
  by (simp add: init_cell_def cell_set_cell)

lemma new_cell_ok:
  assumes inv: "rc_inv {} (R + orefs x) h" and av: "0 < avail h" and x: "x \<noteq> Free"
  obtains n h1 where "allocate h = Inr (n, h1)" "rc_inv {} (add_mset n R) (init_cell n x h1)"
    "fresh h (init_cell n x h1) n x"
proof -
  obtain n h1 where al: "allocate h = Inr (n, h1)" "n < length (cells h1)" "obj (cell h n) = Free"
      "avail h1 = avail h - 1" "extends h h1" "hroots h1 = hroots h" "bump_active h1 = bump_active h"
      "bump_list h1 = bump_list h" "protected h1 = protected h" "length (cells h) \<le> length (cells h1)"
    and cells: "\<And>b. b \<noteq> n \<Longrightarrow> cell h1 b = cell h b"
    and fl: "n \<notin> set (freelist h1)" "distinct (freelist h1)"
      "set (freelist h1) = {b. b < length (cells h1) \<and> b \<noteq> n \<and> obj (cell h1 b) = Free}"
    by (rule allocate_ok [OF inv av]) (rule that)
  let ?h = "init_cell n x h1"
  note c = cell_init_cell [OF al(2), of x]
  have out: "b < length (cells h) \<or> cell h b = free_at" for b by (simp add: cell_def)
  have T: "Multiset.count (hrefs h {} + hroots h + (R + orefs x)) b = count (cell h b)" for b
  proof (cases "b < length (cells h)")
    case True
    then show ?thesis using rc_invD(1) [OF inv] by simp
  next
    case False
    then have "b \<notin># hrefs h {} + hroots h + (R + orefs x)" using rc_invD(2) [OF inv] by blast
    then show ?thesis using False by (simp only: not_in_iff) (simp add: cell_def free_at_def)
  qed
  have n0: "count (cell h n) = 0"
    using rc_invD(5) [OF inv, of n] al(3) out [of n] by (auto simp: free_at_def)
  have "hrefs ?h {} = orefs x + hrefs ?h {n}"
    using hrefs_split [of n ?h "{}"] al(2) c by simp
  also have "hrefs ?h {n} = hrefs h {}"
  proof -
    have "hrefs ?h {n} = (\<Sum>b \<in> {..<length (cells h1)} - {n}. orefs (obj (cell h b)))"
      unfolding hrefs_def using c cells by (intro sum.cong) auto
    also have "\<dots> = (\<Sum>b \<in> {..<length (cells h)}. orefs (obj (cell h b)))"
      using al(3,10) by (intro sum.mono_neutral_cong) (auto simp: cell_def free_at_def split: if_splits)
    finally show ?thesis by (simp add: hrefs_def)
  qed
  finally have hr: "hrefs ?h {} = orefs x + hrefs h {}" .
  have inv': "rc_inv {} (add_mset n R) ?h"
    unfolding rc_inv_def hr init_cell_fields al(6)
  proof (rule rc_tableI, goal_cases)
    case (1 b)
    then show ?case using T [of b] n0 cells [of b] c T [of n] by (cases "b = n") auto
  next
    case (2 b)
    then show ?case using rc_invD(2) [OF inv, of b] al by auto
  next
    case (5 b)
    then show ?case using rc_invD(5) [OF inv, of b] cells [of b] c x out [of b]
      by (cases "b = n") (auto simp: free_at_def)
  qed (use fl al c x in auto)
  have "extends h ?h" using al c cells by (auto simp: extends_def)
  then show ?thesis using that [OF al(1) inv'] al c by (simp add: fresh_def)
qed

lemma cons_ok:
  assumes "rc_inv {} (R + ref a + ref d) h" and "0 < avail h"
  obtains n h' where "cons a d h = Inr (Some n, h')" "rc_inv {} (add_mset n R) h'"
    "fresh h h' n (Cons a d)"
proof -
  have "rc_inv {} (R + orefs (Cons a d)) h" using assms(1) by (simp add: ac_simps)
  then show ?thesis using assms(2) that
    by (elim new_cell_ok) (auto simp: cons_def)
qed

text \<open>Locking a live cell and allocating another one commute.\<close>

lemma LOCK_allocate:
  assumes inv: "rc_inv {} R h" and p: "alive h p"
    and l: "LOCK p h = Inr h1" and al: "allocate h1 = Inr (n, h2)"
  shows "\<exists>h0. allocate h = Inr (n, h0) \<and> LOCK p h0 = Inr h2"
proof (cases p)
  case None
  then show ?thesis using l al by (simp add: LOCK_def)
next
  case (Some a)
  have a: "a < length (cells h)" "count (cell h a) \<noteq> 0" using p alive_length Some by (auto simp: alive_def)
  have h1: "h1 = set_count a (Suc (count (cell h a))) h" using l Some a by (simp add: LOCK_def)
  have nf: "obj (cell h a) \<noteq> Free" using rc_invD(5) [OF inv a(1)] a(2) by simp
  define g where "g = (if freelist h = [] then grow h else h)"
  obtain rest where fl: "freelist g = n # rest" and os: "\<not> (freelist h = [] \<and> os_chunks h = 0)"
    using al by (auto simp: allocate_def h1 g_def set_count_def set_cell_def grow_def Let_def split: if_splits list.splits)
  have "n \<noteq> a"
  proof
    assume "n = a"
    then have "a \<in> set (freelist g)" using fl by simp
    then show False using rc_invD(4) [OF inv] a(1) nf by (auto simp: g_def grow_def Let_def split: if_splits)
  qed
  then show ?thesis using al a fl os Some unfolding h1
    by (auto simp: allocate_def g_def set_count_def set_cell_def grow_def LOCK_def cell_def Let_def
        nth_append list_update_append list_update_swap nth_list_update split: if_splits list.splits)
qed

lemma fresh_locks: "locks h h1 \<Longrightarrow> fresh h1 h' n x \<Longrightarrow> fresh h h' n x"
  by (auto simp: fresh_def locks_def extends_def avail_def)

lemma new_cons_ok:
  assumes inv: "rc_inv {} R h" and a: "alive h a" and d: "alive h d" and av: "0 < avail h"
  obtains n h' where "new_cons a d h = Inr (Some n, h')" "rc_inv {} (add_mset n R) h'"
    "fresh h h' n (Cons a d)"
proof -
  obtain h1 where h1: "LOCK a h = Inr h1" "rc_inv {} (R + ref a) h1" "locks h h1"
    by (rule LOCK_ok [OF inv a])
  have d1: "alive h1 d" using h1(3) d by (simp add: locks_def)
  obtain h2 where h2: "LOCK d h1 = Inr h2" "rc_inv {} (R + ref a + ref d) h2" "locks h1 h2"
    by (rule LOCK_ok [OF h1(2) d1])
  have l: "locks h h2" by (rule locks_trans [OF h1(3) h2(3)])
  have inv2: "rc_inv {} (R + orefs (Cons a d)) h2" and av2: "0 < avail h2"
    using h2(2) av locks_avail [OF l] by (simp_all add: ac_simps)
  obtain n h3 where n: "allocate h2 = Inr (n, h3)" "rc_inv {} (add_mset n R) (init_cell n (Cons a d) h3)"
      "fresh h2 (init_cell n (Cons a d) h3) n (Cons a d)"
    by (rule new_cell_ok [OF inv2 av2]) auto
  obtain h02 where h02: "allocate h1 = Inr (n, h02)" "LOCK d h02 = Inr h3"
    using LOCK_allocate [OF h1(2) d1 h2(1) n(1)] by blast
  obtain h01 where h01: "allocate h = Inr (n, h01)" "LOCK a h01 = Inr h02"
    using LOCK_allocate [OF inv a h1(1) h02(1)] by blast
  show ?thesis using that h01 h02 n fresh_locks [OF l] by (simp add: new_cons_def)
qed

section \<open>The accessors keep the invariant\<close>

lemma car_ok:
  assumes inv: "rc_inv {} R h" and q: "LISTP h q"
  obtains h' where "car q h = Inr (carof h q, h')" "rc_inv {} (R + ref (carof h q)) h'" "locks h h'"
proof (cases "q = None")
  case True
  then show ?thesis using that [of h] inv by (simp add: car_def carof_def objof_def)
next
  case False
  obtain h' where "LOCK (carof h q) h = Inr h'" "rc_inv {} (R + ref (carof h q)) h'" "locks h h'"
    by (rule LOCK_ok [OF inv alive_carof [OF inv]])
  then show ?thesis using that q False by (simp add: car_def LISTP_def)
qed

lemma cdr_ok:
  assumes inv: "rc_inv {} R h" and q: "LISTP h q"
  obtains h' where "cdr q h = Inr (cdrof h q, h')" "rc_inv {} (R + ref (cdrof h q)) h'" "locks h h'"
proof (cases "q = None")
  case True
  then show ?thesis using that [of h] inv by (simp add: cdr_def cdrof_def objof_def)
next
  case False
  obtain h' where "LOCK (cdrof h q) h = Inr h'" "rc_inv {} (R + ref (cdrof h q)) h'" "locks h h'"
    by (rule LOCK_ok [OF inv alive_cdrof [OF inv]])
  then show ?thesis using that q False by (simp add: cdr_def LISTP_def)
qed

lemma car_error: "q \<noteq> None \<Longrightarrow> \<not> CONSP h q \<Longrightarrow> car q h = Inl (Lush ''not a list'')"
  by (simp add: car_def)

lemma cdr_error: "q \<noteq> None \<Longrightarrow> \<not> CONSP h q \<Longrightarrow> cdr q h = Inl (Lush ''not a list'')"
  by (simp add: cdr_def)

lemma locks_reads:
  "locks h h' \<Longrightarrow> objof h' p = objof h p" "locks h h' \<Longrightarrow> CONSP h' p = CONSP h p"
  "locks h h' \<Longrightarrow> LISTP h' p = LISTP h p"
  "locks h h' \<Longrightarrow> carof h' p = carof h p" "locks h h' \<Longrightarrow> cdrof h' p = cdrof h p"
  by (auto simp: locks_def objof_def CONSP_def LISTP_def carof_def cdrof_def split: option.splits)

lemma CONSP_cell: "CONSP h p \<longleftrightarrow> (\<exists>a c d. p = Some a \<and> obj (cell h a) = Cons c d)"
  by (auto simp: CONSP_def objof_def split: option.splits obj.splits)

lemma cell_nonfree_length: "obj (cell h a) \<noteq> Free \<Longrightarrow> a < length (cells h)"
  by (rule ccontr) (simp add: cell_def free_at_def)

text \<open>Replacing the object of a live cell: the old references pass to the code, the new ones from it.\<close>

lemma set_obj_cell: "a < length (cells h) \<Longrightarrow>
    cell (set_obj a x h) b = (if b = a then (cell h a)\<lparr>obj := x\<rparr> else cell h b)"
  by (simp add: set_obj_def cell_set_cell)

lemma length_set_obj [simp]: "length (cells (set_obj a x h)) = length (cells h)"
  by (simp add: set_obj_def)

lemma set_obj_fields [simp]:
  "freelist (set_obj a x h) = freelist h" "hroots (set_obj a x h) = hroots h"
  "avail (set_obj a x h) = avail h" "bump_active (set_obj a x h) = bump_active h"
  "bump_list (set_obj a x h) = bump_list h" "protected (set_obj a x h) = protected h"
  by (simp_all add: set_obj_def avail_def)

lemma rc_inv_set_obj:
  assumes inv: "rc_inv {} R h" and a: "obj (cell h a) \<noteq> Free" and x: "x \<noteq> Free"
    and R: "R' + orefs x = R + orefs (obj (cell h a))"
  shows "rc_inv {} R' (set_obj a x h)"
proof -
  have len: "a < length (cells h)" by (rule cell_nonfree_length [OF a])
  note c = set_obj_cell [OF len, of x]
  have "hrefs (set_obj a x h) {} = orefs x + hrefs h {a}"
    using hrefs_set_cell [OF len, of "{}" "(cell h a)\<lparr>obj := x\<rparr>"] by (simp add: set_obj_def)
  moreover have "hrefs h {} = orefs (obj (cell h a)) + hrefs h {a}"
    using hrefs_split [OF len, of "{}"] by simp
  moreover have "orefs x + hrefs h {a} + hroots h + R' = (R' + orefs x) + (hrefs h {a} + hroots h)"
    by (simp add: ac_simps)
  ultimately have T: "hrefs (set_obj a x h) {} + hroots (set_obj a x h) + R' = hrefs h {} + hroots h + R"
    unfolding R by (simp add: ac_simps)
  show ?thesis unfolding rc_inv_def T
  proof (rule rc_tableI, goal_cases)
    case (1 b) then show ?case using rc_invD(1) [OF inv, of b] c by (cases "b = a") simp_all
  next
    case (2 b) then show ?case using rc_invD(2) [OF inv, of b] by simp
  next
    case 4 then show ?case using rc_invD(4) [OF inv] c a x by auto
  next
    case (5 b) then show ?case using rc_invD(5) [OF inv, of b] c a x by (cases "b = a") simp_all
  qed (use rc_invD(3) [OF inv] in auto)
qed

text \<open>
  A destructive update through a cons the caller holds: the old field is released last, and the
  cell updated survives it because the caller's reference keeps it alive.
\<close>

definition updated :: "lheap \<Rightarrow> lheap \<Rightarrow> nat \<Rightarrow> obj \<Rightarrow> bool" where
  "updated h h' a x \<longleftrightarrow> obj (cell h' a) = x \<and>
     (\<forall>b. b \<noteq> a \<longrightarrow> obj (cell h' b) = obj (cell h b) \<or> obj (cell h' b) = Free)"

lemma held_obj: "rc_inv {} (R + ref (Some a)) h \<Longrightarrow> obj (cell h a) \<noteq> Free"
  using rc_inv_ext [of "{}" a R h] rc_invD(5) [of "{}" "add_mset a R" h a] by auto

lemma update_tail:
  assumes inv: "rc_inv {} (R + ref (Some a) + refs ts) h1"
    and frame: "\<And>b. b \<noteq> a \<Longrightarrow> obj (cell h1 b) = obj (cell h b)"
  obtains h2 h3 where "unlock_all UNLOCK ts h1 = Inr h2" "LOCK (Some a) h2 = Inr h3"
    "rc_inv {} (R + ref (Some a) + ref (Some a)) h3" "updated h h3 a (obj (cell h1 a))"
proof -
  have "\<exists>h2. unlock_all UNLOCK ts h1 = Inr h2 \<and> rc_inv {} (R + ref (Some a)) h2 \<and> frees h1 h2"
    using inv
  proof (induction ts arbitrary: h1)
    case (Cons t ts)
    then have "rc_inv {} ((R + ref (Some a) + refs ts) + ref t) h1" by (simp add: ac_simps)
    then obtain h' where "UNLOCK t h1 = Inr h'" "rc_inv {} (R + ref (Some a) + refs ts) h'" "frees h1 h'"
      by (rule UNLOCK_ok)
    then show ?case using Cons.IH [of h'] frees_trans by auto
  qed simp
  then obtain h2 where h2: "unlock_all UNLOCK ts h1 = Inr h2" "rc_inv {} (R + ref (Some a)) h2" "frees h1 h2"
    by blast
  obtain h3 where h3: "LOCK (Some a) h2 = Inr h3" "rc_inv {} (R + ref (Some a) + ref (Some a)) h3" "locks h2 h3"
    by (rule LOCK_ok [OF h2(2) alive_held [OF h2(2)]])
  have "obj (cell h2 a) = obj (cell h1 a)" using held_obj [OF h2(2)] frees_keeps [OF h2(3)] by blast
  then have "updated h h3 a (obj (cell h1 a))"
    using h3(3) h2(3) frame unfolding updated_def locks_def frees_def by metis
  then show ?thesis using that h2 h3 by blast
qed

lemma unlock_all_Nil [simp]: "unlock_all un [] = Inr"
  by (simp add: fun_eq_iff)

lemma rplaca_ok:
  assumes inv: "rc_inv {} (R + ref (Some a)) h" and q: "obj (cell h a) = Cons x d" and p: "alive h p"
  obtains h' where "rplaca (Some a) p h = Inr (Some a, h')"
    "rc_inv {} (R + ref (Some a) + ref (Some a)) h'" "updated h h' a (Cons p d)"
proof -
  obtain h1 where h1: "LOCK p h = Inr h1" "rc_inv {} (R + ref (Some a) + ref p) h1" "locks h h1"
    by (rule LOCK_ok [OF inv p])
  have o: "obj (cell h1 a) = Cons x d" using h1(3) q by (simp add: locks_def)
  let ?h = "set_obj a (Cons p d) h1"
  have len: "a < length (cells h1)" using o by (intro cell_nonfree_length) simp
  have i: "rc_inv {} (R + ref (Some a) + refs [x]) ?h"
    by (rule rc_inv_set_obj [OF h1(2)]) (simp_all add: o ac_simps)
  have fr: "obj (cell ?h b) = obj (cell h b)" if "b \<noteq> a" for b
    using that h1(3) by (simp add: set_obj_cell [OF len] locks_def)
  obtain h2 h3 where h23: "unlock_all UNLOCK [x] ?h = Inr h2" "LOCK (Some a) h2 = Inr h3"
      "rc_inv {} (R + ref (Some a) + ref (Some a)) h3" "updated h h3 a (obj (cell ?h a))"
    by (rule update_tail [OF i fr])
  show ?thesis using that [of h3] h1 h23 o q
    by (simp add: rplaca_def CONSP_cell carof_def cdrof_def objof_def set_obj_cell [OF len])
qed

lemma rplacd_ok:
  assumes inv: "rc_inv {} (R + ref (Some a)) h" and q: "obj (cell h a) = Cons x d" and p: "alive h p"
  obtains h' where "rplacd (Some a) p h = Inr (Some a, h')"
    "rc_inv {} (R + ref (Some a) + ref (Some a)) h'" "updated h h' a (Cons x p)"
proof -
  obtain h1 where h1: "LOCK p h = Inr h1" "rc_inv {} (R + ref (Some a) + ref p) h1" "locks h h1"
    by (rule LOCK_ok [OF inv p])
  have o: "obj (cell h1 a) = Cons x d" using h1(3) q by (simp add: locks_def)
  let ?h = "set_obj a (Cons x p) h1"
  have len: "a < length (cells h1)" using o by (intro cell_nonfree_length) simp
  have i: "rc_inv {} (R + ref (Some a) + refs [d]) ?h"
    by (rule rc_inv_set_obj [OF h1(2)]) (simp_all add: o ac_simps)
  have fr: "obj (cell ?h b) = obj (cell h b)" if "b \<noteq> a" for b
    using that h1(3) by (simp add: set_obj_cell [OF len] locks_def)
  obtain h2 h3 where h23: "unlock_all UNLOCK [d] ?h = Inr h2" "LOCK (Some a) h2 = Inr h3"
      "rc_inv {} (R + ref (Some a) + ref (Some a)) h3" "updated h h3 a (obj (cell ?h a))"
    by (rule update_tail [OF i fr])
  show ?thesis using that [of h3] h1 h23 o q
    by (simp add: rplacd_def CONSP_cell carof_def cdrof_def objof_def set_obj_cell [OF len])
qed

lemma displace_ok:
  assumes inv: "rc_inv {} (R + ref (Some a)) h" and q: "obj (cell h a) = Cons x d"
    and p: "obj (cell h b) = Cons y e"
  obtains h' where "displace (Some a) (Some b) h = Inr (Some a, h')"
    "rc_inv {} (R + ref (Some a) + ref (Some a)) h'" "updated h h' a (Cons y e)"
proof -
  have ca: "carof h (Some b) = y" "cdrof h (Some b) = e" using p by (simp_all add: carof_def cdrof_def objof_def)
  obtain h1 where h1: "LOCK y h = Inr h1" "rc_inv {} (R + ref (Some a) + ref y) h1" "locks h h1"
    by (rule LOCK_ok [OF inv]) (use alive_carof [OF inv, of "Some b"] ca in auto)
  obtain h2 where h2: "LOCK e h1 = Inr h2" "rc_inv {} (R + ref (Some a) + ref y + ref e) h2" "locks h1 h2"
    by (rule LOCK_ok [OF h1(2)])
      (use alive_cdrof [OF h1(2), of "Some b"] ca locks_reads [OF h1(3)] in auto)
  have l: "locks h h2" by (rule locks_trans [OF h1(3) h2(3)])
  have o: "obj (cell h2 a) = Cons x d" "obj (cell h2 b) = Cons y e" using l q p by (simp_all add: locks_def)
  have len: "a < length (cells h2)" using o by (intro cell_nonfree_length) simp
  let ?h3 = "set_obj a (Cons y d) h2"
  let ?h = "set_obj a (Cons y e) ?h3"
  have len3: "a < length (cells ?h3)" using len by simp
  have i3: "rc_inv {} (R + ref (Some a) + ref x + ref e) ?h3"
    by (rule rc_inv_set_obj [OF h2(2)]) (simp_all add: o ac_simps)
  have i: "rc_inv {} (R + ref (Some a) + refs [x, d]) ?h"
    by (rule rc_inv_set_obj [OF i3]) (simp_all add: set_obj_cell [OF len] ac_simps)
  have fr: "obj (cell ?h c) = obj (cell h c)" if "c \<noteq> a" for c
    using that l by (simp add: set_obj_cell [OF len3] set_obj_cell [OF len] locks_def)
  obtain h4 h5 where h45: "unlock_all UNLOCK [x, d] ?h = Inr h4" "LOCK (Some a) h4 = Inr h5"
      "rc_inv {} (R + ref (Some a) + ref (Some a)) h5" "updated h h5 a (obj (cell ?h a))"
    by (rule update_tail [OF i fr])
  have cp: "carof h2 (Some b) = y" "cdrof ?h3 (Some b) = e" "cdrof h2 (Some a) = d" "carof ?h3 (Some a) = y"
    using o by (auto simp: carof_def cdrof_def objof_def set_obj_cell [OF len])
  have lk: "cdrof h1 (Some b) = e" using ca locks_reads [OF h1(3)] by simp
  obtain h6 where h6: "UNLOCK x ?h = Inr h6" "UNLOCK d h6 = Inr h4"
    using h45(1) by (cases "UNLOCK x ?h") auto
  show ?thesis using that [of h5] h1 h2 h45 q p ca cp lk h6
    by (simp add: displace_def CONSP_cell carof_def cdrof_def objof_def set_obj_cell [OF len3])
qed

end
