(* ===== verification/Chase.thy ===== *)
theory Chase
  imports Prelude
begin

text \<open>
  The cycle detection every list loop of \<open>src/src/at.c\<close> uses: a fast pointer follows the links and
  a slow one follows it at half the speed; when they meet the list is circular. The locale is the
  interface between such a loop and the structure it walks on: a test \<open>isc\<close> that says whether a
  node has a successor, the successor \<open>nx\<close>, and a bound on the number of nodes with one.
\<close>

definition ends :: "('a \<Rightarrow> bool) \<Rightarrow> ('a \<Rightarrow> 'a) \<Rightarrow> 'a \<Rightarrow> nat \<Rightarrow> bool" where
  "ends isc nx p n \<longleftrightarrow> (\<forall>i < n. isc ((nx ^^ i) p)) \<and> \<not> isc ((nx ^^ n) p)"

definition circular :: "('a \<Rightarrow> bool) \<Rightarrow> ('a \<Rightarrow> 'a) \<Rightarrow> 'a \<Rightarrow> bool" where
  "circular isc nx p \<longleftrightarrow> (\<forall>i. isc ((nx ^^ i) p))"

text \<open>
  The fast pointer after \<open>k\<close> steps, and the slow one beside it in the loops that move it at the
  first step (\<open>slow\<close>) and at the second one (\<open>slow1\<close>).
\<close>

definition fast :: "('a \<Rightarrow> 'a) \<Rightarrow> 'a \<Rightarrow> nat \<Rightarrow> 'a" where
  "fast nx p k = (nx ^^ k) p"

definition slow :: "('a \<Rightarrow> 'a) \<Rightarrow> 'a \<Rightarrow> nat \<Rightarrow> 'a" where
  "slow nx p k = (nx ^^ ((k + 1) div 2)) p"

definition slow1 :: "('a \<Rightarrow> 'a) \<Rightarrow> 'a \<Rightarrow> nat \<Rightarrow> 'a" where
  "slow1 nx p k = (nx ^^ (k div 2)) p"

lemma fast_simps [simp]: "fast nx p 0 = p" "fast nx p (Suc k) = nx (fast nx p k)"
  by (simp_all add: fast_def)

lemma slow_simps [simp]: "slow nx p 0 = p"
    "slow nx p (Suc k) = (if even k then nx (slow nx p k) else slow nx p k)"
  by (auto simp: slow_def elim!: evenE oddE)

lemma slow1_simps [simp]: "slow1 nx p 0 = p"
    "slow1 nx p (Suc k) = (if odd k then nx (slow1 nx p k) else slow1 nx p k)"
  by (auto simp: slow1_def elim!: evenE oddE)

locale chase =
  fixes isc :: "'a \<Rightarrow> bool" and nx :: "'a \<Rightarrow> 'a" and bound :: nat
  assumes finite_isc: "finite {x. isc x}"
    and card_isc: "card {x. isc x} \<le> bound"

context chase
begin

lemma ends_or_circular: "(\<exists>n. ends isc nx p n) \<or> circular isc nx p"
proof (cases "circular isc nx p")
  case False
  then obtain i where i: "\<not> isc ((nx ^^ i) p)" by (auto simp: circular_def)
  define n where "n = (LEAST i. \<not> isc ((nx ^^ i) p))"
  have "\<not> isc ((nx ^^ n) p)" unfolding n_def by (rule LeastI [of "\<lambda>i. \<not> isc ((nx ^^ i) p)", OF i])
  moreover have "isc ((nx ^^ i) p)" if "i < n" for i
    using not_less_Least [of i "\<lambda>i. \<not> isc ((nx ^^ i) p)"] that by (simp add: n_def)
  ultimately show ?thesis unfolding ends_def by blast
qed simp

lemma ends_not_circular: "ends isc nx p n \<Longrightarrow> \<not> circular isc nx p"
  by (auto simp: ends_def circular_def)

lemma shift: "(nx ^^ i) p = (nx ^^ j) p \<Longrightarrow> (nx ^^ (i + m)) p = (nx ^^ (j + m)) p"
  by (simp add: funpow_add add.commute [of _ m])

text \<open>On a list that ends the two pointers never meet.\<close>

lemma ends_distinct:
  assumes e: "ends isc nx p n" and ij: "j < i" "i \<le> n"
  shows "(nx ^^ i) p \<noteq> (nx ^^ j) p"
proof
  assume "(nx ^^ i) p = (nx ^^ j) p"
  from shift [OF this, of "n - i"] ij have eq: "(nx ^^ n) p = (nx ^^ (j + (n - i))) p" by simp
  have "j + (n - i) < n" using ij by simp
  then show False using e eq by (metis ends_def)
qed

lemma ends_bound: "ends isc nx p n \<Longrightarrow> n \<le> bound"
proof -
  assume e: "ends isc nx p n"
  have inj: "inj_on (\<lambda>i. (nx ^^ i) p) {..<n}"
    unfolding inj_on_def using ends_distinct [OF e]
    by (metis lessThan_iff nat_neq_iff order_less_imp_le)
  have "n = card ((\<lambda>i. (nx ^^ i) p) ` {..<n})" using card_image [OF inj] by simp
  also have "\<dots> \<le> card {x. isc x}"
    by (rule card_mono [OF finite_isc]) (use e in \<open>auto simp: ends_def\<close>)
  finally show ?thesis using card_isc by simp
qed

text \<open>On a circular list they meet within as many steps of the slow pointer as there are nodes.\<close>

lemma circular_meet:
  assumes c: "circular isc nx p"
  obtains k where "0 < k" "k \<le> bound" "(nx ^^ (2 * k)) p = (nx ^^ k) p"
    "(nx ^^ (2 * k - 1)) p = (nx ^^ (k - 1)) p"
proof -
  let ?f = "\<lambda>i. (nx ^^ i) p"
  have "card (?f ` {..bound}) \<le> card {x. isc x}"
    by (rule card_mono [OF finite_isc]) (use c in \<open>auto simp: circular_def\<close>)
  then have "card (?f ` {..bound}) < card {..bound}" using card_isc by simp
  then have "\<not> inj_on ?f {..bound}" by (rule pigeonhole)
  then obtain i j where ij: "i < j" "j \<le> bound" "?f i = ?f j"
    unfolding inj_on_def by (metis atMost_iff nat_neq_iff)
  define l where "l = j - i"
  have l: "0 < l" "i + l = j" using ij by (auto simp: l_def)
  have period: "?f (m + l) = ?f m" if "i \<le> m" for m
  proof -
    have "i + (m - i) = m" "j + (m - i) = m + l" using that l by simp_all
    then show ?thesis using shift [OF ij(3), of "m - i"] by metis
  qed
  have periods: "?f (m + t * l) = ?f m" if "i \<le> m" for m t
  proof (induction t)
    case (Suc t)
    have "?f (m + Suc t * l) = ?f ((m + t * l) + l)" by (simp add: ac_simps)
    also have "\<dots> = ?f (m + t * l)" by (rule period) (use that in simp)
    finally show ?case using Suc by simp
  qed simp
  define t where "t = i div l + 1"
  have t1: "i < t * l"
  proof -
    have "i div l * l + i mod l = i" by (rule div_mult_mod_eq)
    moreover have "i mod l < l" by (rule mod_less_divisor [OF l(1)])
    moreover have "t * l = i div l * l + l" by (simp add: t_def)
    ultimately show ?thesis by linarith
  qed
  have t2: "t * l \<le> i + l" using div_times_less_eq_dividend [of i l] by (simp add: t_def)
  show ?thesis
  proof (rule that [of "t * l"])
    show "0 < t * l" using l by (simp add: t_def)
    show "t * l \<le> bound" using t2 l ij by simp
    show "?f (2 * (t * l)) = ?f (t * l)" using periods [of "t * l" t] t1 by (simp add: mult_2)
    have "2 * (t * l) - 1 = (t * l - 1) + t * l" using t1 by simp
    then show "?f (2 * (t * l) - 1) = ?f (t * l - 1)" using periods [of "t * l - 1" t] t1 by simp
  qed
qed

text \<open>
  What a loop needs: its two pointers differ at every step of a list that ends, and meet at some
  step of a circular one.
\<close>

lemma ends_apart: "ends isc nx p n \<Longrightarrow> k < n \<Longrightarrow> nx (fast nx p k) \<noteq> slow nx p k"
  using ends_distinct [of p n "(k + 1) div 2" "Suc k"] by (simp add: fast_def slow_def)

lemma ends_apart1: "ends isc nx p n \<Longrightarrow> k < n \<Longrightarrow> nx (fast nx p k) \<noteq> slow1 nx p k"
  using ends_distinct [of p n "k div 2" "Suc k"] by (simp add: fast_def slow1_def)

lemma ends_isc: "ends isc nx p n \<Longrightarrow> k \<le> n \<Longrightarrow> isc (fast nx p k) \<longleftrightarrow> k < n"
  by (cases "k = n") (auto simp: ends_def fast_def)

lemma circular_isc: "circular isc nx p \<Longrightarrow> isc (fast nx p k)"
  by (simp add: circular_def fast_def)

lemma circular_slow:
  assumes "circular isc nx p"
  obtains m where "m < 2 * bound" "nx (fast nx p m) = slow nx p m"
proof -
  obtain k where k: "0 < k" "k \<le> bound" "(nx ^^ (2 * k)) p = (nx ^^ k) p"
    using circular_meet [OF assms] by metis
  have e: "Suc (2 * k - 1) = 2 * k" using k by simp
  have "nx (fast nx p (2 * k - 1)) = (nx ^^ Suc (2 * k - 1)) p" by (simp add: fast_def)
  then have "nx (fast nx p (2 * k - 1)) = slow nx p (2 * k - 1)" using k e by (simp add: slow_def)
  moreover have "2 * k - 1 < 2 * bound" using k by simp
  ultimately show ?thesis using that by blast
qed

lemma circular_slow1:
  assumes "circular isc nx p"
  obtains m where "m < 2 * bound" "nx (fast nx p m) = slow1 nx p m"
proof -
  obtain k where k: "0 < k" "k \<le> bound" "(nx ^^ (2 * k - 1)) p = (nx ^^ (k - 1)) p"
    using circular_meet [OF assms] by metis
  have e: "Suc (2 * k - 2) = 2 * k - 1" "(2 * k - 2) div 2 = k - 1" using k by simp_all
  have "nx (fast nx p (2 * k - 2)) = (nx ^^ Suc (2 * k - 2)) p" by (simp add: fast_def)
  then have "nx (fast nx p (2 * k - 2)) = slow1 nx p (2 * k - 2)" using k e by (simp add: slow1_def)
  moreover have "2 * k - 2 < 2 * bound" using k by simp
  ultimately show ?thesis using that by blast
qed

end

end
