(* ===== verification/Lists.thy ===== *)
theory Lists
  imports Cells Chase
begin

text \<open>
  The list operations of \<open>src/src/at.c\<close> on the cell heap: \<open>length\<close>, \<open>last\<close>, \<open>lastcdr\<close>, \<open>append\<close>,
  \<open>nfirst\<close>, \<open>nth\<close>, \<open>nthcdr\<close> and \<open>reverse\<close>. Each loop is a recursion whose state is the C local
  variables: the fast pointer, the slow pointer \<open>q\<close> and the toggle that moves it at every other
  step. Their bound is twice the number of cells: the two pointers of a circular list meet by then
  (theory \<open>Chase\<close>), and the lemmas show that no call runs out of it.
\<close>

section \<open>The operations\<close>

definition chase_fuel :: "lheap \<Rightarrow> nat" where
  "chase_fuel h = 2 * length (cells h) + 2"

fun length_loop :: "nat \<Rightarrow> lheap \<Rightarrow> ptr \<Rightarrow> ptr \<Rightarrow> int \<Rightarrow> int res" where
  "length_loop 0 h p q i = Inl NoFuel"
| "length_loop (Suc n) h p q i =
     (if CONSP h p
      then let i = i + 1; p = cdrof h p in
        if p = q then Inr (- 1)
        else length_loop n h p (if odd i then cdrof h q else q) i
      else Inr i)"

definition length_at :: "ptr \<Rightarrow> lheap \<Rightarrow> int res" where
  "length_at p h = length_loop (chase_fuel h) h p p 0"

text \<open>\<open>last\<close> and \<open>lastcdr\<close> differ in the first value of the toggle.\<close>

fun last_loop :: "nat \<Rightarrow> lheap \<Rightarrow> ptr \<Rightarrow> ptr \<Rightarrow> bool \<Rightarrow> ptr res" where
  "last_loop 0 h l q toggle = Inl NoFuel"
| "last_loop (Suc n) h l q toggle =
     (if CONSP h (cdrof h l)
      then let l = cdrof h l in
        if l = q then Inl (Lush ''circular list has no last element'')
        else let toggle = (\<not> toggle) in
          last_loop n h l (if toggle then cdrof h q else q) toggle
      else Inr l)"

definition last_at :: "ptr \<Rightarrow> lheap \<Rightarrow> (ptr \<times> lheap) res" where
  "last_at l h = (if CONSP h l
     then res_bind (last_loop (chase_fuel h) h l l True) (\<lambda>l.
       return_locked (if cdrof h l \<noteq> None then cdrof h l else carof h l) h)
     else Inr (None, h))"

definition lastcdr :: "ptr \<Rightarrow> lheap \<Rightarrow> (ptr \<times> lheap) res" where
  "lastcdr l h = (if CONSP h l
     then res_bind (last_loop (chase_fuel h) h l l False) (\<lambda>l. return_locked l h)
     else Inr (None, h))"

text \<open>
  The operations that build a list from front to back hold the place of the next cell in a
  variable \<open>where\<close>: the variable \<open>answer\<close> itself, or the \<open>Cdr\<close> field of the last cell built.
\<close>

datatype slot = Answer | CdrOf nat

definition store :: "slot \<Rightarrow> ptr \<Rightarrow> ptr \<times> lheap \<Rightarrow> ptr \<times> lheap" where
  "store w v s = (case w of
       Answer \<Rightarrow> (v, snd s)
     | CdrOf a \<Rightarrow> (fst s, set_obj a (Cons (carof (snd s) (Some a)) v) (snd s)))"

text \<open>\<open>*where = new_cons(x, NIL); where = &((*where)->Cdr)\<close>\<close>

definition tail_add :: "ptr \<Rightarrow> slot \<Rightarrow> ptr \<times> lheap \<Rightarrow> (slot \<times> ptr \<times> lheap) res" where
  "tail_add x w s = res_bind (new_cons x None (snd s)) (\<lambda>(p, h).
     Inr (CdrOf (the p), store w p (fst s, h)))"

fun append_loop :: "nat \<Rightarrow> ptr \<Rightarrow> ptr \<Rightarrow> bool \<Rightarrow> slot \<Rightarrow> ptr \<times> lheap \<Rightarrow> (slot \<times> ptr \<times> lheap) res" where
  "append_loop 0 l1 q toggle w s = Inl NoFuel"
| "append_loop (Suc n) l1 q toggle w s =
     (if CONSP (snd s) l1
      then res_bind (tail_add (carof (snd s) l1) w s) (\<lambda>(w, s).
        let l1 = cdrof (snd s) l1 in
        if l1 = q then Inl (Lush ''Cannot append after a circular list'')
        else let toggle = (\<not> toggle) in
          append_loop n l1 (if toggle then cdrof (snd s) q else q) toggle w s)
      else Inr (w, s))"

definition append_at :: "ptr \<Rightarrow> ptr \<Rightarrow> lheap \<Rightarrow> (ptr \<times> lheap) res" where
  "append_at l1 l2 h = res_bind (append_loop (chase_fuel h) l1 l1 False Answer (None, h)) (\<lambda>(w, s).
     res_bind (LOCK l2 (snd s)) (\<lambda>h. Inr (store w l2 (fst s, h))))"

fun nfirst_loop :: "nat \<Rightarrow> int \<Rightarrow> ptr \<Rightarrow> slot \<Rightarrow> ptr \<times> lheap \<Rightarrow> (int \<times> ptr \<times> slot \<times> ptr \<times> lheap) res" where
  "nfirst_loop 0 n l w s = Inl NoFuel"
| "nfirst_loop (Suc k) n l w s =
     (if CONSP (snd s) l
      then if n > 0
        then res_bind (tail_add (carof (snd s) l) w s) (\<lambda>(w, s).
          nfirst_loop k (n - 1) (cdrof (snd s) l) w s)
        else Inr (n - 1, l, w, s)
      else Inr (n, l, w, s))"

definition nfirst :: "int \<Rightarrow> ptr \<Rightarrow> lheap \<Rightarrow> (ptr \<times> lheap) res" where
  "nfirst n l h = res_bind (nfirst_loop (Suc (nat n)) n l Answer (None, h)) (\<lambda>(n, l, w, s).
     if l \<noteq> None \<and> n > 0
     then res_bind (LOCK l (snd s)) (\<lambda>h. Inr (store w l (fst s, h)))
     else Inr s)"

text \<open>The loop of \<open>nth\<close> and \<open>nthcdr\<close>: skip \<open>n\<close> cells, or stop where the list ends.\<close>

function skip :: "lheap \<Rightarrow> ptr \<Rightarrow> int \<Rightarrow> ptr \<times> int" where
  "skip h l n = (if n > 0 \<and> CONSP h l then skip h (cdrof h l) (n - 1) else (l, n))"
  by pat_completeness auto
termination
  by (relation "measure (\<lambda>(h, l, n). nat n)") auto

definition nth_at :: "ptr \<Rightarrow> int \<Rightarrow> lheap \<Rightarrow> (ptr \<times> lheap) res" where
  "nth_at l n h = (let (l, n) = skip h l n in
     if n = 0 \<and> CONSP h l then return_locked (carof h l) h else Inr (None, h))"

definition nthcdr :: "ptr \<Rightarrow> int \<Rightarrow> lheap \<Rightarrow> (ptr \<times> lheap) res" where
  "nthcdr l n h = (let (l, n) = skip h l n in
     if n = 0 \<and> CONSP h l then return_locked l h else Inr (None, h))"

fun reverse_loop :: "nat \<Rightarrow> ptr \<Rightarrow> ptr \<Rightarrow> bool \<Rightarrow> ptr \<Rightarrow> lheap \<Rightarrow> (ptr \<times> lheap) res" where
  "reverse_loop 0 l q toggle r h = Inl NoFuel"
| "reverse_loop (Suc n) l q toggle r h =
     (if CONSP h l
      then res_bind (LOCK (carof h l) h) (\<lambda>h.
           res_bind (cons (carof h l) r h) (\<lambda>(r, h).
           let l = cdrof h l in
           if l = q then Inl (Lush ''Cannot reverse a circular list'')
           else let toggle = (\<not> toggle) in
             reverse_loop n l (if toggle then cdrof h q else q) toggle r h))
      else Inr (r, h))"

definition reverse_at :: "ptr \<Rightarrow> lheap \<Rightarrow> (ptr \<times> lheap) res" where
  "reverse_at l h = reverse_loop (chase_fuel h) l l False None h"

section \<open>Lists in the heap\<close>

text \<open>\<open>lseg h p xs t\<close>: from \<open>p\<close> a chain of conses with the cars \<open>xs\<close> leads to \<open>t\<close>.\<close>

primrec lseg :: "lheap \<Rightarrow> ptr \<Rightarrow> ptr list \<Rightarrow> ptr \<Rightarrow> bool" where
  "lseg h p [] t \<longleftrightarrow> p = t"
| "lseg h p (x # xs) t \<longleftrightarrow> CONSP h p \<and> carof h p = x \<and> lseg h (cdrof h p) xs t"

lemma finite_cons: "finite {p. CONSP h p}" and card_cons: "card {p. CONSP h p} \<le> length (cells h)"
proof -
  have sub: "{p. CONSP h p} \<subseteq> Some ` {..<length (cells h)}"
    by (auto simp: CONSP_cell intro!: image_eqI [of _ Some] cell_nonfree_length)
  show "finite {p. CONSP h p}" by (rule finite_subset [OF sub]) simp
  have "card {p. CONSP h p} \<le> card (Some ` {..<length (cells h)})" by (rule card_mono [OF _ sub]) simp
  also have "\<dots> \<le> length (cells h)" using card_image_le [of "{..<length (cells h)}" Some] by simp
  finally show "card {p. CONSP h p} \<le> length (cells h)" .
qed

interpretation cell: chase "CONSP h" "cdrof h" "length (cells h)" for h
  by unfold_locales (rule finite_cons, rule card_cons)

text \<open>A circular list: every number of \<open>Cdr\<close> steps leads to a cons.\<close>

definition circular_list :: "lheap \<Rightarrow> ptr \<Rightarrow> bool" where
  "circular_list h p \<longleftrightarrow> circular (CONSP h) (cdrof h) p"

lemma lseg_append: "lseg h p (xs @ ys) t \<longleftrightarrow> (\<exists>m. lseg h p xs m \<and> lseg h m ys t)"
  by (induction xs arbitrary: p) auto

lemma lseg_funpow: "lseg h p xs t \<Longrightarrow> (cdrof h ^^ length xs) p = t"
  by (induction xs arbitrary: p) (auto simp: funpow_swap1)

lemma lseg_nth: "lseg h p xs t \<Longrightarrow> i < length xs \<Longrightarrow>
    CONSP h ((cdrof h ^^ i) p) \<and> carof h ((cdrof h ^^ i) p) = xs ! i"
  by (induction xs arbitrary: p i) (auto simp: nth_Cons funpow_swap1 split: nat.splits)

lemma lseg_ends: "lseg h p xs t \<Longrightarrow> \<not> CONSP h t \<Longrightarrow> ends (CONSP h) (cdrof h) p (length xs)"
  using lseg_nth lseg_funpow by (fastforce simp: ends_def)

lemma ends_lseg: "ends (CONSP h) (cdrof h) p n \<Longrightarrow>
    lseg h p (map (\<lambda>i. carof h ((cdrof h ^^ i) p)) [0..<n]) ((cdrof h ^^ n) p)"
proof (induction n arbitrary: p)
  case (Suc n)
  have "ends (CONSP h) (cdrof h) (cdrof h p) n"
    using Suc.prems unfolding ends_def by (auto simp: funpow_swap1 dest: spec [of _ "Suc i" for i])
  from Suc.IH [OF this] Suc.prems show ?case
    by (auto simp: ends_def funpow_swap1 map_upt_Suc simp del: upt_Suc dest: spec [of _ 0])
qed simp

text \<open>Every pointer starts a list that ends or a circular one, and not both.\<close>

lemma list_or_circular: "(\<exists>xs t. lseg h p xs t \<and> \<not> CONSP h t) \<or> circular_list h p"
  using cell.ends_or_circular [of h p] ends_lseg [of h p] by (auto simp: circular_list_def ends_def)

lemma lseg_not_circular: "lseg h p xs t \<Longrightarrow> \<not> CONSP h t \<Longrightarrow> \<not> circular_list h p"
  using cell.ends_not_circular [OF lseg_ends] by (simp add: circular_list_def)

section \<open>\<open>length\<close>\<close>

lemma length_loop_ends:
  assumes e: "ends (CONSP h) (cdrof h) p N"
  shows "k \<le> N \<Longrightarrow> N - k < fuel \<Longrightarrow>
    length_loop fuel h (fast (cdrof h) p k) (slow (cdrof h) p k) (int k) = Inr (int N)"
proof (induction fuel arbitrary: k)
  case (Suc fuel)
  show ?case
  proof (cases "k = N")
    case True
    then show ?thesis using cell.ends_isc [OF e, of k] by simp
  next
    case False
    then have k: "k < N" using Suc.prems by simp
    then show ?thesis
      using cell.ends_isc [OF e, of k] cell.ends_apart [OF e k] Suc.IH [of "Suc k"] Suc.prems(2)
      by (simp add: add.commute)
  qed
qed simp

lemma length_loop_circular:
  assumes c: "circular (CONSP h) (cdrof h) p" and m: "cdrof h (fast (cdrof h) p m) = slow (cdrof h) p m"
  shows "k \<le> m \<Longrightarrow> m - k < fuel \<Longrightarrow>
    length_loop fuel h (fast (cdrof h) p k) (slow (cdrof h) p k) (int k) = Inr (- 1)"
proof (induction fuel arbitrary: k)
  case (Suc fuel)
  show ?case
  proof (cases "cdrof h (fast (cdrof h) p k) = slow (cdrof h) p k")
    case True
    then show ?thesis using cell.circular_isc [OF c, of k] by simp
  next
    case False
    then have "k \<noteq> m" using m by auto
    then show ?thesis using cell.circular_isc [OF c, of k] False Suc.IH [of "Suc k"] Suc.prems
      by (simp add: add.commute)
  qed
qed simp

lemma length_at_ends:
  assumes "lseg h p xs t" "\<not> CONSP h t"
  shows "length_at p h = Inr (int (length xs))"
  using length_loop_ends [OF lseg_ends [OF assms], of 0 "chase_fuel h"] cell.ends_bound [OF lseg_ends [OF assms]]
  by (simp add: length_at_def chase_fuel_def)

lemma length_at_circular:
  assumes "circular_list h p"
  shows "length_at p h = Inr (- 1)"
proof -
  note c = assms [unfolded circular_list_def]
  obtain m where m: "m < 2 * length (cells h)" "cdrof h (fast (cdrof h) p m) = slow (cdrof h) p m"
    by (rule cell.circular_slow [OF c])
  show ?thesis using length_loop_circular [OF c m(2), of 0 "chase_fuel h"] m(1)
    by (simp add: length_at_def chase_fuel_def)
qed

section \<open>\<open>last\<close> and \<open>lastcdr\<close>\<close>

text \<open>The slow pointer of a loop whose toggle starts with \<open>b\<close>.\<close>

definition slow_of :: "bool \<Rightarrow> lheap \<Rightarrow> ptr \<Rightarrow> nat \<Rightarrow> ptr" where
  "slow_of b h p k = (if b then slow1 (cdrof h) p k else slow (cdrof h) p k)"

lemma slow_of_simps [simp]: "slow_of b h p 0 = p"
    "slow_of b h p (Suc k) = (if b = even k then slow_of b h p k else cdrof h (slow_of b h p k))"
  by (auto simp: slow_of_def)

lemma ends_slow_of: "ends (CONSP h) (cdrof h) p n \<Longrightarrow> k < n \<Longrightarrow> cdrof h (fast (cdrof h) p k) \<noteq> slow_of b h p k"
  by (simp add: slow_of_def cell.ends_apart cell.ends_apart1)

lemma circular_slow_of:
  assumes "circular (CONSP h) (cdrof h) p"
  obtains m where "m < 2 * length (cells h)" "cdrof h (fast (cdrof h) p m) = slow_of b h p m"
proof (cases b)
  case True
  then show ?thesis using cell.circular_slow1 [OF assms] that by (auto simp: slow_of_def)
next
  case False
  then show ?thesis using cell.circular_slow [OF assms] that by (auto simp: slow_of_def)
qed

lemma last_loop_ends:
  assumes e: "ends (CONSP h) (cdrof h) p N"
  shows "k < N \<Longrightarrow> N - k \<le> fuel \<Longrightarrow>
    last_loop fuel h (fast (cdrof h) p k) (slow_of b h p k) (b = even k) = Inr (fast (cdrof h) p (N - 1))"
proof (induction fuel arbitrary: k)
  case (Suc fuel)
  have c: "CONSP h (cdrof h (fast (cdrof h) p k)) \<longleftrightarrow> Suc k < N"
    using cell.ends_isc [OF e, of "Suc k"] Suc.prems by simp
  show ?case
  proof (cases "Suc k < N")
    case True
    then show ?thesis using c ends_slow_of [OF e Suc.prems(1), of b] Suc.IH [of "Suc k"] Suc.prems
      by (cases b; cases "even k") (simp_all add: Let_def)
  next
    case False
    then have "k = N - 1" using Suc.prems by simp
    then show ?thesis using c False by simp
  qed
qed simp

lemma last_loop_circular:
  assumes c: "circular (CONSP h) (cdrof h) p" and m: "cdrof h (fast (cdrof h) p m) = slow_of b h p m"
  shows "k \<le> m \<Longrightarrow> m - k < fuel \<Longrightarrow>
    last_loop fuel h (fast (cdrof h) p k) (slow_of b h p k) (b = even k) =
      Inl (Lush ''circular list has no last element'')"
proof (induction fuel arbitrary: k)
  case (Suc fuel)
  have i: "CONSP h (cdrof h (fast (cdrof h) p k))" using cell.circular_isc [OF c, of "Suc k"] by simp
  show ?case
  proof (cases "cdrof h (fast (cdrof h) p k) = slow_of b h p k")
    case False
    then have "k \<noteq> m" using m by auto
    then show ?thesis using i False Suc.IH [of "Suc k"] Suc.prems
      by (cases b; cases "even k") (simp_all add: Let_def)
  qed (use i in simp)
qed simp

lemma last_loop_list:
  assumes l: "lseg h p (xs @ [x]) t" "\<not> CONSP h t"
  shows "last_loop (chase_fuel h) h p p b = Inr ((cdrof h ^^ length xs) p)"
proof -
  note e = lseg_ends [OF l]
  show ?thesis using last_loop_ends [OF e, of 0 "chase_fuel h" b] cell.ends_bound [OF e]
    by (simp add: chase_fuel_def fast_def)
qed

lemma lseg_last:
  assumes "lseg h p (xs @ [x]) t"
  shows "CONSP h ((cdrof h ^^ length xs) p)" "carof h ((cdrof h ^^ length xs) p) = x"
    "cdrof h ((cdrof h ^^ length xs) p) = t"
  using lseg_funpow [of h p xs] assms by (auto simp: lseg_append)

lemma return_locked_ok:
  assumes "rc_inv {} R h" "alive h p"
  obtains h' where "return_locked p h = Inr (p, h')" "rc_inv {} (R + ref p) h'" "locks h h'"
  using LOCK_ok [OF assms] by (metis res_bind_simps(2) return_locked_def)

lemma last_ok:
  assumes inv: "rc_inv {} R h" and l: "lseg h p (xs @ [x]) t" "\<not> CONSP h t"
  obtains h' where "last_at p h = Inr (if t = None then x else t, h')"
    "rc_inv {} (R + ref (if t = None then x else t)) h'" "locks h h'"
proof -
  let ?q = "(cdrof h ^^ length xs) p"
  have "alive h (if t = None then x else t)"
    using alive_carof [OF inv, of ?q] alive_cdrof [OF inv, of ?q] lseg_last [OF l(1)] by simp
  then obtain h' where "return_locked (if t = None then x else t) h = Inr (if t = None then x else t, h')"
      "rc_inv {} (R + ref (if t = None then x else t)) h'" "locks h h'"
    by (rule return_locked_ok [OF inv])
  moreover have "CONSP h p" using l(1) by (cases xs) auto
  ultimately show ?thesis using that last_loop_list [OF l, of True] lseg_last [OF l(1)]
    by (auto simp: last_at_def split: if_splits)
qed

lemma alive_CONSP: "rc_inv {} R h \<Longrightarrow> CONSP h p \<Longrightarrow> alive h p"
  by (auto simp: CONSP_cell alive_obj)

lemma lastcdr_ok:
  assumes inv: "rc_inv {} R h" and l: "lseg h p (xs @ [x]) t" "\<not> CONSP h t"
  obtains q h' where "lastcdr p h = Inr (q, h')" "lseg h p xs q" "lseg h q [x] t"
    "rc_inv {} (R + ref q) h'" "locks h h'"
proof -
  let ?q = "(cdrof h ^^ length xs) p"
  obtain m where m: "lseg h p xs m" "lseg h m [x] t" using l(1) by (auto simp: lseg_append)
  have q: "m = ?q" using lseg_funpow [OF m(1)] by simp
  obtain h' where "return_locked ?q h = Inr (?q, h')" "rc_inv {} (R + ref ?q) h'" "locks h h'"
    by (rule return_locked_ok [OF inv alive_CONSP [OF inv lseg_last(1) [OF l(1)]]])
  moreover have "CONSP h p" using l(1) by (cases xs) auto
  ultimately show ?thesis using that [of m] last_loop_list [OF l, of False] m q
    by (simp add: lastcdr_def)
qed

lemma last_circular:
  assumes "circular_list h p"
  shows "last_at p h = Inl (Lush ''circular list has no last element'')"
    and "lastcdr p h = Inl (Lush ''circular list has no last element'')"
proof -
  note c = assms [unfolded circular_list_def]
  have L: "last_loop (chase_fuel h) h p p b = Inl (Lush ''circular list has no last element'')" for b
  proof -
    obtain m where m: "m < 2 * length (cells h)" "cdrof h (fast (cdrof h) p m) = slow_of b h p m"
      by (rule circular_slow_of [OF c])
    show ?thesis using last_loop_circular [OF c m(2), of 0 "chase_fuel h"] m(1) by (simp add: chase_fuel_def)
  qed
  have "CONSP h p" using c unfolding circular_def by (metis funpow_0)
  then show "last_at p h = Inl (Lush ''circular list has no last element'')"
    and "lastcdr p h = Inl (Lush ''circular list has no last element'')"
    by (simp_all add: last_at_def lastcdr_def L)
qed

section \<open>\<open>nth\<close> and \<open>nthcdr\<close>\<close>

declare skip.simps [simp del]

lemma skip_in: "lseg h p xs t \<Longrightarrow> n \<le> length xs \<Longrightarrow> skip h p (int n) = ((cdrof h ^^ n) p, 0)"
proof (induction n arbitrary: p xs)
  case (Suc n)
  then obtain x ys where "xs = x # ys" by (cases xs) auto
  then show ?case using Suc.IH [of "cdrof h p" ys] Suc.prems
    by (subst skip.simps) (simp add: funpow_swap1)
qed (simp add: skip.simps)

lemma skip_end: "lseg h p xs t \<Longrightarrow> \<not> CONSP h t \<Longrightarrow> int (length xs) \<le> n \<Longrightarrow> skip h p n = (t, n - int (length xs))"
proof (induction xs arbitrary: p n)
  case Nil
  then show ?case by (simp add: skip.simps)
next
  case (Cons x xs)
  then show ?case using Cons.IH [of "cdrof h p" "n - 1"] by (subst skip.simps) simp
qed

lemma nth_at_ok:
  assumes inv: "rc_inv {} R h" and l: "lseg h p xs t" and n: "n < length xs"
  obtains h' where "nth_at p (int n) h = Inr (xs ! n, h')" "rc_inv {} (R + ref (xs ! n)) h'" "locks h h'"
proof -
  note c = lseg_nth [OF l n]
  obtain h' where "return_locked (xs ! n) h = Inr (xs ! n, h')" "rc_inv {} (R + ref (xs ! n)) h'" "locks h h'"
    by (rule return_locked_ok [OF inv]) (use alive_carof [OF inv, of "(cdrof h ^^ n) p"] c in simp)
  then show ?thesis using that skip_in [OF l, of n] n c by (simp add: nth_at_def)
qed

lemma nthcdr_ok:
  assumes inv: "rc_inv {} R h" and l: "lseg h p (xs @ y # ys) t"
  obtains q h' where "nthcdr p (int (length xs)) h = Inr (q, h')" "lseg h q (y # ys) t"
    "rc_inv {} (R + ref q) h'" "locks h h'"
proof -
  obtain m where m: "lseg h p xs m" "lseg h m (y # ys) t" using l unfolding lseg_append by blast
  have c: "CONSP h m" using m(2) by simp
  have q: "(cdrof h ^^ length xs) p = m" using lseg_funpow [OF m(1)] by simp
  obtain h' where "return_locked m h = Inr (m, h')" "rc_inv {} (R + ref m) h'" "locks h h'"
    by (rule return_locked_ok [OF inv alive_CONSP [OF inv c]])
  then show ?thesis using that [OF _ m(2)] skip_in [OF m(1), of "length xs"] q c by (simp add: nthcdr_def)
qed

lemma nth_at_outside:
  assumes l: "lseg h p xs t" "\<not> CONSP h t" and n: "n < 0 \<or> int (length xs) \<le> n"
  shows "nth_at p n h = Inr (None, h)" "nthcdr p n h = Inr (None, h)"
proof -
  have "\<not> (snd (skip h p n) = 0 \<and> CONSP h (fst (skip h p n)))"
    using n skip_end [OF l, of n] l(2) by (auto simp: skip.simps [of h p n])
  then show "nth_at p n h = Inr (None, h)" "nthcdr p n h = Inr (None, h)"
    by (auto simp: nth_at_def nthcdr_def split: prod.splits)
qed

section \<open>Lists built from front to back\<close>

text \<open>What was there before the construction reads as before.\<close>

lemma extends_reads:
  assumes "rc_inv {} R h0" "alive h0 p" "extends h0 h"
  shows "CONSP h p = CONSP h0 p" "carof h p = carof h0 p" "cdrof h p = cdrof h0 p" "alive h0 (cdrof h0 p)"
proof -
  have "objof h p = objof h0 p"
    using assms alive_obj [OF assms(1)] by (cases p) (auto simp: objof_def extends_def)
  then show "CONSP h p = CONSP h0 p" "carof h p = carof h0 p" "cdrof h p = cdrof h0 p"
    by (simp_all add: CONSP_def carof_def cdrof_def)
  show "alive h0 (cdrof h0 p)" by (rule alive_cdrof [OF assms(1)])
qed

lemma alive_extends: "rc_inv {} R h0 \<Longrightarrow> rc_inv {} R' h \<Longrightarrow> extends h0 h \<Longrightarrow> alive h0 p \<Longrightarrow> alive h p"
  using alive_obj [of R h0] alive_obj [of R' h] by (cases p) (auto simp: extends_def)

lemma alive_fast: "rc_inv {} R h0 \<Longrightarrow> alive h0 p \<Longrightarrow> alive h0 ((cdrof h0 ^^ k) p)"
  by (induction k) (auto simp: alive_cdrof)

lemma alive_slow: "rc_inv {} R h0 \<Longrightarrow> alive h0 p \<Longrightarrow> alive h0 (slow (cdrof h0) p k)"
  by (simp add: slow_def alive_fast)

lemma set_obj_reads:
  assumes "a < length (cells h)"
  shows "p \<noteq> Some a \<Longrightarrow> objof (set_obj a x h) p = objof h p" "objof (set_obj a x h) (Some a) = x"
    "p \<noteq> Some a \<Longrightarrow> CONSP (set_obj a x h) p = CONSP h p"
    "p \<noteq> Some a \<Longrightarrow> carof (set_obj a x h) p = carof h p"
    "p \<noteq> Some a \<Longrightarrow> cdrof (set_obj a x h) p = cdrof h p"
  using assms by (auto simp: objof_def CONSP_def carof_def cdrof_def set_obj_cell split: option.splits)

lemma lseg_frame:
  assumes "a < length (cells h)"
  shows "lseg h p xs t \<Longrightarrow> \<forall>i < length xs. (cdrof h ^^ i) p \<noteq> Some a \<Longrightarrow> lseg (set_obj a x h) p xs t"
proof (induction xs arbitrary: p)
  case (Cons y ys)
  have p: "p \<noteq> Some a" using Cons.prems(2) by (metis funpow_0 length_greater_0_conv list.discI)
  have "\<forall>i < length ys. (cdrof h ^^ i) (cdrof h p) \<noteq> Some a"
    using Cons.prems(2) by (auto simp: funpow_swap1 dest: spec [of _ "Suc i" for i])
  from Cons.IH [OF _ this] show ?case using Cons.prems(1) by (simp add: set_obj_reads [OF assms] p)
qed simp

lemma lseg_extends: "lseg h p xs t \<Longrightarrow> extends h h' \<Longrightarrow> lseg h' p xs t"
proof (induction xs arbitrary: p)
  case (Cons y ys)
  then obtain a d e where "p = Some a" "obj (cell h a) = Cons e d" by (auto simp: CONSP_cell)
  then show ?case using Cons by (auto simp: CONSP_cell carof_def cdrof_def objof_def extends_def)
qed simp

text \<open>
  \<open>built h0 s w ys\<close>: starting from the heap \<open>h0\<close>, the cars \<open>ys\<close> were put in fresh cells so far, and
  \<open>w\<close> is the place of the next cell.
\<close>

definition built :: "lheap \<Rightarrow> ptr \<times> lheap \<Rightarrow> slot \<Rightarrow> ptr list \<Rightarrow> bool" where
  "built h0 s w ys \<longleftrightarrow> extends h0 (snd s) \<and> (case w of
       Answer \<Rightarrow> fst s = None \<and> ys = []
     | CdrOf a \<Rightarrow> \<exists>xs x. ys = xs @ [x] \<and> lseg (snd s) (fst s) xs (Some a) \<and>
         obj (cell (snd s) a) = Cons x None \<and> obj (cell h0 a) = Free)"

lemma store_ok:
  assumes b: "built h0 s w ys" and inv: "rc_inv {} (R + ref (fst s) + ref v) (snd s)"
  shows "lseg (snd (store w v s)) (fst (store w v s)) ys v"
    and "rc_inv {} (R + ref (fst (store w v s))) (snd (store w v s))"
    and "extends h0 (snd (store w v s))" and "avail (snd (store w v s)) = avail (snd s)"
    and "obj (cell h0 n) \<noteq> Free \<or> obj (cell (snd s) n) = Cons x None \<and> w \<noteq> CdrOf n \<Longrightarrow>
      obj (cell (snd (store w v s)) n) = obj (cell (snd s) n)"
proof -
  consider (A) "w = Answer" "fst s = None" "ys = []"
    | (C) a xs x where "w = CdrOf a" "ys = xs @ [x]" "lseg (snd s) (fst s) xs (Some a)"
      "obj (cell (snd s) a) = Cons x None" "obj (cell h0 a) = Free"
    using b by (cases w) (auto simp: built_def)
  then have "lseg (snd (store w v s)) (fst (store w v s)) ys v \<and>
      rc_inv {} (R + ref (fst (store w v s))) (snd (store w v s)) \<and>
      extends h0 (snd (store w v s)) \<and> avail (snd (store w v s)) = avail (snd s) \<and>
      (obj (cell h0 n) \<noteq> Free \<or> obj (cell (snd s) n) = Cons x None \<and> w \<noteq> CdrOf n \<longrightarrow>
       obj (cell (snd (store w v s)) n) = obj (cell (snd s) n))"
  proof cases
    case A
    then show ?thesis using inv b by (simp add: store_def built_def)
  next
    case (C a xs y)
    let ?h = "snd s"
    have len: "a < length (cells ?h)" using C(4) by (intro cell_nonfree_length) simp
    have ca: "carof ?h (Some a) = y" using C(4) by (simp add: carof_def objof_def)
    have "lseg ?h (fst s) (xs @ [y]) None" unfolding lseg_append using C ca
      by (auto simp: CONSP_cell cdrof_def objof_def)
    then have e: "ends (CONSP ?h) (cdrof ?h) (fst s) (Suc (length xs))"
      using lseg_ends by (fastforce simp: CONSP_cell)
    have "\<forall>i < length xs. (cdrof ?h ^^ i) (fst s) \<noteq> Some a"
      using cell.ends_distinct [OF e, of _ "length xs"] lseg_funpow [OF C(3)] by fastforce
    from lseg_frame [OF len C(3) this]
    have f: "lseg (set_obj a (Cons y v) ?h) (fst s) xs (Some a)" .
    have L: "lseg (set_obj a (Cons y v) ?h) (fst s) ys v"
      unfolding C(2) lseg_append
      by (rule exI [of _ "Some a"])
        (simp add: f CONSP_def carof_def cdrof_def set_obj_reads(2) [OF len])
    have "rc_inv {} (R + ref (fst s)) (set_obj a (Cons y v) ?h)"
      by (rule rc_inv_set_obj [OF inv]) (simp_all add: C(4) ac_simps)
    moreover have "extends h0 (set_obj a (Cons y v) ?h)"
      using b C(5) by (auto simp: built_def extends_def set_obj_cell [OF len])
    ultimately show ?thesis using L C ca by (auto simp: store_def set_obj_cell [OF len])
  qed
  then show "lseg (snd (store w v s)) (fst (store w v s)) ys v"
    and "rc_inv {} (R + ref (fst (store w v s))) (snd (store w v s))"
    and "extends h0 (snd (store w v s))" and "avail (snd (store w v s)) = avail (snd s)"
    and "obj (cell h0 n) \<noteq> Free \<or> obj (cell (snd s) n) = Cons x None \<and> w \<noteq> CdrOf n \<Longrightarrow>
      obj (cell (snd (store w v s)) n) = obj (cell (snd s) n)"
    by blast+
qed

text \<open>The state of a list under construction, with the invariant of the heap.\<close>

definition building :: "nat multiset \<Rightarrow> lheap \<Rightarrow> ptr \<times> lheap \<Rightarrow> slot \<Rightarrow> ptr list \<Rightarrow> bool" where
  "building R h0 s w ys \<longleftrightarrow> rc_inv {} R h0 \<and> built h0 s w ys \<and>
     rc_inv {} (R + ref (fst s)) (snd s) \<and> avail (snd s) = avail h0 - length ys"

lemma building_start: "rc_inv {} R h \<Longrightarrow> building R h (None, h) Answer []"
  by (simp add: building_def built_def)

lemma tail_add_ok:
  assumes b: "building R h0 s w ys" and x: "alive h0 x" and av: "length ys < avail h0"
  obtains w' s' where "tail_add x w s = Inr (w', s')" "building R h0 s' w' (ys @ [x])"
proof -
  note inv = b [unfolded building_def]
  have ex: "extends h0 (snd s)" using inv by (simp add: built_def)
  obtain n h' where n: "new_cons x None (snd s) = Inr (Some n, h')"
      "rc_inv {} (add_mset n (R + ref (fst s))) h'" "fresh (snd s) h' n (Cons x None)"
    by (rule new_cons_ok [of "R + ref (fst s)" "snd s" x None])
      (use inv alive_extends [of R h0 _ "snd s"] ex x av in auto)
  have bs: "built h0 (fst s, h') w ys"
  proof -
    have e: "extends (snd s) h'" "extends h0 h'" using n(3) extends_trans [OF ex] by (auto simp: fresh_def)
    have "built h0 s w ys" using inv by simp
    then show ?thesis using e lseg_extends [OF _ e(1)]
      by (cases w) (auto simp: built_def extends_def [of "snd s"])
  qed
  have i: "rc_inv {} (R + ref (fst (fst s, h')) + ref (Some n)) (snd (fst s, h'))"
    using n(2) by simp
  note st = store_ok [OF bs i]
  have wn: "w \<noteq> CdrOf n" using inv n(3) by (auto simp: built_def fresh_def)
  have hn: "obj (cell h0 n) = Free" "obj (cell h' n) = Cons x None"
    using ex n(3) by (auto simp: extends_def fresh_def)
  have on: "obj (cell (snd (store w (Some n) (fst s, h'))) n) = Cons x None"
    using st(5) [of n x] wn hn by simp
  have "built h0 (store w (Some n) (fst s, h')) (CdrOf n) (ys @ [x])"
    unfolding built_def using st(1,3) on hn(1) by auto
  then have "building R h0 (store w (Some n) (fst s, h')) (CdrOf n) (ys @ [x])"
    using st(2,4) inv n(3) by (auto simp: building_def fresh_def)
  then show ?thesis using that n(1) by (simp add: tail_add_def)
qed

lemma building_reads:
  assumes "building R h0 s w ys" "alive h0 p"
  shows "CONSP (snd s) p = CONSP h0 p" "carof (snd s) p = carof h0 p" "cdrof (snd s) p = cdrof h0 p"
  using extends_reads [of R h0 p "snd s"] assms by (simp_all add: building_def built_def)

section \<open>\<open>append\<close>\<close>

lemma append_step:
  assumes b: "building R h0 s w ys" and p: "alive h0 p" "CONSP h0 p" and q: "alive h0 q"
    and av: "length ys < avail h0"
  shows "\<exists>w' s'. building R h0 s' w' (ys @ [carof h0 p]) \<and>
    append_loop (Suc n) p q toggle w s =
      (if cdrof h0 p = q then Inl (Lush ''Cannot append after a circular list'')
       else append_loop n (cdrof h0 p) (if \<not> toggle then cdrof h0 q else q) (\<not> toggle) w' s')"
proof -
  have inv: "rc_inv {} R h0" using b by (simp add: building_def)
  obtain w' s' where ws: "tail_add (carof h0 p) w s = Inr (w', s')" "building R h0 s' w' (ys @ [carof h0 p])"
    by (rule tail_add_ok [OF b alive_carof [OF inv] av])
  show ?thesis
    using ws(2) by (intro exI conjI) (assumption, simp add: append_loop.simps building_reads [OF b] building_reads [OF ws(2)] p q ws(1) Let_def)
qed

text \<open>The cars met in \<open>k\<close> steps.\<close>

definition cars :: "lheap \<Rightarrow> ptr \<Rightarrow> nat \<Rightarrow> ptr list" where
  "cars h p k = map (\<lambda>i. carof h ((cdrof h ^^ i) p)) [0..<k]"

lemma cars_simps [simp]: "cars h p 0 = []" "cars h p (Suc k) = cars h p k @ [carof h (fast (cdrof h) p k)]"
    "length (cars h p k) = k"
  by (simp_all add: cars_def fast_def)

lemma lseg_cars: "lseg h p xs t \<Longrightarrow> cars h p (length xs) = xs"
  by (rule nth_equalityI) (auto simp: cars_def dest: lseg_nth)

declare append_loop.simps(2) [simp del]

lemma append_loop_ends:
  assumes e: "ends (CONSP h0) (cdrof h0) p N" and p: "alive h0 p" and av: "N \<le> avail h0"
  shows "k \<le> N \<Longrightarrow> N - k < fuel \<Longrightarrow> building R h0 s w (cars h0 p k) \<Longrightarrow>
    \<exists>w' s'. append_loop fuel (fast (cdrof h0) p k) (slow (cdrof h0) p k) (odd k) w s = Inr (w', s') \<and>
      building R h0 s' w' (cars h0 p N)"
proof (induction fuel arbitrary: k s w)
  case (Suc fuel)
  note b = Suc.prems(3)
  have inv: "rc_inv {} R h0" using b by (simp add: building_def)
  have al: "alive h0 (fast (cdrof h0) p k)" "alive h0 (slow (cdrof h0) p k)"
    using alive_fast [OF inv p] alive_slow [OF inv p] by (simp_all add: fast_def)
  show ?case
  proof (cases "k = N")
    case True
    then show ?thesis using b building_reads(1) [OF b al(1)] cell.ends_isc [OF e, of k] by (simp add: append_loop.simps)
  next
    case False
    then have k: "k < N" using Suc.prems by simp
    have c: "CONSP h0 (fast (cdrof h0) p k)" "length (cars h0 p k) < avail h0"
      using cell.ends_isc [OF e, of k] k av by simp_all
    from append_step [OF b al(1) c(1) al(2) c(2), of fuel "odd k"]
    obtain w' s' where st: "building R h0 s' w' (cars h0 p (Suc k))"
      "append_loop (Suc fuel) (fast (cdrof h0) p k) (slow (cdrof h0) p k) (odd k) w s =
        append_loop fuel (fast (cdrof h0) p (Suc k)) (slow (cdrof h0) p (Suc k)) (odd (Suc k)) w' s'"
      unfolding cars_simps fast_simps slow_simps using cell.ends_apart [OF e k] by auto
    show ?thesis unfolding st(2) by (rule Suc.IH [OF _ _ st(1)]) (use Suc.prems k in simp_all)
  qed
qed simp

lemma append_loop_circular:
  assumes c: "circular (CONSP h0) (cdrof h0) p" and p: "alive h0 p" and av: "m < avail h0"
    and m: "cdrof h0 (fast (cdrof h0) p m) = slow (cdrof h0) p m"
  shows "k \<le> m \<Longrightarrow> m - k < fuel \<Longrightarrow> building R h0 s w (cars h0 p k) \<Longrightarrow>
    append_loop fuel (fast (cdrof h0) p k) (slow (cdrof h0) p k) (odd k) w s =
      Inl (Lush ''Cannot append after a circular list'')"
proof (induction fuel arbitrary: k s w)
  case (Suc fuel)
  note b = Suc.prems(3)
  have inv: "rc_inv {} R h0" using b by (simp add: building_def)
  have al: "alive h0 (fast (cdrof h0) p k)" "alive h0 (slow (cdrof h0) p k)"
    using alive_fast [OF inv p] alive_slow [OF inv p] by (simp_all add: fast_def)
  have "length (cars h0 p k) < avail h0" using Suc.prems av by simp
  from append_step [OF b al(1) cell.circular_isc [OF c] al(2) this, of fuel "odd k"]
  obtain w' s' where st: "building R h0 s' w' (cars h0 p (Suc k))"
      "append_loop (Suc fuel) (fast (cdrof h0) p k) (slow (cdrof h0) p k) (odd k) w s =
        (if cdrof h0 (fast (cdrof h0) p k) = slow (cdrof h0) p k
         then Inl (Lush ''Cannot append after a circular list'')
         else append_loop fuel (fast (cdrof h0) p (Suc k)) (slow (cdrof h0) p (Suc k)) (odd (Suc k)) w' s')"
    unfolding cars_simps fast_simps slow_simps by auto
  show ?case
  proof (cases "cdrof h0 (fast (cdrof h0) p k) = slow (cdrof h0) p k")
    case False
    then have "k \<noteq> m" using m by auto
    then show ?thesis unfolding st(2) using False Suc.IH [OF _ _ st(1)] Suc.prems by simp
  qed (use st(2) in simp)
qed simp

text \<open>The end of a construction: lock the tail and store it.\<close>

lemma store_end:
  assumes b: "building R h0 s w ys" and v: "alive h0 v"
  obtains h1 where "LOCK v (snd s) = Inr h1"
    "lseg (snd (store w v (fst s, h1))) (fst (store w v (fst s, h1))) ys v"
    "rc_inv {} (R + ref (fst (store w v (fst s, h1)))) (snd (store w v (fst s, h1)))"
    "extends h0 (snd (store w v (fst s, h1)))"
    "avail (snd (store w v (fst s, h1))) = avail h0 - length ys"
proof -
  note inv = b [unfolded building_def]
  have ex: "extends h0 (snd s)" using inv by (simp add: built_def)
  obtain h1 where h1: "LOCK v (snd s) = Inr h1" "rc_inv {} (R + ref (fst s) + ref v) h1" "locks (snd s) h1"
    by (rule LOCK_ok [of "{}" "R + ref (fst s)" "snd s" v])
      (use inv alive_extends [of R h0 _ "snd s"] ex v in auto)
  have e: "extends (snd s) h1" by (rule locks_extends [OF h1(3)])
  have bs: "built h0 (fst s, h1) w ys"
  proof -
    have "built h0 s w ys" using inv by simp
    then show ?thesis using e extends_trans [OF ex e] lseg_extends [OF _ e]
      by (cases w) (auto simp: built_def extends_def [of "snd s"])
  qed
  show ?thesis
    by (rule that [OF h1(1)]) (use store_ok(1-4) [OF bs, of R v] h1(2) inv locks_avail [OF h1(3)] in simp_all)
qed

lemma append_ok:
  assumes inv: "rc_inv {} R h" and l: "lseg h p xs t" "\<not> CONSP h t" and p: "alive h p" and v: "alive h v"
    and av: "length xs \<le> avail h"
  obtains r h' where "append_at p v h = Inr (r, h')" "lseg h' r xs v" "rc_inv {} (R + ref r) h'"
    "extends h h'" "avail h' = avail h - length xs"
proof -
  note e = lseg_ends [OF l]
  obtain w s where ws: "append_loop (chase_fuel h) p p False Answer (None, h) = Inr (w, s)"
      "building R h s w xs"
    using append_loop_ends [OF e p av, of 0 "chase_fuel h" R "(None, h)" Answer] building_start [OF inv]
      cell.ends_bound [OF e] lseg_cars [OF l(1)] by (auto simp: chase_fuel_def)
  obtain h1 where "LOCK v (snd s) = Inr h1"
    "lseg (snd (store w v (fst s, h1))) (fst (store w v (fst s, h1))) xs v"
    "rc_inv {} (R + ref (fst (store w v (fst s, h1)))) (snd (store w v (fst s, h1)))"
    "extends h (snd (store w v (fst s, h1)))"
    "avail (snd (store w v (fst s, h1))) = avail h - length xs"
    by (rule store_end [OF ws(2) v])
  then show ?thesis using that ws(1)
    by (cases "store w v (fst s, h1)") (auto simp: append_at_def split: prod.split)
qed

lemma append_circular:
  assumes inv: "rc_inv {} R h" and c: "circular_list h p" and p: "alive h p"
    and av: "2 * length (cells h) \<le> avail h"
  shows "append_at p v h = Inl (Lush ''Cannot append after a circular list'')"
proof -
  note c' = c [unfolded circular_list_def]
  obtain m where m: "m < 2 * length (cells h)" "cdrof h (fast (cdrof h) p m) = slow (cdrof h) p m"
    by (rule cell.circular_slow [OF c'])
  show ?thesis using append_loop_circular [OF c' p _ m(2), of 0 "chase_fuel h" R "(None, h)" Answer] av m(1)
      building_start [OF inv] by (simp add: append_at_def chase_fuel_def)
qed

section \<open>\<open>nfirst\<close>\<close>

lemma building_done:
  assumes "building R h0 s w ys"
  shows "lseg (snd s) (fst s) ys None" "rc_inv {} (R + ref (fst s)) (snd s)" "extends h0 (snd s)"
    "avail (snd s) = avail h0 - length ys"
proof -
  note inv = assms [unfolded building_def built_def]
  show "lseg (snd s) (fst s) ys None"
    using inv by (cases w) (auto simp: lseg_append CONSP_cell carof_def cdrof_def objof_def
        intro!: exI [of _ "Some a" for a])
qed (use assms in \<open>simp_all add: building_def built_def\<close>)

lemma nfirst_loop_ok:
  assumes p: "alive h0 p" and av: "length zs + min (length ys) (nat n) \<le> avail h0"
  shows "lseg h0 p ys t \<Longrightarrow> \<not> CONSP h0 t \<or> n < int (length ys) \<Longrightarrow> nat n < fuel \<Longrightarrow>
    building R h0 s w zs \<Longrightarrow>
    \<exists>n' l' w' s'. nfirst_loop fuel n p w s = Inr (n', l', w', s') \<and>
      building R h0 s' w' (zs @ take (nat n) ys) \<and>
      (if int (length ys) < n then n' > 0 \<and> l' = t else n' \<le> 0)"
  using p av
proof (induction fuel arbitrary: n p ys zs w s)
  case (Suc fuel)
  note b = Suc.prems(4) and rd = building_reads [OF Suc.prems(4) Suc.prems(5)]
  have inv: "rc_inv {} R h0" using b by (simp add: building_def)
  show ?case
  proof (cases ys)
    case Nil
    then show ?thesis using Suc.prems rd by (cases s) auto
  next
    case (Cons x xs)
    then have c: "CONSP h0 p" "carof h0 p = x" "lseg h0 (cdrof h0 p) xs t" using Suc.prems(1) by simp_all
    show ?thesis
    proof (cases "n > 0")
      case False
      then show ?thesis using Suc.prems rd c Cons by (cases s) auto
    next
      case True
      then have nn: "nat n = Suc (nat (n - 1))" by simp
      have "length zs < avail h0" using Suc.prems(6) Cons nn by simp
      then obtain w' s' where ws: "tail_add x w s = Inr (w', s')" "building R h0 s' w' (zs @ [x])"
        using tail_add_ok [OF b alive_carof [OF inv, of p]] c(2) by metis
      have "\<exists>n' l' w'' s''. nfirst_loop fuel (n - 1) (cdrof h0 p) w' s' = Inr (n', l', w'', s'') \<and>
          building R h0 s'' w'' ((zs @ [x]) @ take (nat (n - 1)) xs) \<and>
          (if int (length xs) < n - 1 then n' > 0 \<and> l' = t else n' \<le> 0)"
        by (rule Suc.IH [OF c(3) _ _ ws(2)])
          (use Suc.prems Cons nn alive_cdrof [OF inv] in \<open>auto simp: min_def split: if_splits\<close>)
      moreover have "(int (length xs) < n - 1) = (int (length ys) < n)" using Cons by auto
      ultimately show ?thesis using True rd c ws(1) building_reads [OF ws(2) Suc.prems(5)] Cons nn by simp
    qed
  qed
qed simp

lemma nfirst_ok:
  assumes inv: "rc_inv {} R h" and l: "lseg h p xs t" "\<not> CONSP h t" and p: "alive h p"
    and av: "min (length xs) (nat n) \<le> avail h"
  obtains r h' where "nfirst n p h = Inr (r, h')"
    "lseg h' r (take (nat n) xs) (if int (length xs) < n then t else None)"
    "rc_inv {} (R + ref r) h'" "extends h h'" "avail h' = avail h - min (length xs) (nat n)"
proof -
  obtain n' l' w s where nf: "nfirst_loop (Suc (nat n)) n p Answer (None, h) = Inr (n', l', w, s)"
    "building R h s w (take (nat n) xs)" "if int (length xs) < n then n' > 0 \<and> l' = t else n' \<le> 0"
    using nfirst_loop_ok [OF p _ l(1) disjI1 [OF l(2)] lessI building_start [OF inv], of n] av
    by (auto simp del: nfirst_loop.simps)
  have t: "alive h t" using alive_fast [OF inv p, of "length xs"] lseg_funpow [OF l(1)] by simp
  show ?thesis
  proof (cases "l' \<noteq> None \<and> n' > 0")
    case True
    then have lt: "int (length xs) < n" "l' = t" using nf(3) by (auto split: if_splits)
    then obtain h1 where "LOCK l' (snd s) = Inr h1"
      "lseg (snd (store w l' (fst s, h1))) (fst (store w l' (fst s, h1))) (take (nat n) xs) l'"
      "rc_inv {} (R + ref (fst (store w l' (fst s, h1)))) (snd (store w l' (fst s, h1)))"
      "extends h (snd (store w l' (fst s, h1)))"
      "avail (snd (store w l' (fst s, h1))) = avail h - length (take (nat n) xs)"
      using store_end [OF nf(2) t] by blast
    then show ?thesis using that nf(1) True lt by (cases "store w l' (fst s, h1)") (auto simp: nfirst_def)
  next
    case False
    then have t: "(if int (length xs) < n then t else None) = None" using nf(3) by (auto split: if_splits)
    have "nfirst n p h = Inr (fst s, snd s)" using nf(1) False by (auto simp: nfirst_def simp del: nfirst_loop.simps)
    then show ?thesis using that [of "fst s" "snd s"] building_done [OF nf(2)] unfolding t
      by (simp add: min.commute)
  qed
qed

section \<open>\<open>reverse\<close>\<close>

text \<open>\<open>reversing R h0 r h ys\<close>: the cars \<open>ys\<close> were moved, reversed, to the new list \<open>r\<close>.\<close>

definition reversing :: "nat multiset \<Rightarrow> lheap \<Rightarrow> ptr \<Rightarrow> lheap \<Rightarrow> ptr list \<Rightarrow> bool" where
  "reversing R h0 r h ys \<longleftrightarrow> rc_inv {} R h0 \<and> extends h0 h \<and> lseg h r (rev ys) None \<and>
     rc_inv {} (R + ref r) h \<and> avail h = avail h0 - length ys"

declare reverse_loop.simps(2) [simp del]

lemma reverse_step:
  assumes b: "reversing R h0 r h ys" and p: "alive h0 p" "CONSP h0 p" and q: "alive h0 q"
    and av: "length ys < avail h0"
  shows "\<exists>r' h'. reversing R h0 r' h' (ys @ [carof h0 p]) \<and>
    reverse_loop (Suc n) p q toggle r h =
      (if cdrof h0 p = q then Inl (Lush ''Cannot reverse a circular list'')
       else reverse_loop n (cdrof h0 p) (if \<not> toggle then cdrof h0 q else q) (\<not> toggle) r' h')"
proof -
  note inv = b [unfolded reversing_def]
  have i0: "rc_inv {} R h0" and ex: "extends h0 h" and i: "rc_inv {} (R + ref r) h"
    and ls: "lseg h r (rev ys) None" using inv by simp_all
  note rd = extends_reads [OF i0 _ ex]
  obtain h1 where h1: "LOCK (carof h0 p) h = Inr h1" "rc_inv {} (R + ref r + ref (carof h0 p)) h1" "locks h h1"
    by (rule LOCK_ok [OF i alive_extends [OF i0 i ex alive_carof [OF i0]]])
  have "rc_inv {} (R + ref (carof h0 p) + ref r) h1" "0 < avail h1"
    using h1(2) locks_avail [OF h1(3)] inv av by (simp_all add: ac_simps)
  then obtain m h2 where h2: "cons (carof h0 p) r h1 = Inr (Some m, h2)" "rc_inv {} (add_mset m R) h2"
      "fresh h1 h2 m (Cons (carof h0 p) r)"
    by (rule cons_ok)
  have e2: "extends h h2" using h2(3) extends_trans [OF locks_extends [OF h1(3)]] by (simp add: fresh_def)
  note rd2 = extends_reads [OF i0 _ extends_trans [OF ex e2]]
  have "lseg h2 (Some m) (rev (ys @ [carof h0 p])) None"
    using lseg_extends [OF ls e2] h2(3) by (auto simp: CONSP_cell carof_def cdrof_def objof_def fresh_def)
  then have "reversing R h0 (Some m) h2 (ys @ [carof h0 p])"
    using i0 extends_trans [OF ex e2] h2 inv locks_avail [OF h1(3)] by (simp add: reversing_def fresh_def)
  moreover have "carof h1 p = carof h0 p" using locks_reads(4) [OF h1(3)] rd(2) p by simp
  ultimately show ?thesis using h1(1) h2(1) rd p q rd2
    by (intro exI conjI) (assumption, simp add: reverse_loop.simps Let_def)
qed

lemma reverse_loop_ends:
  assumes e: "ends (CONSP h0) (cdrof h0) p N" and p: "alive h0 p" and av: "N \<le> avail h0"
  shows "k \<le> N \<Longrightarrow> N - k < fuel \<Longrightarrow> reversing R h0 r h (cars h0 p k) \<Longrightarrow>
    \<exists>r' h'. reverse_loop fuel (fast (cdrof h0) p k) (slow (cdrof h0) p k) (odd k) r h = Inr (r', h') \<and>
      reversing R h0 r' h' (cars h0 p N)"
proof (induction fuel arbitrary: k r h)
  case (Suc fuel)
  note b = Suc.prems(3)
  have inv: "rc_inv {} R h0" "extends h0 h" using b by (simp_all add: reversing_def)
  have al: "alive h0 (fast (cdrof h0) p k)" "alive h0 (slow (cdrof h0) p k)"
    using alive_fast [OF inv(1) p] alive_slow [OF inv(1) p] by (simp_all add: fast_def)
  show ?case
  proof (cases "k = N")
    case True
    then show ?thesis using b extends_reads(1) [OF inv(1) al(1) inv(2)] cell.ends_isc [OF e, of k]
      by (simp add: reverse_loop.simps)
  next
    case False
    then have k: "k < N" using Suc.prems by simp
    have c: "CONSP h0 (fast (cdrof h0) p k)" "length (cars h0 p k) < avail h0"
      using cell.ends_isc [OF e, of k] k av by simp_all
    from reverse_step [OF b al(1) c(1) al(2) c(2), of fuel "odd k"]
    obtain r' h' where st: "reversing R h0 r' h' (cars h0 p (Suc k))"
      "reverse_loop (Suc fuel) (fast (cdrof h0) p k) (slow (cdrof h0) p k) (odd k) r h =
        reverse_loop fuel (fast (cdrof h0) p (Suc k)) (slow (cdrof h0) p (Suc k)) (odd (Suc k)) r' h'"
      unfolding cars_simps fast_simps slow_simps using cell.ends_apart [OF e k] by auto
    show ?thesis unfolding st(2) by (rule Suc.IH [OF _ _ st(1)]) (use Suc.prems k in simp_all)
  qed
qed simp

lemma reverse_loop_circular:
  assumes c: "circular (CONSP h0) (cdrof h0) p" and p: "alive h0 p" and av: "m < avail h0"
    and m: "cdrof h0 (fast (cdrof h0) p m) = slow (cdrof h0) p m"
  shows "k \<le> m \<Longrightarrow> m - k < fuel \<Longrightarrow> reversing R h0 r h (cars h0 p k) \<Longrightarrow>
    reverse_loop fuel (fast (cdrof h0) p k) (slow (cdrof h0) p k) (odd k) r h =
      Inl (Lush ''Cannot reverse a circular list'')"
proof (induction fuel arbitrary: k r h)
  case (Suc fuel)
  note b = Suc.prems(3)
  have inv: "rc_inv {} R h0" using b by (simp add: reversing_def)
  have al: "alive h0 (fast (cdrof h0) p k)" "alive h0 (slow (cdrof h0) p k)"
    using alive_fast [OF inv p] alive_slow [OF inv p] by (simp_all add: fast_def)
  have "length (cars h0 p k) < avail h0" using Suc.prems av by simp
  from reverse_step [OF b al(1) cell.circular_isc [OF c] al(2) this, of fuel "odd k"]
  obtain r' h' where st: "reversing R h0 r' h' (cars h0 p (Suc k))"
      "reverse_loop (Suc fuel) (fast (cdrof h0) p k) (slow (cdrof h0) p k) (odd k) r h =
        (if cdrof h0 (fast (cdrof h0) p k) = slow (cdrof h0) p k
         then Inl (Lush ''Cannot reverse a circular list'')
         else reverse_loop fuel (fast (cdrof h0) p (Suc k)) (slow (cdrof h0) p (Suc k)) (odd (Suc k)) r' h')"
    unfolding cars_simps fast_simps slow_simps by auto
  show ?case
  proof (cases "cdrof h0 (fast (cdrof h0) p k) = slow (cdrof h0) p k")
    case False
    then have "k \<noteq> m" using m by auto
    then show ?thesis unfolding st(2) using False Suc.IH [OF _ _ st(1)] Suc.prems by simp
  qed (use st(2) in simp)
qed simp

lemma reversing_start: "rc_inv {} R h \<Longrightarrow> reversing R h None h []"
  by (simp add: reversing_def)

lemma reverse_ok:
  assumes inv: "rc_inv {} R h" and l: "lseg h p xs t" "\<not> CONSP h t" and p: "alive h p"
    and av: "length xs \<le> avail h"
  obtains r h' where "reverse_at p h = Inr (r, h')" "lseg h' r (rev xs) None"
    "rc_inv {} (R + ref r) h'" "extends h h'" "avail h' = avail h - length xs"
proof -
  note e = lseg_ends [OF l]
  obtain r h' where "reverse_loop (chase_fuel h) p p False None h = Inr (r, h')" "reversing R h r h' xs"
    using reverse_loop_ends [OF e p av, of 0 "chase_fuel h" R None h] reversing_start [OF inv]
      cell.ends_bound [OF e] lseg_cars [OF l(1)] by (auto simp: chase_fuel_def)
  then show ?thesis using that by (simp add: reverse_at_def reversing_def)
qed

lemma reverse_circular:
  assumes inv: "rc_inv {} R h" and c: "circular_list h p" and p: "alive h p"
    and av: "2 * length (cells h) \<le> avail h"
  shows "reverse_at p h = Inl (Lush ''Cannot reverse a circular list'')"
proof -
  note c' = c [unfolded circular_list_def]
  obtain m where m: "m < 2 * length (cells h)" "cdrof h (fast (cdrof h) p m) = slow (cdrof h) p m"
    by (rule cell.circular_slow [OF c'])
  show ?thesis using reverse_loop_circular [OF c' p _ m(2), of 0 "chase_fuel h" R None h] av m(1)
      reversing_start [OF inv] by (simp add: reverse_at_def chase_fuel_def)
qed

end
