(* ===== verification/CellProps.thy ===== *)
theory CellProps
  imports Lists
begin

text \<open>
  The properties of the cell layer: reference counts stay exact, destructive updates and list
  operations do what their names say, and circular lists are detected.
\<close>

section \<open>Heaps used to show that the hypotheses can hold\<close>

text \<open>A list of two conses held by the code, and a cons that is its own \<open>Cdr\<close>.\<close>

definition two_list :: lheap where
  "two_list = \<lparr>cells = [\<lparr>count = 1, obj = Cons None (Some 1), fin = False, garb = False\<rparr>,
       \<lparr>count = 1, obj = Cons None None, fin = False, garb = False\<rparr>, free_at],
     freelist = [2], chunksize = 2048, os_chunks = 1, finalizers = [], fin_log = [], protected = None,
     bump_active = False, bump_list = None\<rparr>"

definition loop_list :: lheap where
  "loop_list = \<lparr>cells = [\<lparr>count = 2, obj = Cons None (Some 0), fin = False, garb = False\<rparr>],
     freelist = [], chunksize = 2048, os_chunks = 1, finalizers = [], fin_log = [], protected = None,
     bump_active = False, bump_list = None\<rparr>"

lemma less_3: "{..<3::nat} = {0, 1, 2}"
  by auto

lemma two_list_cells: "cell two_list a = (if a = 0 then \<lparr>count = 1, obj = Cons None (Some 1), fin = False, garb = False\<rparr>
    else if a = 1 then \<lparr>count = 1, obj = Cons None None, fin = False, garb = False\<rparr> else free_at)"
  by (auto simp: cell_def two_list_def nth_Cons split: nat.splits)

lemma two_list_inv: "rc_inv {} {#0#} two_list"
proof -
  have l: "length (cells two_list) = 3" "freelist two_list = [2]" "hroots two_list = {#}"
    by (simp_all add: two_list_def hroots_def)
  have "hrefs two_list {} = {#1#}"
    by (simp add: hrefs_def l less_3 two_list_cells free_at_def)
  then show ?thesis
    by (auto simp: rc_inv_def rc_table_def l two_list_cells free_at_def)
qed

lemma loop_list_inv: "rc_inv {} {#0#} loop_list"
proof -
  have l: "length (cells loop_list) = 1" "freelist loop_list = []" "hroots loop_list = {#}"
    "cell loop_list 0 = \<lparr>count = 2, obj = Cons None (Some 0), fin = False, garb = False\<rparr>"
    by (simp_all add: loop_list_def hroots_def cell_def)
  have "hrefs loop_list {} = {#0#}" by (simp add: hrefs_def l lessThan_Suc)
  then show ?thesis by (auto simp: rc_inv_def rc_table_def l)
qed

lemma two_list_reads [simp]:
  "obj (cell two_list 0) = Cons None (Some 1)" "lseg two_list (Some 0) [None, None] None"
  "avail two_list = 2049" "alive two_list (Some 0)" "\<not> CONSP two_list None" "CONSP two_list (Some 0)"
  by (simp_all add: two_list_cells CONSP_cell carof_def cdrof_def objof_def avail_def alive_def)
    (simp_all add: two_list_def)

lemma loop_list_reads [simp]: "circular_list loop_list (Some 0)" "alive loop_list (Some 0)"
    "avail loop_list = 2048" "length (cells loop_list) = 1"
proof -
  have c: "cell loop_list 0 = \<lparr>count = 2, obj = Cons None (Some 0), fin = False, garb = False\<rparr>"
    by (simp add: loop_list_def cell_def)
  have "(cdrof loop_list ^^ i) (Some 0) = Some 0" for i
    by (induction i) (simp_all add: cdrof_def objof_def c)
  then show "circular_list loop_list (Some 0)" by (simp add: circular_list_def circular_def CONSP_cell c)
  show "alive loop_list (Some 0)" by (simp add: alive_def c)
qed (simp_all add: avail_def loop_list_def)

section \<open>Properties\<close>



text \<open>\<open>new_cons\<close> of two live objects takes one free cell, holds both of them and leaves every other
  object and every count exact; only its result is new in the hands of the code.\<close>

theorem new_cons_exact:
  assumes "rc_inv {} R h" "alive h a" "alive h d" "0 < avail h"
  shows "\<exists>n h'. new_cons a d h = Inr (Some n, h') \<and> rc_inv {} (R + ref (Some n)) h' \<and> extends h h' \<and>
    obj (cell h n) = Free \<and> obj (cell h' n) = Cons a d \<and> avail h' = avail h - 1"
  using new_cons_ok [OF assms] by (simp add: fresh_def) metis

theorem new_cons_exact_witness:
  "\<exists>n h'. new_cons (Some 0) None two_list = Inr (Some n, h') \<and> rc_inv {} ({#0#} + ref (Some n)) h' \<and>
    extends two_list h' \<and> obj (cell two_list n) = Free \<and> obj (cell h' n) = Cons (Some 0) None \<and> avail h' = 2048"
  using new_cons_exact [OF two_list_inv, of "Some 0" None] by simp

text \<open>\<open>rplacd\<close> on a cons that the code holds replaces its \<open>Cdr\<close> only, releases what was there, and
  returns the cons locked; the counts stay exact whatever the release frees.\<close>

theorem rplacd_exact:
  assumes "rc_inv {} (R + ref (Some a)) h" "obj (cell h a) = Cons x d" "alive h p"
  shows "\<exists>h'. rplacd (Some a) p h = Inr (Some a, h') \<and> rc_inv {} (R + ref (Some a) + ref (Some a)) h' \<and>
    obj (cell h' a) = Cons x p \<and> (\<forall>b. b \<noteq> a \<longrightarrow> obj (cell h' b) = obj (cell h b) \<or> obj (cell h' b) = Free)"
  using rplacd_ok [OF assms] unfolding updated_def by metis

theorem rplacd_exact_witness:
  "\<exists>h'. rplacd (Some 0) (Some 0) two_list = Inr (Some 0, h') \<and> rc_inv {} {#0, 0#} h' \<and>
    obj (cell h' 0) = Cons None (Some 0)"
  using rplacd_exact [of "{#}" 0 two_list None "Some 1" "Some 0"] two_list_inv by auto

text \<open>\<open>displace\<close> checks only its first argument: for a second argument that is not a cons it reads
  the fields of something else as references.\<close>

theorem displace_unchecked:
  assumes "CONSP h q" "\<not> CONSP h p"
  shows "displace q p h = Inl (Undef ''displace from an object that is not a cons'')"
  using assms by (simp add: displace_def)

theorem displace_unchecked_witness:
  "displace (Some 0) None two_list = Inl (Undef ''displace from an object that is not a cons'')"
  by (rule displace_unchecked) simp_all

text \<open>\<open>length\<close> always ends: it counts the conses of a list that ends, proper or dotted, and returns
  -1 exactly for a circular one.\<close>

theorem length_total:
  "(\<exists>xs t. lseg h p xs t \<and> \<not> CONSP h t \<and> length_at p h = Inr (int (length xs))) \<or>
   (circular_list h p \<and> length_at p h = Inr (- 1))"
  using list_or_circular [of h p] length_at_ends length_at_circular by blast

text \<open>\<open>last\<close> returns, locked, the last element of a proper list and the tail of a dotted one.\<close>

theorem last_exact:
  assumes "rc_inv {} R h" "lseg h p (xs @ [x]) t" "\<not> CONSP h t"
  shows "\<exists>r h'. last_at p h = Inr (r, h') \<and> r = (if t = None then x else t) \<and> rc_inv {} (R + ref r) h' \<and> locks h h'"
  using last_ok [OF assms] by metis

theorem last_exact_witness:
  "\<exists>r h'. last_at (Some 0) two_list = Inr (r, h') \<and> r = None \<and> rc_inv {} ({#0#} + ref r) h' \<and> locks two_list h'"
  using last_exact [OF two_list_inv, of "Some 0" "[None]" None None] two_list_reads(2) by auto

text \<open>On a circular list \<open>last\<close>, \<open>lastcdr\<close>, \<open>append\<close> and \<open>reverse\<close> stop with their error message
  instead of looping or filling the memory.\<close>

theorem circular_detected:
  assumes "rc_inv {} R h" "circular_list h p" "alive h p" "2 * length (cells h) \<le> avail h"
  shows "last_at p h = Inl (Lush ''circular list has no last element'') \<and>
    lastcdr p h = Inl (Lush ''circular list has no last element'') \<and>
    append_at p l2 h = Inl (Lush ''Cannot append after a circular list'') \<and>
    reverse_at p h = Inl (Lush ''Cannot reverse a circular list'')"
  using last_circular [OF assms(2)] append_circular [OF assms] reverse_circular [OF assms] by simp

theorem circular_detected_witness:
  "append_at (Some 0) None loop_list = Inl (Lush ''Cannot append after a circular list'')"
  using circular_detected [OF loop_list_inv, of "Some 0" None] by simp

text \<open>C30: \<open>append\<close> copies the conses of its first argument in order, ends the copy with the second
  argument itself, changes nothing that was there, and keeps all counts exact.\<close>

theorem append_exact:
  assumes "rc_inv {} R h" "lseg h p xs t" "\<not> CONSP h t" "alive h p" "alive h l2" "length xs \<le> avail h"
  shows "\<exists>r h'. append_at p l2 h = Inr (r, h') \<and> lseg h' r xs l2 \<and> rc_inv {} (R + ref r) h' \<and>
    extends h h' \<and> avail h' = avail h - length xs"
  using append_ok [OF assms] by metis

theorem append_exact_witness:
  "\<exists>r h'. append_at (Some 0) (Some 0) two_list = Inr (r, h') \<and> lseg h' r [None, None] (Some 0) \<and>
    rc_inv {} ({#0#} + ref r) h' \<and> extends two_list h' \<and> avail h' = 2047"
  using append_exact [OF two_list_inv, of "Some 0" "[None, None]" None "Some 0"]
  by (simp del: lseg.simps)

text \<open>C31: \<open>reverse\<close> builds a fresh proper list of the same elements in the opposite order (a dotted tail
  is dropped), changes nothing that was there, and keeps all counts exact.\<close>

theorem reverse_exact:
  assumes "rc_inv {} R h" "lseg h p xs t" "\<not> CONSP h t" "alive h p" "length xs \<le> avail h"
  shows "\<exists>r h'. reverse_at p h = Inr (r, h') \<and> lseg h' r (rev xs) None \<and> rc_inv {} (R + ref r) h' \<and>
    extends h h' \<and> avail h' = avail h - length xs"
  using reverse_ok [OF assms] by metis

theorem reverse_exact_witness:
  "\<exists>r h'. reverse_at (Some 0) two_list = Inr (r, h') \<and> lseg h' r [None, None] None \<and>
    rc_inv {} ({#0#} + ref r) h' \<and> extends two_list h' \<and> avail h' = 2047"
  using reverse_exact [OF two_list_inv, of "Some 0" "[None, None]" None]
  by (simp del: lseg.simps)

text \<open>\<open>nfirst\<close> copies the first \<open>n\<close> conses; when the list is shorter the copy keeps its tail.\<close>

theorem nfirst_exact:
  assumes "rc_inv {} R h" "lseg h p xs t" "\<not> CONSP h t" "alive h p" "min (length xs) (nat n) \<le> avail h"
  shows "\<exists>r h'. nfirst n p h = Inr (r, h') \<and>
    lseg h' r (take (nat n) xs) (if int (length xs) < n then t else None) \<and>
    rc_inv {} (R + ref r) h' \<and> extends h h' \<and> avail h' = avail h - min (length xs) (nat n)"
  using nfirst_ok [OF assms] by metis

theorem nfirst_exact_witness:
  "\<exists>r h'. nfirst 1 (Some 0) two_list = Inr (r, h') \<and> lseg h' r [None] None \<and>
    rc_inv {} ({#0#} + ref r) h' \<and> extends two_list h' \<and> avail h' = 2048"
  using nfirst_exact [OF two_list_inv, of "Some 0" "[None, None]" None 1]
  by (simp del: lseg.simps)

text \<open>\<open>nth\<close> and \<open>nthcdr\<close> count from 0 and answer \<open>()\<close> outside the list, whatever the index.\<close>

theorem nth_exact:
  assumes "rc_inv {} R h" "lseg h p xs t" "\<not> CONSP h t"
  shows "\<exists>r h'. nth_at p n h = Inr (r, h') \<and> r = (if 0 \<le> n \<and> n < int (length xs) then xs ! nat n else None) \<and>
    rc_inv {} (R + ref r) h' \<and> locks h h'"
proof (cases "0 \<le> n \<and> n < int (length xs)")
  case True
  then have "nat n < length xs" "int (nat n) = n" by auto
  then show ?thesis using nth_at_ok [OF assms(1,2), of "nat n"] True by metis
next
  case False
  then show ?thesis using nth_at_outside [OF assms(2,3), of n] assms(1) by auto
qed

theorem nth_exact_witness:
  "\<exists>r h'. nth_at (Some 0) 5 two_list = Inr (r, h') \<and> r = None \<and> rc_inv {} ({#0#} + ref r) h' \<and> locks two_list h'"
  using nth_exact [OF two_list_inv, of "Some 0" "[None, None]" None 5] by (simp del: lseg.simps)

end
