(* ===== verification/Args.thy ===== *)
theory Args
  imports Prelude Complex_Main
begin

text \<open>
  The arguments of the functions written in C (\<open>DX\<close>), after evaluation: the macros \<open>ARG_NUMBER\<close>,
  \<open>APOINTER\<close>, \<open>AREAL\<close>, \<open>AINTEGER\<close>, \<open>ALIST\<close>, \<open>ASTRING\<close> and \<open>ASYMBOL\<close> of \<open>src/include/header.h\<close> and
  the error they raise, \<open>need_error\<close> of \<open>src/src/function.c\<close>.

  The components that do not update cells (dates, strings, indexes, lists of numbers) see Lisp
  objects as values: the datatype below, over a type \<open>'o\<close> of external objects of the component. A
  number is the rational value of its double; infinities and NaN are outside the model. The
  arguments are counted from 1, like \<open>arg_array\<close>.
\<close>

datatype 'o val =
    VNil
  | VNum rat
  | VStr string
  | VSym string
  | VCons "'o val" "'o val"
  | VGptr "64 word"
  | VObj 'o

definition need_errlist :: "string list" where
  "need_errlist = [''incorrect number of arguments'', ''not a real number'', ''not a list'',
     ''empty list'', ''not a string'', ''not a cell'', ''not a clist'', ''not a symbol'',
     ''not an object'', ''not a gptr'', ''not an index'']"

text \<open>Decimal digits, as \<open>printf\<close> writes them.\<close>

fun digits :: "nat \<Rightarrow> string" where
  "digits n = (if n < 10 then [char_of (48 + n)] else digits (n div 10) @ [char_of (48 + n mod 10)])"

declare digits.simps [simp del]

definition printf_d :: "int \<Rightarrow> string" where
  "printf_d i = (if i < 0 then CHR ''-'' # digits (nat (- i)) else digits (nat i))"

text \<open>\<open>%0wd\<close> of a number that is not negative.\<close>

definition printf_0d :: "nat \<Rightarrow> nat \<Rightarrow> string" where
  "printf_0d w n = replicate (w - length (digits n)) (CHR ''0'') @ digits n"

definition need_error :: "nat \<Rightarrow> int \<Rightarrow> lush_error" where
  "need_error i j = Lush (
     if i \<noteq> 0 then need_errlist ! i
     else if j > 1 then printf_d j @ '' arguments were expected''
     else if j = 1 then ''one argument was expected''
     else if j = 0 then ''no arguments were expected''
     else need_errlist ! 0)"

definition ARG_NUMBER :: "nat \<Rightarrow> 'o val list \<Rightarrow> unit res" where
  "ARG_NUMBER n args = (if length args \<noteq> n then Inl (need_error 0 (int n)) else Inr ())"

definition APOINTER :: "nat \<Rightarrow> 'o val list \<Rightarrow> 'o val res" where
  "APOINTER i args = (if 1 \<le> i \<and> i \<le> length args then Inr (args ! (i - 1))
     else Inl (Undef ''argument index''))"

definition ISNUMBER :: "'o val \<Rightarrow> bool" where
  "ISNUMBER v = (case v of VNum _ \<Rightarrow> True | _ \<Rightarrow> False)"

definition ISSTRING :: "'o val \<Rightarrow> bool" where
  "ISSTRING v = (case v of VStr _ \<Rightarrow> True | _ \<Rightarrow> False)"

definition ISLIST :: "'o val \<Rightarrow> bool" where
  "ISLIST v = (case v of VNil \<Rightarrow> True | VCons _ _ \<Rightarrow> True | _ \<Rightarrow> False)"

definition AREAL :: "nat \<Rightarrow> 'o val list \<Rightarrow> rat res" where
  "AREAL i args = res_bind (APOINTER i args) (\<lambda>v. case v of VNum x \<Rightarrow> Inr x | _ \<Rightarrow> Inl (need_error 1 (int i)))"

text \<open>The conversion of a double to an integer drops the fraction; outside the range it is undefined.\<close>

definition ctrunc :: "rat \<Rightarrow> int" where
  "ctrunc x = (if x < 0 then - \<lfloor>- x\<rfloor> else \<lfloor>x\<rfloor>)"

definition AINTEGER :: "nat \<Rightarrow> 'o val list \<Rightarrow> int res" where
  "AINTEGER i args = res_bind (AREAL i args) (\<lambda>x.
     if in_int64 (ctrunc x) then Inr (ctrunc x) else Inl (Undef ''number out of the range of intg''))"

text \<open>\<open>int x = AINTEGER(i)\<close>: the narrowing of \<open>intg\<close> to \<open>int\<close>.\<close>

definition AINT :: "nat \<Rightarrow> 'o val list \<Rightarrow> int res" where
  "AINT i args = res_bind (AINTEGER i args) (\<lambda>n. Inr (int32 n))"

definition ALIST :: "nat \<Rightarrow> 'o val list \<Rightarrow> 'o val res" where
  "ALIST i args = res_bind (APOINTER i args) (\<lambda>v. if ISLIST v then Inr v else Inl (need_error 2 (int i)))"

definition ASTRING :: "nat \<Rightarrow> 'o val list \<Rightarrow> string res" where
  "ASTRING i args = res_bind (APOINTER i args) (\<lambda>v. case v of VStr s \<Rightarrow> Inr s | _ \<Rightarrow> Inl (need_error 4 (int i)))"

definition ASYMBOL :: "nat \<Rightarrow> 'o val list \<Rightarrow> string res" where
  "ASYMBOL i args = res_bind (APOINTER i args) (\<lambda>v. case v of VSym s \<Rightarrow> Inr s | _ \<Rightarrow> Inl (need_error 7 (int i)))"

definition NEW_NUMBER :: "int \<Rightarrow> 'o val" where
  "NEW_NUMBER n = VNum (of_int n)"

text \<open>A signed sum, difference or product of type \<open>int\<close>, and one of type \<open>intg\<close>.\<close>

definition chk32 :: "int \<Rightarrow> int res" where
  "chk32 x = (if in_int32 x then Inr x else Inl (Undef ''signed overflow''))"

definition chk64 :: "int \<Rightarrow> int res" where
  "chk64 x = (if in_int64 x then Inr x else Inl (Undef ''signed overflow''))"

text \<open>Assigning a real to a variable of type \<open>intg\<close>.\<close>

definition to_intg :: "rat \<Rightarrow> int res" where
  "to_intg x = (if in_int64 (ctrunc x) then Inr (ctrunc x) else Inl (Undef ''number out of the range of intg''))"

primrec list_val :: "'o val list \<Rightarrow> 'o val" where
  "list_val [] = VNil"
| "list_val (v # vs) = VCons v (list_val vs)"

lemmas arg_defs = ARG_NUMBER_def APOINTER_def AREAL_def AINTEGER_def AINT_def ALIST_def ASTRING_def
  ASYMBOL_def NEW_NUMBER_def ISLIST_def ISSTRING_def ISNUMBER_def

lemma ctrunc_of_int [simp]: "ctrunc (of_int n) = n"
proof -
  have "\<lfloor>- of_int n :: rat\<rfloor> = - n" using floor_of_int [of "- n", where ?'a = rat] by simp
  then show ?thesis by (simp add: ctrunc_def)
qed

lemma ctrunc_numerals [simp]: "ctrunc 0 = 0" "ctrunc 1 = 1" "ctrunc (numeral w) = numeral w"
  using ctrunc_of_int [of 0] ctrunc_of_int [of 1] ctrunc_of_int [of "numeral w"] by simp_all

lemma chk32_Inr: "in_int32 x \<Longrightarrow> chk32 x = Inr x"
  by (simp add: chk32_def)

lemma chk64_Inr: "in_int64 x \<Longrightarrow> chk64 x = Inr x"
  by (simp add: chk64_def)

lemma to_intg_of_int: "in_int64 n \<Longrightarrow> to_intg (of_int n) = Inr n"
  by (simp add: to_intg_def)

lemma in_int32_int64: "in_int32 x \<Longrightarrow> in_int64 x"
  by (simp add: in_int32_def in_int64_def)

lemma AINT_number: "1 \<le> i \<Longrightarrow> i \<le> length args \<Longrightarrow> args ! (i - 1) = NEW_NUMBER n \<Longrightarrow> in_int32 n \<Longrightarrow>
    AINT i args = Inr n"
  by (simp add: arg_defs in_int32_int64 int32_id)

text \<open>Reading a decimal number back.\<close>

definition isdigit :: "char \<Rightarrow> bool" where
  "isdigit c \<longleftrightarrow> 48 \<le> (of_char c :: nat) \<and> (of_char c :: nat) \<le> 57"

primrec undigits :: "nat \<Rightarrow> string \<Rightarrow> nat" where
  "undigits r [] = r"
| "undigits r (c # cs) = undigits (r * 10 + (of_char c - 48)) cs"

lemma of_char_of_nat: "n < 256 \<Longrightarrow> (of_char (char_of n :: char) :: nat) = n"
  by simp

lemma isdigit_char_of [simp]: "(n::nat) < 10 \<Longrightarrow> isdigit (char_of (48 + n))"
  by (simp add: isdigit_def)

lemma isdigit_digits: "c \<in> set (digits n) \<Longrightarrow> isdigit c"
proof (induction n rule: digits.induct)
  case (1 n)
  then show ?case by (subst (asm) digits.simps) (auto split: if_splits)
qed

lemma digits_not_Nil [simp]: "digits n \<noteq> []"
  by (subst digits.simps) simp

lemma undigits_append: "undigits r (xs @ ys) = undigits (undigits r xs) ys"
  by (induction xs arbitrary: r) auto

lemma undigits_digits: "undigits 0 (digits n) = n"
proof (induction n rule: digits.induct)
  case (1 n)
  show ?case
  proof (cases "n < 10")
    case True
    then show ?thesis by (subst digits.simps) simp
  next
    case False
    have "(48 + n mod 10) mod 256 = 48 + n mod 10" by (rule mod_less) simp
    then show ?thesis using 1 [OF False] False by (subst digits.simps) (simp add: undigits_append)
  qed
qed

lemma undigits_zeros: "undigits 0 (replicate k (CHR ''0'') @ xs) = undigits 0 xs"
  by (induction k) simp_all

lemma undigits_printf_0d: "undigits 0 (printf_0d w n) = n"
  by (simp add: printf_0d_def undigits_zeros undigits_digits)

lemma isdigit_printf_0d: "c \<in> set (printf_0d w n) \<Longrightarrow> isdigit c"
  by (auto simp: printf_0d_def isdigit_digits) (simp add: isdigit_def)

lemma printf_0d_not_Nil [simp]: "printf_0d w n \<noteq> []"
  by (simp add: printf_0d_def)

end
