(* ===== verification/Date.thy ===== *)
theory Date
  imports Args
begin

text \<open>
  Dates (\<open>src/src/date.c\<close>): a date is a range of fields (from the year to the second) with their
  values. The theory models the check, the printer and the parser, the extension to other
  ranges, comparison and hashing, the conversion to and from a day number and a second number,
  and the functions of the language over them. The conversions to a fractional number of days and
  to a cycle code, which compute with doubles, are left out.

  The clock is a parameter: \<open>now\<close> is what \<open>localtime\<close> returns. A C variable \<open>struct date buf\<close> that
  the code leaves uninitialised is a parameter too, so that a theorem holds whatever it contains.
\<close>

section \<open>The data\<close>

abbreviation (input) "DATE_YEAR \<equiv> 0 :: nat"
abbreviation (input) "DATE_MONTH \<equiv> 1 :: nat"
abbreviation (input) "DATE_DAY \<equiv> 2 :: nat"
abbreviation (input) "DATE_HOUR \<equiv> 3 :: nat"
abbreviation (input) "DATE_MINUTE \<equiv> 4 :: nat"
abbreviation (input) "DATE_SECOND \<equiv> 5 :: nat"

text \<open>\<open>struct date\<close>; \<open>dx\<close> has \<open>MAXDATE\<close> = 6 elements, each an \<open>unsigned char\<close>.\<close>

record date =
  dfrom :: nat
  dto :: nat
  dx :: "nat list"

record tm =
  tm_year :: int
  tm_mon :: int
  tm_mday :: int
  tm_hour :: int
  tm_min :: int
  tm_sec :: int

definition uchar :: "int \<Rightarrow> nat" where
  "uchar v = nat (v mod 256)"

definition fld :: "date \<Rightarrow> nat \<Rightarrow> int" where
  "fld d i = int (dx d ! i)"

definition set_fld :: "nat \<Rightarrow> int \<Rightarrow> date \<Rightarrow> date" where
  "set_fld i v d = d\<lparr>dx := (dx d)[i := uchar v]\<rparr>"

definition ansidatenames :: "string list" where
  "ansidatenames = [''year'', ''month'', ''day'', ''hour'', ''minute'', ''second'']"

text \<open>Years count from 1900. The test that \<open>date.c\<close> writes out wherever it needs a leap year.\<close>

definition leap :: "int \<Rightarrow> bool" where
  "leap y \<longleftrightarrow> y mod 4 = 0 \<and> (y mod 100 \<noteq> 0 \<or> y mod 400 = 100)"

definition mlen_check :: "int list" where
  "mlen_check = [31,29,31,30,31,30,31,31,30,31,30,31]"

definition date_check :: "date \<Rightarrow> bool res" where
  "date_check dt =
    (if dfrom dt \<le> DATE_DAY \<and> dto dt \<ge> DATE_DAY
     then let d = fld dt DATE_DAY; m = (if dfrom dt \<le> DATE_MONTH then fld dt DATE_MONTH else 1) in
       if dfrom dt \<le> DATE_MONTH \<and> \<not> (1 \<le> m \<and> m \<le> 12) then Inl (Undef ''month table index'')
       else if dfrom dt \<le> DATE_MONTH \<and> d > mlen_check ! nat (m - 1) then Inr False
       else Inr (\<not> (dfrom dt \<le> DATE_YEAR \<and> m = 2 \<and> d = 29 \<and> \<not> leap (fld dt DATE_YEAR)))
     else Inr True)"

section \<open>Printing and parsing\<close>

definition field_text :: "date \<Rightarrow> nat \<Rightarrow> string" where
  "field_text d i =
    (if i = DATE_YEAR then '' '' @ printf_0d 4 (1900 + dx d ! i)
     else if i = DATE_MONTH \<or> i = DATE_DAY then ''-'' @ printf_0d 2 (dx d ! i)
     else if i = DATE_HOUR then '' '' @ printf_0d 2 (dx d ! i)
     else '':'' @ printf_0d 2 (dx d ! i))"

definition str_date_imp :: "date \<Rightarrow> string" where
  "str_date_imp d = concat (map (\<lambda>i. if i = dfrom d then tl (field_text d i) else field_text d i)
     [dfrom d ..< Suc (dto d)])"

definition skip_spaces :: "string \<Rightarrow> string" where
  "skip_spaces s = dropWhile (\<lambda>c. c = CHR '' '') s"

fun read_int :: "int \<Rightarrow> string \<Rightarrow> (int \<times> string) res" where
  "read_int r [] = Inr (r, [])"
| "read_int r (c # s) =
     (if isdigit c
      then res_bind (chk32 (r * 10)) (\<lambda>r. res_bind (chk32 (r + int (of_char c))) (\<lambda>r. read_int (r - 48) s))
      else Inr (r, c # s))"

text \<open>What the \<open>switch\<close> does with the number \<open>r\<close> of field \<open>i\<close>: the range, the value stored and the
  character that must follow.\<close>

definition field_range :: "nat \<Rightarrow> int \<times> int" where
  "field_range i = (if i = DATE_YEAR then (1900, 1900 + 255) else if i = DATE_MONTH then (1, 12)
     else if i = DATE_DAY then (1, 31) else if i = DATE_HOUR then (0, 23) else (0, 59))"

definition field_base :: "nat \<Rightarrow> int" where
  "field_base i = (if i = DATE_YEAR then 1900 else 0)"

definition field_sep :: "nat \<Rightarrow> char" where
  "field_sep i = (if i = DATE_YEAR \<or> i = DATE_MONTH then CHR ''-''
     else if i = DATE_DAY \<or> i = DATE_SECOND then CHR '' '' else CHR '':'')"

text \<open>The loop over the fields; \<open>None\<close> is the return value \<open>-1\<close>.\<close>

fun parse_fields :: "nat list \<Rightarrow> string \<Rightarrow> date \<Rightarrow> (string \<times> date) option res" where
  "parse_fields [] s d = Inr (Some (s, d))"
| "parse_fields (i # is) s d =
     (if s = [] \<or> \<not> isdigit (hd s) then Inr None
      else res_bind (read_int 0 s) (\<lambda>(r, s).
        if r < fst (field_range i) \<or> r > snd (field_range i) then Inr None
        else let d = set_fld i (r - field_base i) d; c = field_sep i in
          if i < dto d \<and> (s = [] \<or> hd s \<noteq> c) then Inr None
          else let s = (if i < dto d then tl s else s);
                   s = (if c = CHR '' '' then skip_spaces s else s) in
            parse_fields is s d))"

definition new_date_imp :: "string \<Rightarrow> date \<Rightarrow> int \<Rightarrow> int \<Rightarrow> date option res" where
  "new_date_imp s d from to =
    (if from < 0 \<or> to < 0 \<or> from > 5 \<or> to > 5 \<or> from > to
     then Inl (Lush ''illegal date range specification'')
     else let d = d\<lparr>dfrom := nat from, dto := nat to\<rparr> in
       res_bind (parse_fields [nat from ..< Suc (nat to)] (skip_spaces s) d) (\<lambda>r. case r of
         None \<Rightarrow> Inr None
       | Some (s, d) \<Rightarrow> if s \<noteq> [] then Inr None
           else res_bind (date_check d) (\<lambda>ok. Inr (if ok then Some d else None))))"

section \<open>Extension\<close>

definition now_imp :: "tm \<Rightarrow> date" where
  "now_imp now = \<lparr>dfrom = DATE_YEAR, dto = DATE_SECOND,
     dx = map uchar [tm_year now, 1 + tm_mon now, tm_mday now, tm_hour now, tm_min now, tm_sec now]\<rparr>"

definition date_extend :: "tm \<Rightarrow> date \<Rightarrow> date \<Rightarrow> nat \<Rightarrow> nat \<Rightarrow> date" where
  "date_extend now d nd nfrom nto = (
     let nd = (if nfrom < dfrom d then now_imp now else nd);
         x = map (\<lambda>i. if i < dfrom d then dx nd ! i else if i \<le> dto d then dx d ! i else 0) [0 ..< 6];
         x = (if dto d < DATE_DAY then x[DATE_DAY := 1] else x);
         x = (if dto d < DATE_MONTH then x[DATE_MONTH := 1] else x)
     in \<lparr>dfrom = nfrom, dto = nto, dx = x\<rparr>)"

section \<open>Comparison and hashing\<close>

fun compare_fields :: "nat list \<Rightarrow> date \<Rightarrow> date \<Rightarrow> int" where
  "compare_fields [] d1 d2 = 0"
| "compare_fields (i # is) d1 d2 = (
     let n1 = (if i \<le> dto d1 then fld d1 i else 0); n2 = (if i \<le> dto d2 then fld d2 i else 0) in
     if n1 < n2 then - 1 else if n1 > n2 then 1 else compare_fields is d1 d2)"

definition date_compare :: "date \<Rightarrow> date \<Rightarrow> bool \<Rightarrow> int res" where
  "date_compare d1 d2 order =
    (if dfrom d1 \<noteq> dfrom d2
     then if order then Inl (Lush ''Cannot rank incompatible dates'') else Inr 1
     else Inr (compare_fields [dfrom d1 ..< 6] d1 d2))"

definition hash_field :: "date \<Rightarrow> nat \<Rightarrow> 64 word \<Rightarrow> 64 word" where
  "hash_field d i x = xor (or (push_bit 6 x) (drop_bit (64 - 6) x))
     (if i \<le> dto d then of_nat (dx d ! i) else 0)"

definition date_hash :: "date \<Rightarrow> 64 word" where
  "date_hash d = fold (hash_field d) [dfrom d ..< 6] (xor 0x01020304 (of_nat (dfrom d)))"

section \<open>Day numbers\<close>

definition month_start :: "int list" where
  "month_start = [0, 31, 31+29, 31+29+31, 31+29+31+30, 31+29+31+30+31, 31+29+31+30+31+30,
     31+29+31+30+31+30+31, 31+29+31+30+31+30+31+31, 31+29+31+30+31+30+31+31+30,
     31+29+31+30+31+30+31+31+30+31, 31+29+31+30+31+30+31+31+30+31+30]"

definition date_to_n :: "tm \<Rightarrow> date \<Rightarrow> (int \<times> int) res" where
  "date_to_n now dt = (
     let buf = date_extend now dt dt DATE_YEAR DATE_SECOND;
         y = fld buf DATE_YEAR; m = fld buf DATE_MONTH; d = fld buf DATE_DAY;
         leaps = cdiv (y + 3) 4 - cdiv (y + 99) 100 + cdiv (y + 299) 400 in
     if \<not> (1 \<le> m \<and> m \<le> 12) then Inl (Undef ''month table index'')
     else let nd = y * 365 + leaps - 25567 + month_start ! nat (m - 1) + d - 1;
              nd = (if m > 2 \<and> \<not> leap y then nd - 1 else nd) in
       Inr (nd, fld buf DATE_SECOND + 60 * (fld buf DATE_MINUTE + 60 * fld buf DATE_HOUR)))"

definition date_to_yday :: "tm \<Rightarrow> date \<Rightarrow> int res" where
  "date_to_yday now d = res_bind (date_to_n now d) (\<lambda>(nd1, _).
     res_bind (date_to_n now (d\<lparr>dto := DATE_YEAR\<rparr>)) (\<lambda>(nd2, _). Inr (nd1 - nd2)))"

definition date_to_wday :: "tm \<Rightarrow> date \<Rightarrow> int res" where
  "date_to_wday now d = res_bind (date_to_n now d) (\<lambda>(r, _). Inr (crem (r + 4) 7))"

text \<open>The two loops of \<open>n_to_date\<close>: the year, from an estimate that is not too large, and the month.\<close>

definition year_length :: "int \<Rightarrow> int" where
  "year_length y = (if leap y then 366 else 365)"

function year_loop :: "int \<Rightarrow> int \<Rightarrow> int \<times> int" where
  "year_loop y nd = (if nd < year_length y then (y, nd) else year_loop (y + 1) (nd - year_length y))"
  by pat_completeness auto
termination
  by (relation "measure (\<lambda>(y, nd). nat nd)") (auto simp: year_length_def split: if_splits)

definition month_length :: "bool \<Rightarrow> int \<Rightarrow> int" where
  "month_length ly m = (if m \<noteq> 2 then [31,29,31,30,31,30,31,31,30,31,30,31] ! nat (m - 1)
     else if ly then 29 else 28)"

function month_loop :: "bool \<Rightarrow> int \<Rightarrow> int \<Rightarrow> int \<times> int" where
  "month_loop ly m nd = (if m \<le> 12
     then if nd < month_length ly m then (m, nd) else month_loop ly (m + 1) (nd - month_length ly m)
     else (m, nd))"
  by pat_completeness auto
termination
  by (relation "measure (\<lambda>(ly, m, nd). nat (13 - m))") auto

declare year_loop.simps [simp del] month_loop.simps [simp del]

definition n_to_date :: "int \<Rightarrow> int \<Rightarrow> nat \<Rightarrow> nat \<Rightarrow> date res" where
  "n_to_date nd ns from to = (
     let h = cdiv (cdiv ns 3600) 24 in
     res_bind (chk32 (nd + h)) (\<lambda>nd.
     let ns = ns - h * 3600 * 24 in
     res_bind (chk32 (nd + 25567)) (\<lambda>nd.
     if nd < 0 then Inl (Lush ''Day number falls before 1900'')
     else let y = cdiv nd 366;
              (y, nd) = year_loop y (nd - (365 * y + cdiv (y + 3) 4 - cdiv (y + 99) 100 + cdiv (y + 299) 400)) in
       if y > 255 then Inl (Lush ''Day number falls after year 2155'')
       else let (m, nd) = month_loop (leap y) 1 nd in
         if ns < 0 \<or> ns \<ge> 60 * 60 * 24 then Inl (Lush ''Second number is illegal'')
         else let h = cdiv ns 3600; mi = cdiv (ns - 3600 * h) 60 in
           Inr \<lparr>dfrom = from, dto = to,
             dx = map uchar [y, m, 1 + nd, h, mi, ns - 60 * (mi + 60 * h)]\<rparr>)))"

section \<open>The functions of the language\<close>

definition get_date :: "date val \<Rightarrow> date res" where
  "get_date v = (case v of VObj d \<Rightarrow> Inr d | _ \<Rightarrow> Inl (Lush ''Not a date''))"

definition make_date :: "date \<Rightarrow> date val res" where
  "make_date d = res_bind (date_check d) (\<lambda>ok.
     if ok then Inr (VObj d) else Inl (Lush ''Illegal date''))"

definition new_date :: "string \<Rightarrow> date \<Rightarrow> int \<Rightarrow> int \<Rightarrow> date val res" where
  "new_date s buf from to = res_bind (new_date_imp s buf from to) (\<lambda>r. case r of
       None \<Rightarrow> Inl (Lush ''Illegal date'') | Some d \<Rightarrow> make_date d)"

definition new_date_from_time :: "tm \<Rightarrow> nat \<Rightarrow> nat \<Rightarrow> date val res" where
  "new_date_from_time clock from to = make_date ((now_imp clock)\<lparr>dfrom := from, dto := to\<rparr>)"

definition date_name :: "date \<Rightarrow> string" where
  "date_name d = ''::DATE:'' @ ansidatenames ! dfrom d @ ''-'' @ ansidatenames ! dto d @ '':('' @
     str_date_imp d @ '')''"

definition xnow :: "tm \<Rightarrow> date val list \<Rightarrow> date val res" where
  "xnow now args = make_date (now_imp now)"

definition xtoday :: "tm \<Rightarrow> date val list \<Rightarrow> date val res" where
  "xtoday now args = make_date ((now_imp now)\<lparr>dto := DATE_DAY\<rparr>)"

definition pair_val :: "string \<Rightarrow> int \<Rightarrow> 'o val" where
  "pair_val s n = VCons (VSym s) (NEW_NUMBER n)"

definition xsplit_date :: "tm \<Rightarrow> date val list \<Rightarrow> date val res" where
  "xsplit_date now args = res_bind (ARG_NUMBER 1 args) (\<lambda>_. res_bind (APOINTER 1 args) (\<lambda>v.
     res_bind (get_date v) (\<lambda>d.
     let fields = map (\<lambda>i. pair_val (ansidatenames ! i) (fld d i)) [dfrom d ..< Suc (dto d)] in
     if dfrom d \<le> DATE_YEAR \<and> dto d \<ge> DATE_DAY
     then res_bind (date_to_wday now d) (\<lambda>wday. res_bind (date_to_yday now d) (\<lambda>yday.
       Inr (list_val (fields @ [pair_val ''wday'' wday, pair_val ''yday'' yday]))))
     else Inr (list_val fields))))"

definition xdate_type :: "date val list \<Rightarrow> date val res" where
  "xdate_type args = res_bind (ARG_NUMBER 1 args) (\<lambda>_. res_bind (APOINTER 1 args) (\<lambda>v.
     res_bind (get_date v) (\<lambda>d.
     Inr (list_val [VSym (ansidatenames ! dfrom d), VSym (ansidatenames ! dto d)]))))"

text \<open>The loops that look a field name up: the last match counts, \<open>dflt\<close> if there is none.\<close>

definition field_index :: "int \<Rightarrow> string \<Rightarrow> int" where
  "field_index dflt s = fold (\<lambda>i r. if ansidatenames ! i = s then int i else r)
     [DATE_YEAR ..< Suc DATE_SECOND] dflt"

definition xdate_extend :: "tm \<Rightarrow> date \<Rightarrow> date val list \<Rightarrow> date val res" where
  "xdate_extend now buf args = res_bind (ARG_NUMBER 3 args) (\<lambda>_.
     res_bind (ASYMBOL 2 args) (\<lambda>s2. res_bind (ASYMBOL 3 args) (\<lambda>s3.
     res_bind (APOINTER 1 args) (\<lambda>v. res_bind (get_date v) (\<lambda>d.
     let from = field_index (- 1) s2; to = field_index (- 1) s3 in
     if from < 0 \<or> to < 0 \<or> from > 5 \<or> to > 5 \<or> from > to
     then Inl (Lush ''illegal date range specification'')
     else make_date (date_extend now d buf (nat from) (nat to)))))))"

text \<open>
  \<open>strftime\<close> is a parameter: it returns the bytes it wrote, none when they do not fit. The \<open>tm\<close> it
  gets is a static variable of which only six fields are ever set.
\<close>

definition xdate_to_string :: "(string \<Rightarrow> tm \<Rightarrow> string) \<Rightarrow> tm \<Rightarrow> date val list \<Rightarrow> date val res" where
  "xdate_to_string strftime now args =
    (if length args = 1
     then res_bind (APOINTER 1 args) (\<lambda>v. res_bind (get_date v) (\<lambda>d. Inr (VStr (str_date_imp d))))
     else res_bind (ARG_NUMBER 2 args) (\<lambda>_. res_bind (APOINTER 1 args) (\<lambda>v.
       res_bind (get_date v) (\<lambda>d. res_bind (ASTRING 2 args) (\<lambda>format.
       let buf = date_extend now d d DATE_YEAR DATE_SECOND;
           s = strftime format \<lparr>tm_year = fld buf DATE_YEAR, tm_mon = fld buf DATE_MONTH - 1,
             tm_mday = fld buf DATE_DAY, tm_hour = fld buf DATE_HOUR, tm_min = fld buf DATE_MINUTE,
             tm_sec = fld buf DATE_SECOND\<rparr> in
       if s \<noteq> [] then Inr (VStr s) else Inl (Lush ''Too long string''))))))"

definition xstring_to_date :: "date \<Rightarrow> date val list \<Rightarrow> date val res" where
  "xstring_to_date buf args =
    res_bind (if length args \<noteq> 1
       then res_bind (ARG_NUMBER 3 args) (\<lambda>_. res_bind (ASYMBOL 2 args) (\<lambda>s2.
              res_bind (ASYMBOL 3 args) (\<lambda>s3. Inr (field_index 0 s2, field_index 5 s3))))
       else Inr (0, 5)) (\<lambda>(from, to).
     if from < 0 \<or> to < 0 \<or> from > 5 \<or> to > 5 \<or> from > to
     then Inl (Lush ''illegal date range specification'')
     else res_bind (ASTRING 1 args) (\<lambda>s. res_bind (new_date_imp s buf from to) (\<lambda>r.
       case r of None \<Rightarrow> Inr VNil | Some d \<Rightarrow> make_date d)))"

definition date_add :: "tm \<Rightarrow> date val list \<Rightarrow> (int \<Rightarrow> int \<Rightarrow> int \<Rightarrow> (int \<times> int) res) \<Rightarrow> date val res" where
  "date_add now args f = res_bind (ARG_NUMBER 2 args) (\<lambda>_. res_bind (APOINTER 1 args) (\<lambda>v.
     res_bind (get_date v) (\<lambda>d. res_bind (AINT 2 args) (\<lambda>add.
     res_bind (date_to_n now d) (\<lambda>(nd, ns). res_bind (f nd ns add) (\<lambda>(nd, ns).
     res_bind (n_to_date nd ns (dfrom d) (dto d)) make_date))))))"

definition xdate_add_second :: "tm \<Rightarrow> date val list \<Rightarrow> date val res" where
  "xdate_add_second now args = date_add now args (\<lambda>nd ns add.
     res_bind (chk32 (ns + add)) (\<lambda>ns. Inr (nd, ns)))"

definition xdate_add_minute :: "tm \<Rightarrow> date val list \<Rightarrow> date val res" where
  "xdate_add_minute now args = date_add now args (\<lambda>nd ns add.
     res_bind (chk32 (60 * add)) (\<lambda>x. res_bind (chk32 (ns + x)) (\<lambda>ns. Inr (nd, ns))))"

definition xdate_add_hour :: "tm \<Rightarrow> date val list \<Rightarrow> date val res" where
  "xdate_add_hour now args = date_add now args (\<lambda>nd ns add.
     res_bind (chk32 (3600 * add)) (\<lambda>x. res_bind (chk32 (ns + x)) (\<lambda>ns. Inr (nd, ns))))"

definition xdate_add_day :: "tm \<Rightarrow> date val list \<Rightarrow> date val res" where
  "xdate_add_day now args = date_add now args (\<lambda>nd ns add.
     res_bind (chk32 (nd + add)) (\<lambda>nd. Inr (nd, ns)))"

text \<open>
  The optional argument of \<open>date-add-month\<close> and \<open>date-add-year\<close>: \<open>pname\<close> prints it, and it prints as
  one of the key words only when it is that symbol.
\<close>

definition opt_arg :: "date val list \<Rightarrow> date val res" where
  "opt_arg args = (if length args = 2 then Inr VNil
     else res_bind (ARG_NUMBER 3 args) (\<lambda>_. APOINTER 3 args))"

definition mlen_add :: "int list" where
  "mlen_add = [31,28,31,30,31,30,31,31,30,31,30,31]"

text \<open>The new month and year: within the year when the date starts at the month.\<close>

definition shift_month :: "date \<Rightarrow> int \<Rightarrow> (int \<times> int \<times> date) res" where
  "shift_month d add =
    (if dfrom d = DATE_MONTH
     then res_bind (chk32 (fld d DATE_MONTH - 1 + add)) (\<lambda>m.
       let m = crem m 12 + 1; m = (if m < 1 then m + 12 else m) in
       Inr (m, 0, set_fld DATE_MONTH m d))
     else res_bind (chk32 (12 * fld d DATE_YEAR + fld d DATE_MONTH - 1 + add)) (\<lambda>m.
       if m < 0 \<or> m \<ge> 256 * 12 then Inl (Lush ''date out of range'')
       else let y = cdiv m 12; m = m - 12 * y + 1 in
         Inr (m, y, set_fld DATE_YEAR y (set_fld DATE_MONTH m d))))"

definition xdate_add_month :: "date val list \<Rightarrow> date val res" where
  "xdate_add_month args = res_bind (opt_arg args) (\<lambda>opt. res_bind (APOINTER 1 args) (\<lambda>v.
     res_bind (get_date v) (\<lambda>d. res_bind (AINT 2 args) (\<lambda>add.
     let noerror = (opt = VSym ''noerror'' \<or> opt = VSym ''no-error'');
         force_last = (opt = VSym ''end-of-month'');
         loosely = (opt \<noteq> VNil \<and> \<not> noerror \<and> \<not> force_last) in
     if dto d \<ge> DATE_MONTH
     then res_bind (shift_month d add) (\<lambda>(m, y, buf).
       if dto d \<ge> DATE_DAY
       then let day = fld buf DATE_DAY;
                last = mlen_add ! nat (m - 1);
                last = (if m = 2 \<and> dfrom d \<le> DATE_YEAR \<and> leap y then last + 1 else last);
                buf = (if force_last then set_fld DATE_DAY last buf else buf);
                buf = (if loosely \<and> day > last then set_fld DATE_DAY last buf else buf) in
         if noerror \<and> day > last then Inr VNil else make_date buf
       else make_date buf)
     else make_date d))))"

definition xdate_add_year :: "date val list \<Rightarrow> date val res" where
  "xdate_add_year args = res_bind (opt_arg args) (\<lambda>opt. res_bind (APOINTER 1 args) (\<lambda>v.
     res_bind (get_date v) (\<lambda>d. res_bind (AINT 2 args) (\<lambda>add.
     let noerror = (opt = VSym ''noerror'' \<or> opt = VSym ''no-error'');
         loosely = (opt \<noteq> VNil \<and> \<not> noerror) in
     if dfrom d \<le> DATE_YEAR
     then res_bind (chk32 (fld d DATE_YEAR + add)) (\<lambda>y.
       if y < 0 \<or> y \<ge> 256 then Inl (Lush ''date out of range'')
       else let buf = set_fld DATE_YEAR y d in
         if dto d \<ge> DATE_DAY \<and> fld buf DATE_MONTH = 2 \<and> fld buf DATE_DAY = 29 \<and> \<not> leap y
         then if noerror then Inr VNil
              else if loosely then make_date (set_fld DATE_DAY 28 buf) else make_date buf
         else make_date buf)
     else make_date d))))"

section \<open>Equal dates\<close>

lemma compare_fields_eq: "compare_fields is d1 d2 = 0 \<longleftrightarrow>
    (\<forall>i \<in> set is. (if i \<le> dto d1 then fld d1 i else 0) = (if i \<le> dto d2 then fld d2 i else 0))"
  by (induction "is") (auto simp: Let_def)

lemma equal_dates_hash:
  assumes "date_compare d1 d2 order = Inr 0"
  shows "date_hash d1 = date_hash d2"
proof -
  have f: "dfrom d1 = dfrom d2" "compare_fields [dfrom d2 ..< 6] d1 d2 = 0"
    using assms by (auto simp: date_compare_def split: if_splits)
  have "hash_field d1 i x = hash_field d2 i x" if "i \<in> set [dfrom d2 ..< 6]" for i x
  proof -
    have "(if i \<le> dto d1 then fld d1 i else 0) = (if i \<le> dto d2 then fld d2 i else 0)"
      using f(2) that unfolding compare_fields_eq by blast
    then show ?thesis by (auto simp: hash_field_def fld_def split: if_splits)
  qed
  then show ?thesis unfolding date_hash_def f(1) by (intro fold_cong) auto
qed

end
