(* ===== verification/DateLaws.thy ===== *)
theory DateLaws
  imports Date
begin

text \<open>
  What the functions of \<open>Date\<close> guarantee: printing and parsing are inverse, the day numbering is a
  bijection onto its range, the order of dates is the order of their instants, and the arithmetic
  on dates moves the instant by the amount asked.
\<close>

section \<open>Valid dates\<close>

definition in_field :: "nat \<Rightarrow> int \<Rightarrow> bool" where
  "in_field i v \<longleftrightarrow> fst (field_range i) \<le> field_base i + v \<and> field_base i + v \<le> snd (field_range i)"

definition valid :: "date \<Rightarrow> bool" where
  "valid d \<longleftrightarrow> length (dx d) = 6 \<and> dfrom d \<le> dto d \<and> dto d \<le> DATE_SECOND \<and>
     (\<forall>i \<in> {dfrom d..dto d}. in_field i (fld d i)) \<and> date_check d = Inr True"

lemma in_field_byte: "in_field i v \<Longrightarrow> 0 \<le> v \<and> v < 256"
  by (auto simp: in_field_def field_range_def field_base_def split: if_splits)

lemma uchar_int: "0 \<le> v \<Longrightarrow> v < 256 \<Longrightarrow> int (uchar v) = v"
  by (simp add: uchar_def)

lemma set_fld_simps [simp]: "dfrom (set_fld i v d) = dfrom d" "dto (set_fld i v d) = dto d"
    "length (dx (set_fld i v d)) = length (dx d)"
  by (simp_all add: set_fld_def)

lemma fld_set_fld: "i < length (dx d) \<Longrightarrow> 0 \<le> v \<Longrightarrow> v < 256 \<Longrightarrow>
    fld (set_fld i v d) j = (if j = i then v else fld d j)"
  by (simp add: fld_def set_fld_def uchar_int)

text \<open>Two dates with the same range and the same fields in it.\<close>

definition same_fields :: "date \<Rightarrow> date \<Rightarrow> bool" where
  "same_fields d d' \<longleftrightarrow> dfrom d' = dfrom d \<and> dto d' = dto d \<and> (\<forall>i \<in> {dfrom d..dto d}. fld d' i = fld d i)"

lemma date_check_cong:
  assumes "same_fields d d'"
  shows "date_check d' = date_check d"
proof -
  have r: "dfrom d' = dfrom d" "dto d' = dto d" using assms by (simp_all add: same_fields_def)
  have f: "fld d' i = fld d i" if "dfrom d \<le> i" "i \<le> 2" "2 \<le> dto d" for i
    using assms that by (simp add: same_fields_def)
  show ?thesis
  proof (cases "dfrom d \<le> DATE_DAY \<and> DATE_DAY \<le> dto d")
    case True
    then show ?thesis using f [of 1] f [of 2] f [of 0]
      by (cases "dfrom d \<le> 1"; cases "dfrom d = 0") (simp_all add: date_check_def r Let_def)
  qed (auto simp: date_check_def r)
qed

section \<open>Printing and parsing\<close>

lemma undigits_le: "r \<le> undigits r ds"
proof (induction ds arbitrary: r)
  case (Cons c ds)
  show ?case using Cons [of "r * 10 + (of_char c - 48)"] by simp
qed simp

lemma read_int_digits:
  assumes "s = [] \<or> \<not> isdigit (hd s)"
  shows "\<forall>c \<in> set ds. isdigit c \<Longrightarrow> undigits r ds \<le> 200000000 \<Longrightarrow>
    read_int (int r) (ds @ s) = Inr (int (undigits r ds), s)"
proof (induction ds arbitrary: r)
  case Nil
  then show ?case using assms by (cases s) auto
next
  case (Cons c ds)
  let ?r = "r * 10 + (of_char c - 48)"
  have c: "48 \<le> (of_char c :: nat)" "(of_char c :: nat) \<le> 57" using Cons.prems by (auto simp: isdigit_def)
  have "?r \<le> 200000000" using undigits_le [of ?r ds] Cons.prems by simp
  then have "in_int32 (int r * 10)" "in_int32 (int r * 10 + int (of_char c))"
    using c by (auto simp: in_int32_def)
  moreover have "int r * 10 + int (of_char c) - 48 = int ?r" using c by (simp add: of_nat_diff)
  ultimately show ?case using Cons.IH [of ?r] Cons.prems by (simp add: chk32_Inr)
qed

text \<open>The text of field \<open>i\<close> without what precedes it, followed by the rest.\<close>

definition num_text :: "date \<Rightarrow> nat \<Rightarrow> string" where
  "num_text d i = tl (field_text d i)"

definition rest_text :: "date \<Rightarrow> nat \<Rightarrow> string" where
  "rest_text d i = concat (map (field_text d) [Suc i ..< Suc (dto d)])"

lemma str_date_text: "dfrom d \<le> dto d \<Longrightarrow> str_date_imp d = num_text d (dfrom d) @ rest_text d (dfrom d)"
proof -
  assume "dfrom d \<le> dto d"
  then have u: "[dfrom d ..< Suc (dto d)] = dfrom d # [Suc (dfrom d) ..< Suc (dto d)]"
    by (simp add: upt_conv_Cons del: upt_Suc)
  have "map (\<lambda>i. if i = dfrom d then tl (field_text d i) else field_text d i) [Suc (dfrom d) ..< Suc (dto d)] =
      map (field_text d) [Suc (dfrom d) ..< Suc (dto d)]" by (rule map_cong) auto
  then show ?thesis unfolding str_date_imp_def u num_text_def rest_text_def list.map concat.simps
    by (simp only: simp_thms if_True)
qed

lemma num_text_num: "\<exists>w n. num_text d i = printf_0d w n \<and> int n = field_base i + fld d i"
proof (cases "i = DATE_YEAR")
  case True
  then show ?thesis
    by (intro exI [of _ 4] exI [of _ "1900 + dx d ! 0"]) (simp add: num_text_def field_text_def field_base_def fld_def)
next
  case False
  then show ?thesis
    by (intro exI [of _ 2] exI [of _ "dx d ! i"]) (simp add: num_text_def field_text_def field_base_def fld_def)
qed

lemma num_text: "num_text d i \<noteq> []" "\<forall>c \<in> set (num_text d i). isdigit c"
  "int (undigits 0 (num_text d i)) = field_base i + fld d i"
proof -
  obtain w n where t: "num_text d i = printf_0d w n" "int n = field_base i + fld d i"
    using num_text_num by blast
  show "num_text d i \<noteq> []" "\<forall>c \<in> set (num_text d i). isdigit c"
    "int (undigits 0 (num_text d i)) = field_base i + fld d i"
    unfolding t(1) using t(2) by (simp_all add: isdigit_printf_0d undigits_printf_0d)
qed

lemma rest_text_step: "i < dto d \<Longrightarrow> i < 5 \<Longrightarrow> rest_text d i = field_sep i # num_text d (Suc i) @ rest_text d (Suc i)"
  by (auto simp: rest_text_def upt_conv_Cons num_text_def field_text_def field_sep_def simp del: upt_Suc)

lemma rest_text_last: "rest_text d (dto d) = []"
  by (simp add: rest_text_def)

lemma hd_append_not_Nil: "xs \<noteq> [] \<Longrightarrow> hd (xs @ ys) = hd xs"
  by simp

lemma skip_spaces_digit: "s = [] \<or> isdigit (hd s) \<Longrightarrow> skip_spaces s = s"
  by (cases s) (auto simp: skip_spaces_def isdigit_def)

lemma hd_num_text: "isdigit (hd (num_text d i @ s))"
  using num_text(1,2) [of d i] by (cases "num_text d i") auto

lemma parse_fields_text:
  assumes v: "valid d"
  shows "dfrom d \<le> i \<Longrightarrow> i \<le> dto d \<Longrightarrow> dto d0 = dto d \<Longrightarrow>
    parse_fields [i ..< Suc (dto d)] (num_text d i @ rest_text d i) d0 =
      Inr (Some ([], fold (\<lambda>i. set_fld i (fld d i)) [i ..< Suc (dto d)] d0))"
proof (induction "dto d - i" arbitrary: i d0)
  case 0
  then have i: "i = dto d" by simp
  have f: "in_field i (fld d i)" using v 0 by (simp add: valid_def)
  have r: "read_int 0 (num_text d i @ []) = Inr (field_base i + fld d i, [])"
    using read_int_digits [of "[]" "num_text d i" 0] num_text [of d i] f
    by (auto simp: in_field_def field_range_def split: if_splits)
  show ?case using r hd_num_text [of d i "[]"] num_text(1) [of d i] f 0(4)
    by (simp add: i rest_text_last in_field_def Let_def skip_spaces_def)
next
  case (Suc n)
  then have i: "i < dto d" "i < 5" using v by (auto simp: valid_def)
  have u: "[i ..< Suc (dto d)] = i # [Suc i ..< Suc (dto d)]"
    using i by (simp add: upt_conv_Cons del: upt_Suc)
  have f: "in_field i (fld d i)" using v Suc.prems by (simp add: valid_def)
  let ?s = "rest_text d i"
  have s: "?s = field_sep i # num_text d (Suc i) @ rest_text d (Suc i)" by (rule rest_text_step [OF i])
  have r: "read_int 0 (num_text d i @ ?s) = Inr (field_base i + fld d i, ?s)"
    using read_int_digits [of ?s "num_text d i" 0] num_text [of d i] f
    by (auto simp: in_field_def field_range_def s field_sep_def isdigit_def split: if_splits)
  have sk: "skip_spaces (num_text d (Suc i) @ rest_text d (Suc i)) = num_text d (Suc i) @ rest_text d (Suc i)"
    by (rule skip_spaces_digit) (simp add: hd_num_text)
  have "parse_fields [i ..< Suc (dto d)] (num_text d i @ ?s) d0 =
      parse_fields [Suc i ..< Suc (dto d)] (num_text d (Suc i) @ rest_text d (Suc i)) (set_fld i (fld d i) d0)"
    unfolding u using r hd_num_text [of d i ?s] num_text(1) [of d i] f i(1) Suc.prems
    by (simp add: in_field_def Let_def sk s del: upt_Suc)
  also have "\<dots> = Inr (Some ([], fold (\<lambda>i. set_fld i (fld d i)) [Suc i ..< Suc (dto d)] (set_fld i (fld d i) d0)))"
    by (rule Suc.hyps(1)) (use Suc in auto)
  finally show ?case unfolding u by (simp del: upt_Suc)
qed

lemma fold_set_fld:
  assumes "length (dx d0) = 6" "\<forall>i \<in> set is. i < 6 \<and> 0 \<le> v i \<and> v i < 256"
  shows "dfrom (fold (\<lambda>i. set_fld i (v i)) is d0) = dfrom d0 \<and>
    dto (fold (\<lambda>i. set_fld i (v i)) is d0) = dto d0 \<and>
    fld (fold (\<lambda>i. set_fld i (v i)) is d0) j = (if j \<in> set is then v j else fld d0 j)"
  using assms by (induction "is" arbitrary: d0) (auto simp: fld_set_fld)

lemma print_parse:
  assumes v: "valid d" and b: "length (dx buf) = 6"
  obtains d' where "new_date_imp (str_date_imp d) buf (int (dfrom d)) (int (dto d)) = Inr (Some d')"
    "same_fields d d'"
proof -
  let ?d0 = "buf\<lparr>dfrom := dfrom d, dto := dto d\<rparr>"
  let ?is = "[dfrom d ..< Suc (dto d)]"
  let ?d' = "fold (\<lambda>i. set_fld i (fld d i)) ?is ?d0"
  have le: "dfrom d \<le> dto d" "dto d \<le> 5" using v by (auto simp: valid_def)
  have byte: "\<forall>i \<in> set ?is. i < 6 \<and> 0 \<le> fld d i \<and> fld d i < 256"
    using v le in_field_byte [of _ "fld d _"] by (fastforce simp: valid_def)
  have d': "dfrom ?d' = dfrom d" "dto ?d' = dto d" "fld ?d' j = (if j \<in> set ?is then fld d j else fld ?d0 j)" for j
    using fold_set_fld [of ?d0 ?is "fld d" j] b byte by (simp_all del: upt_Suc)
  have same: "same_fields d ?d'" using d' by (auto simp: same_fields_def simp del: upt_Suc)
  have "skip_spaces (str_date_imp d) = str_date_imp d"
    by (rule skip_spaces_digit) (simp add: str_date_text [OF le(1)] hd_num_text)
  then have "new_date_imp (str_date_imp d) buf (int (dfrom d)) (int (dto d)) = Inr (Some ?d')"
    using parse_fields_text [OF v le_refl le(1), of ?d0] le date_check_cong [OF same] v
    by (simp add: new_date_imp_def str_date_text valid_def del: upt_Suc)
  then show ?thesis using same that by blast
qed

section \<open>Day numbers\<close>

text \<open>Days from 1900-01-01 to the first of January of year \<open>y\<close>, and to the first of the month.\<close>

definition days :: "int \<Rightarrow> int" where
  "days y = 365 * y + (y + 3) div 4 - (y + 99) div 100 + (y + 299) div 400"

definition month_days :: "bool \<Rightarrow> int \<Rightarrow> int" where
  "month_days ly m = month_start ! nat (m - 1) - (if m > 2 \<and> \<not> ly then 1 else 0)"

lemma div_step:
  assumes "0 < (k::int)"
  shows "(a + 1) div k = a div k + (if (a + 1) mod k = 0 then 1 else 0)"
proof (cases "(a + 1) mod k = 0")
  case True
  then obtain q where q: "a + 1 = k * q" by (auto simp: mod_eq_0_iff_dvd)
  then have "a = k * (q - 1) + (k - 1)" by (simp add: algebra_simps)
  then have "a div k = q - 1" using assms by simp
  then show ?thesis using True q assms by simp
next
  case False
  have d: "a + 1 = k * ((a + 1) div k) + (a + 1) mod k" by simp
  have r: "0 \<le> (a + 1) mod k - 1" "(a + 1) mod k - 1 < k"
    using False pos_mod_sign [OF assms, of "a + 1"] pos_mod_bound [OF assms, of "a + 1"] by linarith+
  have "a = k * ((a + 1) div k) + ((a + 1) mod k - 1)" using d by linarith
  then have "a div k = (a + 1) div k" using r int_div_pos_eq by blast
  then show ?thesis using False by simp
qed

lemma days_step: "days (y + 1) = days y + year_length y"
proof -
  have e: "y + 1 + 3 = y + 3 + 1" "y + 1 + 99 = y + 99 + 1" "y + 1 + 299 = y + 299 + 1" by simp_all
  have p: "y + 3 + 1 = y + 4" "y + 99 + 1 = y + 100" "y + 299 + 1 = (y - 100) + 400" by simp_all
  have m: "(y + 3 + 1) mod 4 = y mod 4" "(y + 99 + 1) mod 100 = y mod 100"
      "(y + 299 + 1) mod 400 = (y - 100) mod 400"
    unfolding p by (rule mod_add_self2)+
  have h: "((y - 100) mod 400 = 0) = (y mod 400 = 100)"
    unfolding mod_eq_0_iff_dvd mod_eq_dvd_iff [symmetric] by simp
  note d = div_step [of 4 "y + 3", OF zero_less_numeral, unfolded m]
    div_step [of 100 "y + 99", OF zero_less_numeral, unfolded m]
    div_step [of 400 "y + 299", OF zero_less_numeral, unfolded m h]
  have "y mod 400 mod 100 = y mod 100" "y mod 100 mod 4 = y mod 4" by (rule mod_mod_cancel, simp)+
  then have i: "y mod 400 = 100 \<Longrightarrow> y mod 100 = 0" "y mod 100 = 0 \<Longrightarrow> y mod 4 = 0" by auto
  have sum: "365 * (y + 1) + A' - B' + C' = 365 * y + A - B + C + (if P \<and> (\<not> Q \<or> R) then 366 else 365)"
    if "A' = A + (if P then 1 else 0)" "B' = B + (if Q then 1 else 0)" "C' = C + (if R then 1 else 0)"
      "R \<Longrightarrow> Q" "Q \<Longrightarrow> P" for A B C A' B' C' :: int and P Q R
    using that by (cases P; cases Q; cases R) simp_all
  show ?thesis unfolding days_def year_length_def leap_def e
    by (rule sum [OF d i])
qed

lemma year_length_pos: "365 \<le> year_length y" "year_length y \<le> 366"
  by (simp_all add: year_length_def)

lemma days_mono: "y \<le> z \<Longrightarrow> days y + 365 * (z - y) \<le> days z"
proof (induction z rule: int_ge_induct)
  case (step z)
  then show ?case using days_step [of z] year_length_pos(1) [of z] by (simp add: algebra_simps)
qed simp

lemma days_upper: "0 \<le> y \<Longrightarrow> days y \<le> 366 * y"
proof (induction y rule: int_ge_induct)
  case (step y)
  then show ?case using days_step [of y] year_length_pos(2) [of y] by (simp add: algebra_simps)
qed (simp add: days_def)

lemma days_0: "days 0 = 0" and days_256: "days 256 = 93502"
  by (simp_all add: days_def)

lemma year_loop_ok: "0 \<le> nd \<Longrightarrow> year_loop y nd = (z, r) \<Longrightarrow>
    y \<le> z \<and> 0 \<le> r \<and> r < year_length z \<and> days z + r = days y + nd"
proof (induction y nd rule: year_loop.induct)
  case (1 y nd)
  show ?case
  proof (cases "nd < year_length y")
    case True
    then show ?thesis using 1(2,3) year_loop.simps [of y nd] by simp
  next
    case False
    then have "year_loop (y + 1) (nd - year_length y) = (z, r)" using 1(3) year_loop.simps [of y nd] by simp
    then show ?thesis using 1(1) [OF False] False days_step [of y] by simp
  qed
qed

text \<open>The year of a day number is the only one whose days contain it.\<close>

lemma days_unique:
  assumes "days y + r = days z + s" "0 \<le> r" "r < year_length y" "0 \<le> s" "s < year_length z"
  shows "y = z \<and> r = s"
proof -
  have "\<not> y < z" "\<not> z < y"
    using days_mono [of "y + 1" z] days_mono [of "z + 1" y] days_step [of y] days_step [of z] assms by auto
  then show ?thesis using assms by simp
qed

lemma month_cases:
  assumes "1 \<le> (m::int)" "m \<le> 12"
  obtains "m = 1" | "m = 2" | "m = 3" | "m = 4" | "m = 5" | "m = 6" | "m = 7" | "m = 8" | "m = 9"
    | "m = 10" | "m = 11" | "m = 12"
  using assms by (smt (verit))

lemmas month_tables = month_length_def month_days_def month_start_def

lemma month_loop_step: "1 \<le> m \<Longrightarrow> m < 12 \<Longrightarrow> month_days ly (m + 1) = month_days ly m + month_length ly m"
  by (rule month_cases [of m]; cases ly; simp add: month_tables)

lemma month_days_mono: "k \<le> m \<Longrightarrow> 1 \<le> k \<Longrightarrow> m \<le> 12 \<Longrightarrow> month_days ly k \<le> month_days ly m"
proof (induction m rule: int_ge_induct)
  case (step m)
  have "0 \<le> month_length ly m"
    by (rule month_cases [of m]) (use step in \<open>cases ly; simp add: month_tables\<close>)+
  then show ?case using step month_loop_step [of m ly] by simp
qed simp

lemma month_loop_in:
  assumes m: "1 \<le> m" "m \<le> 12" and d: "0 \<le> d" "d < month_length ly m"
  shows "1 \<le> k \<Longrightarrow> k \<le> m \<Longrightarrow> month_loop ly k (month_days ly m - month_days ly k + d) = (m, d)"
proof (induction "nat (m - k)" arbitrary: k)
  case 0
  then show ?case using m d by (subst month_loop.simps) simp
next
  case (Suc n)
  then have k: "k < m" by simp
  have step: "month_days ly (k + 1) = month_days ly k + month_length ly k"
    by (rule month_loop_step) (use Suc.prems k m in auto)
  have mono: "month_days ly (k + 1) \<le> month_days ly m"
    by (rule month_days_mono) (use Suc.prems k m in auto)
  have "month_loop ly (k + 1) (month_days ly m - month_days ly (k + 1) + d) = (m, d)"
    by (rule Suc.hyps(1)) (use Suc k in auto)
  then show ?case using mono step d k m
    by (subst month_loop.simps) (simp add: algebra_simps)
qed

lemma month_of_day:
  assumes "0 \<le> e" "e < (if ly then 366 else 365)"
  obtains m d where "1 \<le> m" "m \<le> 12" "0 \<le> d" "d < month_length ly m" "e = month_days ly m + d"
proof -
  have "\<exists>m. 1 \<le> m \<and> m \<le> 12 \<and> month_days ly m \<le> e \<and> e < month_days ly m + month_length ly m"
  proof (rule ccontr)
    assume "\<not> ?thesis"
    then have n: "1 \<le> m \<Longrightarrow> m \<le> 12 \<Longrightarrow> month_days ly m \<le> e \<Longrightarrow> month_days ly m + month_length ly m \<le> e" for m
      by (meson not_le)
    show False using assms n [of 1] n [of 2] n [of 3] n [of 4] n [of 5] n [of 6] n [of 7] n [of 8] n [of 9]
        n [of 10] n [of 11] n [of 12] by (cases ly) (simp_all add: month_tables)
  qed
  then obtain m where "1 \<le> m" "m \<le> 12" "month_days ly m \<le> e" "e < month_days ly m + month_length ly m" by blast
  then show ?thesis using that [of m "e - month_days ly m"] by simp
qed

lemma month_days_range: "1 \<le> m \<Longrightarrow> m \<le> 12 \<Longrightarrow> 0 \<le> d \<Longrightarrow> d < month_length ly m \<Longrightarrow>
    0 \<le> month_days ly m + d \<and> month_days ly m + d < (if ly then 366 else 365)"
  by (rule month_cases [of m]; cases ly; simp add: month_tables)

section \<open>Conversion to and from day numbers\<close>

text \<open>A full date has all the fields; its day number and the second within the day.\<close>

definition full :: "date \<Rightarrow> bool" where
  "full d \<longleftrightarrow> valid d \<and> dfrom d = DATE_YEAR \<and> dto d = DATE_SECOND"

definition day_no :: "date \<Rightarrow> int" where
  "day_no d = days (fld d 0) + month_days (leap (fld d 0)) (fld d 1) + fld d 2 - 1 - 25567"

definition sec_no :: "date \<Rightarrow> int" where
  "sec_no d = fld d 5 + 60 * (fld d 4 + 60 * fld d 3)"

lemma less_6_cases: "(\<forall>i < (6::nat). P i) \<longleftrightarrow> P 0 \<and> P 1 \<and> P 2 \<and> P 3 \<and> P 4 \<and> P 5"
  by (simp add: numeral_eq_Suc All_less_Suc) blast

lemma date_check_value:
  assumes "dfrom d = 0" "2 \<le> dto d" "1 \<le> fld d 1" "fld d 1 \<le> 12" "1 \<le> fld d 2"
  shows "date_check d = Inr (fld d 2 \<le> month_length (leap (fld d 0)) (fld d 1))"
  by (rule month_cases [OF assms(3,4)]; simp add: assms date_check_def mlen_check_def month_length_def Let_def; auto)

lemma full_fields:
  assumes "full d"
  shows "length (dx d) = 6" "0 \<le> fld d 0" "fld d 0 \<le> 255" "1 \<le> fld d 1" "fld d 1 \<le> 12" "1 \<le> fld d 2"
    "fld d 2 \<le> month_length (leap (fld d 0)) (fld d 1)" "0 \<le> fld d 3" "fld d 3 \<le> 23" "0 \<le> fld d 4"
    "fld d 4 \<le> 59" "0 \<le> fld d 5" "fld d 5 \<le> 59" "dfrom d = 0" "dto d = 5"
proof -
  have v: "valid d" "dfrom d = 0" "dto d = 5" using assms by (simp_all add: full_def)
  then have f: "\<forall>i < 6. in_field i (fld d i)" by (auto simp: valid_def)
  show l: "length (dx d) = 6" and r: "0 \<le> fld d 0" "fld d 0 \<le> 255" "1 \<le> fld d 1" "fld d 1 \<le> 12" "1 \<le> fld d 2"
    "0 \<le> fld d 3" "fld d 3 \<le> 23" "0 \<le> fld d 4" "fld d 4 \<le> 59" "0 \<le> fld d 5" "fld d 5 \<le> 59"
    "dfrom d = 0" "dto d = 5"
    using v(2,3) v(1) [unfolded valid_def] f [unfolded less_6_cases in_field_def field_range_def field_base_def]
    by simp_all
  show "fld d 2 \<le> month_length (leap (fld d 0)) (fld d 1)"
    using date_check_value [of d] r v by (simp add: valid_def)
qed

lemma month_length_31: "1 \<le> m \<Longrightarrow> m \<le> 12 \<Longrightarrow> month_length ly m \<le> 31"
  by (rule month_cases [of m]; cases ly; simp add: month_tables)

lemma fullI:
  assumes "dx d = [a, b, c, e, f, g]" "dfrom d = 0" "dto d = 5" "int a \<le> 255" "1 \<le> int b" "int b \<le> 12" "1 \<le> int c"
    "int c \<le> month_length (leap (int a)) (int b)" "int e \<le> 23" "int f \<le> 59" "int g \<le> 59"
  shows "full d"
proof -
  have fl: "fld d 0 = int a" "fld d 1 = int b" "fld d 2 = int c" "fld d 3 = int e" "fld d 4 = int f" "fld d 5 = int g"
    using assms(1) by (simp_all add: fld_def)
  have m: "int c \<le> 31" using month_length_31 [of "int b" "leap (int a)"] assms by simp
  have "\<forall>i < 6. in_field i (fld d i)"
    unfolding less_6_cases using assms fl m by (simp add: in_field_def field_range_def field_base_def)
  then have "\<forall>i \<in> {0..5}. in_field i (fld d i)" by auto
  moreover have "date_check d = Inr True" using date_check_value [of d] assms fl by simp
  ultimately show ?thesis using assms by (simp add: full_def valid_def)
qed

lemma length_6: "length xs = 6 \<Longrightarrow> \<exists>a b c d e f. xs = [a, b, c, d, e, f]"
  by (auto simp: numeral_eq_Suc length_Suc_conv)

lemma date_extend_id: "length (dx d) = 6 \<Longrightarrow> dfrom d = 0 \<Longrightarrow> dto d = 5 \<Longrightarrow> date_extend now d nd 0 5 = d"
proof -
  assume "length (dx d) = 6" "dfrom d = 0" "dto d = 5"
  moreover from this have "map (\<lambda>i. dx d ! i) [0..<6] = dx d" by (metis map_nth)
  moreover have "map (\<lambda>i. if i < dfrom d then dx nd ! i else if i \<le> dto d then dx d ! i else 0) [0..<6] =
      map (\<lambda>i. dx d ! i) [0..<6]" by (rule map_cong) (use calculation in auto)
  ultimately show ?thesis by (simp add: date_extend_def)
qed

lemma date_to_n_full:
  assumes "full d"
  shows "date_to_n now d = Inr (day_no d, sec_no d)"
proof -
  note f = full_fields [OF assms]
  have "cdiv (fld d 0 + 3) 4 = (fld d 0 + 3) div 4" "cdiv (fld d 0 + 99) 100 = (fld d 0 + 99) div 100"
      "cdiv (fld d 0 + 299) 400 = (fld d 0 + 299) div 400"
    using f(2) by (simp_all add: cdiv_nonneg)
  then show ?thesis using f
    by (simp add: date_to_n_def date_extend_id Let_def day_no_def sec_no_def days_def month_days_def)
qed

lemma sec_no_range: "full d \<Longrightarrow> 0 \<le> sec_no d \<and> sec_no d < 86400"
  using full_fields(8-13) [of d] by (simp add: sec_no_def)

text \<open>The date of a day number; the seconds may run over the day.\<close>

definition clock_fields :: "int \<Rightarrow> int \<Rightarrow> int \<Rightarrow> int \<Rightarrow> nat list" where
  "clock_fields y m e s = map uchar [y, m, 1 + e, s div 3600, s mod 3600 div 60, s mod 60]"

lemma sec_split: "(s::int) - (60 * (s mod 3600 div 60) + 3600 * (s div 3600)) = s mod 60"
proof -
  define q r where "q = s div 3600" and "r = s mod 3600"
  define u w where "u = r div 60" and "w = r mod 60"
  have 1: "3600 * q + r = s" unfolding q_def r_def by (rule mult_div_mod_eq)
  have 2: "60 * u + w = r" unfolding u_def w_def by (rule mult_div_mod_eq)
  have 3: "s mod 60 = w" unfolding w_def r_def by (rule mod_mod_cancel [symmetric]) simp
  show ?thesis unfolding 3 q_def [symmetric] r_def [symmetric] u_def [symmetric] using 1 2 by linarith
qed

lemma n_to_date_ok:
  assumes ns: "0 \<le> ns" and N: "nd + ns div 86400 + 25567 = days y + (month_days (leap y) m + e)"
    and y: "0 \<le> y" "y \<le> 255" and m: "1 \<le> m" "m \<le> 12" and e: "0 \<le> e" "e < month_length (leap y) m"
  shows "n_to_date nd ns f t = Inr \<lparr>dfrom = f, dto = t, dx = clock_fields y m e (ns mod 86400)\<rparr>"
proof -
  let ?N = "days y + (month_days (leap y) m + e)"
  have h: "cdiv (cdiv ns 3600) 24 = ns div 86400"
    using ns by (simp add: cdiv_nonneg zdiv_zmult2_eq [symmetric] pos_imp_zdiv_nonneg_iff)
  have r: "0 \<le> month_days (leap y) m + e" "month_days (leap y) m + e < year_length y"
    using month_days_range [OF m e] by (simp_all add: year_length_def)
  have up: "?N < days 256" using days_mono [of "y + 1" 256] days_step [of y] y r by simp
  have lo: "0 \<le> ?N" using days_mono [of 0 y] y r by (simp add: days_0)
  have c: "chk32 (nd + ns div 86400) = Inr (?N - 25567)" "chk32 (?N - 25567 + 25567) = Inr ?N"
    using N up lo unfolding days_256 by (auto simp: chk32_def in_int32_def)
  define y0 where "y0 = ?N div 366"
  have y0: "0 \<le> y0" "cdiv ?N 366 = y0" using lo by (simp_all add: y0_def cdiv_nonneg pos_imp_zdiv_nonneg_iff)
  have d0: "365 * y0 + cdiv (y0 + 3) 4 - cdiv (y0 + 99) 100 + cdiv (y0 + 299) 400 = days y0"
    using y0(1) by (simp add: days_def cdiv_nonneg)
  have "366 * y0 = ?N - ?N mod 366" unfolding y0_def by (rule minus_mod_eq_mult_div [symmetric])
  then have "366 * y0 \<le> ?N" using pos_mod_sign [of 366 ?N] by linarith
  then have nn: "0 \<le> ?N - days y0" using days_upper [OF y0(1)] by simp
  obtain z q where z: "year_loop y0 (?N - days y0) = (z, q)" by force
  have "days z + q = ?N" "0 \<le> q" "q < year_length z" using year_loop_ok [OF nn z] by simp_all
  then have zq: "z = y" "q = month_days (leap y) m + e"
    using days_unique [of z q y "month_days (leap y) m + e"] r by auto
  have ml: "month_loop (leap y) 1 (month_days (leap y) m + e) = (m, e)"
    using month_loop_in [OF m e, of 1] m by (simp add: month_days_def month_start_def)
  let ?s = "ns - ns div 86400 * 3600 * 24"
  have s: "?s = ns mod 86400" by (simp add: minus_div_mult_eq_mod [symmetric])
  have s1: "0 \<le> ns mod 86400" "ns mod 86400 < 86400" by simp_all
  note s2 = leD [OF s1(1)] s1(2) [folded linorder_not_le]
  let ?h = "ns mod 86400 div 3600"
  have hm: "cdiv (ns mod 86400) 3600 = ?h"
      "cdiv (ns mod 86400 - 3600 * ?h) 60 = ns mod 86400 mod 3600 div 60"
    using s1 by (simp_all add: cdiv_nonneg minus_mult_div_eq_mod)
  show ?thesis unfolding n_to_date_def h Let_def
    using c lo y s1 unfolding s
    by (simp add: y0(2) d0 z zq ml hm s2 sec_split clock_fields_def)
qed

text \<open>\<open>n_to_date\<close> inverts the numbering on full dates, and hits every day number of its range.\<close>

lemma days_year_0: "0 \<le> N \<Longrightarrow> N < days 256 \<Longrightarrow>
    \<exists>y e. 0 \<le> y \<and> y \<le> 255 \<and> 0 \<le> e \<and> e < year_length y \<and> N = days y + e"
proof -
  assume N: "0 \<le> N" "N < days 256"
  obtain y e where l: "year_loop 0 N = (y, e)" by force
  have r: "0 \<le> y" "0 \<le> e" "e < year_length y" "days y + e = N"
    using year_loop_ok [OF N(1) l] by (simp_all add: days_0)
  have "y \<le> 255" using days_mono [of 256 y] N r by (cases "256 \<le> y") auto
  then show ?thesis using r by blast
qed

lemma byte_date_full:
  assumes y: "0 \<le> y" "y \<le> 255" and m: "1 \<le> m" "m \<le> 12" and c: "1 \<le> c" "c \<le> month_length (leap y) m"
    and t: "0 \<le> h" "h \<le> 23" "0 \<le> mi" "mi \<le> 59" "0 \<le> s" "s \<le> 59"
    and d: "dfrom d = 0" "dto d = 5" "dx d = map uchar [y, m, c, h, mi, s]"
  shows "full d" "fld d 0 = y" "fld d 1 = m" "fld d 2 = c" "fld d 3 = h" "fld d 4 = mi" "fld d 5 = s"
proof -
  have "c \<le> 31" using month_length_31 [OF m, of "leap y"] c by simp
  then have u: "int (uchar y) = y" "int (uchar m) = m" "int (uchar c) = c" "int (uchar h) = h"
      "int (uchar mi) = mi" "int (uchar s) = s"
    using y m c t by (auto intro!: uchar_int)
  show "full d" by (rule fullI [OF d(3) [simplified] d(1,2)]) (use y m c t in \<open>simp_all add: u\<close>)
  show "fld d 0 = y" "fld d 1 = m" "fld d 2 = c" "fld d 3 = h" "fld d 4 = mi" "fld d 5 = s"
    by (simp_all add: fld_def d u)
qed

lemma clock_fields_full:
  assumes s: "0 \<le> s" "s < 86400" and y: "0 \<le> y" "y \<le> 255" and m: "1 \<le> m" "m \<le> 12"
    and e: "0 \<le> e" "e < month_length (leap y) m"
    and d: "dfrom d = 0" "dto d = 5" "dx d = clock_fields y m e s"
  shows "full d" "day_no d = days y + (month_days (leap y) m + e) - 25567" "sec_no d = s"
proof -
  have r: "0 \<le> s div 3600" "s div 3600 \<le> 23" "0 \<le> s mod 3600 div 60" "s mod 3600 div 60 \<le> 59"
      "0 \<le> s mod 60" "s mod 60 \<le> 59"
    using s zdiv_mono1 [of s 86399 3600] zdiv_mono1 [of "s mod 3600" 3599 60]
    by (simp_all add: pos_imp_zdiv_nonneg_iff)
  have e': "1 \<le> 1 + e" "1 + e \<le> month_length (leap y) m" using e by simp_all
  note f = byte_date_full [OF y m e' r d [unfolded clock_fields_def]]
  show "full d" by (rule f(1))
  show "day_no d = days y + (month_days (leap y) m + e) - 25567" by (simp add: day_no_def f del: One_nat_def)
  show "sec_no d = s" using sec_split [of s] by (simp add: sec_no_def f)
qed

lemma full_clock_fields:
  assumes "full d"
  shows "clock_fields (fld d 0) (fld d 1) (fld d 2 - 1) (sec_no d) = dx d"
proof -
  note f = full_fields [OF assms]
  obtain a b c h mi s where x: "dx d = [a, b, c, h, mi, s]" using length_6 [OF f(1)] by blast
  have fl: "fld d 0 = int a" "fld d 1 = int b" "fld d 2 = int c" "fld d 3 = int h" "fld d 4 = int mi" "fld d 5 = int s"
    using x by (simp_all add: fld_def)
  have c: "int c \<le> 31" using month_length_31 [OF f(4,5), of "leap (fld d 0)"] f(7) fl by simp
  have s: "sec_no d = int s + 60 * int mi + 3600 * int h" by (simp add: sec_no_def fl)
  have b: "int s + 60 * int mi < 3600" "0 \<le> int s + 60 * int mi" "int s < 60" "0 \<le> int s" using f fl by simp_all
  have 1: "sec_no d div 3600 = int h" "sec_no d mod 3600 = int s + 60 * int mi"
    unfolding s using b(1,2) by (simp_all add: div_pos_pos_trivial mod_pos_pos_trivial)
  have 2: "(int s + 60 * int mi) div 60 = int mi" "(int s + 60 * int mi) mod 60 = int s"
    using b(3,4) by (simp_all add: div_pos_pos_trivial mod_pos_pos_trivial)
  have 3: "sec_no d mod 60 = int s"
    using 1(2) 2(2) mod_mod_cancel [of 60 3600 "sec_no d"] by simp
  show ?thesis unfolding clock_fields_def x 1 2 3 fl using f fl c by (simp add: uchar_def)
qed

lemma n_to_date_day_no:
  assumes "full d"
  shows "n_to_date (day_no d) (sec_no d) f t = Inr \<lparr>dfrom = f, dto = t, dx = dx d\<rparr>"
proof -
  note f = full_fields [OF assms]
  have s: "sec_no d div 86400 = 0" "sec_no d mod 86400 = sec_no d" "0 \<le> sec_no d"
    using sec_no_range [OF assms] by (simp_all add: div_pos_pos_trivial mod_pos_pos_trivial)
  show ?thesis
    using n_to_date_ok [OF s(3), of "day_no d" "fld d 0" "fld d 1" "fld d 2 - 1" f t] f
    by (simp add: s full_clock_fields [OF assms] day_no_def del: One_nat_def)
qed

lemma n_to_date_full:
  assumes ns: "0 \<le> ns" and N: "0 \<le> nd + ns div 86400 + 25567" "nd + ns div 86400 + 25567 < 93502"
  obtains d where "full d" "\<And>f t. n_to_date nd ns f t = Inr \<lparr>dfrom = f, dto = t, dx = dx d\<rparr>"
    "day_no d = nd + ns div 86400" "sec_no d = ns mod 86400"
proof -
  obtain y q where y: "0 \<le> y" "y \<le> 255" "0 \<le> q" "q < year_length y" "nd + ns div 86400 + 25567 = days y + q"
    using days_year_0 [of "nd + ns div 86400 + 25567"] N by (auto simp: days_256)
  obtain m e where m: "1 \<le> m" "m \<le> 12" "0 \<le> e" "e < month_length (leap y) m" "q = month_days (leap y) m + e"
    using month_of_day [OF y(3), of "leap y"] y(4) by (auto simp: year_length_def)
  let ?d = "\<lparr>dfrom = 0, dto = 5, dx = clock_fields y m e (ns mod 86400)\<rparr>"
  have s: "0 \<le> ns mod 86400" "ns mod 86400 < 86400" by simp_all
  have d: "dfrom ?d = 0" "dto ?d = 5" "dx ?d = clock_fields y m e (ns mod 86400)" by simp_all
  note c = clock_fields_full [OF s y(1,2) m(1-4) d]
  have N': "nd + ns div 86400 + 25567 = days y + (month_days (leap y) m + e)" using y(5) m(5) by simp
  show ?thesis
    by (rule that [of ?d]) (simp_all add: c n_to_date_ok [OF ns N' y(1,2) m(1-4)] N' [symmetric])
qed

section \<open>Dates that start with the year\<close>

lemma fld_extend:
  assumes "dfrom d = 0" "i < 6"
  shows "fld (date_extend now d nd 0 5) i =
    (if i \<le> dto d then fld d i else if i = 1 \<or> i = 2 then 1 else 0)"
  using assms by (auto simp: date_extend_def fld_def nth_list_update numeral_2_eq_2 [symmetric] Let_def)

lemma extend_fields [simp]: "dfrom (date_extend now d nd f t) = f" "dto (date_extend now d nd f t) = t"
    "length (dx (date_extend now d nd f t)) = 6"
  by (simp_all add: date_extend_def Let_def)

lemma in_field_default: "i < 6 \<Longrightarrow> in_field i (if i = 1 \<or> i = 2 then 1 else 0)"
  by (auto simp: in_field_def field_range_def field_base_def)

lemma month_length_pos: "1 \<le> m \<Longrightarrow> m \<le> 12 \<Longrightarrow> 28 \<le> month_length ly m"
  by (rule month_cases [of m]; cases ly; simp add: month_tables)

lemma extend_full:
  assumes v: "valid d" and f: "dfrom d = 0"
  shows "full (date_extend now d nd 0 5)"
proof -
  let ?x = "date_extend now d nd 0 5"
  note fl = fld_extend [OF f, of _ now nd]
  have i: "\<forall>i \<in> {0..5}. in_field i (fld ?x i)"
    using v f in_field_default by (auto simp: fl valid_def)
  have c: "date_check ?x = Inr True"
  proof (cases "2 \<le> dto d")
    case True
    then have "same_fields (d\<lparr>dto := 2\<rparr>) (?x\<lparr>dto := 2\<rparr>)"
      unfolding same_fields_def using f fl by (simp add: fld_def)
    from date_check_cong [OF this] have "date_check (?x\<lparr>dto := 2\<rparr>) = date_check (d\<lparr>dto := 2\<rparr>)" .
    moreover have "date_check (e\<lparr>dto := 2\<rparr>) = date_check e" if "2 \<le> dto e" for e
      using that by (simp add: date_check_def fld_def Let_def)
    ultimately show ?thesis using True v by (simp add: valid_def)
  next
    case False
    then have d: "fld ?x 2 = 1" by (simp add: fl)
    have m: "in_field 1 (fld ?x 1)" using i by simp
    then show ?thesis using date_check_value [of ?x] month_length_pos [of "fld ?x 1" "leap (fld ?x 0)"] d
      by (simp add: in_field_def field_range_def field_base_def)
  qed
  show ?thesis using i c by (simp add: full_def valid_def)
qed

text \<open>The full date that \<open>date_to_n\<close> works on.\<close>

abbreviation ext :: "tm \<Rightarrow> date \<Rightarrow> date" where
  "ext now d \<equiv> date_extend now d d DATE_YEAR DATE_SECOND"

lemma date_to_n_year:
  assumes "valid d" "dfrom d = 0"
  shows "date_to_n now d = Inr (day_no (ext now d), sec_no (ext now d))"
proof -
  have f: "full (ext now d)" by (rule extend_full [OF assms])
  have "ext now (ext now d) = ext now d" by (rule date_extend_id) (use full_fields(1,14,15) [OF f] in auto)
  then have "date_to_n now d = date_to_n now (ext now d)" by (simp add: date_to_n_def)
  then show ?thesis using date_to_n_full [OF f] by simp
qed

lemma full_eq: "full x \<Longrightarrow> full y \<Longrightarrow> day_no x = day_no y \<Longrightarrow> sec_no x = sec_no y \<Longrightarrow> dx x = dx y"
  using n_to_date_day_no [of x 0 0] n_to_date_day_no [of y 0 0] by auto

text \<open>The clock fields follow from the second of the day.\<close>

lemma sec_no_fields:
  assumes "full x"
  shows "fld x 3 = sec_no x div 3600" "fld x 4 = sec_no x mod 3600 div 60" "fld x 5 = sec_no x mod 60"
proof -
  note f = full_fields [OF assms]
  have b: "fld x 5 + 60 * fld x 4 < 3600" "0 \<le> fld x 5 + 60 * fld x 4" using f by simp_all
  have s: "sec_no x = fld x 5 + 60 * fld x 4 + 3600 * fld x 3" by (simp add: sec_no_def)
  have 1: "sec_no x div 3600 = fld x 3" "sec_no x mod 3600 = fld x 5 + 60 * fld x 4"
    unfolding s using b by (simp_all add: div_pos_pos_trivial mod_pos_pos_trivial)
  have 2: "(fld x 5 + 60 * fld x 4) div 60 = fld x 4" "(fld x 5 + 60 * fld x 4) mod 60 = fld x 5"
    using f by (simp_all add: div_pos_pos_trivial mod_pos_pos_trivial)
  have 3: "sec_no x mod 3600 mod 60 = sec_no x mod 60" by (rule mod_mod_cancel) simp
  show "fld x 3 = sec_no x div 3600" "fld x 4 = sec_no x mod 3600 div 60" "fld x 5 = sec_no x mod 60"
    using 1 2 3 by simp_all
qed

text \<open>A full date cut to the range of \<open>d\<close>.\<close>

definition cut :: "nat \<Rightarrow> date \<Rightarrow> date" where
  "cut t x = \<lparr>dfrom = 0, dto = t, dx = dx x\<rparr>"

lemma date_check_cut:
  assumes "full x"
  shows "date_check (cut t x) = Inr True"
proof (cases "2 \<le> t")
  case True
  then have "date_check (cut t x) = date_check x"
    using full_fields(14,15) [OF assms] by (simp add: date_check_def cut_def fld_def Let_def)
  then show ?thesis using assms by (simp add: full_def valid_def)
qed (simp add: cut_def date_check_def)

lemma valid_cut: "full x \<Longrightarrow> t \<le> 5 \<Longrightarrow> valid (cut t x)"
  using full_fields(1) [of x] date_check_cut [of x t]
  by (auto simp: valid_def full_def cut_def fld_def)

lemma extend_cut:
  assumes x: "full x" and t: "\<forall>i. t < i \<and> i \<le> 5 \<longrightarrow> fld x i = (if i = 1 \<or> i = 2 then 1 else 0)"
  shows "date_extend now (cut t x) nd 0 5 = x"
proof -
  note f = full_fields [OF x]
  have fl: "fld (date_extend now (cut t x) nd 0 5) i = fld x i" if "i < 6" for i
    using fld_extend [of "cut t x" i now nd] that t by (auto simp: cut_def fld_def)
  have "dx (date_extend now (cut t x) nd 0 5) = dx x"
  proof (rule nth_equalityI)
    fix i assume "i < length (dx (date_extend now (cut t x) nd 0 5))"
    then show "dx (date_extend now (cut t x) nd 0 5) ! i = dx x ! i" using fl [of i] by (simp add: fld_def)
  qed (simp add: f)
  then show ?thesis using f by simp
qed

lemma cut_extend_dto: "valid d \<Longrightarrow> dfrom d = 0 \<Longrightarrow> same_fields d (cut (dto d) (date_extend now d nd 0 5))"
  using fld_extend [of d _ now nd] by (auto simp: same_fields_def cut_def fld_def valid_def)

end
