(* ===== verification/DateProps.thy ===== *)
theory DateProps
  imports DateLaws
begin

text \<open>
  The laws of comparison and arithmetic on dates, and the properties of the date component.
\<close>

section \<open>Comparison\<close>

definition instant :: "date \<Rightarrow> int" where
  "instant d = 86400 * day_no d + sec_no d"

text \<open>The first field in which two full dates differ decides.\<close>

lemma day_no_year_mono:
  assumes "full d1" "full d2" "fld d1 0 < fld d2 0"
  shows "day_no d1 < day_no d2"
proof -
  note f1 = full_fields [OF assms(1)] and f2 = full_fields [OF assms(2)]
  have "month_days (leap (fld d1 0)) (fld d1 1) + (fld d1 2 - 1) < year_length (fld d1 0)"
    using month_days_range [of "fld d1 1" "fld d1 2 - 1" "leap (fld d1 0)"] f1
    by (simp add: year_length_def)
  moreover have "0 \<le> month_days (leap (fld d2 0)) (fld d2 1) + (fld d2 2 - 1)"
    using month_days_range [of "fld d2 1" "fld d2 2 - 1" "leap (fld d2 0)"] f2 by simp
  moreover have "days (fld d1 0) + year_length (fld d1 0) \<le> days (fld d2 0)"
    using days_mono [of "fld d1 0 + 1" "fld d2 0"] days_step [of "fld d1 0"] assms(3) by simp
  ultimately show ?thesis by (simp add: day_no_def)
qed

lemma day_no_month_mono:
  assumes "full d1" "full d2" "fld d1 0 = fld d2 0" "fld d1 1 < fld d2 1"
  shows "day_no d1 < day_no d2"
proof -
  note f1 = full_fields [OF assms(1)] and f2 = full_fields [OF assms(2)]
  let ?ly = "leap (fld d1 0)"
  have "month_days ?ly (fld d1 1) + month_length ?ly (fld d1 1) = month_days ?ly (fld d1 1 + 1)"
    by (rule month_loop_step [symmetric]) (use f1 f2 assms in auto)
  also have "\<dots> \<le> month_days ?ly (fld d2 1)"
    by (rule month_days_mono) (use f1 f2 assms in auto)
  finally show ?thesis using f1 f2 assms by (simp add: day_no_def)
qed

lemma day_no_day_mono:
  "fld d1 0 = fld d2 0 \<Longrightarrow> fld d1 1 = fld d2 1 \<Longrightarrow> fld d1 2 < fld d2 2 \<Longrightarrow> day_no d1 < day_no d2"
  by (simp add: day_no_def)

lemma instant_day_mono: "full d1 \<Longrightarrow> full d2 \<Longrightarrow> day_no d1 < day_no d2 \<Longrightarrow> instant d1 < instant d2"
  using sec_no_range [of d1] sec_no_range [of d2] by (simp add: instant_def)

lemma day_no_eq: "fld d1 0 = fld d2 0 \<Longrightarrow> fld d1 1 = fld d2 1 \<Longrightarrow> fld d1 2 = fld d2 2 \<Longrightarrow>
    day_no d1 = day_no d2"
  by (simp add: day_no_def)

lemma instant_time_mono:
  assumes "full d1" "full d2" "day_no d1 = day_no d2"
    "fld d1 3 < fld d2 3 \<or> fld d1 3 = fld d2 3 \<and> (fld d1 4 < fld d2 4 \<or> fld d1 4 = fld d2 4 \<and> fld d1 5 < fld d2 5)"
  shows "instant d1 < instant d2"
  using full_fields [OF assms(1)] full_fields [OF assms(2)] assms(3,4)
  by (auto simp: instant_def sec_no_def)

lemma compare_fields_swap: "compare_fields is d2 d1 = - compare_fields is d1 d2"
  by (induction "is") (auto simp: Let_def)

lemma compare_less:
  assumes f: "full d1" "full d2"
  shows "compare_fields [0..<6] d1 d2 = - 1 \<Longrightarrow> instant d1 < instant d2"
proof -
  have u: "[0..<6] = [0::nat, 1, 2, 3, 4, 5]" by (simp add: upt_rec)
  assume "compare_fields [0..<6] d1 d2 = - 1"
  then consider "fld d1 0 < fld d2 0" | "fld d1 0 = fld d2 0" "fld d1 1 < fld d2 1"
    | "fld d1 0 = fld d2 0" "fld d1 1 = fld d2 1" "fld d1 2 < fld d2 2"
    | "fld d1 0 = fld d2 0" "fld d1 1 = fld d2 1" "fld d1 2 = fld d2 2"
      "fld d1 3 < fld d2 3 \<or> fld d1 3 = fld d2 3 \<and> (fld d1 4 < fld d2 4 \<or> fld d1 4 = fld d2 4 \<and> fld d1 5 < fld d2 5)"
    unfolding u using full_fields(15) [OF f(1)] full_fields(15) [OF f(2)]
    by (simp add: Let_def del: One_nat_def split: if_splits)
  then show ?thesis
    using instant_day_mono [OF f day_no_year_mono [OF f]] instant_day_mono [OF f day_no_month_mono [OF f]]
      instant_day_mono [OF f day_no_day_mono] instant_time_mono [OF f day_no_eq] by cases auto
qed

lemma compare_range: "compare_fields is d1 d2 \<in> {- 1, 0, 1}"
  by (induction "is") (auto simp: Let_def)

lemma fields_instant:
  assumes f: "full d1" "full d2" and e: "compare_fields [0..<6] d1 d2 = 0"
  shows "instant d1 = instant d2"
proof -
  have "\<forall>i < 6. fld d1 i = fld d2 i"
    using e full_fields(15) [OF f(1)] full_fields(15) [OF f(2)] unfolding compare_fields_eq by simp
  then show ?thesis by (simp add: instant_def day_no_def sec_no_def)
qed

section \<open>Arithmetic\<close>

lemma get_date_arg: "res_bind (APOINTER (Suc 0) (VObj d # args)) get_date = Inr d"
  by (simp add: APOINTER_def get_date_def)

lemma date_add_value:
  assumes "valid d" "dfrom d = 0" "in_int32 a"
    and f: "f (day_no (ext now d)) (sec_no (ext now d)) a = Inr (nd, ns)"
  shows "date_add now [VObj d, NEW_NUMBER a] f = res_bind (n_to_date nd ns 0 (dto d)) make_date"
  using date_to_n_year [OF assms(1,2), of now] AINT_number [of 2 "[VObj d, NEW_NUMBER a]" a] assms
  by (simp add: date_add_def ARG_NUMBER_def APOINTER_def get_date_def)

lemma date_add_full:
  assumes d: "valid d" "dfrom d = 0" "in_int32 a"
    and f: "f (day_no (ext now d)) (sec_no (ext now d)) a = Inr (nd, ns)"
    and ns: "0 \<le> ns" and N: "0 \<le> nd + ns div 86400 + 25567" "nd + ns div 86400 + 25567 < 93502"
  obtains x where "full x" "date_add now [VObj d, NEW_NUMBER a] f = Inr (VObj (cut (dto d) x))"
    "day_no x = nd + ns div 86400" "sec_no x = ns mod 86400"
proof -
  obtain x where x: "full x" "n_to_date nd ns 0 (dto d) = Inr (cut (dto d) x)"
      "day_no x = nd + ns div 86400" "sec_no x = ns mod 86400"
    using n_to_date_full [OF ns N] unfolding cut_def by metis
  show ?thesis
    by (rule that [OF x(1) _ x(3,4)])
      (use date_add_value [of d a f now nd ns] d f in
        \<open>simp add: x(2) make_date_def date_check_cut [OF x(1)]\<close>)
qed

section \<open>Months and years\<close>

text \<open>\<open>moved d y m k d'\<close>: \<open>d'\<close> is \<open>d\<close> with the year \<open>y\<close>, the month \<open>m\<close> and the day \<open>k\<close>.\<close>

definition moved :: "date \<Rightarrow> int \<Rightarrow> int \<Rightarrow> int \<Rightarrow> date \<Rightarrow> bool" where
  "moved d y m k d' \<longleftrightarrow> dfrom d' = dfrom d \<and> dto d' = dto d \<and> length (dx d') = 6 \<and>
     fld d' 0 = y \<and> fld d' 1 = m \<and> fld d' 2 = k \<and> (\<forall>i. 2 < i \<longrightarrow> fld d' i = fld d i)"

lemma moved_ym:
  assumes "length (dx d) = 6" "0 \<le> y" "y < 256" "1 \<le> m" "m \<le> 12"
  shows "moved d y m (fld d 2) (set_fld 0 y (set_fld 1 m d))"
  using assms by (simp add: moved_def fld_set_fld)

lemma moved_day:
  assumes "moved d y m k d'" "0 \<le> l" "l < 256"
  shows "moved d y m l (set_fld 2 l d')"
  using assms by (simp add: moved_def fld_set_fld)

lemma make_date_moved:
  assumes "moved d y m k d'" "dfrom d = 0" "2 \<le> dto d" "1 \<le> m" "m \<le> 12" "1 \<le> k"
  shows "make_date d' = (if k \<le> month_length (leap y) m then Inr (VObj d') else Inl (Lush ''Illegal date''))"
  using date_check_value [of d'] assms by (simp add: make_date_def moved_def)

lemma mlen_add_length: "1 \<le> m \<Longrightarrow> m \<le> 12 \<Longrightarrow>
    (if m = 2 \<and> leap y then mlen_add ! nat (m - 1) + 1 else mlen_add ! nat (m - 1)) = month_length (leap y) m"
  by (rule month_cases [of m]; simp add: mlen_add_def month_length_def)

lemma month_split:
  assumes "0 \<le> (M::int)" "M < 3072"
  shows "0 \<le> M div 12" "M div 12 < 256" "1 \<le> M mod 12 + 1" "M mod 12 + 1 \<le> 12"
    "M - 12 * (M div 12) + 1 = M mod 12 + 1" "cdiv M 12 = M div 12"
  using assms zdiv_mono1 [of M 3071 12] pos_mod_bound [of 12 M]
  by (simp_all add: pos_imp_zdiv_nonneg_iff cdiv_nonneg minus_mult_div_eq_mod)

lemma valid_day: "valid d \<Longrightarrow> dfrom d = 0 \<Longrightarrow> 2 \<le> dto d \<Longrightarrow> 0 \<le> fld d 0 \<and> fld d 0 < 256 \<and>
    1 \<le> fld d 1 \<and> fld d 1 \<le> 12 \<and> 1 \<le> fld d 2 \<and> fld d 2 \<le> 31 \<and> fld d 2 \<le> month_length (leap (fld d 0)) (fld d 1)"
proof -
  assume v: "valid d" "dfrom d = 0" "2 \<le> dto d"
  then have "\<forall>i \<in> {0..dto d}. in_field i (fld d i)" by (simp add: valid_def)
  then have "in_field 0 (fld d 0)" "in_field 1 (fld d 1)" "in_field 2 (fld d 2)" using v by simp_all
  then have r: "0 \<le> fld d 0 \<and> fld d 0 < 256 \<and> 1 \<le> fld d 1 \<and> fld d 1 \<le> 12 \<and> 1 \<le> fld d 2 \<and> fld d 2 \<le> 31"
    by (simp add: in_field_def field_range_def field_base_def)
  then show ?thesis using date_check_value [of d] v by (simp add: valid_def)
qed

text \<open>The shifted month, the last day of it, and the start of the call.\<close>

lemma shift_month_ok:
  assumes d: "valid d" "dfrom d = 0" "2 \<le> dto d" and a: "in_int32 add"
    and M: "M = 12 * fld d 0 + fld d 1 - 1 + add" "in_int32 M"
  shows "shift_month d add = (if M < 0 \<or> M \<ge> 3072 then Inl (Lush ''date out of range'')
    else Inr (M mod 12 + 1, M div 12, set_fld 0 (M div 12) (set_fld 1 (M mod 12 + 1) d)))"
  using d(2) month_split [of M] M by (auto simp: shift_month_def chk32_def Let_def)

lemma add_month_start:
  assumes d: "valid d" "dfrom d = 0" "2 \<le> dto d" and a: "in_int32 add"
    and M: "M = 12 * fld d 0 + fld d 1 - 1 + add" "0 \<le> M" "M < 3072"
  defines "y \<equiv> M div 12" and "m \<equiv> M mod 12 + 1"
  defines "b \<equiv> set_fld 0 y (set_fld 1 m d)" and "lst \<equiv> month_length (leap y) m"
  shows "xdate_add_month [VObj d, NEW_NUMBER add, opt] =
    (if opt = VSym ''end-of-month'' then make_date (set_fld 2 lst b)
     else if opt = VSym ''noerror'' \<or> opt = VSym ''no-error''
     then if fld d 2 > lst then Inr VNil else make_date b
     else if opt \<noteq> VNil \<and> fld d 2 > lst then make_date (set_fld 2 lst b) else make_date b)"
proof -
  have i: "in_int32 M" using M by (simp add: in_int32_def)
  note s = month_split [OF M(2,3), folded y_def, folded m_def]
  have sm: "shift_month d add = Inr (m, y, b)"
    using shift_month_ok [OF d a M(1) i] M by (simp add: b_def y_def m_def)
  have ai: "AINT 2 [VObj d, NEW_NUMBER add, opt] = Inr add"
    by (rule AINT_number) (use a in simp_all)
  have l: "(if m = 2 \<and> leap y then mlen_add ! nat (m - 1) + 1 else mlen_add ! nat (m - 1)) = lst"
    unfolding lst_def by (rule mlen_add_length) (use s in auto)
  have f: "fld b 2 = fld d 2"
    using moved_ym [of d y m] d s by (simp add: b_def moved_def valid_def)
  show ?thesis
    using d(2,3) sm ai l f
    by (auto simp: xdate_add_month_def opt_arg_def APOINTER_def ARG_NUMBER_def get_date_def Let_def)
qed

section \<open>Properties\<close>

text \<open>Dates used to show that the hypotheses below can hold.\<close>

definition leap_day :: date where
  "leap_day = \<lparr>dfrom = 0, dto = 2, dx = [100, 2, 29, 0, 0, 0]\<rparr>"

definition new_year :: date where
  "new_year = \<lparr>dfrom = 0, dto = 5, dx = [70, 1, 1, 0, 0, 5]\<rparr>"

definition any_tm :: tm where
  "any_tm = \<lparr>tm_year = 104, tm_mon = 0, tm_mday = 1, tm_hour = 0, tm_min = 0, tm_sec = 0\<rparr>"

lemma leap_day_valid: "valid leap_day"
proof -
  have "{0..2} = {0, 1, 2::nat}" by auto
  then have "\<forall>i \<in> {0..2}. in_field i (fld leap_day i)"
    by (simp add: leap_day_def fld_def in_field_def field_range_def field_base_def)
  then show ?thesis by (simp add: valid_def leap_day_def date_check_def fld_def mlen_check_def leap_def)
qed

lemma leap_day_simps [simp]: "dfrom leap_day = 0" "dto leap_day = 2" "fld leap_day 0 = 100"
    "fld leap_day (Suc 0) = 2" "fld leap_day 1 = 2" "fld leap_day 2 = 29" "length (dx leap_day) = 6"
  by (simp_all add: leap_day_def fld_def)

lemma leap_day_number: "date_to_n any_tm leap_day = Inr (11016, 0)"
  by (simp add: leap_day_def date_to_n_def date_extend_def fld_def month_start_def leap_def
      cdiv_nonneg upt_rec Let_def)

lemma new_year_full: "full new_year"
  by (rule fullI [where a = 70 and b = 1 and c = 1 and e = 0 and f = 0 and g = 5])
    (simp_all add: new_year_def month_length_def)

text \<open>C39: Parsing what a valid date prints as gives back a date with the same range and the same
  fields, whatever the memory the result is written to held before.\<close>

theorem date_print_parse:
  assumes "valid d" "length (dx buf) = 6"
  shows "\<exists>d'. new_date_imp (str_date_imp d) buf (int (dfrom d)) (int (dto d)) = Inr (Some d') \<and>
    same_fields d d'"
  using print_parse [OF assms] by blast

theorem date_print_parse_witness:
  "\<exists>d'. new_date_imp (str_date_imp leap_day) leap_day 0 2 = Inr (Some d') \<and> same_fields leap_day d'"
  using date_print_parse [OF leap_day_valid, of leap_day] by (simp add: leap_day_def)

text \<open>C40: The day number and the second of a date that starts with the year lead back to the date:
  \<open>n_to_date\<close> of \<open>date_to_n\<close> has the same range and the same fields.\<close>

theorem date_number_inverse:
  assumes "valid d" "dfrom d = DATE_YEAR"
  shows "\<exists>nd ns d'. date_to_n now d = Inr (nd, ns) \<and> n_to_date nd ns (dfrom d) (dto d) = Inr d' \<and> same_fields d d'"
  using date_to_n_year [OF assms, of now] n_to_date_day_no [OF extend_full [OF assms], of now d 0 "dto d"]
    cut_extend_dto [OF assms, of now d] assms(2) unfolding cut_def by auto

theorem date_number_inverse_witness:
  "\<exists>nd ns d'. date_to_n any_tm leap_day = Inr (nd, ns) \<and> n_to_date nd ns 0 2 = Inr d' \<and> same_fields leap_day d'"
  using date_number_inverse [OF leap_day_valid, of any_tm] by (simp add: leap_day_def)

text \<open>Every day number from 1900-01-01 to 2155-12-31 with a second number that is not negative
  gives a valid full date, whose own numbers are these, normalised to less than a day of seconds.\<close>

theorem number_date_inverse:
  assumes "0 \<le> ns" "-25567 \<le> nd + ns div 86400" "nd + ns div 86400 < 67935"
  shows "\<exists>d. n_to_date nd ns DATE_YEAR DATE_SECOND = Inr d \<and> valid d \<and>
    date_to_n now d = Inr (nd + ns div 86400, ns mod 86400)"
proof -
  obtain x where x: "full x" "\<And>f t. n_to_date nd ns f t = Inr \<lparr>dfrom = f, dto = t, dx = dx x\<rparr>"
      "day_no x = nd + ns div 86400" "sec_no x = ns mod 86400"
    by (rule n_to_date_full [OF assms(1), of nd]) (use assms in auto)
  have "\<lparr>dfrom = 0, dto = 5, dx = dx x\<rparr> = x" using full_fields(14,15) [OF x(1)] by simp
  then have "n_to_date nd ns 0 5 = Inr x" using x(2) [of 0 5] by simp
  moreover have "valid x" using x(1) by (simp add: full_def)
  moreover have "date_to_n now x = Inr (nd + ns div 86400, ns mod 86400)"
    using date_to_n_full [OF x(1), of now] by (simp only: x(3,4))
  ultimately show ?thesis by blast
qed

theorem number_date_inverse_witness:
  "\<exists>d. n_to_date 0 90000 DATE_YEAR DATE_SECOND = Inr d \<and> valid d \<and> date_to_n any_tm d = Inr (1, 3600)"
  using number_date_inverse [of 90000 0 any_tm] by simp

text \<open>The order of full dates is the order of their instants, and comparing never fails on them.\<close>

theorem date_compare_instants:
  assumes "full d1" "full d2"
  shows "date_compare d1 d2 order = Inr (sgn (instant d1 - instant d2))"
proof -
  let ?c = "compare_fields [0..<6] d1 d2"
  have "?c = sgn (instant d1 - instant d2)"
    using compare_range [of "[0..<6]" d1 d2] compare_less [OF assms] compare_less [OF assms(2,1)]
      fields_instant [OF assms] compare_fields_swap [of "[0..<6]" d1 d2] by auto
  then show ?thesis using full_fields(14) [OF assms(1)] full_fields(14) [OF assms(2)]
    by (simp add: date_compare_def)
qed

theorem date_compare_instants_witness:
  "date_compare new_year new_year True = Inr 0"
  using date_compare_instants [OF new_year_full new_year_full, of True] by simp

text \<open>Dates that compare equal have the same hash code, as the hash table of the interpreter
  requires, also when their ranges end at different fields.\<close>

theorem date_equal_hash:
  assumes "date_compare d1 d2 order = Inr 0"
  shows "date_hash d1 = date_hash d2"
  by (rule equal_dates_hash [OF assms])

theorem date_equal_hash_witness:
  "date_hash leap_day = date_hash (leap_day\<lparr>dto := 5\<rparr>)"
  by (rule date_equal_hash [of _ _ True])
    (simp add: date_compare_def leap_day_def fld_def Let_def upt_rec)

text \<open>Adding \<open>a\<close> days and then \<open>b\<close> days to a date that holds a year, a month and a day is the same
  as adding \<open>a + b\<close> days, as long as the dates stay between 1900 and 2155.\<close>

theorem add_day_additive:
  assumes d: "valid d" "dfrom d = DATE_YEAR" "DATE_DAY \<le> dto d" and n: "date_to_n now d = Inr (nd, ns)"
    and ab: "in_int32 a" "in_int32 b" "in_int32 (a + b)"
    and r: "-25567 \<le> nd + a" "nd + a < 67935" "-25567 \<le> nd + (a + b)" "nd + (a + b) < 67935"
  shows "\<exists>d1 r. xdate_add_day now [VObj d, NEW_NUMBER a] = Inr (VObj d1) \<and> valid d1 \<and>
    xdate_add_day now [VObj d1, NEW_NUMBER b] = Inr r \<and> xdate_add_day now [VObj d, NEW_NUMBER (a + b)] = Inr r"
proof -
  let ?f = "\<lambda>nd ns add. res_bind (chk32 (nd + add)) (\<lambda>nd. Inr (nd, ns))"
  let ?x = "ext now d"
  have x: "full ?x" by (rule extend_full [OF d(1,2)])
  have nd: "day_no ?x = nd" "sec_no ?x = ns" using n date_to_n_year [OF d(1,2), of now] by simp_all
  have s: "0 \<le> ns" "ns div 86400 = 0" "ns mod 86400 = ns"
    using sec_no_range [OF x] nd by (simp_all add: div_pos_pos_trivial mod_pos_pos_trivial)
  have i: "in_int32 (nd + a)" "in_int32 (nd + (a + b))" using r by (simp_all add: in_int32_def)
  obtain x1 where x1: "full x1" "xdate_add_day now [VObj d, NEW_NUMBER a] = Inr (VObj (cut (dto d) x1))"
      "day_no x1 = nd + a" "sec_no x1 = ns"
    using date_add_full [OF d(1,2) ab(1), of ?f now "nd + a" ns] s r i nd
    by (auto simp: xdate_add_day_def chk32_Inr)
  obtain x3 where x3: "full x3" "xdate_add_day now [VObj d, NEW_NUMBER (a + b)] = Inr (VObj (cut (dto d) x3))"
      "day_no x3 = nd + (a + b)" "sec_no x3 = ns"
    using date_add_full [OF d(1,2) ab(3), of ?f now "nd + (a + b)" ns] s r i nd
    by (auto simp: xdate_add_day_def chk32_Inr)
  have le: "dto d \<le> 5" using d(1) by (simp add: valid_def)
  have v1: "valid (cut (dto d) x1)" by (rule valid_cut [OF x1(1) le])
  have "fld x1 i = 0" if "dto d < i" "i \<le> 5" for i
  proof -
    have "i = 3 \<or> i = 4 \<or> i = 5" using that d(3) by auto
    then have "fld x1 i = fld ?x i" using sec_no_fields [OF x1(1)] sec_no_fields [OF x] nd x1(4) by auto
    then show ?thesis using fld_extend [OF d(2), of i now d] that d(3) by simp
  qed
  then have e: "ext now (cut (dto d) x1) = x1" using extend_cut [OF x1(1), of "dto d" now] d(3) by auto
  obtain x2 where x2: "full x2" "xdate_add_day now [VObj (cut (dto d) x1), NEW_NUMBER b] = Inr (VObj (cut (dto d) x2))"
      "day_no x2 = nd + a + b" "sec_no x2 = ns"
    using date_add_full [OF v1 _ ab(2), of ?f now "nd + a + b" ns] s r i nd x1
    by (auto simp: xdate_add_day_def chk32_Inr e add.assoc) (auto simp: cut_def)
  have "cut (dto d) x2 = cut (dto d) x3" using full_eq [OF x2(1) x3(1)] x2 x3 by (simp add: cut_def)
  then show ?thesis using x1 x2 x3 v1 by auto
qed

theorem add_day_additive_witness:
  "\<exists>d1 r. xdate_add_day any_tm [VObj leap_day, NEW_NUMBER 366] = Inr (VObj d1) \<and> valid d1 \<and>
    xdate_add_day any_tm [VObj d1, NEW_NUMBER (- 1)] = Inr r \<and>
    xdate_add_day any_tm [VObj leap_day, NEW_NUMBER 365] = Inr r"
  using add_day_additive [OF leap_day_valid, of any_tm 11016 0 366 "- 1"]
  by (simp add: leap_day_number in_int32_def)

text \<open>\<open>date-add-month\<close> on a date with a year, a month and a day moves the month number by \<open>add\<close>
  and keeps the other fields. With \<open>'end-of-month\<close> the day is the last of the target month; a day
  past the end of the target month is clamped with any other option, answered by \<open>()\<close> with
  \<open>'no-error\<close>, and refused without an option.\<close>

theorem add_month_result:
  assumes d: "valid d" "dfrom d = DATE_YEAR" "DATE_DAY \<le> dto d" and a: "in_int32 add"
    and M: "M = 12 * fld d DATE_YEAR + fld d DATE_MONTH - 1 + add" "0 \<le> M" "M < 3072"
    and ml: "m = M mod 12 + 1" "l = month_length (leap (M div 12)) m"
  shows "if opt = VSym ''end-of-month'' \<or> fld d DATE_DAY \<le> l \<or> opt \<notin> {VNil, VSym ''noerror'', VSym ''no-error''}
    then \<exists>d'. xdate_add_month [VObj d, NEW_NUMBER add, opt] = Inr (VObj d') \<and>
      moved d (M div 12) m (if opt = VSym ''end-of-month'' then l else min (fld d DATE_DAY) l) d'
    else xdate_add_month [VObj d, NEW_NUMBER add, opt] =
      (if opt = VNil then Inl (Lush ''Illegal date'') else Inr VNil)"
proof -
  note s = month_split [OF M(2,3), folded ml(1)]
  have ld: "1 \<le> l" "l \<le> 31"
    using month_length_pos [OF s(3,4)] month_length_31 [OF s(3,4)] by (simp_all add: ml(2))
      (meson order_trans one_le_numeral)
  have dd: "1 \<le> fld d 2" using valid_day [OF d] by simp
  let ?b = "set_fld 0 (M div 12) (set_fld 1 m d)"
  have b: "moved d (M div 12) m (fld d 2) ?b" by (rule moved_ym) (use d(1) s in \<open>auto simp: valid_def\<close>)
  have bl: "moved d (M div 12) m l (set_fld 2 l ?b)" by (rule moved_day [OF b]) (use ld in auto)
  have mb: "make_date ?b = (if fld d 2 \<le> l then Inr (VObj ?b) else Inl (Lush ''Illegal date''))"
    unfolding ml(2) by (rule make_date_moved [OF b d(2,3) s(3,4) dd])
  have mbl: "make_date (set_fld 2 l ?b) = Inr (VObj (set_fld 2 l ?b))"
    using make_date_moved [OF bl d(2,3) s(3,4) ld(1)] by (simp add: ml(2))
  have st: "xdate_add_month [VObj d, NEW_NUMBER add, opt] =
    (if opt = VSym ''end-of-month'' then make_date (set_fld 2 l ?b)
     else if opt = VSym ''noerror'' \<or> opt = VSym ''no-error''
     then if fld d 2 > l then Inr VNil else make_date ?b
     else if opt \<noteq> VNil \<and> fld d 2 > l then make_date (set_fld 2 l ?b) else make_date ?b)"
    using add_month_start [OF d a M, of opt] by (simp only: ml)
  have mn: "fld d 2 \<le> l \<Longrightarrow> min (fld d 2) l = fld d 2" "\<not> fld d 2 \<le> l \<Longrightarrow> min (fld d 2) l = l" by simp_all
  show ?thesis unfolding st mb mbl using b bl mn by (cases "fld d 2 \<le> l") auto
qed

theorem add_month_result_witness:
  "\<exists>d'. xdate_add_month [VObj leap_day, NEW_NUMBER 12, VSym ''loosely''] = Inr (VObj d') \<and>
    moved leap_day 101 2 28 d'"
proof -
  have "in_int32 12" "(1213::int) = 12 * fld leap_day 0 + fld leap_day 1 - 1 + 12" "(2::int) = 1213 mod 12 + 1"
      "28 = month_length (leap (1213 div 12)) 2"
    by (simp_all add: in_int32_def month_length_def leap_def)
  from add_month_result [OF leap_day_valid _ _ this(1,2) _ _ this(3,4), of "VSym ''loosely''"]
  show ?thesis by simp
qed

text \<open>\<open>date-add-second\<close> with a count that is not negative moves a full date by that many seconds.\<close>

theorem add_second_moves:
  assumes "full d" "0 \<le> a" "in_int32 (86400 + a)" "instant d + a < 86400 * 67935"
  shows "\<exists>d'. xdate_add_second now [VObj d, NEW_NUMBER a] = Inr (VObj d') \<and> full d' \<and> instant d' = instant d + a"
proof -
  note f = full_fields [OF assms(1)] and s = sec_no_range [OF assms(1)]
  let ?f = "\<lambda>nd ns add. res_bind (chk32 (ns + add)) (\<lambda>ns. Inr (nd, ns))"
  let ?n = "day_no d" and ?s = "sec_no d + a"
  have v: "valid d" using assms(1) by (simp add: full_def)
  have e: "ext now d = d" by (rule date_extend_id) (use f in auto)
  have i: "in_int32 ?s" "in_int32 a" using s assms(2,3) by (simp_all add: in_int32_def)
  have c: "0 \<le> days (fld d 0)" using days_mono [of 0 "fld d 0"] f(2) by (simp add: days_0)
  have m: "0 \<le> month_days (leap (fld d 0)) (fld d 1) + (fld d 2 - 1)"
    using month_days_range [OF f(4,5), of "fld d 2 - 1" "leap (fld d 0)"] f(6,7) by simp
  have q: "0 \<le> ?s div 86400" "86400 * (?s div 86400) + ?s mod 86400 = ?s" "0 \<le> ?s mod 86400"
    using s assms(2) by (simp_all add: pos_imp_zdiv_nonneg_iff)
  have N: "0 \<le> ?n + ?s div 86400 + 25567" using c m q(1) by (simp add: day_no_def)
  have N2: "?n + ?s div 86400 + 25567 < 93502" using assms(4) q(2,3) unfolding instant_def by linarith
  obtain x where x: "full x" "date_add now [VObj d, NEW_NUMBER a] ?f = Inr (VObj (cut (dto d) x))"
      "day_no x = ?n + ?s div 86400" "sec_no x = ?s mod 86400"
    using date_add_full [OF v f(14) i(2), of ?f now ?n ?s] s assms(2) N N2 i by (auto simp: e chk32_Inr)
  have "cut (dto d) x = x" using full_fields(14,15) [OF x(1)] f(15) by (simp add: cut_def)
  moreover have "instant x = instant d + a" unfolding instant_def x(3,4) using q(2) by (simp add: distrib_left)
  ultimately show ?thesis using x(1,2) by (auto simp: xdate_add_second_def)
qed

theorem add_second_moves_witness:
  "\<exists>d'. xdate_add_second any_tm [VObj new_year, NEW_NUMBER 86400] = Inr (VObj d') \<and> full d' \<and>
    instant d' = instant new_year + 86400"
  using add_second_moves [OF new_year_full, of 86400 any_tm]
  by (simp add: instant_def day_no_def sec_no_def new_year_def fld_def days_def month_days_def month_start_def in_int32_def)

text \<open>\<open>date-add-second\<close> cannot go back over midnight: a count that takes the second of the day below
  0, by less than a day, fails, because the quotient that carries into the days truncates
  towards 0.\<close>

theorem add_second_back_fails:
  assumes d: "valid d" "dfrom d = DATE_YEAR" and n: "date_to_n now d = Inr (nd, ns)"
    and a: "in_int32 a" "ns + a < 0" "-3600 * 24 < ns + a"
  shows "xdate_add_second now [VObj d, NEW_NUMBER a] = Inl (Lush ''Second number is illegal'')"
proof -
  let ?f = "\<lambda>nd ns add. res_bind (chk32 (ns + add)) (\<lambda>ns. Inr (nd, ns))"
  let ?x = "ext now d"
  have x: "full ?x" by (rule extend_full [OF d])
  have nd: "day_no ?x = nd" "sec_no ?x = ns" using n date_to_n_year [OF d, of now] by simp_all
  have "0 \<le> ns" using sec_no_range [OF x] nd by simp
  then have i: "in_int32 (ns + a)" using a by (simp add: in_int32_def)
  have "xdate_add_second now [VObj d, NEW_NUMBER a] = res_bind (n_to_date nd (ns + a) 0 (dto d)) make_date"
    unfolding xdate_add_second_def using date_add_value [OF d a(1), of ?f now nd "ns + a"] i nd
    by (simp add: chk32_Inr)
  moreover have "n_to_date nd (ns + a) 0 (dto d) = Inl (Lush ''Second number is illegal'')"
  proof -
    have "cdiv (ns + a) 3600 = - ((- (ns + a)) div 3600)" using a by (simp add: cdiv_def)
    moreover have k: "0 \<le> (- (ns + a)) div 3600" "(- (ns + a)) div 3600 \<le> 23"
      using a zdiv_mono1 [of "- (ns + a)" 86399 3600] by (simp_all add: pos_imp_zdiv_nonneg_iff)
    ultimately have h: "cdiv (cdiv (ns + a) 3600) 24 = 0"
      by (auto simp: cdiv_def sgn_if div_pos_pos_trivial)
    have full: "n_to_date nd ns 0 (dto d) = Inr \<lparr>dfrom = 0, dto = dto d, dx = dx ?x\<rparr>"
      using n_to_date_day_no [OF x, of 0 "dto d"] nd by simp
    have h0: "cdiv (cdiv ns 3600) 24 = 0"
      using \<open>0 \<le> ns\<close> sec_no_range [OF x] nd zdiv_mono1 [of ns 86399 3600]
      by (simp add: cdiv_nonneg pos_imp_zdiv_nonneg_iff div_pos_pos_trivial)
    show ?thesis using full a(2) unfolding n_to_date_def h h0 Let_def
      by (auto simp: res_bind_Inr_iff chk32_def split: if_splits prod.splits)
  qed
  ultimately show ?thesis by simp
qed

theorem add_second_back_fails_witness:
  "xdate_add_second any_tm [VObj new_year, NEW_NUMBER (- 6)] = Inl (Lush ''Second number is illegal'')"
  using add_second_back_fails [of new_year any_tm 0 5 "- 6"] new_year_full
  by (simp add: full_def new_year_def date_to_n_def date_extend_def fld_def month_start_def leap_def
      in_int32_def cdiv_nonneg upt_rec Let_def)

text \<open>The additional items of \<open>split-date\<close>: the day of the year counts from 0, and the day of the
  week, 0 for Sunday, is the remainder of the day number plus 4, which is right from 1969-12-28 on
  and not positive before.\<close>

theorem split_date_days:
  assumes d: "valid d" "dfrom d = DATE_YEAR" "DATE_DAY \<le> dto d" and n: "date_to_n now d = Inr (nd, ns)"
  shows "\<exists>w k. date_to_wday now d = Inr w \<and> date_to_yday now d = Inr k \<and>
    0 \<le> k \<and> k < year_length (fld d DATE_YEAR) \<and> k = month_days (leap (fld d DATE_YEAR)) (fld d DATE_MONTH) + fld d DATE_DAY - 1 \<and>
    w = (if nd + 4 \<ge> 0 then (nd + 4) mod 7 else - ((- (nd + 4)) mod 7))"
proof -
  let ?d0 = "d\<lparr>dto := 0\<rparr>"
  note vd = valid_day [OF d]
  have v0: "valid ?d0" using d by (auto simp: valid_def fld_def date_check_def)
  have e: "fld (ext now d) 0 = fld d 0" "fld (ext now d) 1 = fld d 1" "fld (ext now d) 2 = fld d 2"
      "fld (ext now ?d0) 0 = fld d 0" "fld (ext now ?d0) 1 = 1" "fld (ext now ?d0) 2 = 1"
    using d by (simp_all add: fld_extend) (simp_all add: fld_def)
  have nd: "day_no (ext now d) = nd" using n date_to_n_year [OF d(1,2), of now] by simp
  have y: "date_to_yday now d = Inr (day_no (ext now d) - day_no (ext now ?d0))"
    using date_to_n_year [OF d(1,2), of now] date_to_n_year [OF v0, of now] d by (simp add: date_to_yday_def)
  have k: "day_no (ext now d) - day_no (ext now ?d0) = month_days (leap (fld d 0)) (fld d 1) + fld d 2 - 1"
    by (simp add: day_no_def e month_days_def month_start_def del: One_nat_def)
  have r: "0 \<le> month_days (leap (fld d 0)) (fld d 1) + fld d 2 - 1"
    "month_days (leap (fld d 0)) (fld d 1) + fld d 2 - 1 < year_length (fld d 0)"
    using month_days_range [of "fld d 1" "fld d 2 - 1" "leap (fld d 0)"] vd
    by (simp_all add: year_length_def algebra_simps)
  have w: "date_to_wday now d = Inr (crem (nd + 4) 7)" using n by (simp add: date_to_wday_def)
  have c: "crem (nd + 4) 7 = (if nd + 4 \<ge> 0 then (nd + 4) mod 7 else - ((- (nd + 4)) mod 7))"
    using minus_mult_div_eq_mod [of "- (nd + 4)" 7] by (simp add: crem_nonneg) (simp add: crem_def cdiv_def)
  show ?thesis using y k r w c by auto
qed

theorem split_date_days_witness:
  "\<exists>w k. date_to_wday any_tm leap_day = Inr w \<and> date_to_yday any_tm leap_day = Inr k \<and> k = 59 \<and> w = 2"
  using split_date_days [OF leap_day_valid, of any_tm 11016 0]
  by (simp add: leap_day_number leap_def month_days_def month_start_def)

end
