(* ===== verification/Storage.thy ===== *)
theory Storage
  imports Args
begin

text \<open>
  Storages (\<open>src/src/storage.c\<close>): the typed arrays under the indexes. \<open>sdata\<close> holds the elements
  that are really allocated, as the values that \<open>getat\<close> returns; \<open>ssize\<close> is the size the storage
  claims. No access of \<open>storage.c\<close> checks its offset: an offset outside \<open>sdata\<close> is \<open>Undef\<close>.

  The system allocator is the parameter \<open>mem\<close>, which says whether a request of so many bytes is
  granted; \<open>raw n\<close> is the content of \<open>n\<close> elements that were not cleared; \<open>to_float\<close> rounds a double
  to a float. Files and memory maps are left out.
\<close>

section \<open>Types\<close>

datatype stype = ST_AT | ST_P | ST_F | ST_D | ST_I32 | ST_I16 | ST_I8 | ST_U8 | ST_GPTR | ST_I64

record 'o storage =
  styp :: stype
  sunsized :: bool
  srdonly :: bool
  smalloc :: bool
  ssize :: int
  sdata :: "'o val list"

fun storage_type_size :: "stype \<Rightarrow> int" where
  "storage_type_size ST_AT = 8"
| "storage_type_size ST_P = 1"
| "storage_type_size ST_F = 4"
| "storage_type_size ST_D = 8"
| "storage_type_size ST_I32 = 4"
| "storage_type_size ST_I16 = 2"
| "storage_type_size ST_I8 = 1"
| "storage_type_size ST_U8 = 1"
| "storage_type_size ST_GPTR = 8"
| "storage_type_size ST_I64 = 8"

definition zero_elem :: "stype \<Rightarrow> 'o val" where
  "zero_elem t = (if t = ST_AT \<or> t = ST_GPTR then VNil else VNum 0)"

section \<open>Reading and writing an element\<close>

text \<open>The value an element holds after a number was assigned to it (the \<open>setr\<close> functions).\<close>

definition conv_int :: "int \<Rightarrow> int \<Rightarrow> rat \<Rightarrow> rat res" where
  "conv_int lo hi x = (if lo \<le> ctrunc x \<and> ctrunc x \<le> hi then Inr (of_int (ctrunc x))
     else Inl (Undef ''number out of the range of the element type''))"

fun setr :: "(rat \<Rightarrow> rat) \<Rightarrow> stype \<Rightarrow> rat \<Rightarrow> rat res" where
  "setr to_float ST_P x = Inr (if x > 8 - 1 / 16 then 127 / 16 else if x < - 8 then - 8
     else of_int (ctrunc (x * 16)) / 16)"
| "setr to_float ST_F x = Inr (to_float x)"
| "setr to_float ST_D x = Inr x"
| "setr to_float ST_I32 x = conv_int (- 2147483648) 2147483647 x"
| "setr to_float ST_I16 x = conv_int (- 32768) 32767 x"
| "setr to_float ST_I8 x = conv_int (- 128) 127 x"
| "setr to_float ST_U8 x = conv_int 0 255 x"
| "setr to_float ST_I64 x = conv_int (- 9223372036854775808) 9223372036854775807 x"
| "setr to_float ST_AT x = Inr x"
| "setr to_float ST_GPTR x = Inl (Lush ''gptr arrays do not contain numbers'')"

definition getat :: "'o storage \<Rightarrow> int \<Rightarrow> 'o val res" where
  "getat st off = (if 0 \<le> off \<and> off < int (length (sdata st)) then Inr (sdata st ! nat off)
     else Inl (Undef ''read outside the storage''))"

definition put_elem :: "'o storage \<Rightarrow> int \<Rightarrow> 'o val \<Rightarrow> 'o storage res" where
  "put_elem st off v = (if 0 \<le> off \<and> off < int (length (sdata st))
     then Inr (st\<lparr>sdata := (sdata st)[nat off := v]\<rparr>)
     else Inl (Undef ''write outside the storage''))"

text \<open>\<open>AT_setat\<close>, \<open>N_setat\<close> and \<open>GPTR_setat\<close>; only the first two look at the read-only flag.\<close>

definition setat :: "(rat \<Rightarrow> rat) \<Rightarrow> 'o storage \<Rightarrow> int \<Rightarrow> 'o val \<Rightarrow> 'o storage res" where
  "setat to_float st off x = (case styp st of
       ST_AT \<Rightarrow> if srdonly st then Inl (Lush ''read only storage'') else put_elem st off x
     | ST_GPTR \<Rightarrow> (case x of VNil \<Rightarrow> put_elem st off VNil
         | VGptr g \<Rightarrow> put_elem st off (if g = 0 then VNil else VGptr g)
         | _ \<Rightarrow> Inl (Lush ''Not a gptr''))
     | t \<Rightarrow> if srdonly st then Inl (Lush ''read only storage'')
         else (case x of VNum r \<Rightarrow> res_bind (setr to_float t r) (\<lambda>r. put_elem st off (VNum r))
           | _ \<Rightarrow> Inl (Lush ''not a number'')))"

section \<open>Allocation\<close>

definition new_storage0 :: "stype \<Rightarrow> 'o storage" where
  "new_storage0 t = \<lparr>styp = t, sunsized = True, srdonly = False, smalloc = False, ssize = 0, sdata = []\<rparr>"

text \<open>
  \<open>calloc\<close> refuses a product that overflows; \<open>malloc\<close> and \<open>realloc\<close> get the product modulo \<open>2 ^ 64\<close>,
  since the overflow check compiles to nothing when \<open>intg\<close> is \<open>long\<close>.
\<close>

definition SIZE_T :: int where
  "SIZE_T = 18446744073709551616"

definition storage_malloc :: "(int \<Rightarrow> bool) \<Rightarrow> (nat \<Rightarrow> 'o val list) \<Rightarrow> 'o storage \<Rightarrow> int \<Rightarrow> bool \<Rightarrow> 'o storage res" where
  "storage_malloc mem raw st sz clear =
    (if sz \<le> 0 then Inl (Lush ''Illegal sz'')
     else if \<not> sunsized st then Inl (Lush ''An unsized storage is required'')
     else let clear = (clear \<or> styp st = ST_AT); ts = storage_type_size (styp st);
              bytes = (if clear then sz * ts else sz * ts mod SIZE_T);
              n = nat (bytes div ts) in
       if bytes \<ge> SIZE_T \<or> \<not> mem bytes then Inl (Lush ''not enough memory'')
       else Inr (st\<lparr>sunsized := False, srdonly := False, smalloc := True, ssize := sz,
         sdata := (if clear then replicate n (zero_elem (styp st)) else raw n)\<rparr>))"

definition storage_realloc :: "(int \<Rightarrow> bool) \<Rightarrow> (nat \<Rightarrow> 'o val list) \<Rightarrow> 'o storage \<Rightarrow> int \<Rightarrow> bool \<Rightarrow> 'o storage res" where
  "storage_realloc mem raw st sz clear =
    (if sz \<le> 0 then Inl (Lush ''Illegal sz'')
     else if \<not> smalloc st then Inl (Lush ''Only a ram based storage can be enlarged'')
     else if sz < ssize st then Inl (Lush ''Attempt to reduce the sz of a storage'')
     else let ts = storage_type_size (styp st); bytes = sz * ts mod SIZE_T; n = nat (bytes div ts) in
       if \<not> mem bytes then Inl (Lush ''not enough memory'')
       else if \<not> clear \<and> styp st = ST_AT then Inl (Lush ''An AT storage must be initialized'')
       else Inr (st\<lparr>ssize := sz,
         sdata := take n (sdata st @ (if clear then replicate n (zero_elem (styp st)) else raw n))\<rparr>))"

definition storage_clear :: "(rat \<Rightarrow> rat) \<Rightarrow> 'o storage \<Rightarrow> 'o storage res" where
  "storage_clear to_float st =
    (if styp st = ST_AT
     then fold (\<lambda>i m. res_bind m (\<lambda>st. setat to_float st i VNil)) [0 .. ssize st - 1] (Inr st)
     else if \<not> smalloc st
     then fold (\<lambda>i m. res_bind m (\<lambda>st. setat to_float st i (VNum 0))) [0 .. ssize st - 1] (Inr st)
     else if ssize st > int (length (sdata st)) then Inl (Undef ''write outside the storage'')
     else Inr (st\<lparr>sdata := map (\<lambda>_. zero_elem (styp st)) (sdata st)\<rparr>))"

definition storage_read_only :: "'o storage \<Rightarrow> 'o storage" where
  "storage_read_only st = st\<lparr>srdonly := True\<rparr>"

section \<open>The claimed size is the allocated one\<close>

definition wf_storage :: "'o storage \<Rightarrow> bool" where
  "wf_storage st \<longleftrightarrow> ssize st = int (length (sdata st)) \<and> (sunsized st \<longrightarrow> ssize st = 0)"

lemma storage_type_size_pos: "0 < storage_type_size t" "storage_type_size t \<le> 8"
  by (cases t; simp)+

lemma malloc_wf:
  assumes "storage_malloc mem raw st sz True = Inr st'"
  shows "wf_storage st'" "ssize st' = sz" "0 < sz" "styp st' = styp st" "\<not> sunsized st'" "smalloc st'"
  using assms storage_type_size_pos [of "styp st"]
  by (auto simp: storage_malloc_def wf_storage_def Let_def split: if_splits)

lemma realloc_wf:
  assumes "storage_realloc mem raw st sz True = Inr st'" "sz * 8 < SIZE_T" "wf_storage st" "\<not> sunsized st"
  shows "wf_storage st'" "ssize st' = sz" "styp st' = styp st" "\<not> sunsized st'"
    "take (length (sdata st)) (sdata st') = sdata st"
proof -
  let ?t = "storage_type_size (styp st)"
  have s: "0 < sz" "ssize st \<le> sz" and st': "st' = st\<lparr>ssize := sz,
      sdata := take (nat (sz * ?t mod SIZE_T div ?t))
        (sdata st @ replicate (nat (sz * ?t mod SIZE_T div ?t)) (zero_elem (styp st)))\<rparr>"
    using assms(1) by (auto simp: storage_realloc_def Let_def split: if_splits)
  have "sz * ?t \<le> sz * 8" by (rule mult_left_mono) (use s storage_type_size_pos in auto)
  then have "sz * ?t < SIZE_T" using assms(2) by linarith
  moreover have "0 \<le> sz * ?t" using s storage_type_size_pos(1) [of "styp st"] by simp
  ultimately have "sz * ?t mod SIZE_T = sz * ?t" by (rule mod_pos_pos_trivial [rotated])
  then have "sz * ?t mod SIZE_T div ?t = sz" using storage_type_size_pos(1) [of "styp st"] by simp
  then have d: "sdata st' = take (nat sz) (sdata st @ replicate (nat sz) (zero_elem (styp st)))"
    using st' by simp
  have l: "length (sdata st) \<le> nat sz" using s(2) assms(3) by (simp add: wf_storage_def)
  then have len: "length (sdata st') = nat sz" unfolding d by simp
  show "ssize st' = sz" "styp st' = styp st" "\<not> sunsized st'" using st' s assms(4) by simp_all
  show "take (length (sdata st)) (sdata st') = sdata st" unfolding d using l by (simp add: min_absorb1)
  have "ssize st' = int (length (sdata st'))" using s len st' by simp
  then show "wf_storage st'" using st' assms(4) by (simp add: wf_storage_def)
qed

lemma put_elem_ok: "0 \<le> off \<Longrightarrow> off < int (length (sdata st)) \<Longrightarrow>
    put_elem st off v = Inr (st\<lparr>sdata := (sdata st)[nat off := v]\<rparr>)"
  by (simp add: put_elem_def)

lemma getat_ok: "0 \<le> off \<Longrightarrow> off < int (length (sdata st)) \<Longrightarrow> getat st off = Inr (sdata st ! nat off)"
  by (simp add: getat_def)

end
