(* ===== verification/Index.thy ===== *)
theory Index
  imports Storage
begin

text \<open>
  Indexes (\<open>src/src/index.c\<close>): views of a storage by an offset and, per dimension, a size and a
  stride. The theory models their creation and resizing, subindexes, access by lists of
  subscripts, the cached access, and the operations that change the view in place.

  An index is \<open>struct index\<close>: \<open>idim\<close> and \<open>imod\<close> are the C arrays of \<open>MAXDIMS\<close> elements, of which the
  first \<open>indim\<close> count. Sums and products of type \<open>intg\<close> that overflow are \<open>Undef\<close>; the macro
  \<open>INTG_CHECK_OVERFLOW\<close> compiles to nothing. The loops, files and C-side structures are left out.
\<close>

definition MAXDIMS :: nat where
  "MAXDIMS = 11"

record index =
  iunsized :: bool
  indim :: nat
  ioffset :: int
  idim :: "int list"
  imod :: "int list"

text \<open>Writing the first elements of an array.\<close>

definition set_prefix :: "'a list \<Rightarrow> 'a list \<Rightarrow> 'a list" where
  "set_prefix ys xs = ys @ drop (length ys) xs"

section \<open>Creation\<close>

text \<open>\<open>new_index\<close>; the arrays are not initialised (\<open>junk\<close>), and \<open>ndim = -1\<close> is the flag \<open>iunsized\<close>.\<close>

definition new_index :: "int list \<Rightarrow> index" where
  "new_index junk = \<lparr>iunsized = True, indim = 0, ioffset = 0, idim = junk, imod = junk\<rparr>"

definition check_sized_index :: "index \<Rightarrow> unit res" where
  "check_sized_index ind = (if iunsized ind then Inl (Lush ''unsized index'') else Inr ())"

text \<open>The size of the known dimensions, and the position of the one that is to be computed.\<close>

fun dim_size :: "int list \<Rightarrow> nat \<Rightarrow> int \<Rightarrow> nat option \<Rightarrow> (int \<times> nat option) res" where
  "dim_size [] i sz unkn = Inr (sz, unkn)"
| "dim_size (d # ds) i sz unkn =
     (if d > 0 then res_bind (chk64 (sz * d)) (\<lambda>sz. dim_size ds (Suc i) sz unkn)
      else if d = 0 then (if unkn = None then dim_size ds (Suc i) sz (Some i)
        else Inl (Lush ''more than one unspecified dimension''))
      else Inl (Lush ''illegal dimension''))"

text \<open>The strides, from the last dimension to the first, with the size so far.\<close>

fun dim_mods :: "int list \<Rightarrow> (int list \<times> int) res" where
  "dim_mods [] = Inr ([], 1)"
| "dim_mods (d # ds) = res_bind (dim_mods ds) (\<lambda>(ms, sz).
     res_bind (chk64 (sz * d)) (\<lambda>sz'. Inr (sz # ms, sz')))"

text \<open>The storage is sized when it is not, and enlarged when it is too small.\<close>

definition size_storage ::
  "(int \<Rightarrow> bool) \<Rightarrow> (nat \<Rightarrow> 'o val list) \<Rightarrow> 'o storage \<Rightarrow> int \<Rightarrow> nat option \<Rightarrow> 'o storage res" where
  "size_storage mem raw st sz unkn =
    res_bind (if sunsized st
      then if unkn \<noteq> None then Inl (Lush ''Cannot compute storage size'')
           else storage_malloc mem raw st sz True
      else Inr st) (\<lambda>st.
    if sz > ssize st then storage_realloc mem raw st sz True else Inr st)"

definition index_dimension ::
  "(int \<Rightarrow> bool) \<Rightarrow> (nat \<Rightarrow> 'o val list) \<Rightarrow> 'o storage \<Rightarrow> index \<Rightarrow> int list \<Rightarrow> ('o storage \<times> index) res" where
  "index_dimension mem raw st ind dims =
    (if \<not> iunsized ind then Inl (Lush ''Unsized index required'')
     else if length dims > MAXDIMS then Inl (Lush ''Illegal number of dimensions'')
     else res_bind (dim_size dims 0 1 None) (\<lambda>(sz, unkn).
       res_bind (size_storage mem raw st sz unkn) (\<lambda>st.
       let dims = (case unkn of None \<Rightarrow> dims | Some i \<Rightarrow> dims[i := cdiv (ssize st) sz]) in
       res_bind (dim_mods dims) (\<lambda>(ms, _).
         Inr (st, ind\<lparr>iunsized := False, indim := length dims, idim := set_prefix dims (idim ind),
           imod := set_prefix ms (imod ind)\<rparr>)))))"

text \<open>The offset of the index survives \<open>index_undimension\<close>.\<close>

definition index_undimension :: "index \<Rightarrow> index" where
  "index_undimension ind = ind\<lparr>iunsized := True, indim := 0\<rparr>"

text \<open>
  \<open>index_from_index\<close>: the view of the base that starts at \<open>start\<close>, or at its origin. Dimensions of
  size 0 are collapsed. \<open>fit\<close> is the loop that checks the request.
\<close>

fun fit :: "int list \<Rightarrow> int list option \<Rightarrow> int list \<Rightarrow> unit res" where
  "fit (d # ds) start (b # bs) =
     (if d < 0 then Inl (Lush ''illegal dimension'')
      else case start of
        None \<Rightarrow> if d > b then Inl (Lush ''this index does not fit in the base index'') else fit ds None bs
      | Some [] \<Rightarrow> Inl (Undef ''start array'')
      | Some (s # ss) \<Rightarrow> if s < 0 then Inl (Lush ''illegal start coordinate'')
          else res_bind (chk64 (d + s)) (\<lambda>x.
            if x > b then Inl (Lush ''this index does not fit in the base index'') else fit ds (Some ss) bs))"
| "fit [] start bs = Inr ()"
| "fit (d # ds) start [] = Inl (Undef ''dimension array'')"

fun start_offset :: "int \<Rightarrow> int list \<Rightarrow> int list \<Rightarrow> int res" where
  "start_offset off (s # ss) (m # ms) = res_bind (chk64 (s * m)) (\<lambda>x. res_bind (chk64 (off + x)) (\<lambda>off.
     start_offset off ss ms))"
| "start_offset off _ _ = Inr off"

definition index_from_index :: "index \<Rightarrow> index \<Rightarrow> int list \<Rightarrow> int list option \<Rightarrow> index res" where
  "index_from_index ind oldind dims start =
    (if \<not> iunsized ind then Inl (Lush ''Unsized index required'')
     else if iunsized oldind then Inl (Lush ''Unsized base index'')
     else let nd = indim oldind; dims = take nd dims; start = map_option (take nd) start;
              bd = take nd (idim oldind); bm = take nd (imod oldind) in
       res_bind (fit dims start bd) (\<lambda>_.
       res_bind (case start of None \<Rightarrow> Inr (ioffset oldind) | Some s \<Rightarrow> start_offset (ioffset oldind) s bm) (\<lambda>off.
       let kept = filter (\<lambda>(d, m). d > 0) (zip dims bm) in
         Inr (ind\<lparr>iunsized := False, indim := length kept, ioffset := off,
           idim := set_prefix (map fst kept) (idim ind), imod := set_prefix (map snd kept) (imod ind)\<rparr>))))"

text \<open>A list of numbers becomes an array of dimensions.\<close>

fun parse_dimlist :: "nat \<Rightarrow> 'o val \<Rightarrow> int list res" where
  "parse_dimlist nd (VCons a l) = (case a of
       VNum x \<Rightarrow> if nd \<ge> MAXDIMS then Inl (Lush ''Too many dimensions'')
         else res_bind (to_intg x) (\<lambda>d. res_bind (parse_dimlist (Suc nd) l) (\<lambda>ds. Inr (d # ds)))
     | _ \<Rightarrow> Inl (Lush ''illegal dimension list''))"
| "parse_dimlist nd p = (if p = VNil then Inr [] else Inl (Lush ''illegal dimension list''))"

definition index_parse_dimlist :: "'o val \<Rightarrow> int list res" where
  "index_parse_dimlist p = parse_dimlist 0 p"

text \<open>\<open>subindex\<close>: one argument per dimension, a number, a list of two numbers or \<open>()\<close>.\<close>

definition as_pair :: "'o val \<Rightarrow> ('o val \<times> 'o val) option" where
  "as_pair p = (case p of VCons a l \<Rightarrow> (case l of VCons b r \<Rightarrow> if r = VNil then Some (a, b) else None | _ \<Rightarrow> None)
     | _ \<Rightarrow> None)"

definition number_of :: "'o val \<Rightarrow> rat res" where
  "number_of p = (case p of VNum x \<Rightarrow> Inr x | _ \<Rightarrow> Inl (Lush ''not a number''))"

definition sub_arg :: "int \<Rightarrow> 'o val \<Rightarrow> (int \<times> int) res" where
  "sub_arg full p = (case p of
       VNum x \<Rightarrow> res_bind (to_intg x) (\<lambda>s. Inr (s, 0))
     | VNil \<Rightarrow> Inr (0, full)
     | _ \<Rightarrow> (case as_pair p of
         Some (a, b) \<Rightarrow> res_bind (number_of a) (\<lambda>x. res_bind (to_intg x) (\<lambda>s.
           res_bind (number_of b) (\<lambda>y. res_bind (to_intg (1 + y - of_int s)) (\<lambda>d. Inr (s, d)))))
       | None \<Rightarrow> Inl (Lush ''illegal range specification'')))"

definition subindex :: "int list \<Rightarrow> index \<Rightarrow> 'o val list \<Rightarrow> index res" where
  "subindex junk ind args = res_bind (check_sized_index ind) (\<lambda>_.
     if length args \<noteq> indim ind then Inl (Lush ''wrong number of dimensions'')
     else res_bind (res_map (\<lambda>(full, p). sub_arg full p) (zip (take (indim ind) (idim ind)) args)) (\<lambda>sds.
       index_from_index (new_index junk) ind (map snd sds) (Some (map fst sds))))"

section \<open>Access\<close>

text \<open>
  The loop over the subscripts: the offset when all are numbers, or else the position of the
  first one that is not.
\<close>

fun scan_subscripts :: "string \<Rightarrow> (int \<times> int) list \<Rightarrow> 'o val list \<Rightarrow> nat \<Rightarrow> int \<Rightarrow> (int + nat) res" where
  "scan_subscripts msg [] ps i j = Inr (Inl j)"
| "scan_subscripts msg (dm # dms) [] i j = Inl (Undef ''subscript array'')"
| "scan_subscripts msg (dm # dms) (p # ps) i j = (case p of
       VNum x \<Rightarrow> res_bind (to_intg x) (\<lambda>k.
         if k < 0 \<or> k \<ge> fst dm then Inl (Lush msg)
         else res_bind (chk64 (k * snd dm)) (\<lambda>x. res_bind (chk64 (j + x)) (\<lambda>j.
           scan_subscripts msg dms ps (Suc i) j)))
     | _ \<Rightarrow> Inr (Inr i))"

text \<open>The size and the stride of each dimension.\<close>

definition shape :: "index \<Rightarrow> (int \<times> int) list" where
  "shape ind = take (indim ind) (zip (idim ind) (imod ind))"

definition scan :: "string \<Rightarrow> index \<Rightarrow> 'o val list \<Rightarrow> (int + nat) res" where
  "scan msg ind p = scan_subscripts msg (shape ind) p 0 (ioffset ind)"

text \<open>The range that a subscript which is not a number stands for.\<close>

definition sub_range :: "int \<Rightarrow> 'o val \<Rightarrow> (int \<times> int) res" where
  "sub_range d p = (if p = VNil then Inr (0, d - 1)
     else case as_pair p of
       Some (VNum x, VNum y) \<Rightarrow> res_bind (to_intg x) (\<lambda>s. res_bind (to_intg y) (\<lambda>e. Inr (s, e)))
     | _ \<Rightarrow> Inl (Lush ''illegal subscript''))"

definition nonnum :: "'o val list \<Rightarrow> nat" where
  "nonnum ps = length (filter (\<lambda>p. \<not> ISNUMBER p) ps)"

lemma scan_nonnum: "scan_subscripts msg dms ps i j = Inr (Inr k) \<Longrightarrow>
    i \<le> k \<and> k - i < length ps \<and> k - i < length dms \<and> \<not> ISNUMBER (ps ! (k - i))"
proof (induction dms arbitrary: ps i j)
  case (Cons dm dms)
  then obtain p qs where ps: "ps = p # qs" by (cases ps) auto
  show ?case
  proof (cases p)
    case (VNum x)
    then obtain j' where "scan_subscripts msg dms qs (Suc i) j' = Inr (Inr k)"
      using Cons.prems ps by (auto simp: res_bind_Inr_iff split: if_splits)
    from Cons.IH [OF this] have "Suc i \<le> k \<and> k - Suc i < length qs \<and> k - Suc i < length dms \<and> \<not> ISNUMBER (qs ! (k - Suc i))" .
    moreover from this have "k - i = Suc (k - Suc i)" by auto
    ultimately show ?thesis using ps by auto
  qed (use Cons.prems ps in \<open>auto simp: ISNUMBER_def\<close>)
qed simp

lemma nonnum_update: "i < length ps \<Longrightarrow> \<not> ISNUMBER (ps ! i) \<Longrightarrow> nonnum (ps[i := VNum x]) < nonnum ps"
proof (induction ps arbitrary: i)
  case (Cons p ps)
  then show ?case by (cases i) (auto simp: nonnum_def ISNUMBER_def)
qed simp

text \<open>\<open>index_ref\<close>: an element, or the list of what the index has over a range.\<close>

function index_ref :: "'o storage \<Rightarrow> index \<Rightarrow> 'o val list \<Rightarrow> 'o val res" where
  "index_ref st ind p = res_bind (scan ''subscript out of range'' ind p) (\<lambda>r. case r of
       Inl j \<Rightarrow> getat st j
     | Inr i \<Rightarrow> res_bind (sub_range (idim ind ! i) (p ! i)) (\<lambda>(start, stop).
         res_bind (res_map (\<lambda>j. index_ref st ind (p[i := VNum (of_int j)])) [start .. stop]) (\<lambda>vs.
           Inr (list_val vs))))"
  by pat_completeness auto
termination
  by (relation "measure (\<lambda>(st, ind, p). nonnum p)")
    (auto simp: scan_def intro!: nonnum_update dest: scan_nonnum)

text \<open>
  \<open>index_set\<close>: the value is a constant (mode 0), a list with one element per subscript of the range
  (mode 1), or a sequence that is used up element by element (mode 2). The result is what is left
  of the value, and the storage.
\<close>

fun vcar :: "'o val \<Rightarrow> 'o val" where
  "vcar (VCons a _) = a"
| "vcar _ = VNil"

fun vcdr :: "'o val \<Rightarrow> 'o val" where
  "vcdr (VCons _ d) = d"
| "vcdr _ = VNil"

fun vconsp :: "'o val \<Rightarrow> bool" where
  "vconsp (VCons _ _) = True"
| "vconsp _ = False"

fun vlength :: "'o val \<Rightarrow> int" where
  "vlength (VCons _ d) = 1 + vlength d"
| "vlength _ = 0"

fun set_loop :: "('o storage \<Rightarrow> 'o val \<Rightarrow> nat \<Rightarrow> int \<Rightarrow> ('o val \<times> 'o storage) res) \<Rightarrow> int list \<Rightarrow> 'o storage \<Rightarrow>
    'o val \<Rightarrow> nat \<Rightarrow> ('o val \<times> 'o storage) res" where
  "set_loop f [] st v mode = Inr (v, st)"
| "set_loop f (j # js) st v mode = (
     let mode = (if vconsp v then mode else 0) in
     if mode = 0 then res_bind (f st v mode j) (\<lambda>(_, st). set_loop f js st v mode)
     else if mode = 1 then res_bind (f st (vcar v) mode j) (\<lambda>(_, st). set_loop f js st (vcdr v) mode)
     else res_bind (f st v mode j) (\<lambda>(v, st). set_loop f js st v mode))"

lemma set_loop_cong [fundef_cong]:
  "js = js' \<Longrightarrow> st = st' \<Longrightarrow> v = v' \<Longrightarrow> mode = mode' \<Longrightarrow>
   (\<And>st v m j. j \<in> set js' \<Longrightarrow> f st v m j = g st v m j) \<Longrightarrow>
   set_loop f js st v mode = set_loop g js' st' v' mode'"
proof (induction js arbitrary: js' st st' v v' mode mode')
  case (Cons j js)
  have "set_loop f js a b c = set_loop g js a b c" for a b c
    by (rule Cons.IH) (use Cons.prems in auto)
  then show ?case using Cons.prems by (auto simp: Let_def intro!: res_bind_cong)
qed simp

function index_set :: "(rat \<Rightarrow> rat) \<Rightarrow> index \<Rightarrow> 'o val list \<Rightarrow> 'o storage \<Rightarrow> 'o val \<Rightarrow> nat \<Rightarrow> ('o val \<times> 'o storage) res" where
  "index_set to_float ind p st value mode = res_bind (scan ''indice out of range'' ind p) (\<lambda>r. case r of
       Inl j \<Rightarrow> if mode = 2
         then res_bind (setat to_float st j (vcar value)) (\<lambda>st. Inr (vcdr value, st))
         else res_bind (setat to_float st j value) (\<lambda>st. Inr (VNil, st))
     | Inr i \<Rightarrow> res_bind (sub_range (idim ind ! i) (p ! i)) (\<lambda>(start, stop).
         let mode = (if mode = 1 \<and> vlength value > stop - start + 1 then 2 else mode) in
         set_loop (\<lambda>st v m j. index_set to_float ind (p[i := VNum (of_int j)]) st v m) [start .. stop] st value mode))"
  by pat_completeness auto
termination
  by (relation "measure (\<lambda>(tf, ind, p, st, v, m). nonnum p)")
    (auto simp: scan_def intro!: nonnum_update dest: scan_nonnum)

text \<open>\<open>index_listeval\<close>, after the evaluation of the list: as many subscripts as dimensions, then perhaps
  a value.\<close>

definition index_listeval :: "(rat \<Rightarrow> rat) \<Rightarrow> 'o storage \<Rightarrow> index \<Rightarrow> 'o val list \<Rightarrow> ('o val option \<times> 'o storage) res" where
  "index_listeval to_float st ind args =
    (if iunsized ind then Inl (Lush ''unsized index'')
     else if length args < indim ind then Inl (Lush ''not enough dimensions'')
     else case drop (indim ind) args of
       [] \<Rightarrow> res_bind (index_ref st ind args) (\<lambda>v. Inr (Some v, st))
     | [v] \<Rightarrow> res_bind (index_set to_float ind (take (indim ind) args) st v 1) (\<lambda>(_, st). Inr (None, st))
     | _ \<Rightarrow> Inl (Lush ''too many dimensions''))"

end
