(* ===== verification/IndexOps.thy ===== *)
theory IndexOps
  imports Index
begin

text \<open>
  The operations of \<open>src/src/index.c\<close> that change an index in place (\<open>xindex_redim\<close> to
  \<open>xindex_change_offset\<close>), the copies \<open>index_clone\<close> and \<open>xindex_transclone\<close>, and the cached access
  \<open>make_offset\<close>. Each takes the arguments after their conversion to integers.
\<close>

section \<open>Changing an index in place\<close>

definition index_redim ::
  "(int \<Rightarrow> bool) \<Rightarrow> (nat \<Rightarrow> 'o val list) \<Rightarrow> 'o storage \<Rightarrow> index \<Rightarrow> 'o val \<Rightarrow> ('o storage \<times> index) res" where
  "index_redim mem raw st ind l = res_bind (index_parse_dimlist l) (\<lambda>dims.
     index_dimension mem raw st (if iunsized ind then ind else index_undimension ind) dims)"

definition index_unfold :: "index \<Rightarrow> int \<Rightarrow> int \<Rightarrow> int \<Rightarrow> index res" where
  "index_unfold ind d sz st = res_bind (check_sized_index ind) (\<lambda>_.
     if d < 0 \<or> d \<ge> int (indim ind) \<or> sz < 1 \<or> st < 1 then Inl (Lush ''illegal parameters'')
     else let e = idim ind ! nat d; s = 1 + cdiv (e - sz) st in
       if s \<le> 0 \<or> e \<noteq> st * (s - 1) + sz
       then Inl (Lush ''Index dimension does not match size and step'')
       else if indim ind + 1 \<ge> MAXDIMS then Inl (Lush ''Too many number of dimensions'')
       else let n = indim ind; m = imod ind ! nat d in
         res_bind (chk64 (m * st)) (\<lambda>m'.
           Inr (ind\<lparr>indim := n + 1, idim := (idim ind)[n := sz, nat d := s],
             imod := (imod ind)[n := m, nat d := m']\<rparr>)))"

text \<open>The sum of the strides of the last dimensions.\<close>

fun sum_mods :: "int \<Rightarrow> int list \<Rightarrow> int res" where
  "sum_mods n [] = Inr n"
| "sum_mods n (m # ms) = res_bind (chk64 (n + m)) (\<lambda>n. sum_mods n ms)"

definition index_diagonal :: "index \<Rightarrow> int \<Rightarrow> index res" where
  "index_diagonal ind d = res_bind (check_sized_index ind) (\<lambda>_.
     if d < 2 \<or> d > int (indim ind) then Inl (Lush ''illegal parameters'')
     else let m = indim ind - nat d; n = idim ind ! m in
       if \<exists>i \<in> set [1 ..< nat d]. idim ind ! (m + i) \<noteq> n
       then Inl (Lush ''The last dimensions should have the same size'')
       else res_bind (sum_mods (imod ind ! m) (map (\<lambda>i. imod ind ! (m + i)) [1 ..< nat d])) (\<lambda>n.
         Inr (ind\<lparr>indim := m + 1, imod := (imod ind)[m := n]\<rparr>)))"

definition index_narrow :: "index \<Rightarrow> int \<Rightarrow> int \<Rightarrow> int \<Rightarrow> index res" where
  "index_narrow ind d sz st = res_bind (check_sized_index ind) (\<lambda>_.
     if d < 0 \<or> d \<ge> int (indim ind) \<or> sz < 1 \<or> st < 0 then Inl (Lush ''illegal parameters'')
     else res_bind (chk64 (st + sz)) (\<lambda>x.
       if x > idim ind ! nat d then Inl (Lush ''specified interval is too large'')
       else res_bind (chk64 (st * imod ind ! nat d)) (\<lambda>x. res_bind (chk64 (ioffset ind + x)) (\<lambda>off.
         Inr (ind\<lparr>idim := (idim ind)[nat d := sz], ioffset := off\<rparr>)))))"

definition delete_at :: "nat \<Rightarrow> nat \<Rightarrow> 'a list \<Rightarrow> 'a list" where
  "delete_at d n xs = take d xs @ take (n - 1 - d) (drop (Suc d) xs) @ drop (n - 1) xs"

definition index_select :: "index \<Rightarrow> int \<Rightarrow> int \<Rightarrow> index res" where
  "index_select ind d x = res_bind (check_sized_index ind) (\<lambda>_.
     if d < 0 \<or> d \<ge> int (indim ind) \<or> x < 0 then Inl (Lush ''illegal parameters'')
     else if x \<ge> idim ind ! nat d then Inl (Lush ''specified subscript is too large'')
     else res_bind (chk64 (x * imod ind ! nat d)) (\<lambda>y. res_bind (chk64 (ioffset ind + y)) (\<lambda>off.
       Inr (ind\<lparr>ioffset := off, indim := indim ind - 1, idim := delete_at (nat d) (indim ind) (idim ind),
         imod := delete_at (nat d) (indim ind) (imod ind)\<rparr>))))"

text \<open>The check of a permutation list: every position once.\<close>

fun perm_ok :: "int list \<Rightarrow> int \<Rightarrow> int list \<Rightarrow> bool" where
  "perm_ok [] nd seen = True"
| "perm_ok (t # ts) nd seen = (0 \<le> t \<and> t < nd \<and> t \<notin> set seen \<and> perm_ok ts nd (t # seen))"

definition permute :: "int list \<Rightarrow> 'a list \<Rightarrow> 'a list" where
  "permute table xs = map (\<lambda>t. xs ! nat t) table"

definition index_transpose :: "index \<Rightarrow> 'o val \<Rightarrow> index res" where
  "index_transpose ind l = res_bind (check_sized_index ind) (\<lambda>_.
     res_bind (index_parse_dimlist l) (\<lambda>table.
     if length table \<noteq> indim ind then Inl (Lush ''Permutation list is too short or too long'')
     else if \<not> perm_ok table (int (indim ind)) [] then Inl (Lush ''Bad permutation list'')
     else Inr (ind\<lparr>idim := set_prefix (permute table (idim ind)) (idim ind),
       imod := set_prefix (permute table (imod ind)) (imod ind)\<rparr>)))"

definition swap :: "nat \<Rightarrow> nat \<Rightarrow> 'a list \<Rightarrow> 'a list" where
  "swap i j xs = xs[i := xs ! j, j := xs ! i]"

definition index_transpose2 :: "index \<Rightarrow> int \<Rightarrow> int \<Rightarrow> index res" where
  "index_transpose2 ind d1 d2 = res_bind (check_sized_index ind) (\<lambda>_.
     if d1 < 0 \<or> d2 < 0 \<or> d1 \<ge> int (indim ind) \<or> d2 \<ge> int (indim ind) \<or> d1 = d2
     then Inl (Lush ''Illegal arguments'')
     else Inr (ind\<lparr>idim := swap (nat d1) (nat d2) (idim ind), imod := swap (nat d1) (nat d2) (imod ind)\<rparr>))"

definition index_clone :: "int list \<Rightarrow> index \<Rightarrow> index res" where
  "index_clone junk ind = res_bind (check_sized_index ind) (\<lambda>_. let n = indim ind in
     Inr ((new_index junk)\<lparr>iunsized := False, indim := n, ioffset := ioffset ind,
       idim := set_prefix (take n (idim ind)) junk, imod := set_prefix (take n (imod ind)) junk\<rparr>))"

definition index_transclone :: "int list \<Rightarrow> index \<Rightarrow> 'o val \<Rightarrow> index res" where
  "index_transclone junk ind l = res_bind (check_sized_index ind) (\<lambda>_.
     res_bind (index_parse_dimlist l) (\<lambda>table.
     if length table \<noteq> indim ind then Inl (Lush ''Permutation list is too short or too long'')
     else if \<not> perm_ok table (int (indim ind)) [] then Inl (Lush ''Bad permutation list'')
     else Inr ((new_index junk)\<lparr>iunsized := False, indim := indim ind, ioffset := ioffset ind,
       idim := set_prefix (permute table (idim ind)) junk, imod := set_prefix (permute table (imod ind)) junk\<rparr>)))"

text \<open>\<open>index_check_size\<close> returns true when the index does \<^emph>\<open>not\<close> fit in its storage.\<close>

fun size_range :: "(int \<times> int) list \<Rightarrow> int \<Rightarrow> int \<Rightarrow> (int \<times> int) res" where
  "size_range [] lo hi = Inr (lo, hi)"
| "size_range ((d, m) # dms) lo hi = res_bind (chk64 ((d - 1) * m)) (\<lambda>x.
     if m < 0 then res_bind (chk64 (lo + x)) (\<lambda>lo. size_range dms lo hi)
     else res_bind (chk64 (hi + x)) (\<lambda>hi. size_range dms lo hi))"

definition index_check_size :: "'o storage \<Rightarrow> index \<Rightarrow> bool res" where
  "index_check_size st ind = (if ioffset ind < 0 then Inr True
     else res_bind (size_range (shape ind) (ioffset ind) (ioffset ind)) (\<lambda>(lo, hi).
       Inr (\<not> (lo \<ge> 0 \<and> hi < ssize st))))"

text \<open>The three functions patch the index and take the change back when the check refuses it.\<close>

definition patched :: "'o storage \<Rightarrow> index \<Rightarrow> index res" where
  "patched st ind = res_bind (index_check_size st ind) (\<lambda>bad.
     if bad then Inl (Lush ''Index is larger than its storage'') else Inr ind)"

definition index_change_dim :: "'o storage \<Rightarrow> index \<Rightarrow> int \<Rightarrow> int \<Rightarrow> index res" where
  "index_change_dim st ind d x = res_bind (check_sized_index ind) (\<lambda>_.
     if d < 0 \<or> d \<ge> int (indim ind) \<or> x \<le> 0 then Inl (Lush ''illegal parameters'')
     else patched st (ind\<lparr>idim := (idim ind)[nat d := x]\<rparr>))"

definition index_change_mod :: "'o storage \<Rightarrow> index \<Rightarrow> int \<Rightarrow> int \<Rightarrow> index res" where
  "index_change_mod st ind d x = res_bind (check_sized_index ind) (\<lambda>_.
     if d < 0 \<or> d \<ge> int (indim ind) then Inl (Lush ''illegal parameters'')
     else patched st (ind\<lparr>imod := (imod ind)[nat d := x]\<rparr>))"

definition index_change_offset :: "'o storage \<Rightarrow> index \<Rightarrow> int \<Rightarrow> index res" where
  "index_change_offset st ind x = res_bind (check_sized_index ind) (\<lambda>_.
     patched st (ind\<lparr>ioffset := x\<rparr>))"

section \<open>The cached access\<close>

text \<open>
  \<open>lastind\<close>, \<open>lastcoord\<close> and \<open>lastoffset\<close>; \<open>lastind\<close> is a pointer, here a number that identifies the
  index. \<open>make_offset\<close> moves from the last offset when no coordinate changed by more than 1.
\<close>

record cache =
  lastind :: "nat option"
  lastcoord :: "int list"
  lastoffset :: int

fun step_offset :: "(int \<times> int) list \<Rightarrow> int list \<Rightarrow> int \<Rightarrow> int option" where
  "step_offset [] ms off = Some off"
| "step_offset (kj # kjs) [] off = None"
| "step_offset ((k, j) # kjs) (m # ms) off = (
     if j - k = 1 then step_offset kjs ms (off + m)
     else if j - k = - 1 then step_offset kjs ms (off - m)
     else if j - k = 0 then step_offset kjs ms off
     else None)"

definition by_hand :: "index \<Rightarrow> int list \<Rightarrow> int" where
  "by_hand ind coord = ioffset ind + (\<Sum>(k, m) \<leftarrow> zip coord (take (indim ind) (imod ind)). k * m)"

definition make_offset :: "nat \<Rightarrow> index \<Rightarrow> int list \<Rightarrow> cache \<Rightarrow> int \<times> cache" where
  "make_offset a ind coord c = (
     let coord = take (indim ind) coord;
         slow = (let off = by_hand ind coord in
           (off, \<lparr>lastind = Some a, lastcoord = set_prefix coord (lastcoord c), lastoffset = off\<rparr>)) in
     if lastind c = Some a
     then case step_offset (zip (lastcoord c) coord) (take (indim ind) (imod ind)) (lastoffset c) of
         Some off \<Rightarrow> (off, c\<lparr>lastcoord := set_prefix coord (lastcoord c), lastoffset := off\<rparr>)
       | None \<Rightarrow> slow
     else slow)"

text \<open>\<open>easy_index_check\<close>: the size asked for each dimension, or 0 to learn it; it forgets the cache.\<close>

fun match_dims :: "nat \<Rightarrow> int list \<Rightarrow> int list \<Rightarrow> int list res" where
  "match_dims i [] es = Inr []"
| "match_dims i (d # ds) [] = Inl (Undef ''dimension array'')"
| "match_dims i (d # ds) (e # es) =
     (if d \<noteq> 0 \<and> d \<noteq> e then Inl (Lush (''illegal dimension #'' @ printf_d (int i)))
      else res_bind (match_dims (Suc i) ds es) (\<lambda>rs. Inr (e # rs)))"

fun unspecified :: "nat \<Rightarrow> int list \<Rightarrow> nat option" where
  "unspecified i [] = None"
| "unspecified i (d # ds) = (if d = 0 then Some i else unspecified (Suc i) ds)"

definition easy_index_check ::
  "(int \<Rightarrow> bool) \<Rightarrow> (nat \<Rightarrow> 'o val list) \<Rightarrow> 'o storage \<Rightarrow> index \<Rightarrow> int list \<Rightarrow> cache \<Rightarrow>
     ('o storage \<times> index \<times> int list \<times> cache) res" where
  "easy_index_check mem raw st ind dims c =
    (if iunsized ind
     then case unspecified 0 dims of
         Some i \<Rightarrow> Inl (Lush (''unspecified dimension #'' @ printf_d (int i)))
       | None \<Rightarrow> res_bind (index_dimension mem raw st ind dims) (\<lambda>(st, ind).
           Inr (st, ind, dims, c\<lparr>lastind := None\<rparr>))
     else if length dims \<noteq> indim ind
     then Inl (Lush (printf_d (int (length dims)) @ ''D index expected''))
     else res_bind (match_dims 0 dims (take (indim ind) (idim ind))) (\<lambda>dims.
       Inr (st, ind, dims, c\<lparr>lastind := None\<rparr>)))"

definition easy_index_get :: "'o storage \<Rightarrow> nat \<Rightarrow> index \<Rightarrow> int list \<Rightarrow> cache \<Rightarrow> (rat \<times> cache) res" where
  "easy_index_get st a ind coord c = (let (off, c) = make_offset a ind coord c in
     res_bind (getat st off) (\<lambda>v. case v of VNum x \<Rightarrow> Inr (x, c) | _ \<Rightarrow> Inl (Lush ''Not a number'')))"

definition easy_index_set ::
  "(rat \<Rightarrow> rat) \<Rightarrow> 'o storage \<Rightarrow> nat \<Rightarrow> index \<Rightarrow> int list \<Rightarrow> rat \<Rightarrow> cache \<Rightarrow> ('o storage \<times> cache) res" where
  "easy_index_set to_float st a ind coord x c = (let (off, c) = make_offset a ind coord c in
     res_bind (setat to_float st off (VNum x)) (\<lambda>st. Inr (st, c)))"

section \<open>Reports\<close>

definition index_nelements :: "index \<Rightarrow> int res" where
  "index_nelements ind = (if iunsized ind then Inr 0
     else fold (\<lambda>(d, _) r. res_bind r (\<lambda>x. chk64 (x * d))) (shape ind) (Inr 1))"

text \<open>The dimension argument of \<open>index-dim\<close>, \<open>index-mod\<close> and \<open>index-bound\<close>: negative ones count from the
  end.\<close>

definition dim_arg :: "index \<Rightarrow> int \<Rightarrow> nat res" where
  "dim_arg ind n = (let nd = (if iunsized ind then - 1 else int (indim ind));
      n = (if n < 0 then n + nd else n) in
     if n < 0 \<or> n \<ge> nd then Inl (Lush ''illegal dimension'') else Inr (nat n))"

definition index_dim :: "index \<Rightarrow> int \<Rightarrow> int res" where
  "index_dim ind n = res_bind (dim_arg ind n) (\<lambda>i. Inr (idim ind ! i))"

definition index_mod :: "index \<Rightarrow> int \<Rightarrow> int res" where
  "index_mod ind n = res_bind (dim_arg ind n) (\<lambda>i. Inr (imod ind ! i))"

definition index_bound :: "index \<Rightarrow> int \<Rightarrow> int res" where
  "index_bound ind n = res_bind (dim_arg ind n) (\<lambda>i. Inr (idim ind ! i - 1))"

end
