(* ===== verification/IndexLaws.thy ===== *)
theory IndexLaws
  imports IndexOps
begin

text \<open>
  The invariant of an index on a storage, that all its elements are inside the storage, and the
  proof that the operations of \<open>IndexOps\<close> keep it; access through an index that satisfies it is
  safe. The extreme offsets of an index are its offset plus the sums of the negative and of the
  positive extents of its dimensions.
\<close>

section \<open>The invariant\<close>

definition lo_term :: "int \<times> int \<Rightarrow> int" where
  "lo_term dm = min 0 ((fst dm - 1) * snd dm)"

definition hi_term :: "int \<times> int \<Rightarrow> int" where
  "hi_term dm = max 0 ((fst dm - 1) * snd dm)"

definition fits :: "int \<Rightarrow> int \<Rightarrow> (int \<times> int) list \<Rightarrow> bool" where
  "fits sz off dms \<longleftrightarrow> (\<forall>dm \<in> set dms. 0 < fst dm) \<and>
     0 \<le> off + sum_list (map lo_term dms) \<and> off + sum_list (map hi_term dms) < sz"

definition wf_index :: "'o storage \<Rightarrow> index \<Rightarrow> bool" where
  "wf_index st ind \<longleftrightarrow> \<not> iunsized ind \<and> indim ind \<le> MAXDIMS \<and> length (idim ind) = MAXDIMS \<and>
     length (imod ind) = MAXDIMS \<and> fits (ssize st) (ioffset ind) (shape ind)"

lemma lo_term_le: "0 \<le> k \<Longrightarrow> k < fst dm \<Longrightarrow> lo_term dm \<le> k * snd dm"
proof -
  assume k: "0 \<le> k" "k < fst dm"
  show ?thesis
  proof (cases "0 \<le> snd dm")
    case True
    then have "0 \<le> k * snd dm" using k by simp
    then show ?thesis unfolding lo_term_def by linarith
  next
    case False
    then have "(fst dm - 1) * snd dm \<le> k * snd dm" using k by (intro mult_right_mono_neg) auto
    then show ?thesis unfolding lo_term_def by linarith
  qed
qed

lemma hi_term_ge: "0 \<le> k \<Longrightarrow> k < fst dm \<Longrightarrow> k * snd dm \<le> hi_term dm"
  using lo_term_le [of k "(fst dm, - snd dm)"] by (auto simp: lo_term_def hi_term_def)

lemma terms_sign [simp]: "lo_term dm \<le> 0" "0 \<le> hi_term dm"
  by (simp_all add: lo_term_def hi_term_def)

lemma sum_terms_sign: "sum_list (map lo_term dms) \<le> 0" "0 \<le> sum_list (map hi_term dms)"
  by (induction dms) (use terms_sign in \<open>auto intro: add_nonpos_nonpos\<close>)

lemma fits_Cons: "fits sz off (dm # dms) \<Longrightarrow> 0 \<le> k \<Longrightarrow> k < fst dm \<Longrightarrow> fits sz (off + k * snd dm) dms"
  using lo_term_le [of k dm] hi_term_ge [of k dm] by (auto simp: fits_def)

lemma fits_offset: "fits sz off dms \<Longrightarrow> 0 \<le> off \<and> off < sz"
  using sum_terms_sign [of dms] by (auto simp: fits_def)

text \<open>The offset of a list of coordinates.\<close>

fun offset_at :: "int \<Rightarrow> (int \<times> int) list \<Rightarrow> int list \<Rightarrow> int" where
  "offset_at off (dm # dms) (k # ks) = offset_at (off + k * snd dm) dms ks"
| "offset_at off _ _ = off"

fun coords :: "(int \<times> int) list \<Rightarrow> int list \<Rightarrow> bool" where
  "coords (dm # dms) (k # ks) \<longleftrightarrow> 0 \<le> k \<and> k < fst dm \<and> coords dms ks"
| "coords [] [] \<longleftrightarrow> True"
| "coords _ _ \<longleftrightarrow> False"

lemma fits_coords: "fits sz off dms \<Longrightarrow> coords dms ks \<Longrightarrow> 0 \<le> offset_at off dms ks \<and> offset_at off dms ks < sz"
proof (induction off dms ks rule: offset_at.induct)
  case (1 off dm dms k ks)
  then show ?case using fits_Cons [of sz off dm dms k] by simp
qed (auto dest: fits_offset)

section \<open>Safe access\<close>

lemma in_int64_between: "0 \<le> x \<Longrightarrow> x < sz \<Longrightarrow> in_int64 sz \<Longrightarrow> in_int64 x"
  by (auto simp: in_int64_def)

lemma chk64_diff: "0 \<le> j \<Longrightarrow> j < sz \<Longrightarrow> 0 \<le> j + y \<Longrightarrow> j + y < sz \<Longrightarrow> in_int64 sz \<Longrightarrow>
    chk64 y = Inr y \<and> chk64 (j + y) = Inr (j + y)"
  by (auto simp: chk64_def in_int64_def)

lemma scan_numbers:
  assumes "in_int64 sz"
  shows "fits sz off dms \<Longrightarrow> coords dms ks \<Longrightarrow> \<forall>k \<in> set ks. in_int64 k \<Longrightarrow>
    scan_subscripts msg dms (map NEW_NUMBER ks) i off = Inr (Inl (offset_at off dms ks))"
proof (induction off dms ks arbitrary: i rule: offset_at.induct)
  case (1 off dm dms k ks)
  have f: "fits sz (off + k * snd dm) dms" using fits_Cons [OF "1.prems"(1)] "1.prems"(2) by simp
  have "chk64 (k * snd dm) = Inr (k * snd dm) \<and> chk64 (off + k * snd dm) = Inr (off + k * snd dm)"
    by (rule chk64_diff [OF _ _ _ _ assms])
      (use fits_offset [OF "1.prems"(1)] fits_offset [OF f] in auto)
  then show ?case using 1 f by (simp add: NEW_NUMBER_def to_intg_of_int)
qed (auto elim!: coords.elims(2))

text \<open>The only undefined behaviour left in an access is the conversion of a huge subscript.\<close>

abbreviation "huge \<equiv> Undef ''number out of the range of intg''"

lemma to_intg_huge: "to_intg x = Inl e \<Longrightarrow> e = huge"
  by (auto simp: to_intg_def split: if_splits)

lemma scan_safe:
  assumes sz: "in_int64 sz"
  shows "fits sz off dms \<Longrightarrow> length dms \<le> length ps \<Longrightarrow>
    (case scan_subscripts msg dms ps i off of Inl e \<Rightarrow> e = Lush msg \<or> e = huge | Inr (Inl j) \<Rightarrow> 0 \<le> j \<and> j < sz | Inr (Inr k) \<Rightarrow> True)"
proof (induction dms arbitrary: ps i off)
  case Nil
  then show ?case using fits_offset by simp
next
  case (Cons dm dms)
  then obtain p qs where ps: "ps = p # qs" by (cases ps) auto
  show ?case
  proof (cases p)
    case (VNum x)
    show ?thesis
    proof (cases "to_intg x")
      case (Inr k)
      show ?thesis
      proof (cases "0 \<le> k \<and> k < fst dm")
        case True
        then have f: "fits sz (off + k * snd dm) dms" using fits_Cons Cons.prems(1) by blast
        have "chk64 (k * snd dm) = Inr (k * snd dm) \<and> chk64 (off + k * snd dm) = Inr (off + k * snd dm)"
          by (rule chk64_diff [OF _ _ _ _ sz])
            (use fits_offset [OF Cons.prems(1)] fits_offset [OF f] in auto)
        then show ?thesis using Cons.IH [OF f, of qs "Suc i"] Cons.prems(2) ps VNum Inr True by simp
      qed (use ps VNum Inr in auto)
    qed (use ps VNum to_intg_huge in auto)
  qed (use ps in auto)
qed

lemma res_map_error: "res_map f xs = Inl e \<Longrightarrow> \<exists>x \<in> set xs. f x = Inl e"
proof (induction xs)
  case (Cons x xs)
  then show ?case by (cases "f x"; cases "res_map f xs") auto
qed simp

lemma sub_range_error: "sub_range d p = Inl e \<Longrightarrow> e = huge \<or> e = Lush ''illegal subscript''"
proof -
  assume e: "sub_range d p = Inl e"
  have "res_bind (to_intg x) (\<lambda>s. res_bind (to_intg y) (\<lambda>t. Inr (s, t))) = Inl e \<Longrightarrow> e = huge" for x y
    using to_intg_huge [of x] to_intg_huge [of y] by (cases "to_intg x"; cases "to_intg y") auto
  then show ?thesis using e by (auto simp: sub_range_def split: if_splits option.splits val.splits)
qed

declare index_ref.simps [simp del] index_set.simps [simp del]

lemma index_ref_safe:
  assumes st: "wf_storage st" "in_int64 (ssize st)" and ind: "wf_index st ind"
  shows "indim ind \<le> length p \<Longrightarrow> index_ref st ind p = Inl (Undef s) \<Longrightarrow> Undef s = huge"
proof (induction "nonnum p" arbitrary: p rule: less_induct)
  case less
  have len: "length (shape ind) \<le> length p" using less.prems(1) by (simp add: shape_def)
  have f: "fits (ssize st) (ioffset ind) (shape ind)" using ind by (simp add: wf_index_def)
  let ?scan = "scan ''subscript out of range'' ind p"
  note safe = scan_safe [OF st(2) f len, of "''subscript out of range''" 0, folded scan_def]
  note eq = less.prems(2) [unfolded index_ref.simps [of st ind p]]
  show ?case
  proof (cases ?scan)
    case (Inl e)
    then show ?thesis using safe eq by auto
  next
    case (Inr r)
    show ?thesis
    proof (cases r)
      case j: (Inl j)
      then show ?thesis using safe eq Inr st(1) by (simp add: getat_def wf_storage_def)
    next
      case i: (Inr i)
      have nn: "i < length p" "\<not> ISNUMBER (p ! i)"
        using scan_nonnum [of "''subscript out of range''" "shape ind" p 0 "ioffset ind" i] Inr i
        by (simp_all add: scan_def)
      show ?thesis
      proof (cases "sub_range (idim ind ! i) (p ! i)")
        case (Inl e)
        then show ?thesis using sub_range_error [OF Inl] eq Inr i by auto
      next
        case sr: (Inr se)
        obtain a b where se: "se = (a, b)" by force
        have "res_map (\<lambda>j. index_ref st ind (p[i := VNum (of_int j)])) [a .. b] = Inl (Undef s)"
          using eq Inr i sr se by (cases "res_map (\<lambda>j. index_ref st ind (p[i := VNum (of_int j)])) [a .. b]") auto
        then obtain j where "index_ref st ind (p[i := VNum (of_int j)]) = Inl (Undef s)"
          using res_map_error by fastforce
        then show ?thesis using less.hyps [OF nonnum_update [OF nn, of "of_int j"]] less.prems(1) by simp
      qed
    qed
  qed
qed

lemma index_ref_element:
  fixes st :: "'o storage"
  assumes st: "wf_storage st" "in_int64 (ssize st)" and ind: "wf_index st ind"
    and ks: "coords (shape ind) ks" "\<forall>k \<in> set ks. in_int64 k"
  shows "index_ref st ind (map NEW_NUMBER ks) = Inr (sdata st ! nat (offset_at (ioffset ind) (shape ind) ks))"
proof -
  have f: "fits (ssize st) (ioffset ind) (shape ind)" using ind by (simp add: wf_index_def)
  have "scan ''subscript out of range'' ind (map NEW_NUMBER ks :: 'o val list) =
      Inr (Inl (offset_at (ioffset ind) (shape ind) ks))"
    unfolding scan_def by (rule scan_numbers [OF st(2) f ks])
  then show ?thesis unfolding index_ref.simps [of st ind "map NEW_NUMBER ks"]
    using fits_coords [OF f ks(1)] st(1) by (simp add: getat_ok wf_storage_def)
qed

section \<open>The operations keep the invariant\<close>

lemma length_shape: "length (idim ind) = MAXDIMS \<Longrightarrow> length (imod ind) = MAXDIMS \<Longrightarrow> indim ind \<le> MAXDIMS \<Longrightarrow>
    length (shape ind) = indim ind"
  by (simp add: shape_def)

lemma nth_shape: "i < indim ind \<Longrightarrow> indim ind \<le> length (idim ind) \<Longrightarrow> indim ind \<le> length (imod ind) \<Longrightarrow>
    shape ind ! i = (idim ind ! i, imod ind ! i)"
  by (simp add: shape_def)

lemma sum_list_map_update:
  fixes f :: "'a \<Rightarrow> int"
  shows "i < length xs \<Longrightarrow> sum_list (map f (xs[i := y])) = sum_list (map f xs) - f (xs ! i) + f y"
proof (induction xs arbitrary: i)
  case (Cons x xs)
  then show ?case by (cases i) auto
qed simp

lemma sum_list_map_delete:
  fixes f :: "'a \<Rightarrow> int"
  shows "i < length xs \<Longrightarrow> sum_list (map f (take i xs @ drop (Suc i) xs)) = sum_list (map f xs) - f (xs ! i)"
proof (induction xs arbitrary: i)
  case (Cons x xs)
  then show ?case by (cases i) auto
qed simp

lemma set_update_pos: "\<forall>dm \<in> set dms. 0 < fst dm \<Longrightarrow> 0 < fst y \<Longrightarrow> \<forall>dm \<in> set (dms[i := y]). 0 < fst dm"
  using set_update_subset_insert [of dms i y] by auto

lemma fits_nth: "fits sz off dms \<Longrightarrow> i < length dms \<Longrightarrow> 0 < fst (dms ! i)"
  by (auto simp: fits_def)

text \<open>Replacing a dimension by a part of it.\<close>

lemma part_terms:
  assumes "1 \<le> n" "0 \<le> b" "b + n \<le> e"
  shows "lo_term (e, m) \<le> b * m + lo_term (n, m)" "b * m + hi_term (n, m) \<le> hi_term (e, m)"
proof -
  have "lo_term (e, m) \<le> b * m" "b * m \<le> hi_term (e, m)"
      "lo_term (e, m) \<le> (b + (n - 1)) * m" "(b + (n - 1)) * m \<le> hi_term (e, m)"
    using lo_term_le [of b "(e, m)"] hi_term_ge [of b "(e, m)"] lo_term_le [of "b + (n - 1)" "(e, m)"]
      hi_term_ge [of "b + (n - 1)" "(e, m)"] assms by simp_all
  moreover have "(b + (n - 1)) * m = b * m + (n - 1) * m" by (rule distrib_right)
  ultimately show "lo_term (e, m) \<le> b * m + lo_term (n, m)" "b * m + hi_term (n, m) \<le> hi_term (e, m)"
    by (auto simp: lo_term_def hi_term_def min_def max_def)
qed

lemma fits_narrow:
  assumes f: "fits sz off dms" and i: "i < length dms" "dms ! i = (e, m)" and n: "1 \<le> n" "0 \<le> b" "b + n \<le> e"
  shows "fits sz (off + b * m) (dms[i := (n, m)])"
  using f part_terms [OF n, of m] set_update_pos [of dms "(n, m)" i] i n(1)
  unfolding fits_def by (simp add: sum_list_map_update)

lemma fits_select:
  assumes f: "fits sz off dms" and i: "i < length dms" "dms ! i = (e, m)" and x: "0 \<le> x" "x < e"
  shows "fits sz (off + x * m) (take i dms @ drop (Suc i) dms)"
proof -
  have "set (take i dms @ drop (Suc i) dms) \<subseteq> set dms"
    using set_take_subset set_drop_subset by fastforce
  moreover have "lo_term (e, m) \<le> x * m" "x * m \<le> hi_term (e, m)"
    using lo_term_le [of x "(e, m)"] hi_term_ge [of x "(e, m)"] x by simp_all
  ultimately show ?thesis using f i sum_list_map_delete [OF i(1), of lo_term] sum_list_map_delete [OF i(1), of hi_term]
    unfolding fits_def by (auto simp del: map_append)
qed

text \<open>Splitting a dimension into blocks and positions in a block.\<close>

lemma fits_unfold:
  assumes f: "fits sz off dms" and i: "i < length dms" "dms ! i = (e, m)"
    and s: "1 \<le> n" "1 \<le> st" "0 < s" "e = st * (s - 1) + n"
  shows "fits sz off (dms[i := (s, m * st)] @ [(n, m)])"
proof -
  have e: "(e - 1) * m = (s - 1) * (m * st) + (n - 1) * m" unfolding s(4) by (simp add: algebra_simps)
  have "lo_term (e, m) = lo_term (s, m * st) + lo_term (n, m) \<and> hi_term (e, m) = hi_term (s, m * st) + hi_term (n, m)"
  proof (cases "0 \<le> m")
    case True
    then have "0 \<le> (s - 1) * (m * st)" "0 \<le> (n - 1) * m" using s by simp_all
    then show ?thesis using e by (simp add: lo_term_def hi_term_def)
  next
    case False
    then have "(s - 1) * (m * st) \<le> 0" "(n - 1) * m \<le> 0" using s by (simp_all add: mult_nonneg_nonpos mult_nonpos_nonneg)
    then show ?thesis using e by (simp add: lo_term_def hi_term_def)
  qed
  then show ?thesis using f i s set_update_pos [of dms "(s, m * st)" i]
    unfolding fits_def by (auto simp add: sum_list_map_update)
qed

text \<open>Merging dimensions of one size.\<close>

lemma fits_merge:
  assumes f: "fits sz off (dms @ map (\<lambda>m. (n, m)) ms)" and n: "0 < n"
  shows "fits sz off (dms @ [(n, sum_list ms)])"
proof -
  have "sum_list (map lo_term (map (\<lambda>m. (n, m)) ms)) \<le> lo_term (n, sum_list ms) \<and>
      hi_term (n, sum_list ms) \<le> sum_list (map hi_term (map (\<lambda>m. (n, m)) ms))" for ms
  proof (induction ms)
    case (Cons m ms)
    have "(n - 1) * (m + sum_list ms) = (n - 1) * m + (n - 1) * sum_list ms" by (rule distrib_left)
    then show ?case using Cons by (auto simp: lo_term_def hi_term_def)
  qed (simp add: lo_term_def hi_term_def)
  from this [of ms] show ?thesis using f n unfolding fits_def by auto
qed

lemma fits_perm: "mset dms' = mset dms \<Longrightarrow> fits sz off dms' = fits sz off dms"
proof -
  assume m: "mset dms' = mset dms"
  have "sum_list (map f dms') = sum_list (map f dms)" for f :: "int \<times> int \<Rightarrow> int"
    using m by (metis mset_map sum_mset_sum_list)
  then show ?thesis using mset_eq_setD [OF m] by (simp add: fits_def)
qed

text \<open>The shape of an index position by position.\<close>

definition wf_arrays :: "index \<Rightarrow> bool" where
  "wf_arrays ind \<longleftrightarrow> indim ind \<le> MAXDIMS \<and> length (idim ind) = MAXDIMS \<and> length (imod ind) = MAXDIMS"

lemma wf_index_split: "wf_index st ind \<longleftrightarrow> \<not> iunsized ind \<and> wf_arrays ind \<and> fits (ssize st) (ioffset ind) (shape ind)"
  by (auto simp: wf_index_def wf_arrays_def)

lemma shape_eqI:
  assumes "wf_arrays ind" "length dms = indim ind"
    and "\<And>i. i < indim ind \<Longrightarrow> dms ! i = (idim ind ! i, imod ind ! i)"
  shows "shape ind = dms"
  using assms by (intro nth_equalityI) (auto simp: nth_shape length_shape wf_arrays_def)

lemma shape_nth: "wf_arrays ind \<Longrightarrow> i < indim ind \<Longrightarrow> shape ind ! i = (idim ind ! i, imod ind ! i)"
  by (simp add: nth_shape wf_arrays_def)

lemma shape_length: "wf_arrays ind \<Longrightarrow> length (shape ind) = indim ind"
  by (simp add: length_shape wf_arrays_def)

lemma set_prefix_length: "length ys \<le> length xs \<Longrightarrow> length (set_prefix ys xs) = length xs"
  by (simp add: set_prefix_def)

lemma set_prefix_nth: "i < length ys \<Longrightarrow> set_prefix ys xs ! i = ys ! i"
  by (simp add: set_prefix_def nth_append)

lemma delete_at_length: "d < n \<Longrightarrow> n \<le> length xs \<Longrightarrow> length (delete_at d n xs) = length xs"
  by (simp add: delete_at_def)

lemma delete_at_nth: "d < n \<Longrightarrow> n \<le> length xs \<Longrightarrow> i < n - 1 \<Longrightarrow>
    delete_at d n xs ! i = (if i < d then xs ! i else xs ! Suc i)"
  by (auto simp: delete_at_def nth_append min_def)

lemma nth_delete: "d < length xs \<Longrightarrow> i < length xs - 1 \<Longrightarrow>
    (take d xs @ drop (Suc d) xs) ! i = (if i < d then xs ! i else xs ! Suc i)"
  by (auto simp: nth_append min_def)

section \<open>Each operation\<close>

lemma narrow_wf:
  assumes w: "wf_index st ind" and r: "index_narrow ind d n b = Inr ind'"
  shows "wf_index st ind'"
proof -
  have a: "wf_arrays ind" and f: "fits (ssize st) (ioffset ind) (shape ind)" and u: "\<not> iunsized ind"
    using w by (auto simp: wf_index_split)
  obtain m where m: "imod ind ! nat d = m" by simp
  have c: "0 \<le> d" "nat d < indim ind" "1 \<le> n" "0 \<le> b" "b + n \<le> idim ind ! nat d"
    and i': "ind' = ind\<lparr>idim := (idim ind)[nat d := n], ioffset := ioffset ind + b * m\<rparr>"
    using r m by (auto simp: index_narrow_def check_sized_index_def chk64_def split: if_splits)
  have a': "wf_arrays ind'" using a unfolding wf_arrays_def i' by simp
  have sh: "shape ind' = (shape ind)[nat d := (n, m)]"
    by (rule shape_eqI [OF a']) (use a c m in \<open>auto simp: i' shape_length shape_nth nth_list_update wf_arrays_def\<close>)
  have "fits (ssize st) (ioffset ind + b * m) ((shape ind)[nat d := (n, m)])"
    by (rule fits_narrow [OF f _ _ c(3-5)]) (use a c m in \<open>auto simp: shape_length shape_nth\<close>)
  then show ?thesis using a' u sh i' by (simp add: wf_index_split)
qed

lemma select_wf:
  assumes w: "wf_index st ind" and r: "index_select ind d x = Inr ind'"
  shows "wf_index st ind'"
proof -
  have a: "wf_arrays ind" and f: "fits (ssize st) (ioffset ind) (shape ind)" and u: "\<not> iunsized ind"
    using w by (auto simp: wf_index_split)
  obtain m e where m: "imod ind ! nat d = m" "idim ind ! nat d = e" by simp
  have c: "0 \<le> d" "nat d < indim ind" "0 \<le> x" "x < e"
    and i': "ind' = ind\<lparr>ioffset := ioffset ind + x * m, indim := indim ind - 1,
      idim := delete_at (nat d) (indim ind) (idim ind), imod := delete_at (nat d) (indim ind) (imod ind)\<rparr>"
    using r m by (auto simp: index_select_def check_sized_index_def chk64_def split: if_splits)
  have le: "indim ind \<le> length (idim ind)" "indim ind \<le> length (imod ind)" using a by (simp_all add: wf_arrays_def)
  have a': "wf_arrays ind'" using a delete_at_length [OF c(2) le(1)] delete_at_length [OF c(2) le(2)]
    unfolding wf_arrays_def i' by simp linarith
  have sh: "shape ind' = take (nat d) (shape ind) @ drop (Suc (nat d)) (shape ind)"
    by (rule shape_eqI [OF a'])
      (use a c in \<open>auto simp: i' shape_length shape_nth nth_delete delete_at_nth [OF c(2) le(1)] delete_at_nth [OF c(2) le(2)]\<close>)
  have "fits (ssize st) (ioffset ind + x * m) (take (nat d) (shape ind) @ drop (Suc (nat d)) (shape ind))"
    by (rule fits_select [OF f _ _ c(3,4)]) (use a c m in \<open>auto simp: shape_length shape_nth\<close>)
  then show ?thesis using a' u sh i' by (simp add: wf_index_split)
qed

lemma unfold_wf:
  assumes w: "wf_index st ind" and r: "index_unfold ind d n b = Inr ind'"
  shows "wf_index st ind'"
proof -
  have a: "wf_arrays ind" and f: "fits (ssize st) (ioffset ind) (shape ind)" and u: "\<not> iunsized ind"
    using w by (auto simp: wf_index_split)
  obtain m e where m: "imod ind ! nat d = m" "idim ind ! nat d = e" by simp
  obtain s where s: "s = 1 + cdiv (e - n) b" by simp
  have c: "0 \<le> d" "nat d < indim ind" "1 \<le> n" "1 \<le> b" "0 < s" "e = b * (s - 1) + n" "indim ind + 1 < MAXDIMS"
    and i': "ind' = ind\<lparr>indim := indim ind + 1, idim := (idim ind)[indim ind := n, nat d := s],
      imod := (imod ind)[indim ind := m, nat d := m * b]\<rparr>"
    using r m s by (auto simp: index_unfold_def check_sized_index_def chk64_def Let_def not_le split: if_splits)
  have a': "wf_arrays ind'" using a c unfolding wf_arrays_def i' by simp
  have sh: "shape ind' = (shape ind)[nat d := (s, m * b)] @ [(n, m)]"
    by (rule shape_eqI [OF a'])
      (use a c in \<open>auto simp: i' shape_length shape_nth nth_list_update nth_append wf_arrays_def less_Suc_eq\<close>)
  have "fits (ssize st) (ioffset ind) ((shape ind)[nat d := (s, m * b)] @ [(n, m)])"
    by (rule fits_unfold [OF f _ _ c(3-6)]) (use a c m in \<open>auto simp: shape_length shape_nth\<close>)
  then show ?thesis using a' u sh i' by (simp add: wf_index_split)
qed

lemma sum_mods_value: "sum_mods n ms = Inr x \<Longrightarrow> x = n + sum_list ms"
proof (induction ms arbitrary: n)
  case (Cons m ms)
  then have "sum_mods (n + m) ms = Inr x" by (auto simp: chk64_def split: if_splits)
  from Cons.IH [OF this] show ?case by simp
qed simp

lemma diagonal_wf:
  assumes w: "wf_index st ind" and r: "index_diagonal ind d = Inr ind'"
  shows "wf_index st ind'"
proof -
  have a: "wf_arrays ind" and f: "fits (ssize st) (ioffset ind) (shape ind)" and u: "\<not> iunsized ind"
    using w by (auto simp: wf_index_split)
  define m where "m = indim ind - nat d"
  define ms where "ms = map (\<lambda>i. imod ind ! (m + i)) [0 ..< nat d]"
  obtain x where c: "2 \<le> d" "d \<le> int (indim ind)" "\<forall>i \<in> set [1 ..< nat d]. idim ind ! (m + i) = idim ind ! m"
    and x: "sum_mods (imod ind ! m) (map (\<lambda>i. imod ind ! (m + i)) [1 ..< nat d]) = Inr x"
    and i': "ind' = ind\<lparr>indim := m + 1, imod := (imod ind)[m := x]\<rparr>"
    using r by (auto simp: index_diagonal_def check_sized_index_def m_def res_bind_Inr_iff Let_def split: if_splits)
  have md: "m + nat d = indim ind" "m < indim ind" using c by (auto simp: m_def)
  have u0: "[0 ..< nat d] = 0 # [1 ..< nat d]" using c(1) by (simp add: upt_conv_Cons)
  have xs: "x = sum_list ms" using sum_mods_value [OF x] by (simp add: ms_def u0 del: upt_Suc)
  have ed: "idim ind ! (m + i) = idim ind ! m" if "i < nat d" for i
    using c(3) that by (cases "i = 0") auto
  have sh0: "shape ind = take m (shape ind) @ map (\<lambda>k. (idim ind ! m, k)) ms"
  proof (rule nth_equalityI)
    show "length (shape ind) = length (take m (shape ind) @ map (\<lambda>k. (idim ind ! m, k)) ms)"
      using a md by (simp add: shape_length ms_def)
    fix i assume "i < length (shape ind)"
    then have i: "i < indim ind" using a by (simp add: shape_length)
    show "shape ind ! i = (take m (shape ind) @ map (\<lambda>k. (idim ind ! m, k)) ms) ! i"
      using a md i ed [of "i - m"] by (auto simp: shape_nth nth_append shape_length ms_def)
  qed
  have a': "wf_arrays ind'" using a md unfolding wf_arrays_def i' by simp
  have sh: "shape ind' = take m (shape ind) @ [(idim ind ! m, sum_list ms)]"
    by (rule shape_eqI [OF a'])
      (use a md in \<open>auto simp: i' xs shape_length shape_nth nth_list_update nth_append wf_arrays_def less_Suc_eq\<close>)
  have "0 < idim ind ! m" using fits_nth [OF f, of m] a md by (simp add: shape_length shape_nth)
  moreover have "fits (ssize st) (ioffset ind) (take m (shape ind) @ map (\<lambda>k. (idim ind ! m, k)) ms)"
    using f sh0 by simp
  ultimately have "fits (ssize st) (ioffset ind) (take m (shape ind) @ [(idim ind ! m, sum_list ms)])"
    by (rule fits_merge [rotated])
  then show ?thesis using a' u sh i' by (simp add: wf_index_split)
qed

text \<open>Permutations of the dimensions.\<close>

lemma perm_ok_set: "perm_ok ts nd seen \<Longrightarrow> distinct ts \<and> (\<forall>t \<in> set ts. 0 \<le> t \<and> t < nd \<and> t \<notin> set seen)"
  by (induction ts arbitrary: seen) force+

lemma perm_mset:
  assumes "perm_ok ts (int n) []" "length ts = n"
  shows "mset (map nat ts) = mset [0..<n]"
proof -
  have d: "distinct ts" and r: "\<forall>t \<in> set ts. 0 \<le> t \<and> t < int n" using perm_ok_set [OF assms(1)] by auto
  have "inj_on nat (set ts)" using r by (metis inj_onI nat_eq_iff2)
  then have d': "distinct (map nat ts)" using d by (simp add: distinct_map)
  have "set (map nat ts) \<subseteq> {0..<n}" using r by auto
  moreover have "card (set (map nat ts)) = card {0..<n}" using distinct_card [OF d'] assms(2) by simp
  ultimately have "set (map nat ts) = {0..<n}" by (simp add: card_subset_eq)
  then show ?thesis using d' by (metis distinct_upt set_eq_iff_mset_eq_distinct set_upt)
qed

lemma permute_mset:
  assumes "perm_ok ts (int (length xs)) []" "length ts = length xs"
  shows "mset (map (\<lambda>t. xs ! nat t) ts) = mset xs"
proof -
  have "mset (map (\<lambda>t. xs ! nat t) ts) = image_mset ((!) xs) (mset (map nat ts))"
    by (simp add: multiset.map_comp comp_def)
  also have "\<dots> = mset (map ((!) xs) [0..<length xs])" unfolding perm_mset [OF assms] by simp
  finally show ?thesis by (simp add: map_nth)
qed

lemma permuted_shape:
  assumes "wf_arrays ind" "perm_ok ts (int (indim ind)) []" "length ts = indim ind" "length junk = MAXDIMS" "length junk' = MAXDIMS"
    and "indim ind' = indim ind" "idim ind' = set_prefix (permute ts (idim ind)) junk"
      "imod ind' = set_prefix (permute ts (imod ind)) junk'"
  shows "wf_arrays ind'" "shape ind' = map (\<lambda>t. shape ind ! nat t) ts"
proof -
  have t: "ts ! i \<ge> 0 \<and> nat (ts ! i) < indim ind" if "i < indim ind" for i
    using perm_ok_set [OF assms(2)] that assms(3) by (metis nat_less_iff nth_mem)
  show a': "wf_arrays ind'" using assms by (auto simp: wf_arrays_def set_prefix_length permute_def)
  show "shape ind' = map (\<lambda>t. shape ind ! nat t) ts"
    by (rule shape_eqI [OF a']) (use assms t in \<open>auto simp: set_prefix_nth permute_def shape_nth\<close>)
qed

lemma transpose_wf:
  assumes w: "wf_index st ind" and r: "index_transpose ind l = Inr ind'"
  shows "wf_index st ind'"
proof -
  have a: "wf_arrays ind" and f: "fits (ssize st) (ioffset ind) (shape ind)" and u: "\<not> iunsized ind"
    using w by (auto simp: wf_index_split)
  obtain ts where ts: "length ts = indim ind" "perm_ok ts (int (indim ind)) []"
    and i': "ind' = ind\<lparr>idim := set_prefix (permute ts (idim ind)) (idim ind),
      imod := set_prefix (permute ts (imod ind)) (imod ind)\<rparr>"
    using r by (auto simp: index_transpose_def check_sized_index_def res_bind_Inr_iff split: if_splits)
  have p: "wf_arrays ind'" "shape ind' = map (\<lambda>t. shape ind ! nat t) ts"
    using permuted_shape [OF a ts(2,1), of "idim ind" "imod ind" ind'] a by (simp_all add: i' wf_arrays_def)
  have "fits (ssize st) (ioffset ind) (shape ind')"
    using fits_perm [OF permute_mset [of ts "shape ind"]] ts f a p(2) by (simp add: shape_length)
  then show ?thesis using p(1) u by (simp add: wf_index_split i')
qed

lemma transclone_wf:
  assumes w: "wf_index st ind" and r: "index_transclone junk ind l = Inr ind'" and j: "length junk = MAXDIMS"
  shows "wf_index st ind'"
proof -
  have a: "wf_arrays ind" and f: "fits (ssize st) (ioffset ind) (shape ind)"
    using w by (auto simp: wf_index_split)
  obtain ts where ts: "length ts = indim ind" "perm_ok ts (int (indim ind)) []"
    and i': "ind' = (new_index junk)\<lparr>iunsized := False, indim := indim ind, ioffset := ioffset ind,
       idim := set_prefix (permute ts (idim ind)) junk, imod := set_prefix (permute ts (imod ind)) junk\<rparr>"
    using r by (auto simp: index_transclone_def check_sized_index_def res_bind_Inr_iff split: if_splits)
  have p: "wf_arrays ind'" "shape ind' = map (\<lambda>t. shape ind ! nat t) ts"
    using permuted_shape [OF a ts(2,1) j j, of ind'] by (simp_all add: i')
  have "fits (ssize st) (ioffset ind) (shape ind')"
    using fits_perm [OF permute_mset [of ts "shape ind"]] ts f a p(2) by (simp add: shape_length)
  then show ?thesis using p(1) by (simp add: wf_index_split i')
qed

lemma swap_nth: "i < length xs \<Longrightarrow> j < length xs \<Longrightarrow> k < length xs \<Longrightarrow>
    swap i j xs ! k = (if k = j then xs ! i else if k = i then xs ! j else xs ! k)"
  by (auto simp: swap_def nth_list_update)

lemma transpose2_wf:
  assumes w: "wf_index st ind" and r: "index_transpose2 ind d1 d2 = Inr ind'"
  shows "wf_index st ind'"
proof -
  have a: "wf_arrays ind" and f: "fits (ssize st) (ioffset ind) (shape ind)" and u: "\<not> iunsized ind"
    using w by (auto simp: wf_index_split)
  define i j where "i = nat d1" and "j = nat d2"
  have c: "i < indim ind" "j < indim ind"
    and i': "ind' = ind\<lparr>idim := swap i j (idim ind), imod := swap i j (imod ind)\<rparr>"
    using r by (auto simp: index_transpose2_def check_sized_index_def i_def j_def split: if_splits)
  have a': "wf_arrays ind'" using a by (simp add: wf_arrays_def i' swap_def)
  have sh: "shape ind' = (shape ind)[i := shape ind ! j, j := shape ind ! i]"
    by (rule shape_eqI [OF a'])
      (use a c in \<open>auto simp: i' shape_length shape_nth nth_list_update swap_nth wf_arrays_def\<close>)
  have "mset (shape ind') = mset (shape ind)"
    unfolding sh by (rule mset_swap) (use a c in \<open>simp_all add: shape_length\<close>)
  then have "fits (ssize st) (ioffset ind) (shape ind')" using fits_perm f by blast
  then show ?thesis using a' u by (simp add: wf_index_split i')
qed

lemma clone_wf:
  assumes w: "wf_index st ind" and r: "index_clone junk ind = Inr ind'" and j: "length junk = MAXDIMS"
  shows "wf_index st ind'"
proof -
  have a: "wf_arrays ind" and f: "fits (ssize st) (ioffset ind) (shape ind)" and u: "\<not> iunsized ind"
    using w by (auto simp: wf_index_split)
  have i': "ind' = (new_index junk)\<lparr>iunsized := False, indim := indim ind, ioffset := ioffset ind,
       idim := set_prefix (take (indim ind) (idim ind)) junk, imod := set_prefix (take (indim ind) (imod ind)) junk\<rparr>"
    using r u by (auto simp: index_clone_def check_sized_index_def Let_def)
  have a': "wf_arrays ind'" using a j by (simp add: wf_arrays_def i' set_prefix_length)
  have "shape ind' = shape ind"
    by (rule shape_eqI [OF a']) (use a in \<open>auto simp: i' set_prefix_nth shape_nth shape_length wf_arrays_def\<close>)
  then show ?thesis using a' f by (simp add: wf_index_split i')
qed

text \<open>The patches are accepted only when the index still fits.\<close>

lemma size_range_value:
  "size_range dms lo hi = Inr (a, b) \<Longrightarrow> \<forall>dm \<in> set dms. 0 < fst dm \<Longrightarrow>
   a = lo + sum_list (map lo_term dms) \<and> b = hi + sum_list (map hi_term dms)"
proof (induction dms lo hi rule: size_range.induct)
  case (2 d m dms lo hi)
  have d: "0 < d" using "2.prems" by simp
  show ?case
  proof (cases "m < 0")
    case True
    then have s: "(d - 1) * m \<le> 0" using d by (simp add: mult_nonneg_nonpos)
    have "size_range dms (lo + (d - 1) * m) hi = Inr (a, b)" "chk64 ((d - 1) * m) = Inr ((d - 1) * m)"
        "chk64 (lo + (d - 1) * m) = Inr (lo + (d - 1) * m)"
      using 2(3) True by (auto simp: chk64_def split: if_splits)
    from "2.IH"(1) [OF this(2) True this(3,1)] show ?thesis
      using 2(4) s by (simp add: lo_term_def hi_term_def)
  next
    case False
    then have s: "0 \<le> (d - 1) * m" using d by simp
    have "size_range dms lo (hi + (d - 1) * m) = Inr (a, b)" "chk64 ((d - 1) * m) = Inr ((d - 1) * m)"
        "chk64 (hi + (d - 1) * m) = Inr (hi + (d - 1) * m)"
      using 2(3) False by (auto simp: chk64_def split: if_splits)
    from "2.IH"(2) [OF this(2) False this(3,1)] show ?thesis
      using 2(4) s by (simp add: lo_term_def hi_term_def)
  qed
qed simp

lemma patched_wf:
  assumes "patched st ind = Inr ind'" "wf_arrays ind" "\<not> iunsized ind" "\<forall>dm \<in> set (shape ind). 0 < fst dm"
  shows "wf_index st ind'"
proof -
  obtain lo hi where "size_range (shape ind) (ioffset ind) (ioffset ind) = Inr (lo, hi)" "0 \<le> lo" "hi < ssize st" "ind' = ind"
    using assms(1) by (auto simp: patched_def index_check_size_def res_bind_Inr_iff split: if_splits)
  then show ?thesis using size_range_value assms by (auto simp: wf_index_split fits_def)
qed

lemma change_dim_wf:
  assumes w: "wf_index st ind" and r: "index_change_dim st ind d x = Inr ind'"
  shows "wf_index st ind'"
proof -
  have a: "wf_arrays ind" and f: "fits (ssize st) (ioffset ind) (shape ind)" and u: "\<not> iunsized ind"
    using w by (auto simp: wf_index_split)
  let ?i = "ind\<lparr>idim := (idim ind)[nat d := x]\<rparr>"
  have c: "0 \<le> d" "nat d < indim ind" "0 < x" and p: "patched st ?i = Inr ind'"
    using r by (auto simp: index_change_dim_def check_sized_index_def split: if_splits)
  have a': "wf_arrays ?i" using a by (simp add: wf_arrays_def)
  have "shape ?i = (shape ind)[nat d := (x, imod ind ! nat d)]"
    by (rule shape_eqI [OF a']) (use a c in \<open>auto simp: shape_length shape_nth nth_list_update wf_arrays_def\<close>)
  then have "\<forall>dm \<in> set (shape ?i). 0 < fst dm"
    using set_update_pos [of "shape ind" "(x, imod ind ! nat d)" "nat d"] f c(3) by (simp add: fits_def)
  then show ?thesis using patched_wf [OF p a'] u by simp
qed

lemma change_mod_wf:
  assumes w: "wf_index st ind" and r: "index_change_mod st ind d x = Inr ind'"
  shows "wf_index st ind'"
proof -
  have a: "wf_arrays ind" and f: "fits (ssize st) (ioffset ind) (shape ind)" and u: "\<not> iunsized ind"
    using w by (auto simp: wf_index_split)
  let ?i = "ind\<lparr>imod := (imod ind)[nat d := x]\<rparr>"
  have c: "0 \<le> d" "nat d < indim ind" and p: "patched st ?i = Inr ind'"
    using r by (auto simp: index_change_mod_def check_sized_index_def split: if_splits)
  have a': "wf_arrays ?i" using a by (simp add: wf_arrays_def)
  have sh: "shape ?i = (shape ind)[nat d := (idim ind ! nat d, x)]"
    by (rule shape_eqI [OF a']) (use a c in \<open>auto simp: shape_length shape_nth nth_list_update wf_arrays_def\<close>)
  have "0 < idim ind ! nat d" using fits_nth [OF f, of "nat d"] a c by (simp add: shape_length shape_nth)
  then have "\<forall>dm \<in> set (shape ?i). 0 < fst dm"
    using set_update_pos [of "shape ind" "(idim ind ! nat d, x)" "nat d"] f sh by (simp add: fits_def)
  then show ?thesis using patched_wf [OF p a'] u by simp
qed

lemma change_offset_wf:
  assumes w: "wf_index st ind" and r: "index_change_offset st ind x = Inr ind'"
  shows "wf_index st ind'"
proof -
  have a: "wf_arrays ind" and f: "fits (ssize st) (ioffset ind) (shape ind)" and u: "\<not> iunsized ind"
    using w by (auto simp: wf_index_split)
  have p: "patched st (ind\<lparr>ioffset := x\<rparr>) = Inr ind'" using r u by (auto simp: index_change_offset_def check_sized_index_def)
  show ?thesis by (rule patched_wf [OF p]) (use a f u in \<open>auto simp: wf_arrays_def shape_def fits_def\<close>)
qed

end
