(* ===== verification/IndexNew.thy ===== *)
theory IndexNew
  imports IndexLaws
begin

text \<open>
  Creation of indexes inside their storage (\<open>index_from_index\<close>, \<open>index_dimension\<close>): the new index
  fits, which is the base case of the invariant of \<open>IndexLaws\<close>.
\<close>

section \<open>Creation\<close>

text \<open>A subindex: each dimension is narrowed, or selected when its size is 0.\<close>

lemma fits_sub:
  "fits sz off (kept @ zip bd bm) \<Longrightarrow> fit ds (Some ss) bd = Inr () \<Longrightarrow> start_offset off ss bm = Inr off' \<Longrightarrow>
   length ds = length bd \<Longrightarrow> length ss = length bd \<Longrightarrow> length bm = length bd \<Longrightarrow>
   \<forall>i < length bd. ds ! i = 0 \<longrightarrow> ss ! i < bd ! i \<Longrightarrow>
   fits sz off' (kept @ filter (\<lambda>(d, m). d > 0) (zip ds bm))"
proof (induction bd arbitrary: ds ss bm off kept)
  case (Cons b bd)
  obtain d ds' s ss' m bm' where l: "ds = d # ds'" "ss = s # ss'" "bm = m # bm'"
    using Cons.prems(4-6) by (cases ds; cases ss; cases bm) auto
  have c: "0 \<le> d" "0 \<le> s" "d + s \<le> b" "fit ds' (Some ss') bd = Inr ()"
    using Cons.prems(2) l by (auto simp: chk64_def split: if_splits)
  have o: "start_offset (off + s * m) ss' bm' = Inr off'"
    using Cons.prems(3) l by (auto simp: chk64_def res_bind_Inr_iff split: if_splits)
  have rest: "\<forall>i < length bd. ds' ! i = 0 \<longrightarrow> ss' ! i < bd ! i" and h: "d = 0 \<longrightarrow> s < b"
    using Cons.prems(7) l by auto
  have f: "fits sz off (kept @ (b, m) # zip bd bm')" using Cons.prems(1) l by simp
  have p: "length kept < length (kept @ (b, m) # zip bd bm')" "(kept @ (b, m) # zip bd bm') ! length kept = (b, m)"
    by simp_all
  show ?case
  proof (cases "d = 0")
    case True
    have "fits sz (off + s * m) (kept @ zip bd bm')"
      using fits_select [OF f p c(2)] h True by simp
    from Cons.IH [OF this c(4) o _ _ _ rest] show ?thesis using Cons.prems(4-6) l True by simp
  next
    case False
    have "fits sz (off + s * m) ((kept @ [(d, m)]) @ zip bd bm')"
      using fits_narrow [OF f p, of d s] c False by simp
    from Cons.IH [OF this c(4) o _ _ _ rest] show ?thesis using Cons.prems(4-6) l False c(1) by simp
  qed
qed simp

lemma from_index_wf:
  assumes w: "wf_index st old" and r: "index_from_index ind old ds (Some ss) = Inr ind'"
    and len: "length ds = indim old" "length ss = indim old" "length (idim ind) = MAXDIMS" "length (imod ind) = MAXDIMS"
    and c: "\<forall>i < indim old. ds ! i = 0 \<longrightarrow> ss ! i < idim old ! i"
  shows "wf_index st ind'"
proof -
  have a: "wf_arrays old" and f: "fits (ssize st) (ioffset old) (shape old)"
    using w by (auto simp: wf_index_split)
  let ?bd = "take (indim old) (idim old)" and ?bm = "take (indim old) (imod old)"
  let ?k = "filter (\<lambda>(d, m). d > 0) (zip ds ?bm)"
  have lb: "length ?bd = indim old" "length ?bm = indim old" using a by (simp_all add: wf_arrays_def)
  obtain off where off: "fit ds (Some ss) ?bd = Inr ()" "start_offset (ioffset old) ss ?bm = Inr off"
    and i': "ind' = ind\<lparr>iunsized := False, indim := length ?k, ioffset := off,
      idim := set_prefix (map fst ?k) (idim ind), imod := set_prefix (map snd ?k) (imod ind)\<rparr>"
    using r len by (auto simp: index_from_index_def res_bind_Inr_iff Let_def split: if_splits)
  have sz: "shape old = zip ?bd ?bm" by (simp add: shape_def take_zip)
  have "fits (ssize st) off ([] @ ?k)"
    by (rule fits_sub [OF _ off]) (use f sz c len lb in auto)
  moreover have lk: "length ?k \<le> MAXDIMS"
    using length_filter_le [of "\<lambda>(d, m). d > 0" "zip ds ?bm"] a len(1) lb(2)
    by (simp add: wf_arrays_def del: length_filter_le)
  moreover have a': "wf_arrays ind'" using lk len by (simp add: wf_arrays_def i' set_prefix_length)
  moreover have "shape ind' = ?k"
    by (rule shape_eqI [OF a']) (auto simp: i' set_prefix_nth)
  ultimately show ?thesis by (simp add: wf_index_split i')
qed

text \<open>The strides of a new index: the extent of all dimensions together is their product.\<close>

lemma dim_mods_fits:
  "dim_mods ds = Inr (ms, p) \<Longrightarrow> \<forall>d \<in> set ds. 0 < d \<Longrightarrow> length ms = length ds \<and> 0 < p \<and> p = prod_list ds \<and>
   sum_list (map lo_term (zip ds ms)) = 0 \<and> sum_list (map hi_term (zip ds ms)) = p - 1"
proof (induction ds arbitrary: ms p)
  case (Cons d ds)
  obtain ms' p' where m: "dim_mods ds = Inr (ms', p')" "ms = p' # ms'" "p = p' * d"
    using Cons.prems(1) by (auto simp: res_bind_Inr_iff chk64_def split: if_splits)
  have i: "length ms' = length ds" "0 < p'" "p' = prod_list ds" "sum_list (map lo_term (zip ds ms')) = 0"
      "sum_list (map hi_term (zip ds ms')) = p' - 1"
    using Cons.IH [OF m(1)] Cons.prems(2) by simp_all
  have d: "0 < d" using Cons.prems(2) by simp
  have "0 \<le> (d - 1) * p'" using d i(2) by simp
  then have t: "lo_term (d, p') = 0" "hi_term (d, p') = (d - 1) * p'"
    by (simp_all add: lo_term_def hi_term_def)
  show ?case using i d t m by (simp add: algebra_simps)
qed simp

lemma dim_size_value:
  "dim_size ds i sz u = Inr (p, v) \<Longrightarrow> 0 < sz \<Longrightarrow> 0 < p \<and>
   (case v of None \<Rightarrow> u = None \<and> (\<forall>d \<in> set ds. 0 < d) \<and> p = sz * prod_list ds
    | Some k \<Rightarrow> (case u of Some k' \<Rightarrow> k = k' \<and> (\<forall>d \<in> set ds. 0 < d) \<and> p = sz * prod_list ds
       | None \<Rightarrow> i \<le> k \<and> k - i < length ds \<and>
         (\<forall>x. prod_list (ds[k - i := x]) * sz = p * x \<and> (0 < x \<longrightarrow> (\<forall>d \<in> set (ds[k - i := x]). 0 < d)))))"
proof (induction ds arbitrary: i sz u)
  case Nil
  then show ?case by (cases u) auto
next
  case (Cons d ds)
  consider (pos) "0 < d" "dim_size ds (Suc i) (sz * d) u = Inr (p, v)"
    | (zero) "d = 0" "u = None" "dim_size ds (Suc i) sz (Some i) = Inr (p, v)"
    using Cons.prems(1) by (auto simp: chk64_def res_bind_Inr_iff split: if_splits)
  then show ?case
  proof cases
    case pos
    have "0 < sz * d" using pos(1) Cons.prems(2) by simp
    from Cons.IH [OF pos(2) this] show ?thesis
    proof (cases "v = None \<or> u \<noteq> None")
      case False
      then obtain k where k: "v = Some k" "u = None" by auto
      with Cons.IH [OF pos(2) \<open>0 < sz * d\<close>] have h: "0 < p" "Suc i \<le> k" "k - Suc i < length ds"
          "\<And>x. prod_list (ds[k - Suc i := x]) * (sz * d) = p * x"
          "\<And>x. 0 < x \<Longrightarrow> \<forall>e \<in> set (ds[k - Suc i := x]). 0 < e" by auto
      have e: "k - i = Suc (k - Suc i)" using h(2) by simp
      have "prod_list ((d # ds)[k - i := x]) * sz = p * x" for x
        using h(4) [of x] unfolding e by (simp add: ac_simps)
      then show ?thesis using h k pos(1) by (auto simp: e)
    qed (use pos in \<open>auto split: option.splits simp: ac_simps\<close>)
  next
    case zero
    from Cons.IH [OF zero(3) Cons.prems(2)] show ?thesis
      using zero by (auto split: option.splits simp: ac_simps)
  qed
qed

lemma size_storage_size: "size_storage mem raw st p u = Inr st' \<Longrightarrow> p \<le> ssize st'"
  by (auto simp: size_storage_def storage_realloc_def storage_malloc_def res_bind_Inr_iff Let_def split: if_splits)

lemma dimension_wf:
  assumes r: "index_dimension mem raw st ind ds = Inr (st', ind')"
    and o: "ioffset ind = 0" and l: "length (idim ind) = MAXDIMS" "length (imod ind) = MAXDIMS"
  shows "wf_index st' ind'"
proof -
  have s1: "length ds \<le> MAXDIMS" using r by (auto simp: index_dimension_def split: if_splits)
  obtain p u where s: "dim_size ds 0 1 None = Inr (p, u)" and m2: "size_storage mem raw st p u = Inr st'"
    and m3: "res_bind (dim_mods (case u of None \<Rightarrow> ds | Some i \<Rightarrow> ds[i := cdiv (ssize st') p])) (\<lambda>(ms, _).
      Inr (st', ind\<lparr>iunsized := False, indim := length (case u of None \<Rightarrow> ds | Some i \<Rightarrow> ds[i := cdiv (ssize st') p]),
        idim := set_prefix (case u of None \<Rightarrow> ds | Some i \<Rightarrow> ds[i := cdiv (ssize st') p]) (idim ind),
        imod := set_prefix ms (imod ind)\<rparr>)) = Inr (st', ind')"
    using r by (auto simp: index_dimension_def res_bind_Inr_iff Let_def split: if_splits)
  define es where "es = (case u of None \<Rightarrow> ds | Some i \<Rightarrow> ds[i := cdiv (ssize st') p])"
  obtain ms q where mq: "dim_mods es = Inr (ms, q)"
    and i': "ind' = ind\<lparr>iunsized := False, indim := length es, idim := set_prefix es (idim ind), imod := set_prefix ms (imod ind)\<rparr>"
    using m3 unfolding es_def [symmetric] by (auto simp: res_bind_Inr_iff)
  have le: "p \<le> ssize st'" by (rule size_storage_size [OF m2])
  note v = dim_size_value [OF s]
  have p: "0 < p" using v by simp
  have q: "(\<forall>d \<in> set es. 0 < d) \<and> prod_list es \<le> ssize st' \<and> length es = length ds"
  proof (cases u)
    case None
    then show ?thesis using v le by (simp add: es_def)
  next
    case (Some k)
    let ?x = "ssize st' div p"
    have x: "cdiv (ssize st') p = ?x" using le p by (simp add: cdiv_nonneg)
    have "0 < ?x" using le p by (simp add: pos_imp_zdiv_pos_iff)
    moreover have "p * ?x \<le> ssize st'"
      using minus_mod_eq_mult_div [of "ssize st'" p] pos_mod_sign [OF p, of "ssize st'"] by linarith
    ultimately show ?thesis using v Some by (auto simp: es_def x)
  qed
  have d: "length ms = length es" "q = prod_list es" "sum_list (map lo_term (zip es ms)) = 0"
      "sum_list (map hi_term (zip es ms)) = q - 1"
    using dim_mods_fits [OF mq] q by simp_all
  have a': "wf_arrays ind'" using q s1 l d(1) by (simp add: wf_arrays_def i' set_prefix_length)
  have sh: "shape ind' = zip es ms"
    by (rule shape_eqI [OF a']) (auto simp: i' set_prefix_nth d(1))
  have "fits (ssize st') 0 (zip es ms)"
    unfolding fits_def using d q by (auto dest: set_zip_leftD)
  then show ?thesis using a' sh o by (simp add: wf_index_split i')
qed

end
