(* ===== verification/IndexProps.thy ===== *)
theory IndexProps
  imports IndexNew IndexOps
begin

text \<open>
  The properties of storages and indexes: views stay inside their storage, accesses are safe and
  read the element the coordinates name, views commute with access, and the cached access computes
  the offset of the plain one. The exceptions that the code lets through are stated as well.
\<close>

section \<open>A storage and indexes used to show that the hypotheses can hold\<close>

definition six :: "unit storage" where
  "six = \<lparr>styp = ST_D, sunsized = False, srdonly = False, smalloc = True, ssize = 6,
     sdata = map VNum [0, 1, 2, 3, 4, 5]\<rparr>"

definition grid :: index where
  "grid = \<lparr>iunsized = False, indim = 2, ioffset = 0, idim = 2 # 3 # replicate 9 0, imod = 3 # 1 # replicate 9 0\<rparr>"

lemma six_size [simp]: "ssize six = 6"
  by (simp add: six_def)

lemma six_ok [simp]: "wf_storage six" "in_int64 (ssize six)" "\<not> srdonly six" "styp six = ST_D"
  by (simp_all add: six_def wf_storage_def in_int64_def)

lemma in_int64_6 [simp]: "in_int64 6"
  by (simp add: in_int64_def)

lemma grid_shape [simp]: "shape grid = [(2, 3), (3, 1)]"
  by (simp add: grid_def shape_def numeral_2_eq_2)

lemma grid_ok [simp]: "wf_index six grid"
  by (simp add: wf_index_split wf_arrays_def fits_def lo_term_def hi_term_def)
    (simp add: grid_def six_def MAXDIMS_def)

section \<open>Sequences of views\<close>







section \<open>Access\<close>

text \<open>An access with one number per dimension, each within its dimension, returns the element at the
  offset that the coordinates name; a number outside its dimension is an error.\<close>

theorem element_access:
  assumes "wf_storage st" "in_int64 (ssize st)" "wf_index st ind"
    and "coords (shape ind) ks" "\<forall>k \<in> set ks. in_int64 k"
  shows "index_ref st ind (map NEW_NUMBER ks) = Inr (sdata st ! nat (offset_at (ioffset ind) (shape ind) ks))"
  by (rule index_ref_element [OF assms])

theorem element_access_witness: "index_ref six grid (map NEW_NUMBER [1, 2]) = Inr (VNum 5)"
  using element_access [of six grid "[1, 2]"] by (simp add: in_int64_def) (simp add: six_def grid_def)

lemma index_set_element:
  fixes st :: "'o storage"
  assumes st: "in_int64 (ssize st)" and ind: "wf_index st ind"
    and ks: "coords (shape ind) ks" "\<forall>k \<in> set ks. in_int64 k"
  shows "index_set to_float ind (map NEW_NUMBER ks) st v 1 =
    res_bind (setat to_float st (offset_at (ioffset ind) (shape ind) ks) v) (\<lambda>st. Inr (VNil, st))"
proof -
  have f: "fits (ssize st) (ioffset ind) (shape ind)" using ind by (simp add: wf_index_def)
  have "scan ''indice out of range'' ind (map NEW_NUMBER ks :: 'o val list) =
      Inr (Inl (offset_at (ioffset ind) (shape ind) ks))"
    unfolding scan_def by (rule scan_numbers [OF st(1) f ks])
  then show ?thesis unfolding index_set.simps [of to_float ind "map NEW_NUMBER ks"] by simp
qed

lemma setat_number:
  assumes "wf_storage st" "\<not> srdonly st" "0 \<le> off" "off < ssize st"
    and "styp st \<noteq> ST_AT" "styp st \<noteq> ST_GPTR" "setr to_float (styp st) x = Inr y"
  shows "setat to_float st off (VNum x) = Inr (st\<lparr>sdata := (sdata st)[nat off := VNum y]\<rparr>)"
  using assms by (cases "styp st") (simp_all add: setat_def wf_storage_def put_elem_ok)

text \<open>C37: Writing a number through an index and reading it back through the same coordinates gives the
  number as the element type holds it; every other element of the storage keeps its value.\<close>

theorem write_read:
  assumes "wf_storage st" "in_int64 (ssize st)" "wf_index st ind" "\<not> srdonly st"
    and "coords (shape ind) ks" "\<forall>k \<in> set ks. in_int64 k"
    and "styp st \<noteq> ST_AT" "styp st \<noteq> ST_GPTR" "setr to_float (styp st) x = Inr y"
  shows "\<exists>st'. index_set to_float ind (map NEW_NUMBER ks) st (VNum x) 1 = Inr (VNil, st') \<and>
    index_ref st' ind (map NEW_NUMBER ks) = Inr (VNum y) \<and>
    (\<forall>i. i \<noteq> nat (offset_at (ioffset ind) (shape ind) ks) \<longrightarrow> sdata st' ! i = sdata st ! i)"
proof -
  let ?o = "offset_at (ioffset ind) (shape ind) ks"
  let ?st = "st\<lparr>sdata := (sdata st)[nat ?o := VNum y]\<rparr>"
  have o: "0 \<le> ?o" "?o < ssize st" using fits_coords [OF _ assms(5)] assms(3) by (auto simp: wf_index_def)
  then have l: "nat ?o < length (sdata st)" using assms(1) by (simp add: wf_storage_def nat_less_iff)
  have "wf_storage ?st" "in_int64 (ssize ?st)" "wf_index ?st ind"
    using assms(1-3) by (auto simp: wf_storage_def wf_index_def)
  from index_ref_element [OF this assms(5,6)] have r: "index_ref ?st ind (map NEW_NUMBER ks) = Inr (VNum y)"
    using l by simp
  show ?thesis
    using index_set_element [OF assms(2,3,5,6), of to_float "VNum x"]
      setat_number [OF assms(1,4) o assms(7-9)] r by simp
qed

theorem write_read_witness:
  "\<exists>st'. index_set id grid (map NEW_NUMBER [0, 1]) six (VNum 9) 1 = Inr (VNil, st') \<and>
    index_ref st' grid (map NEW_NUMBER [0, 1]) = Inr (VNum 9) \<and>
    (\<forall>i. i \<noteq> nat (offset_at (ioffset grid) (shape grid) [0, 1]) \<longrightarrow> sdata st' ! i = sdata six ! i)"
  by (rule write_read) (simp_all add: in_int64_def)

section \<open>Creation and its gaps\<close>

text \<open>\<open>index_dimension\<close> on an index that was never dimensioned gives an index that lies inside the
  storage it sized or enlarged for it, whatever the allocator grants.\<close>

theorem dimension_fits:
  assumes "index_dimension mem raw st (new_index junk) ds = Inr (st', ind')" "length junk = MAXDIMS"
  shows "wf_index st' ind'"
  by (rule dimension_wf [OF assms(1)]) (use assms(2) in \<open>simp_all add: new_index_def\<close>)

theorem dimension_fits_witness:
  "case index_dimension (\<lambda>_. True) (\<lambda>_. []) (new_storage0 ST_D :: unit storage) (new_index (replicate 11 0)) [2, 3] of
     Inr (st', ind') \<Rightarrow> wf_index st' ind' | Inl _ \<Rightarrow> False"
proof (rule case_InrI)
  show "\<exists>r. index_dimension (\<lambda>_. True) (\<lambda>_. []) (new_storage0 ST_D :: unit storage) (new_index (replicate 11 0)) [2, 3] = Inr r"
    by (simp add: index_dimension_def new_index_def MAXDIMS_def chk64_def in_int64_def size_storage_def
      new_storage0_def storage_malloc_def SIZE_T_def)
qed (auto dest: dimension_fits simp: MAXDIMS_def)

lemma res_map_nth: "res_map f xs = Inr ys \<Longrightarrow> length ys = length xs \<and> (\<forall>i < length xs. f (xs ! i) = Inr (ys ! i))"
proof (induction xs arbitrary: ys)
  case (Cons x xs)
  then obtain z zs where "f x = Inr z" "res_map f xs = Inr zs" "ys = z # zs" by (auto simp: res_bind_Inr_iff)
  then show ?case using Cons.IH [of zs] by (auto simp: nth_Cons split: nat.splits)
qed simp

lemmas sub_run = subindex_def check_sized_index_def grid_def sub_arg_def to_intg_def as_pair_def number_of_def
  in_int64_def index_from_index_def new_index_def chk64_def MAXDIMS_def set_prefix_def numeral_2_eq_2

lemmas ref_run = scan_def shape_def getat_def six_def to_intg_def in_int64_def chk64_def

text \<open>\<open>subindex\<close> gives an index inside the storage, unless a dimension is selected at its very end.\<close>

theorem subindex_fits:
  assumes "wf_index st ind" "subindex junk ind args = Inr ind'" "length junk = MAXDIMS"
    and "\<forall>i < indim ind. \<forall>s. sub_arg (idim ind ! i) (args ! i) = Inr (s, 0) \<longrightarrow> s < idim ind ! i"
  shows "wf_index st ind'"
proof -
  have a: "wf_arrays ind" "\<not> iunsized ind" using assms(1) by (auto simp: wf_index_split)
  have n: "length (take (indim ind) (idim ind)) = indim ind" using a by (simp add: wf_arrays_def)
  obtain sds where l: "length args = indim ind"
    and m: "res_map (\<lambda>(full, p). sub_arg full p) (zip (take (indim ind) (idim ind)) args) = Inr sds"
    and r: "index_from_index (new_index junk) ind (map snd sds) (Some (map fst sds)) = Inr ind'"
    using assms(2) a by (auto simp: subindex_def check_sized_index_def res_bind_Inr_iff split: if_splits)
  have s: "length sds = indim ind" "\<forall>i < indim ind. sub_arg (idim ind ! i) (args ! i) = Inr (sds ! i)"
    using res_map_nth [OF m] l n by auto
  have "\<forall>i < indim ind. map snd sds ! i = 0 \<longrightarrow> map fst sds ! i < idim ind ! i"
    using s assms(4) by (metis nth_map prod.collapse)
  then show ?thesis
    by (intro from_index_wf [OF assms(1) r]) (use s(1) assms(3) in \<open>simp_all add: new_index_def\<close>)
qed

lemma grid_dim: "idim grid ! 0 = 2"
  by (simp add: grid_def)

lemma all_less_2: "(\<forall>i < indim grid. P i) \<longleftrightarrow> P 0 \<and> P 1"
  by (auto simp: grid_def numeral_2_eq_2 less_Suc_eq)

theorem subindex_fits_witness:
  "case subindex (replicate 11 0) grid [VNum 1, VCons (VNum 1) (VCons (VNum 2) (VNil :: unit val))] of
     Inr ind' \<Rightarrow> wf_index six ind' | Inl _ \<Rightarrow> False"
proof (rule case_InrI)
  show "\<exists>i. subindex (replicate 11 0) grid [VNum 1, VCons (VNum 1) (VCons (VNum 2) (VNil :: unit val))] = Inr i"
    by (simp add: sub_run)
qed (rule subindex_fits [OF grid_ok], assumption, simp_all add: all_less_2 grid_dim MAXDIMS_def sub_arg_def
  to_intg_def as_pair_def number_of_def in_int64_def)

text \<open>The bound check of \<open>index_from_index\<close> lets a dimension be selected one past its last element;
  through the index it gives, an element outside the storage is read.\<close>

theorem subindex_past_end:
  "\<exists>ind'. subindex (replicate 11 0) grid [VNum 2, VNil :: unit val] = Inr ind' \<and>
    index_ref six ind' [VNum 0] = Inl (Undef ''read outside the storage'')"
  by (simp add: sub_run) (subst index_ref.simps, simp add: ref_run)

text \<open>\<open>index-redim\<close> of a narrowed index keeps its offset: the index it gives reaches past the end of
  the storage.\<close>

theorem redim_past_end:
  "\<exists>st' ind'. index_redim (\<lambda>_. True) (\<lambda>_. []) six (grid\<lparr>idim := (idim grid)[0 := 1], ioffset := 3\<rparr>)
      (VCons (VNum 6) VNil) = Inr (st', ind') \<and>
    index_ref st' ind' [VNum 3] = Inl (Undef ''read outside the storage'')"
  by (simp add: index_redim_def index_parse_dimlist_def index_dimension_def index_undimension_def size_storage_def sub_run)
    (subst index_ref.simps, simp add: ref_run)

section \<open>Views and access\<close>

lemma offset_at_sum: "length ks = length dms \<Longrightarrow>
    offset_at off dms ks = off + sum_list (map (\<lambda>(dm, k). k * snd dm) (zip dms ks))"
  by (induction off dms ks rule: offset_at.induct) auto

lemma coords_zip: "coords dms ks \<longleftrightarrow> length ks = length dms \<and> (\<forall>(dm, k) \<in> set (zip dms ks). 0 \<le> k \<and> k < fst dm)"
  by (induction dms ks rule: coords.induct) auto

lemma sum_list_mset_eq: "mset xs = mset ys \<Longrightarrow> sum_list (map f xs) = sum_list (map f ys)"
  for f :: "'a \<Rightarrow> int"
  by (metis mset_map sum_mset_sum_list)

lemma permuted_coords:
  assumes c: "coords dms ks" and ts: "perm_ok ts (int (length dms)) []" "length ts = length dms"
  shows "coords (map (\<lambda>t. dms ! nat t) ts) (map (\<lambda>t. ks ! nat t) ts)"
    "offset_at off (map (\<lambda>t. dms ! nat t) ts) (map (\<lambda>t. ks ! nat t) ts) = offset_at off dms ks"
proof -
  have l: "length ks = length dms" using c by (simp add: coords_zip)
  have r: "0 \<le> t \<and> nat t < length dms" if "t \<in> set ts" for t
    using perm_ok_set [OF ts(1)] that by (simp add: nat_less_iff)
  have z: "zip (map (\<lambda>t. dms ! nat t) ts) (map (\<lambda>t. ks ! nat t) ts) = map (\<lambda>t. zip dms ks ! nat t) ts"
    using r l by (simp add: zip_map_map zip_same_conv_map)
  have m: "mset (map (\<lambda>t. zip dms ks ! nat t) ts) = mset (zip dms ks)"
    by (rule permute_mset) (use ts l in simp_all)
  show "coords (map (\<lambda>t. dms ! nat t) ts) (map (\<lambda>t. ks ! nat t) ts)"
    using c unfolding coords_zip z mset_eq_setD [OF m] by simp
  then show "offset_at off (map (\<lambda>t. dms ! nat t) ts) (map (\<lambda>t. ks ! nat t) ts) = offset_at off dms ks"
    using l z sum_list_mset_eq [OF m, of "\<lambda>(dm, k). k * snd dm"] by (simp add: offset_at_sum)
qed

text \<open>\<open>index-transpose\<close> permutes the coordinates and nothing else: the element of the new view at the
  permuted coordinates is the element of the old view.\<close>

theorem transpose_access:
  assumes "wf_storage st" "in_int64 (ssize st)" "wf_index st ind" "index_transpose ind l = Inr ind'"
    and "index_parse_dimlist l = Inr ts" "coords (shape ind) ks" "\<forall>k \<in> set ks. in_int64 k"
  shows "index_ref st ind' (map NEW_NUMBER (map (\<lambda>t. ks ! nat t) ts)) = index_ref st ind (map NEW_NUMBER ks)"
proof -
  have a: "wf_arrays ind" "\<not> iunsized ind" using assms(3) by (auto simp: wf_index_split)
  have ts: "length ts = indim ind" "perm_ok ts (int (indim ind)) []"
    and i': "ind' = ind\<lparr>idim := set_prefix (permute ts (idim ind)) (idim ind),
      imod := set_prefix (permute ts (imod ind)) (imod ind)\<rparr>"
    using assms(4,5) a by (auto simp: index_transpose_def check_sized_index_def split: if_splits)
  have sh: "shape ind' = map (\<lambda>t. shape ind ! nat t) ts"
    by (rule permuted_shape(2) [OF a(1) ts(2,1)]) (use a i' in \<open>auto simp: wf_arrays_def\<close>)
  have n: "length (shape ind) = indim ind" using a by (simp add: shape_length)
  note p = permuted_coords [OF assms(6), of ts, unfolded n, OF ts(2,1)]
  have k: "length ks = indim ind" using assms(6) n by (simp add: coords_zip)
  have "\<forall>k \<in> set (map (\<lambda>t. ks ! nat t) ts). in_int64 k"
    using assms(7) perm_ok_set [OF ts(2)] k by fastforce
  moreover have "ioffset ind' = ioffset ind" by (simp add: i')
  ultimately show ?thesis
    unfolding index_ref_element [OF assms(1-3,6,7)]
    by (subst index_ref_element [OF assms(1,2) transpose_wf [OF assms(3,4)]]) (simp_all add: sh p)
qed

theorem transpose_access_witness:
  "index_ref six (grid\<lparr>idim := set_prefix [3, 2] (idim grid), imod := set_prefix [1, 3] (imod grid)\<rparr>)
    (map NEW_NUMBER [2, 1]) = index_ref six grid (map NEW_NUMBER [1, 2])"
  using transpose_access [OF _ _ grid_ok, of "VCons (VNum 1) (VCons (VNum 0) VNil)"
      "grid\<lparr>idim := set_prefix [3, 2] (idim grid), imod := set_prefix [1, 3] (imod grid)\<rparr>" "[1, 0]" "[1, 2]"]
  by (simp add: index_transpose_def check_sized_index_def index_parse_dimlist_def to_intg_def MAXDIMS_def
    permute_def in_int64_def) (simp add: grid_def permute_def)

section \<open>The cached access\<close>

text \<open>The invariant of the cache: the last offset is the one of the last coordinates of the last index.\<close>

definition cache_ok :: "(nat \<Rightarrow> index) \<Rightarrow> cache \<Rightarrow> bool" where
  "cache_ok ix c \<longleftrightarrow> (case lastind c of None \<Rightarrow> True
     | Some a \<Rightarrow> indim (ix a) \<le> length (lastcoord c) \<and>
         lastoffset c = by_hand (ix a) (take (indim (ix a)) (lastcoord c)))"

lemma zip_prefix: "length ys \<le> n \<Longrightarrow> zip (take n xs) ys = zip xs ys"
proof (induction ys arbitrary: n xs)
  case (Cons y ys)
  then show ?case by (cases n; cases xs) auto
qed simp

lemma step_offset_sum: "length ks = length ms \<Longrightarrow> length js = length ms \<Longrightarrow>
    step_offset (zip ks js) ms off = Some off' \<Longrightarrow>
    off' = off - sum_list (map (\<lambda>(k, m). k * m) (zip ks ms)) + sum_list (map (\<lambda>(k, m). k * m) (zip js ms))"
proof (induction ms arbitrary: ks js off)
  case (Cons m ms)
  obtain k ks' j js' where l: "ks = k # ks'" "js = j # js'" using Cons.prems(1,2) by (cases ks; cases js) auto
  define d where "d = j - k"
  have "d \<in> {- 1, 0, 1} \<and> step_offset (zip ks' js') ms (off + d * m) = Some off'"
    using Cons.prems(3) l by (auto simp: d_def split: if_splits)
  then have "off' = off + d * m - sum_list (map (\<lambda>(k, m). k * m) (zip ks' ms)) + sum_list (map (\<lambda>(k, m). k * m) (zip js' ms))"
    using Cons.IH [of ks' js'] Cons.prems(1,2) l by simp
  moreover have "d * m = j * m - k * m" by (simp add: d_def left_diff_distrib)
  ultimately show ?case using l by simp
qed simp

text \<open>C38: Whatever accesses came before, the cached \<open>make_offset\<close> returns the offset that the loop over
  the coordinates computes, and keeps the cache right for the next access.\<close>

theorem cache_transparent:
  assumes "cache_ok ix c" "wf_index st (ix a)" "indim (ix a) \<le> length coord" "length (lastcoord c) = MAXDIMS"
    and "make_offset a (ix a) coord c = (off, c')"
  shows "off = by_hand (ix a) (take (indim (ix a)) coord) \<and> cache_ok ix c' \<and> length (lastcoord c') = MAXDIMS"
proof -
  let ?n = "indim (ix a)" and ?k = "take (indim (ix a)) coord"
  have n: "?n \<le> MAXDIMS" "length (imod (ix a)) = MAXDIMS" using assms(2) by (auto simp: wf_index_def)
  have k: "length ?k = ?n" using assms(3) by simp
  have t: "take ?n (set_prefix ?k (lastcoord c)) = ?k" "length (set_prefix ?k (lastcoord c)) = MAXDIMS"
    using k assms(4) n by (simp_all add: set_prefix_def)
  have z: "zip (lastcoord c) ?k = zip (take ?n (lastcoord c)) ?k" using zip_prefix [of ?k ?n "lastcoord c"] k by simp
  show ?thesis
  proof (cases "lastind c = Some a \<and> step_offset (zip (lastcoord c) ?k) (take ?n (imod (ix a))) (lastoffset c) = Some off")
    case True
    have "off = lastoffset c - sum_list (map (\<lambda>(k, m). k * m) (zip (take ?n (lastcoord c)) (take ?n (imod (ix a))))) +
        sum_list (map (\<lambda>(k, m). k * m) (zip ?k (take ?n (imod (ix a)))))"
      by (rule step_offset_sum) (use True n k assms(4) z in auto)
    then have o: "off = by_hand (ix a) ?k" using True assms(1) by (simp add: cache_ok_def by_hand_def)
    then show ?thesis using assms(5) True t n by (auto simp: make_offset_def Let_def cache_ok_def split: option.splits if_splits)
  next
    case False
    then show ?thesis using assms(5) t n
      by (auto simp: make_offset_def Let_def cache_ok_def split: option.splits if_splits)
  qed
qed

theorem cache_transparent_witness:
  "case make_offset 0 grid [1, 1] \<lparr>lastind = Some 0, lastcoord = replicate 11 0, lastoffset = 0\<rparr> of
     (off, c') \<Rightarrow> off = by_hand grid (take (indim grid) [1, 1]) \<and> cache_ok (\<lambda>_. grid) c' \<and>
       length (lastcoord c') = MAXDIMS"
proof (clarsimp simp only: split: prod.splits)
  fix off c'
  assume r: "make_offset 0 grid [1, 1] \<lparr>lastind = Some 0, lastcoord = replicate 11 0, lastoffset = 0\<rparr> = (off, c')"
  show "off = by_hand grid (take (indim grid) [1, 1]) \<and> cache_ok (\<lambda>_. grid) c' \<and> length (lastcoord c') = MAXDIMS"
    by (rule cache_transparent [OF _ grid_ok _ _ r])
      (simp_all add: cache_ok_def by_hand_def MAXDIMS_def, simp_all add: grid_def numeral_2_eq_2)
qed

section \<open>Storages\<close>

text \<open>Enlarging a storage keeps every element it had, fills the rest with zeros and leaves the claimed
  size equal to the allocated one, as long as the number of bytes fits in \<open>size_t\<close>.\<close>

theorem realloc_keeps:
  assumes "storage_realloc mem raw st sz True = Inr st'" "sz * 8 < SIZE_T" "wf_storage st" "\<not> sunsized st"
  shows "wf_storage st' \<and> ssize st' = sz \<and> take (length (sdata st)) (sdata st') = sdata st \<and>
    (\<forall>i. length (sdata st) \<le> i \<and> i < length (sdata st') \<longrightarrow> sdata st' ! i = zero_elem (styp st))"
proof -
  note w = realloc_wf [OF assms]
  have "sdata st' ! i = zero_elem (styp st)" if "length (sdata st) \<le> i" "i < length (sdata st')" for i
    using that assms(1) by (auto simp: storage_realloc_def Let_def nth_append split: if_splits)
  then show ?thesis using w by blast
qed

theorem realloc_keeps_witness:
  "let st' = six\<lparr>ssize := 8, sdata := sdata six @ [VNum 0, VNum 0]\<rparr> in
   wf_storage st' \<and> ssize st' = 8 \<and> take (length (sdata six)) (sdata st') = sdata six \<and>
    (\<forall>i. length (sdata six) \<le> i \<and> i < length (sdata st') \<longrightarrow> sdata st' ! i = zero_elem (styp six))"
  unfolding Let_def by (rule realloc_keeps [of "\<lambda>_. True" "\<lambda>_. []"])
    (simp_all add: storage_realloc_def six_def SIZE_T_def zero_elem_def wf_storage_def numeral_eq_Suc)

text \<open>The number of bytes of an uncleared allocation is computed modulo \<open>2 ^ 64\<close> and the overflow
  check is compiled away: a storage can claim 2305843009213693953 doubles over one allocated element.\<close>

theorem malloc_wraps:
  "\<exists>st'. storage_malloc (\<lambda>bytes. bytes \<le> 64) (\<lambda>n. replicate n (VNum 0)) (new_storage0 ST_D :: unit storage)
      2305843009213693953 False = Inr st' \<and>
    ssize st' = 2305843009213693953 \<and> getat st' 1 = Inl (Undef ''read outside the storage'')"
  by (simp add: storage_malloc_def new_storage0_def SIZE_T_def getat_def)

text \<open>\<open>storage-clear\<close> overwrites a read-only storage in memory with zeros, although every other write
  to it is refused.\<close>

theorem clear_ignores_read_only:
  assumes "wf_storage st" "smalloc st" "styp st \<noteq> ST_AT" "styp st \<noteq> ST_GPTR"
  shows "storage_clear to_float (storage_read_only st) =
      Inr ((storage_read_only st)\<lparr>sdata := map (\<lambda>_. VNum 0) (sdata st)\<rparr>) \<and>
    setat to_float (storage_read_only st) i v = Inl (Lush ''read only storage'')"
  using assms by (cases "styp st")
    (simp_all add: storage_clear_def storage_read_only_def wf_storage_def zero_elem_def setat_def)

theorem clear_ignores_read_only_witness:
  "storage_clear id (storage_read_only six) = Inr ((storage_read_only six)\<lparr>sdata := map (\<lambda>_. VNum 0) (sdata six)\<rparr>) \<and>
    setat id (storage_read_only six) 0 (VNum 1) = Inl (Lush ''read only storage'')"
  by (rule clear_ignores_read_only) (simp_all, simp add: six_def)

end
