(* ===== verification/Buckets.thy ===== *)
theory Buckets
  imports Prelude
begin

text \<open>
  Arrays of buckets, as the hash tables of Lush use them: relocating all elements to an array of
  another size, and the lookup by a key in the elements. The locale is the interface between a
  table and the equality of its keys.
\<close>

section \<open>Relocation\<close>

text \<open>Every element is pushed on the bucket that its hash code selects.\<close>

definition push :: "('e \<Rightarrow> nat) \<Rightarrow> 'e \<Rightarrow> 'e list list \<Rightarrow> 'e list list" where
  "push pos e tb = (let j = pos e mod length tb in tb[j := e # tb ! j])"

definition relocate :: "('e \<Rightarrow> nat) \<Rightarrow> nat \<Rightarrow> 'e list list \<Rightarrow> 'e list list" where
  "relocate pos n tb = fold (push pos) (concat tb) (replicate n [])"

definition placed :: "('e \<Rightarrow> nat) \<Rightarrow> 'e list list \<Rightarrow> bool" where
  "placed pos tb \<longleftrightarrow> (\<forall>i < length tb. \<forall>e \<in> set (tb ! i). pos e mod length tb = i)"

lemma length_push [simp]: "length (push pos e tb) = length tb"
  by (simp add: push_def Let_def)

lemma placed_push: "placed pos tb \<Longrightarrow> placed pos (push pos e tb)"
proof -
  assume p: "placed pos tb"
  have "pos x mod length tb = i" if "i < length tb" "x \<in> set (push pos e tb ! i)" for i x
    using that p by (cases "i = pos e mod length tb") (auto simp: push_def Let_def placed_def)
  then show ?thesis by (simp add: placed_def)
qed

lemma mset_concat_update:
  "i < length tb \<Longrightarrow> mset (concat (tb[i := b])) + mset (tb ! i) = mset (concat tb) + mset b"
proof (induction tb arbitrary: i)
  case (Cons c tb)
  then show ?case
  proof (cases i)
    case (Suc j)
    then have "mset (concat (tb[j := b])) + mset (tb ! j) = mset (concat tb) + mset b" using Cons by simp
    then show ?thesis using Suc by (simp add: ac_simps)
  qed simp
qed simp

lemma mset_push: "0 < length tb \<Longrightarrow> mset (concat (push pos e tb)) = add_mset e (mset (concat tb))"
  using mset_concat_update [of "pos e mod length tb" tb "e # tb ! (pos e mod length tb)"]
  by (simp add: push_def Let_def)

lemma relocate_ok:
  assumes "0 < n"
  shows "length (relocate pos n tb) = n" "placed pos (relocate pos n tb)"
    "mset (concat (relocate pos n tb)) = mset (concat tb)"
proof -
  have f: "length (fold (push pos) es t) = length t \<and> placed pos (fold (push pos) es t) \<and>
      mset (concat (fold (push pos) es t)) = mset es + mset (concat t)" if "0 < length t" "placed pos t" for es t
    using that
  proof (induction es arbitrary: t)
    case (Cons e es)
    then show ?case using Cons.IH [of "push pos e t"] by (simp add: placed_push mset_push)
  qed simp
  let ?e = "replicate n [] :: 'a list list"
  have e: "0 < length ?e" "placed pos ?e" "mset (concat ?e) = {#}" "length ?e = n"
    using assms by (simp_all add: placed_def)
  show "length (relocate pos n tb) = n" "placed pos (relocate pos n tb)"
    "mset (concat (relocate pos n tb)) = mset (concat tb)"
    unfolding relocate_def using f [OF e(1,2), of "concat tb"] e(3,4) by simp_all
qed

lemma placed_bucket:
  assumes "placed pos tb" "e \<in> set (concat tb)" "0 < length tb"
  shows "e \<in> set (tb ! (pos e mod length tb))"
proof -
  obtain b where "b \<in> set tb" "e \<in> set b" using assms(2) by auto
  then obtain i where i: "i < length tb" "e \<in> set (tb ! i)" by (metis in_set_conv_nth)
  then show ?thesis using assms(1) by (auto simp: placed_def)
qed

lemma bucket_concat: "i < length tb \<Longrightarrow> e \<in> set (tb ! i) \<Longrightarrow> e \<in> set (concat tb)"
  by (metis UN_I nth_mem set_concat)

section \<open>Lookup by key\<close>

text \<open>
  What a table needs of the equality of its keys. \<open>key\<close> reads the key of an element; a list of
  elements is \<open>keyed\<close> when no two of them have the same key.
\<close>

locale keys =
  fixes same :: "'k \<Rightarrow> 'k \<Rightarrow> bool" and key :: "'e \<Rightarrow> 'k"
  assumes same_refl: "same k k"
    and same_sym: "same k l \<Longrightarrow> same l k"
    and same_trans: "same k l \<Longrightarrow> same l m \<Longrightarrow> same k m"

definition keyed :: "('k \<Rightarrow> 'k \<Rightarrow> bool) \<Rightarrow> ('e \<Rightarrow> 'k) \<Rightarrow> 'e multiset \<Rightarrow> bool" where
  "keyed same key M \<longleftrightarrow> (\<forall>e \<in># M. \<forall>e' \<in># M - {#e#}. \<not> same (key e) (key e'))"

definition lookup :: "('k \<Rightarrow> 'k \<Rightarrow> bool) \<Rightarrow> ('e \<Rightarrow> 'k) \<Rightarrow> 'e multiset \<Rightarrow> 'k \<Rightarrow> 'e set" where
  "lookup same key M k = {e. e \<in># M \<and> same k (key e)}"

context keys
begin

lemma keyed_add:
  assumes k: "keyed same key M" and l: "lookup same key M (key e) = {}"
  shows "keyed same key (add_mset e M)"
proof -
  have n: "\<not> same (key e) (key x)" "\<not> same (key x) (key e)" if "x \<in># M" for x
    using l that by (auto simp: lookup_def dest: same_sym)
  have "\<not> same (key a) (key b)" if "a \<in># add_mset e M" "b \<in># add_mset e M - {#a#}" for a b
  proof (cases "a = e")
    case False
    then have "b = e \<or> b \<in># M - {#a#}" "a \<in># M" using that by (auto simp: diff_union_swap [symmetric])
    then show ?thesis using k n by (auto simp: keyed_def)
  qed (use that n in simp)
  then show ?thesis by (simp only: keyed_def) blast
qed

lemma keyed_unique: "keyed same key M \<Longrightarrow> e \<in> lookup same key M k \<Longrightarrow> lookup same key M k = {e}"
proof -
  assume k: "keyed same key M" and e: "e \<in> lookup same key M k"
  have "x = e" if "x \<in> lookup same key M k" for x
  proof (rule ccontr)
    assume "x \<noteq> e"
    then have "x \<in># M - {#e#}" "e \<in># M" using that e by (auto simp: lookup_def in_diff_count)
    moreover have "same (key e) (key x)" 
    proof (rule same_trans [OF same_sym])
      show "same k (key e)" "same k (key x)" using that e by (auto simp: lookup_def)
    qed
    ultimately show False using k by (auto simp: keyed_def)
  qed
  then show ?thesis using e by blast
qed

lemma lookup_add: "lookup same key (add_mset e M) k = (if same k (key e) then insert e (lookup same key M k) else lookup same key M k)"
  by (auto simp: lookup_def)

lemma lookup_same: "same k l \<Longrightarrow> lookup same key M k = lookup same key M l"
  unfolding lookup_def by (metis same_sym same_trans)

lemma keyed_remove:
  assumes k: "keyed same key (add_mset e M)"
  shows "keyed same key M" "lookup same key M (key e) = {}"
proof -
  have "b \<in># add_mset e M - {#a#}" if "b \<in># M - {#a#}" for a b
    using that by (auto simp: in_diff_count)
  then show "keyed same key M" using k by (auto simp: keyed_def)
  show "lookup same key M (key e) = {}" using k by (auto simp: keyed_def lookup_def)
qed

end

end
