(* ===== verification/Equality.thy ===== *)
theory Equality
  imports Date
begin

unbundle bit_operations_syntax

text \<open>
  Equality, ranking and hashing of Lisp objects: \<open>eq_test\<close> and \<open>comp_test\<close> (\<open>src/src/calls.c\<close>),
  \<open>hash_value\<close> and \<open>hash_pointer\<close> (\<open>src/src/htable.c\<close>), the methods of the string class
  (\<open>src/src/string.c\<close>) and those of the date class.

  An object is the tree that its cells span, each node with its address, so that the comparison of
  two pointers is the equality of two trees. On such objects the detection of circular lists and of
  recursive calls never triggers. A number is the bits of its double. The classes with no comparison
  method (symbols, and all the others here) compare by address.
\<close>

datatype lobj =
    LNil
  | LNumber nat "64 word"
  | LGptr nat "64 word"
  | LCons nat lobj lobj
  | LString nat string
  | LDate nat date
  | LSymbol nat "64 word"
  | LZombie nat
  | LOther nat nat

section \<open>Doubles\<close>

text \<open>The order of IEEE doubles read from their bits; both zeros are 0, and a NaN has no place in it.\<close>

definition magnitude :: "64 word \<Rightarrow> 64 word" where
  "magnitude b = b AND 0x7FFFFFFFFFFFFFFF"

definition is_nan :: "64 word \<Rightarrow> bool" where
  "is_nan b \<longleftrightarrow> magnitude b > 0x7FF0000000000000"

definition num_key :: "64 word \<Rightarrow> int" where
  "num_key b = (if bit b 63 then - uint (magnitude b) else uint (magnitude b))"

definition num_less :: "64 word \<Rightarrow> 64 word \<Rightarrow> bool" where
  "num_less a b \<longleftrightarrow> \<not> is_nan a \<and> \<not> is_nan b \<and> num_key a < num_key b"

definition num_eq :: "64 word \<Rightarrow> 64 word \<Rightarrow> bool" where
  "num_eq a b \<longleftrightarrow> \<not> is_nan a \<and> \<not> is_nan b \<and> num_key a = num_key b"

section \<open>Classes\<close>

text \<open>\<open>strcmp\<close> compares unsigned characters; only the sign of its result is used.\<close>

fun strcmp :: "string \<Rightarrow> string \<Rightarrow> int" where
  "strcmp [] [] = 0"
| "strcmp [] (d # t) = - 1"
| "strcmp (c # s) [] = 1"
| "strcmp (c # s) (d # t) = (if (of_char c :: nat) < of_char d then - 1
     else if (of_char c :: nat) > of_char d then 1 else strcmp s t)"

definition string_hash :: "string \<Rightarrow> 64 word" where
  "string_hash s = fold (\<lambda>c x. ((push_bit 6 x) OR drop_bit 26 (x AND 0xfc000000)) XOR of_char c) s 0x12345678"

text \<open>The comparison method of two objects of the same class, when the class has one.\<close>

definition class_compare :: "lobj \<Rightarrow> lobj \<Rightarrow> bool \<Rightarrow> int res option" where
  "class_compare p q order = (case (p, q) of
       (LString _ s, LString _ t) \<Rightarrow> Some (Inr (strcmp s t))
     | (LDate _ d, LDate _ e) \<Rightarrow> Some (date_compare d e order)
     | _ \<Rightarrow> None)"

section \<open>Equality and ranking\<close>

fun eq_test :: "lobj \<Rightarrow> lobj \<Rightarrow> bool" where
  "eq_test p q = (p = q \<or> (case (p, q) of
       (LCons _ a d, LCons _ b e) \<Rightarrow> eq_test a b \<and> eq_test d e
     | (LNumber _ x, LNumber _ y) \<Rightarrow> num_eq x y
     | (LGptr _ x, LGptr _ y) \<Rightarrow> x = y
     | _ \<Rightarrow> (case class_compare p q False of Some (Inr c) \<Rightarrow> c = 0 | _ \<Rightarrow> False)))"

definition comp_test :: "lobj \<Rightarrow> lobj \<Rightarrow> int res" where
  "comp_test p q = (case (p, q) of
       (LNumber _ x, LNumber _ y) \<Rightarrow> Inr (if num_less x y then - 1 else if num_less y x then 1 else 0)
     | (LGptr _ x, LGptr _ y) \<Rightarrow> Inr (if x < y then - 1 else if x > y then 1 else 0)
     | _ \<Rightarrow> (case class_compare p q True of Some c \<Rightarrow> c | None \<Rightarrow> Inl (Lush ''Cannot rank these objects'')))"

section \<open>Hashing\<close>

fun address :: "lobj \<Rightarrow> nat" where
  "address LNil = 0"
| "address (LNumber a _) = a"
| "address (LGptr a _) = a"
| "address (LCons a _ _) = a"
| "address (LString a _) = a"
| "address (LDate a _) = a"
| "address (LSymbol a _) = a"
| "address (LZombie a) = a"
| "address (LOther a _) = a"

definition hash_pointer :: "lobj \<Rightarrow> 64 word" where
  "hash_pointer p = (let x = of_nat (address p); x = x XOR drop_bit 32 x in x XOR drop_bit 16 x)"

text \<open>The step that starts every turn of the loop of \<open>hash_value\<close>; the shifted-out bit is complemented.\<close>

definition turn :: "64 word \<Rightarrow> 64 word" where
  "turn x = push_bit 1 x OR (drop_bit 63 x XOR 1)"

primrec hash_from :: "64 word \<Rightarrow> lobj \<Rightarrow> 64 word" where
  "hash_from x LNil = turn x"
| "hash_from x (LNumber a b) = turn x XOR 0x1010 XOR (b AND 0xffffffff) XOR drop_bit 32 b"
| "hash_from x (LGptr a g) = turn x XOR 0x4040 XOR g"
| "hash_from x (LCons a u d) = hash_from (turn x XOR 0x2020 XOR hash_from 0 u) d"
| "hash_from x (LString a s) = turn x XOR 0x3030 XOR string_hash s"
| "hash_from x (LDate a d) = turn x XOR 0x3030 XOR date_hash d"
| "hash_from x (LSymbol a h) = turn x XOR 0x3030 XOR h"
| "hash_from x (LZombie a) = turn x XOR hash_pointer (LZombie a)"
| "hash_from x (LOther a k) = turn x XOR hash_pointer (LOther a k)"

definition hash_value :: "lobj \<Rightarrow> 64 word" where
  "hash_value p = hash_from 0 p"

section \<open>The contract of equality and hashing\<close>

declare eq_test.simps [simp del]

lemma eq_test_refl [simp]: "eq_test p p"
  by (subst eq_test.simps) simp

lemma strcmp_0: "strcmp s t = 0 \<longleftrightarrow> s = t"
  by (induction s t rule: strcmp.induct) (auto simp: of_char_eq_iff linorder_less_linear dest: not_less_iff_gr_or_eq [THEN iffD1])

lemma compare_fields_sym: "compare_fields is d e = 0 \<Longrightarrow> compare_fields is e d = 0"
  by (induction "is") (auto simp: Let_def split: if_splits)

lemma compare_fields_trans: "compare_fields is d e = 0 \<Longrightarrow> compare_fields is e f = 0 \<Longrightarrow> compare_fields is d f = 0"
  by (induction "is") (auto simp: Let_def split: if_splits)

text \<open>The equality of the objects that are not the same pointer.\<close>

inductive alike :: "lobj \<Rightarrow> lobj \<Rightarrow> bool" where
  same: "alike p p"
| number: "num_eq x y \<Longrightarrow> alike (LNumber a x) (LNumber b y)"
| gptr: "alike (LGptr a x) (LGptr b x)"
| list: "alike u v \<Longrightarrow> alike d e \<Longrightarrow> alike (LCons a u d) (LCons b v e)"
| str: "alike (LString a s) (LString b s)"
| date: "date_compare d e False = Inr 0 \<Longrightarrow> alike (LDate a d) (LDate b e)"

lemma eq_test_cases:
  "eq_test (LCons a u d) q \<longleftrightarrow> LCons a u d = q \<or> (\<exists>b v e. q = LCons b v e \<and> eq_test u v \<and> eq_test d e)"
  "eq_test (LNumber a x) q \<longleftrightarrow> LNumber a x = q \<or> (\<exists>b y. q = LNumber b y \<and> num_eq x y)"
  "eq_test (LGptr a x) q \<longleftrightarrow> (\<exists>b. q = LGptr b x)"
  "eq_test (LString a s) q \<longleftrightarrow> (\<exists>b. q = LString b s)"
  "eq_test (LDate a t) q \<longleftrightarrow> LDate a t = q \<or> (\<exists>b e. q = LDate b e \<and> date_compare t e False = Inr 0)"
  "eq_test LNil q \<longleftrightarrow> q = LNil"
  "eq_test (LSymbol a h) q \<longleftrightarrow> q = LSymbol a h"
  "eq_test (LZombie a) q \<longleftrightarrow> q = LZombie a"
  "eq_test (LOther a k) q \<longleftrightarrow> q = LOther a k"
  by (subst eq_test.simps, cases q; auto simp: class_compare_def strcmp_0 split: sum.splits)+

lemma alike_eq_test: "alike p q \<Longrightarrow> eq_test p q"
  by (induction rule: alike.induct) (simp_all add: eq_test_cases)

lemma eq_test_alike: "eq_test p q \<Longrightarrow> alike p q"
  by (induction p arbitrary: q) (auto simp: eq_test_cases intro: alike.intros)

section \<open>Equality is an equivalence\<close>

lemma num_eq_sym: "num_eq x y \<Longrightarrow> num_eq y x"
  by (simp add: num_eq_def)

lemma num_eq_trans: "num_eq x y \<Longrightarrow> num_eq y z \<Longrightarrow> num_eq x z"
  by (simp add: num_eq_def)

lemma date_equal: "date_compare d e False = Inr 0 \<longleftrightarrow> dfrom d = dfrom e \<and> compare_fields [dfrom d ..< 6] d e = 0"
  by (simp add: date_compare_def)

inductive_cases alike_elims:
  "alike (LNumber a x) q" "alike (LGptr a x) q" "alike (LCons a u d) q" "alike (LString a s) q" "alike (LDate a t) q"

lemma alike_sym: "alike p q \<Longrightarrow> alike q p"
  by (induction rule: alike.induct) (auto intro: alike.intros num_eq_sym simp: date_equal compare_fields_sym)

lemma alike_trans: "alike p q \<Longrightarrow> alike q r \<Longrightarrow> alike p r"
proof (induction arbitrary: r rule: alike.induct)
  case (number x y a b)
  from number(2) show ?case by (cases rule: alike.cases) (use number(1) in \<open>auto intro: alike.intros num_eq_trans\<close>)
next
  case (gptr a x b)
  from gptr show ?case by (cases rule: alike.cases) (auto intro: alike.intros)
next
  case (list u v d e a b)
  from list(5) show ?case by (cases rule: alike.cases) (use list in \<open>auto intro: alike.intros\<close>)
next
  case (str a s b)
  from str show ?case by (cases rule: alike.cases) (auto intro: alike.intros)
next
  case (date d e a b)
  from date(2) show ?case
    by (cases rule: alike.cases) (use date(1) in \<open>auto intro!: alike.date simp: date_equal dest: compare_fields_trans\<close>)
qed

lemma eq_test_sym: "eq_test p q \<Longrightarrow> eq_test q p"
  by (metis eq_test_alike alike_eq_test alike_sym)

lemma eq_test_trans: "eq_test p q \<Longrightarrow> eq_test q r \<Longrightarrow> eq_test p r"
  by (metis eq_test_alike alike_eq_test alike_trans)

section \<open>Equal objects and their hash codes\<close>

text \<open>Objects without a negative zero.\<close>

abbreviation neg_zero :: "64 word" where
  "neg_zero \<equiv> 0x8000000000000000"

primrec plain :: "lobj \<Rightarrow> bool" where
  "plain LNil = True"
| "plain (LNumber a x) = (x \<noteq> neg_zero)"
| "plain (LGptr a x) = True"
| "plain (LCons a u d) = (plain u \<and> plain d)"
| "plain (LString a s) = True"
| "plain (LDate a d) = True"
| "plain (LSymbol a h) = True"
| "plain (LZombie a) = True"
| "plain (LOther a k) = True"

lemma mask_63: "(0x7FFFFFFFFFFFFFFF :: 64 word) = mask 63"
  by (simp add: mask_eq_exp_minus_1)

lemma magnitude_bit: "bit (magnitude b) n \<longleftrightarrow> n < 63 \<and> bit b n"
  unfolding magnitude_def mask_63 by (auto simp: bit_and_iff bit_mask_iff dest: bit_imp_le_length)

lemma neg_zero_bit: "bit neg_zero n \<longleftrightarrow> n = 63"
proof -
  have "neg_zero = push_bit 63 1" by simp
  then show ?thesis by (simp only: bit_push_bit_iff) (auto simp: bit_1_iff)
qed

lemma same_bits:
  assumes "bit x 63 = bit y 63" "magnitude x = magnitude y"
  shows "(x :: 64 word) = y"
proof (rule bit_word_eqI)
  fix n assume "n < LENGTH(64)"
  then have "n < 63 \<or> n = 63" by auto
  then show "bit x n \<longleftrightarrow> bit y n" using assms magnitude_bit [of x n] magnitude_bit [of y n] by auto
qed

lemma magnitude_zero: "magnitude x = 0 \<Longrightarrow> bit x 63 \<Longrightarrow> x = neg_zero"
  by (rule same_bits) (auto simp: neg_zero_bit magnitude_def)

lemma num_eq_plain: "num_eq x y \<Longrightarrow> x \<noteq> neg_zero \<Longrightarrow> y \<noteq> neg_zero \<Longrightarrow> x = y"
proof -
  assume e: "num_eq x y" and n: "x \<noteq> neg_zero" "y \<noteq> neg_zero"
  have k: "num_key x = num_key y" using e by (simp add: num_eq_def)
  have nn: "0 \<le> uint (magnitude x)" "0 \<le> uint (magnitude y)" by simp_all
  show ?thesis
  proof (cases "bit x 63 = bit y 63")
    case True
    then have "uint (magnitude x) = uint (magnitude y)" using k by (auto simp: num_key_def split: if_splits)
    then show ?thesis using same_bits [OF True] by (simp add: word_uint_eq_iff)
  next
    case False
    then have "uint (magnitude x) = - uint (magnitude y)"
      using k False unfolding num_key_def by (auto split: if_splits)
    then have "uint (magnitude x) = 0" "uint (magnitude y) = 0" using nn by linarith+
    then have "magnitude x = 0" "magnitude y = 0" by (simp_all add: uint_0_iff)
    then show ?thesis using magnitude_zero n False by blast
  qed
qed

lemma alike_hash: "alike p q \<Longrightarrow> plain p \<Longrightarrow> plain q \<Longrightarrow> hash_from x p = hash_from x q"
proof (induction arbitrary: x rule: alike.induct)
  case (number a b m n)
  then show ?case using num_eq_plain by auto
next
  case (date d e a b)
  then show ?case using equal_dates_hash [of d e False] by simp
qed auto

end
