(* ===== verification/Htable.thy ===== *)
theory Htable
  imports Buckets Equality
begin

text \<open>
  Hash tables (\<open>src/src/htable.c\<close>). Keys and values are the objects of \<open>Equality\<close>; a table hashes its
  keys by address (\<open>pointerhashp\<close>) or by value. The reference counts are followed by the list of
  the \<open>LOCK\<close>s, \<open>UNLOCK\<close>s and finalizer registrations that an operation makes.

  The allocator is the parameter \<open>mem\<close>, which says whether an array of so many pointers is granted
  (hash nodes come from \<open>allocate\<close>, which the theory \<open>Heap\<close> models). \<open>dies\<close> says which keys die when
  the table releases them: then their finalizer runs. \<open>NULL\<close> values stand for absent ones.
\<close>

section \<open>The data\<close>

record hashelt =
  hhash :: "64 word"
  hkey :: lobj
  hval :: lobj

record htable =
  hsize :: nat
  nelems :: int
  pointerhashp :: bool
  keylockp :: bool
  rehashp :: bool
  htab :: "hashelt list list"

datatype effect = Lock lobj | Unlock lobj | AddFin lobj

definition zombie :: "lobj \<Rightarrow> bool" where
  "zombie p = (case p of LZombie _ \<Rightarrow> True | _ \<Rightarrow> False)"

definition elements :: "htable \<Rightarrow> hashelt list" where
  "elements t = concat (htab t)"

definition bucket_of :: "hashelt \<Rightarrow> nat" where
  "bucket_of n = unat (hhash n)"

definition key_hash :: "bool \<Rightarrow> lobj \<Rightarrow> 64 word" where
  "key_hash ptr k = (if ptr then hash_pointer k else hash_value k)"

text \<open>The test of the search loops.\<close>

definition matches :: "bool \<Rightarrow> 64 word \<Rightarrow> lobj \<Rightarrow> hashelt \<Rightarrow> bool" where
  "matches ptr h k n \<longleftrightarrow> k = hkey n \<or> \<not> ptr \<and> h = hhash n \<and> eq_test k (hkey n)"

section \<open>Creation, resizing, rehashing\<close>

definition new_htable :: "(nat \<Rightarrow> bool) \<Rightarrow> int \<Rightarrow> bool \<Rightarrow> htable res" where
  "new_htable mem n ptr = (let size = nat (if n < 16 then 31 else n * 2 - 1) in
     if \<not> mem size then Inl (Lush ''Out of memory'')
     else Inr \<lparr>hsize = size, nelems = 0, pointerhashp = ptr, keylockp = \<not> ptr, rehashp = False,
       htab = replicate size []\<rparr>)"

definition htable_resize :: "(nat \<Rightarrow> bool) \<Rightarrow> htable \<Rightarrow> nat \<Rightarrow> htable res" where
  "htable_resize mem t newsize = (if \<not> mem newsize then Inl (Lush ''Out of memory'')
     else Inr (t\<lparr>htab := relocate bucket_of newsize (htab t), hsize := newsize\<rparr>))"

text \<open>The finalizer of a key: every element with that key leaves the bucket of its address.\<close>

definition hashelt_finalize :: "lobj \<Rightarrow> htable \<Rightarrow> htable \<times> effect list" where
  "hashelt_finalize k t = (let i = unat (hash_pointer k) mod hsize t; b = htab t ! i;
       gone = filter (\<lambda>n. hkey n = k) b in
     (t\<lparr>htab := (htab t)[i := filter (\<lambda>n. hkey n \<noteq> k) b], nelems := nelems t - int (length gone)\<rparr>,
      map (\<lambda>n. Unlock (hval n)) gone))"

fun finalize_all :: "lobj list \<Rightarrow> htable \<Rightarrow> htable \<times> effect list" where
  "finalize_all [] t = (t, [])"
| "finalize_all (k # ks) t = (let (t, e) = hashelt_finalize k t; (t, e') = finalize_all ks t in (t, e @ e'))"

text \<open>A table hashed by address that still locks its keys (one read from a file) first releases them.\<close>

definition release_keys :: "(lobj \<Rightarrow> bool) \<Rightarrow> htable \<Rightarrow> htable \<times> effect list" where
  "release_keys dies t = (if pointerhashp t \<and> keylockp t
     then let ks = map hkey (elements t);
              (t, e) = finalize_all (filter dies (rev ks)) (t\<lparr>keylockp := False\<rparr>) in
       (t, map AddFin ks @ map Unlock (rev ks) @ e)
     else (t, []))"

text \<open>Elements with a zombie are dropped; the code unlocks their key whatever \<open>keylockp\<close> says.\<close>

definition stale :: "hashelt \<Rightarrow> bool" where
  "stale n \<longleftrightarrow> zombie (hkey n) \<or> zombie (hval n)"

definition zap_zombies :: "htable \<Rightarrow> htable \<times> effect list" where
  "zap_zombies t = (let gone = filter stale (elements t) in
     (t\<lparr>htab := map (filter (\<lambda>n. \<not> stale n)) (htab t), nelems := nelems t - int (length gone)\<rparr>,
      concat (map (\<lambda>n. [Unlock (hkey n), Unlock (hval n)]) gone)))"

definition recompute :: "htable \<Rightarrow> htable" where
  "recompute t = t\<lparr>htab := map (map (\<lambda>n. n\<lparr>hhash := key_hash (pointerhashp t) (hkey n)\<rparr>)) (htab t)\<rparr>"

definition htable_rehash :: "(nat \<Rightarrow> bool) \<Rightarrow> (lobj \<Rightarrow> bool) \<Rightarrow> htable \<Rightarrow> (htable \<times> effect list) res" where
  "htable_rehash mem dies t = (let (t, e1) = release_keys dies t; (t, e2) = zap_zombies t in
     res_bind (htable_resize mem (recompute t) (hsize t)) (\<lambda>t. Inr (t\<lparr>rehashp := False\<rparr>, e1 @ e2)))"

definition refresh :: "(nat \<Rightarrow> bool) \<Rightarrow> (lobj \<Rightarrow> bool) \<Rightarrow> htable \<Rightarrow> (htable \<times> effect list) res" where
  "refresh mem dies t = (if rehashp t then htable_rehash mem dies t else Inr (t, []))"

section \<open>Access\<close>

text \<open>Replacing the first element of a bucket that satisfies a test.\<close>

fun change_first :: "('e \<Rightarrow> bool) \<Rightarrow> ('e \<Rightarrow> 'e list) \<Rightarrow> 'e list \<Rightarrow> 'e list" where
  "change_first p f [] = []"
| "change_first p f (n # b) = (if p n then f n @ b else n # change_first p f b)"

text \<open>The loop that doubles the size; on a size below 2 it would not end.\<close>

function make_room :: "(nat \<Rightarrow> bool) \<Rightarrow> htable \<Rightarrow> htable res" where
  "make_room mem t = (if 2 * int (hsize t) < 3 * nelems t
     then if hsize t < 2 then Inl NoFuel
          else res_bind (htable_resize mem t (2 * hsize t - 1)) (make_room mem)
     else Inr t)"
  by pat_completeness auto
termination
  by (relation "measure (\<lambda>(mem, t). nat (3 * nelems t - 2 * int (hsize t)))")
    (auto simp: htable_resize_def split: if_splits)

declare make_room.simps [simp del]

definition insert_new :: "(nat \<Rightarrow> bool) \<Rightarrow> htable \<Rightarrow> 64 word \<Rightarrow> lobj \<Rightarrow> lobj \<Rightarrow> (htable \<times> effect list) res" where
  "insert_new mem t h k v = res_bind (make_room mem t) (\<lambda>t.
     Inr (t\<lparr>htab := push bucket_of \<lparr>hhash = h, hkey = k, hval = v\<rparr> (htab t), nelems := nelems t + 1\<rparr>,
       [if keylockp t then Lock k else AddFin k, Lock v]))"

definition htable_set ::
  "(nat \<Rightarrow> bool) \<Rightarrow> (lobj \<Rightarrow> bool) \<Rightarrow> htable \<Rightarrow> lobj \<Rightarrow> lobj \<Rightarrow> (htable \<times> effect list) res" where
  "htable_set mem dies t k v = (let v = (if zombie v then LNil else v) in
     if zombie k then Inr (t, [])
     else res_bind (refresh mem dies t) (\<lambda>(t, e).
       let h = key_hash (pointerhashp t) k; i = unat h mod hsize t; b = htab t ! i;
           m = matches (pointerhashp t) h k in
       case List.find m b of
         Some n \<Rightarrow> if v \<noteq> LNil
           then Inr (t\<lparr>htab := (htab t)[i := change_first m (\<lambda>n. [n\<lparr>hval := v\<rparr>]) b]\<rparr>,
             e @ [Lock v, Unlock (hval n)])
           else Inr (t\<lparr>htab := (htab t)[i := change_first m (\<lambda>n. []) b], nelems := nelems t - 1\<rparr>,
             e @ (if keylockp t then [Unlock (hkey n)] else []) @ [Unlock (hval n)])
       | None \<Rightarrow> if v \<noteq> LNil
           then res_bind (insert_new mem t h k v) (\<lambda>(t, e'). Inr (t, e @ e'))
           else Inr (t, e)))"

definition htable_get ::
  "(nat \<Rightarrow> bool) \<Rightarrow> (lobj \<Rightarrow> bool) \<Rightarrow> htable \<Rightarrow> lobj \<Rightarrow> (lobj \<times> htable \<times> effect list) res" where
  "htable_get mem dies t k = res_bind (refresh mem dies t) (\<lambda>(t, e).
     let h = key_hash (pointerhashp t) k in
     case List.find (matches (pointerhashp t) h k) (htab t ! (unat h mod hsize t)) of
       Some n \<Rightarrow> Inr (hval n, t, e @ [Lock (hval n)])
     | None \<Rightarrow> Inr (LNil, t, e))"

section \<open>Reports, comparison, serialization, disposal\<close>

text \<open>The result of \<open>htable-alist\<close> and \<open>htable-keys\<close>: later elements come first.\<close>

definition htable_alist :: "htable \<Rightarrow> (lobj \<times> lobj) list" where
  "htable_alist t = rev (map (\<lambda>n. (hkey n, hval n)) (elements t))"

definition htable_keys :: "htable \<Rightarrow> lobj list" where
  "htable_keys t = rev (map hkey (elements t))"

definition xhtable_rehash :: "htable \<Rightarrow> int \<times> htable" where
  "xhtable_rehash t = (nelems t, t\<lparr>rehashp := True\<rparr>)"

definition htable_hash :: "htable \<Rightarrow> 64 word" where
  "htable_hash t = fold (\<lambda>n x. x XOR (push_bit 6 (hash_value (hkey n)) XOR hash_value (hval n))) (elements t) 0"

fun compare_elements ::
  "(nat \<Rightarrow> bool) \<Rightarrow> (lobj \<Rightarrow> bool) \<Rightarrow> hashelt list \<Rightarrow> htable \<Rightarrow> (int \<times> htable) res" where
  "compare_elements mem dies [] t = Inr (0, t)"
| "compare_elements mem dies (n # ns) t = res_bind (htable_get mem dies t (hkey n)) (\<lambda>(v, t, _).
     if v = LNil \<or> \<not> eq_test v (hval n) then Inr (1, t) else compare_elements mem dies ns t)"

definition htable_compare ::
  "(nat \<Rightarrow> bool) \<Rightarrow> (lobj \<Rightarrow> bool) \<Rightarrow> htable \<Rightarrow> htable \<Rightarrow> bool \<Rightarrow> (int \<times> htable) res" where
  "htable_compare mem dies t1 t2 order =
    (if order then Inl (Lush ''Cannot rank hashtables'')
     else if nelems t1 \<noteq> nelems t2 then Inr (1, t2)
     else compare_elements mem dies (elements t1) t2)"

text \<open>What \<open>htable_serialize\<close> writes, and the table it builds from that: all elements in bucket 0, with
  their keys locked, to be rehashed at the first access.\<close>

definition htable_write :: "htable \<Rightarrow> bool \<times> int \<times> (lobj \<times> lobj) list" where
  "htable_write t = (pointerhashp t, nelems t, map (\<lambda>n. (hkey n, hval n)) (elements t))"

definition htable_read :: "(nat \<Rightarrow> bool) \<Rightarrow> bool \<times> int \<times> (lobj \<times> lobj) list \<Rightarrow> htable res" where
  "htable_read mem = (\<lambda>(ptr, n, kvs). res_bind (new_htable mem n ptr) (\<lambda>t.
     Inr (t\<lparr>rehashp := True, keylockp := True, nelems := int (length kvs),
       htab := (htab t)[0 := map (\<lambda>(k, v). \<lparr>hhash = 0, hkey = k, hval = v\<rparr>) (rev kvs)]\<rparr>)))"

definition htable_dispose :: "htable \<Rightarrow> effect list" where
  "htable_dispose t = concat (map (\<lambda>n. (if keylockp t then [Unlock (hkey n)] else []) @ [Unlock (hval n)]) (elements t))"

end
