(* ===== verification/HtableLaws.thy ===== *)
theory HtableLaws
  imports Htable
begin

text \<open>
  The hash table as a map: the equality of its keys, the invariant, and what the operations do to
  the contents and to the references that the table holds.
\<close>

section \<open>Keys\<close>

definition same_key :: "bool \<Rightarrow> lobj \<Rightarrow> lobj \<Rightarrow> bool" where
  "same_key ptr k l \<longleftrightarrow> k = l \<or> \<not> ptr \<and> hash_value k = hash_value l \<and> eq_test k l"

interpretation hk: keys "same_key ptr" hkey for ptr
  by unfold_locales (auto simp: same_key_def intro: eq_test_sym eq_test_trans)

lemma same_key_hash: "same_key ptr k l \<Longrightarrow> key_hash ptr k = key_hash ptr l"
  by (auto simp: same_key_def key_hash_def)

lemma matches_same: "hhash n = key_hash ptr (hkey n) \<Longrightarrow>
    matches ptr (key_hash ptr k) k n \<longleftrightarrow> same_key ptr k (hkey n)"
  by (auto simp: matches_def same_key_def key_hash_def)

section \<open>The invariant\<close>

definition hashed :: "htable \<Rightarrow> bool" where
  "hashed t \<longleftrightarrow> placed bucket_of (htab t) \<and> (\<forall>n \<in> set (elements t). hhash n = key_hash (pointerhashp t) (hkey n))"

definition wf_table :: "htable \<Rightarrow> bool" where
  "wf_table t \<longleftrightarrow> 1 < hsize t \<and> length (htab t) = hsize t \<and> nelems t = int (length (elements t)) \<and>
     keyed (same_key (pointerhashp t)) hkey (mset (elements t)) \<and> (\<forall>n \<in> set (elements t). hval n \<noteq> LNil) \<and>
     (rehashp t \<or> hashed t)"

definition entry :: "htable \<Rightarrow> lobj \<Rightarrow> hashelt set" where
  "entry t k = lookup (same_key (pointerhashp t)) hkey (mset (elements t)) k"

text \<open>The value of a key: the abstract state of the table, \<open>LNil\<close> where nothing is stored.\<close>

definition contents :: "htable \<Rightarrow> lobj \<Rightarrow> lobj" where
  "contents t k = (case List.find (\<lambda>n. same_key (pointerhashp t) k (hkey n)) (elements t) of
     None \<Rightarrow> LNil | Some n \<Rightarrow> hval n)"

lemma find_SomeD: "List.find p xs = Some x \<Longrightarrow> x \<in> set xs \<and> p x"
  by (auto simp: find_Some_iff in_set_conv_nth)

lemma entry_cases:
  assumes "wf_table t"
  obtains "entry t k = {}" "contents t k = LNil" | n where "entry t k = {n}" "contents t k = hval n" "hval n \<noteq> LNil"
proof (cases "List.find (\<lambda>n. same_key (pointerhashp t) k (hkey n)) (elements t)")
  case None
  then have "entry t k = {}" by (auto simp: entry_def lookup_def find_None_iff)
  then show ?thesis using that(1) None by (simp add: contents_def)
next
  case (Some n)
  from find_SomeD [OF this] have n: "n \<in> entry t k" "n \<in> set (elements t)" by (auto simp: entry_def lookup_def)
  have "entry t k = {n}"
    using hk.keyed_unique [of "pointerhashp t" "mset (elements t)" n k] n assms by (simp add: entry_def wf_table_def)
  then show ?thesis using that(2) Some n assms by (simp add: contents_def wf_table_def)
qed

lemma contents_entry: "wf_table t \<Longrightarrow> entry t k = {n} \<Longrightarrow> contents t k = hval n"
  by (rule entry_cases [of t k]) auto

lemma contents_empty: "wf_table t \<Longrightarrow> entry t k = {} \<Longrightarrow> contents t k = LNil"
  by (rule entry_cases [of t k]) auto

section \<open>Searching a bucket\<close>

definition bucket :: "htable \<Rightarrow> lobj \<Rightarrow> hashelt list" where
  "bucket t k = htab t ! (unat (key_hash (pointerhashp t) k) mod hsize t)"

definition search :: "htable \<Rightarrow> lobj \<Rightarrow> hashelt option" where
  "search t k = List.find (matches (pointerhashp t) (key_hash (pointerhashp t) k) k) (bucket t k)"

lemma index_less: "wf_table t \<Longrightarrow> unat h mod hsize t < length (htab t)"
  by (simp add: wf_table_def)

lemma bucket_elements: "wf_table t \<Longrightarrow> n \<in> set (bucket t k) \<Longrightarrow> n \<in> set (elements t)"
  unfolding bucket_def elements_def by (rule bucket_concat [OF index_less])

lemma search_entry:
  assumes w: "wf_table t" "\<not> rehashp t"
  shows "search t k = Some n \<Longrightarrow> entry t k = {n}" "search t k = None \<Longrightarrow> entry t k = {}"
proof -
  have h: "hashed t" using w by (auto simp: wf_table_def)
  have m: "matches (pointerhashp t) (key_hash (pointerhashp t) k) k x \<longleftrightarrow> same_key (pointerhashp t) k (hkey x)"
    if "x \<in> set (elements t)" for x
    by (rule matches_same) (use h that in \<open>auto simp: hashed_def\<close>)
  have b: "x \<in> set (bucket t k)" if "x \<in> set (elements t)" "same_key (pointerhashp t) k (hkey x)" for x
  proof -
    have "bucket_of x = unat (key_hash (pointerhashp t) k)"
      using h that same_key_hash [OF that(2)] by (auto simp: hashed_def bucket_of_def)
    moreover have "length (htab t) = hsize t" "0 < hsize t" using w by (auto simp: wf_table_def)
    ultimately show ?thesis
      using placed_bucket [of bucket_of "htab t" x] h that(1) by (simp add: hashed_def elements_def bucket_def)
  qed
  show "entry t k = {n}" if s: "search t k = Some n"
  proof -
    from find_SomeD [OF s [unfolded search_def]]
    have n: "n \<in> set (elements t)" "same_key (pointerhashp t) k (hkey n)"
      using m bucket_elements [OF w(1)] by auto
    show ?thesis unfolding entry_def
      by (rule hk.keyed_unique) (use w n in \<open>auto simp: wf_table_def lookup_def\<close>)
  qed
  show "entry t k = {}" if s: "search t k = None"
    using s m b unfolding search_def entry_def lookup_def find_None_iff by auto
qed

section \<open>Resizing\<close>

lemma resize_ok:
  assumes "htable_resize mem t n = Inr t'" "0 < n"
  shows "mset (elements t') = mset (elements t)" "length (htab t') = n" "placed bucket_of (htab t')"
    "hsize t' = n" "pointerhashp t' = pointerhashp t" "keylockp t' = keylockp t" "rehashp t' = rehashp t"
    "nelems t' = nelems t"
  using assms relocate_ok [OF assms(2), of bucket_of "htab t"]
  by (auto simp: htable_resize_def elements_def split: if_splits)

lemma set_elements: "mset (elements t') = mset (elements t) \<Longrightarrow> set (elements t') = set (elements t)"
  by (metis set_mset_mset)

lemma resize_wf:
  assumes "wf_table t" "htable_resize mem t n = Inr t'" "1 < n"
  shows "wf_table t'" "entry t' = entry t" "rehashp t' = rehashp t" "pointerhashp t' = pointerhashp t"
    "keylockp t' = keylockp t" "mset (elements t') = mset (elements t)"
proof -
  note r = resize_ok [OF assms(2)]
  have n: "0 < n" using assms(3) by simp
  note r = r [OF n]
  have l: "length (elements t') = length (elements t)" using r(1) by (metis size_mset)
  show "wf_table t'"
    using assms(1,3) r l set_elements [OF r(1)] unfolding wf_table_def hashed_def by auto
  show "entry t' = entry t" using r by (simp add: entry_def fun_eq_iff)
qed (use resize_ok [OF assms(2)] assms(3) in simp_all)

lemma make_room_wf:
  assumes "wf_table t" "make_room mem t = Inr t'"
  shows "wf_table t' \<and> entry t' = entry t \<and> rehashp t' = rehashp t \<and> pointerhashp t' = pointerhashp t \<and>
    keylockp t' = keylockp t \<and> mset (elements t') = mset (elements t)"
  using assms
proof (induction mem t rule: make_room.induct)
  case (1 mem t)
  show ?case
  proof (cases "2 * int (hsize t) < 3 * nelems t")
    case True
    have s: "\<not> hsize t < 2" using "1.prems"(1) by (simp add: wf_table_def)
    obtain u where u: "htable_resize mem t (2 * hsize t - 1) = Inr u" "make_room mem u = Inr t'"
      using "1.prems"(2) True s by (subst (asm) make_room.simps) (auto simp: res_bind_Inr_iff)
    have "1 < 2 * hsize t - 1" using s by simp
    note w = resize_wf [OF "1.prems"(1) u(1) this]
    from "1.IH" [OF True s u(1) w(1) u(2)] show ?thesis using w by simp
  next
    case False
    then show ?thesis using "1.prems" by (subst (asm) make_room.simps) simp
  qed
qed

lemma make_room_total:
  assumes "wf_table t" "\<And>n. mem n"
  shows "\<exists>t'. make_room mem t = Inr t'"
  using assms
proof (induction mem t rule: make_room.induct)
  case (1 mem t)
  show ?case
  proof (cases "2 * int (hsize t) < 3 * nelems t")
    case True
    have s: "\<not> hsize t < 2" using "1.prems"(1) by (simp add: wf_table_def)
    obtain u where u: "htable_resize mem t (2 * hsize t - 1) = Inr u"
      using "1.prems"(2) by (auto simp: htable_resize_def)
    have "1 < 2 * hsize t - 1" using s by simp
    from "1.IH" [OF True s u resize_wf(1) [OF "1.prems"(1) u this] "1.prems"(2)] show ?thesis
      using True s u by (subst make_room.simps) simp
  next
    case False
    then show ?thesis by (subst make_room.simps) simp
  qed
qed

section \<open>Setting an element\<close>

text \<open>The references that a table holds, and those that a list of effects takes and gives back.\<close>

definition held :: "htable \<Rightarrow> lobj multiset" where
  "held t = (if keylockp t then image_mset hkey (mset (elements t)) else {#}) + image_mset hval (mset (elements t))"

fun locks_of :: "effect \<Rightarrow> lobj multiset" where
  "locks_of (Lock p) = {#p#}"
| "locks_of _ = {#}"

fun unlocks_of :: "effect \<Rightarrow> lobj multiset" where
  "unlocks_of (Unlock p) = {#p#}"
| "unlocks_of _ = {#}"

definition balanced :: "htable \<Rightarrow> effect list \<Rightarrow> htable \<Rightarrow> bool" where
  "balanced t e t' \<longleftrightarrow> held t + sum_list (map locks_of e) = held t' + sum_list (map unlocks_of e)"

text \<open>What \<open>htable_set\<close> does when there is nothing to rehash, by its four branches.\<close>

definition set_bucket :: "htable \<Rightarrow> lobj \<Rightarrow> hashelt list \<Rightarrow> hashelt list list" where
  "set_bucket t k b = (htab t)[unat (key_hash (pointerhashp t) k) mod hsize t := b]"

definition matcher :: "htable \<Rightarrow> lobj \<Rightarrow> hashelt \<Rightarrow> bool" where
  "matcher t k = matches (pointerhashp t) (key_hash (pointerhashp t) k) k"

lemma htable_set_branches:
  assumes "\<not> rehashp t" "\<not> zombie k" "\<not> zombie v"
  shows "htable_set mem dies t k v = (case search t k of
      Some n \<Rightarrow> if v \<noteq> LNil
        then Inr (t\<lparr>htab := set_bucket t k (change_first (matcher t k) (\<lambda>n. [n\<lparr>hval := v\<rparr>]) (bucket t k))\<rparr>, [Lock v, Unlock (hval n)])
        else Inr (t\<lparr>htab := set_bucket t k (change_first (matcher t k) (\<lambda>n. []) (bucket t k)), nelems := nelems t - 1\<rparr>,
          (if keylockp t then [Unlock (hkey n)] else []) @ [Unlock (hval n)])
    | None \<Rightarrow> if v \<noteq> LNil then insert_new mem t (key_hash (pointerhashp t) k) k v else Inr (t, []))"
  using assms by (auto simp: htable_set_def refresh_def Let_def search_def bucket_def matcher_def set_bucket_def
    res_bind_def split: option.splits sum.splits)

lemma change_first_mset: "List.find p b = Some n \<Longrightarrow> add_mset n (mset (change_first p f b)) = mset (f n) + mset b"
  by (induction b) (auto split: if_splits)

lemma change_first_set: "set (change_first p f b) \<subseteq> set b \<union> (\<Union>n \<in> set b. set (f n))"
  by (induction b) auto

lemma set_bucket_mset:
  assumes "wf_table t" "search t k = Some n"
  shows "add_mset n (mset (concat (set_bucket t k (change_first (matcher t k) f (bucket t k))))) =
    mset (f n) + mset (elements t)"
proof -
  let ?b = "change_first (matcher t k) f (bucket t k)"
  have 1: "mset (concat (set_bucket t k ?b)) + mset (bucket t k) = mset (elements t) + mset ?b"
    unfolding set_bucket_def bucket_def elements_def by (rule mset_concat_update [OF index_less [OF assms(1)]])
  have 2: "add_mset n (mset ?b) = mset (f n) + mset (bucket t k)"
    by (rule change_first_mset) (use assms(2) in \<open>simp add: search_def matcher_def\<close>)
  have "add_mset n (mset (concat (set_bucket t k ?b))) + mset (bucket t k) =
      mset (f n) + mset (elements t) + mset (bucket t k)"
    using 1 2 by (metis add.commute add.left_commute union_mset_add_mset_left)
  then show ?thesis by simp
qed

lemma set_bucket_hashed:
  assumes "wf_table t" "hashed t"
    and "\<And>n. n \<in> set (bucket t k) \<Longrightarrow> \<forall>n' \<in> set (f n). hhash n' = hhash n \<and> hkey n' = hkey n"
  shows "hashed (t\<lparr>htab := set_bucket t k (change_first p f (bucket t k)), nelems := m\<rparr>)"
proof -
  let ?t = "t\<lparr>htab := set_bucket t k (change_first p f (bucket t k)), nelems := m\<rparr>"
  let ?i = "unat (key_hash (pointerhashp t) k) mod hsize t"
  have l: "?i < length (htab t)" by (rule index_less [OF assms(1)])
  have e: "\<exists>n \<in> set (htab t ! i). hhash n = hhash x \<and> hkey n = hkey x"
    if "i < length (htab t)" "x \<in> set (htab ?t ! i)" for i x
  proof (cases "i = ?i")
    case True
    then have "x \<in> set (change_first p f (bucket t k))" using that l by (simp add: set_bucket_def)
    then have "x \<in> set (bucket t k) \<or> (\<exists>n \<in> set (bucket t k). x \<in> set (f n))"
      using change_first_set [of p f "bucket t k"] by blast
    then show ?thesis using assms(3) True by (auto simp: bucket_def)
  next
    case False
    then show ?thesis using that by (auto simp: set_bucket_def)
  qed
  have len: "length (htab ?t) = length (htab t)" by (simp add: set_bucket_def)
  have "bucket_of x mod length (htab ?t) = i" if a: "i < length (htab ?t)" "x \<in> set (htab ?t ! i)" for i x
  proof -
    obtain n where n: "n \<in> set (htab t ! i)" "hhash n = hhash x" using e a len by metis
    have "bucket_of n mod length (htab t) = i" using assms(2) n(1) a(1) len by (simp add: hashed_def placed_def)
    then show ?thesis using n(2) len by (simp add: bucket_of_def)
  qed
  moreover have "hhash x = key_hash (pointerhashp t) (hkey x)" if x: "x \<in> set (elements ?t)" for x
  proof -
    obtain b where "b \<in> set (htab ?t)" "x \<in> set b" using x by (auto simp: elements_def)
    then obtain i where i: "i < length (htab ?t)" "x \<in> set (htab ?t ! i)" by (metis in_set_conv_nth)
    then obtain n where n: "n \<in> set (htab t ! i)" "hhash n = hhash x" "hkey n = hkey x" using e len by metis
    have "n \<in> set (elements t)" unfolding elements_def by (rule bucket_concat [of i]) (use i len n in simp_all)
    then show ?thesis using assms(2) n by (auto simp: hashed_def)
  qed
  ultimately show ?thesis by (simp add: hashed_def placed_def)
qed

lemma contents_via_entry: "wf_table t \<Longrightarrow> contents t l = (if entry t l = {} then LNil else hval (the_elem (entry t l)))"
  by (rule entry_cases [of t l]) auto

text \<open>The effect of a change on the multiset of elements: one replaced, one removed, one added.\<close>

lemma replaced:
  assumes "keyed (same_key ptr) hkey (mset E)" "add_mset n (mset E') = add_mset n' (mset E)"
    "n \<in># mset E" "hkey n' = hkey n" "same_key ptr k (hkey n)"
  shows "keyed (same_key ptr) hkey (mset E')"
    "lookup (same_key ptr) hkey (mset E') l = (if same_key ptr l k then {n'} else lookup (same_key ptr) hkey (mset E) l)"
proof -
  obtain M where M: "mset E = add_mset n M" using assms(3) by (metis mset_add)
  have E': "mset E' = add_mset n' M" using assms(2) M by (simp add: add_mset_commute)
  note r = hk.keyed_remove [OF assms(1) [unfolded M]]
  show "keyed (same_key ptr) hkey (mset E')"
    unfolding E' by (rule hk.keyed_add) (use r assms(4) in simp_all)
  have "same_key ptr l k \<Longrightarrow> lookup (same_key ptr) hkey M l = {}"
    using hk.lookup_same [of ptr l "hkey n" M] r(2) assms(5) hk.same_trans by blast
  moreover have "same_key ptr l k \<longleftrightarrow> same_key ptr l (hkey n)" using assms(5) hk.same_trans hk.same_sym by blast
  ultimately show "lookup (same_key ptr) hkey (mset E') l =
      (if same_key ptr l k then {n'} else lookup (same_key ptr) hkey (mset E) l)"
    unfolding E' M hk.lookup_add assms(4) by auto
qed

lemma removed:
  assumes "keyed (same_key ptr) hkey (mset E)" "add_mset n (mset E') = mset E" "same_key ptr k (hkey n)"
  shows "keyed (same_key ptr) hkey (mset E')"
    "lookup (same_key ptr) hkey (mset E') l = (if same_key ptr l k then {} else lookup (same_key ptr) hkey (mset E) l)"
proof -
  note r = hk.keyed_remove [OF assms(1) [folded assms(2)]]
  show "keyed (same_key ptr) hkey (mset E')" by (rule r(1))
  have "same_key ptr l k \<Longrightarrow> lookup (same_key ptr) hkey (mset E') l = {}"
    using hk.lookup_same [of ptr l "hkey n"] r(2) assms(3) hk.same_trans by blast
  moreover have "same_key ptr l k \<longleftrightarrow> same_key ptr l (hkey n)" using assms(3) hk.same_trans hk.same_sym by blast
  ultimately show "lookup (same_key ptr) hkey (mset E') l =
      (if same_key ptr l k then {} else lookup (same_key ptr) hkey (mset E) l)"
    unfolding assms(2) [symmetric] hk.lookup_add by auto
qed

lemma search_key: "wf_table t \<Longrightarrow> \<not> rehashp t \<Longrightarrow> search t k = Some n \<Longrightarrow>
    n \<in># mset (elements t) \<and> same_key (pointerhashp t) k (hkey n)"
  using search_entry(1) [of t k n] by (auto simp: entry_def lookup_def)

text \<open>The two changes of a bucket keep the invariant; \<open>t'\<close> has the elements \<open>E'\<close>.\<close>

lemma changed_wf:
  assumes w: "wf_table t" "\<not> rehashp t" and s: "search t k = Some n"
    and f: "\<And>x. \<forall>n' \<in> set (f x). hhash n' = hhash x \<and> hkey n' = hkey x \<and> hval n' \<noteq> LNil"
    and k: "keyed (same_key (pointerhashp t)) hkey (mset (elements t'))"
    and t': "t' = t\<lparr>htab := set_bucket t k (change_first (matcher t k) f (bucket t k)), nelems := m\<rparr>"
    and m: "m = int (length (elements t'))"
  shows "wf_table t'"
proof -
  have h: "hashed t" using w by (simp add: wf_table_def)
  have "hashed t'" unfolding t' by (rule set_bucket_hashed [OF w(1) h]) (use f in blast)
  moreover have "hval x \<noteq> LNil" if "x \<in> set (elements t')" for x
  proof -
    have "x \<in># add_mset n (mset (elements t'))" using that by simp
    then have "x \<in># mset (f n) + mset (elements t)"
      using set_bucket_mset [OF w(1) s, of f] by (simp add: t' elements_def)
    then show ?thesis using f [of n] w(1) by (auto simp: wf_table_def)
  qed
  moreover have "hsize t' = hsize t" "length (htab t') = length (htab t)" "pointerhashp t' = pointerhashp t"
      "nelems t' = m" "rehashp t' = rehashp t"
    by (simp_all add: t' set_bucket_def)
  ultimately show ?thesis using w k unfolding m [symmetric] wf_table_def by simp
qed

lemma replace_ok:
  assumes w: "wf_table t" "\<not> rehashp t" and s: "search t k = Some n" and v: "v \<noteq> LNil"
    and t': "t' = t\<lparr>htab := set_bucket t k (change_first (matcher t k) (\<lambda>n. [n\<lparr>hval := v\<rparr>]) (bucket t k))\<rparr>"
  shows "wf_table t' \<and> \<not> rehashp t' \<and> contents t' l = (if same_key (pointerhashp t) l k then v else contents t l) \<and>
    balanced t [Lock v, Unlock (hval n)] t'"
proof -
  let ?n = "n\<lparr>hval := v\<rparr>"
  have M: "add_mset n (mset (elements t')) = add_mset ?n (mset (elements t))"
    using set_bucket_mset [OF w(1) s, of "\<lambda>n. [n\<lparr>hval := v\<rparr>]"] by (simp add: t' elements_def)
  have n: "n \<in># mset (elements t)" "same_key (pointerhashp t) k (hkey n)" using search_key [OF w s] by auto
  have k: "keyed (same_key (pointerhashp t)) hkey (mset (elements t))" using w(1) by (simp add: wf_table_def)
  note r = replaced [OF k M n(1) _ n(2)]
  have "size (add_mset n (mset (elements t'))) = size (add_mset ?n (mset (elements t)))" unfolding M ..
  then have len: "nelems t = int (length (elements t'))" using w(1) by (simp add: wf_table_def)
  have w': "wf_table t'"
    by (rule changed_wf [OF w s _ r(1) _ len]) (simp_all add: v t')
  have e: "entry t' l = (if same_key (pointerhashp t) l k then {?n} else entry t l)" for l
    using r(2) by (simp add: entry_def t')
  have kl: "keylockp t' = keylockp t" by (simp add: t')
  have "image_mset hkey (add_mset n (mset (elements t'))) = image_mset hkey (add_mset ?n (mset (elements t)))"
      "image_mset hval (add_mset n (mset (elements t'))) = image_mset hval (add_mset ?n (mset (elements t)))"
    by (simp_all only: M)
  then have "balanced t [Lock v, Unlock (hval n)] t'" unfolding balanced_def held_def kl by simp
  moreover have "\<not> rehashp t'" using w(2) by (simp add: t')
  ultimately show ?thesis
    using w' e [of l] contents_via_entry [OF w', of l] contents_via_entry [OF w(1), of l] by simp
qed

lemma remove_ok:
  assumes w: "wf_table t" "\<not> rehashp t" and s: "search t k = Some n"
    and t': "t' = t\<lparr>htab := set_bucket t k (change_first (matcher t k) (\<lambda>n. []) (bucket t k)), nelems := nelems t - 1\<rparr>"
  shows "wf_table t' \<and> \<not> rehashp t' \<and> contents t' l = (if same_key (pointerhashp t) l k then LNil else contents t l) \<and>
    balanced t ((if keylockp t then [Unlock (hkey n)] else []) @ [Unlock (hval n)]) t'"
proof -
  have M: "add_mset n (mset (elements t')) = mset (elements t)"
    using set_bucket_mset [OF w(1) s, of "\<lambda>n. []"] by (simp add: t' elements_def)
  have n: "same_key (pointerhashp t) k (hkey n)" using search_key [OF w s] by auto
  have k: "keyed (same_key (pointerhashp t)) hkey (mset (elements t))" using w(1) by (simp add: wf_table_def)
  note r = removed [OF k M n]
  have "size (add_mset n (mset (elements t'))) = size (mset (elements t))" unfolding M ..
  then have len: "nelems t - 1 = int (length (elements t'))" using w(1) by (simp add: wf_table_def)
  have w': "wf_table t'"
    by (rule changed_wf [OF w s _ r(1) t' len]) simp
  have e: "entry t' l = (if same_key (pointerhashp t) l k then {} else entry t l)" for l
    using r(2) by (simp add: entry_def t')
  have kl: "keylockp t' = keylockp t" by (simp add: t')
  have "balanced t ((if keylockp t then [Unlock (hkey n)] else []) @ [Unlock (hval n)]) t'"
    unfolding balanced_def held_def kl M [symmetric] by simp
  moreover have "\<not> rehashp t'" using w(2) by (simp add: t')
  ultimately show ?thesis
    using w' e [of l] contents_via_entry [OF w', of l] contents_via_entry [OF w(1), of l] by simp
qed

lemma insert_ok:
  assumes w: "wf_table t" "\<not> rehashp t" and s: "search t k = None" and v: "v \<noteq> LNil"
    and r: "insert_new mem t (key_hash (pointerhashp t) k) k v = Inr (t', e)"
  shows "wf_table t' \<and> \<not> rehashp t' \<and> contents t' l = (if same_key (pointerhashp t) l k then v else contents t l) \<and>
    balanced t e t'"
proof -
  let ?n = "\<lparr>hhash = key_hash (pointerhashp t) k, hkey = k, hval = v\<rparr>"
  obtain u where u: "make_room mem t = Inr u"
    and t': "t' = u\<lparr>htab := push bucket_of ?n (htab u), nelems := nelems u + 1\<rparr>"
    and e: "e = [if keylockp u then Lock k else AddFin k, Lock v]"
    using r by (auto simp: insert_new_def res_bind_Inr_iff)
  have wu: "wf_table u" "entry u = entry t" "rehashp u = rehashp t" "pointerhashp u = pointerhashp t" "keylockp u = keylockp t"
      "mset (elements u) = mset (elements t)"
    using make_room_wf [OF w(1) u] by auto
  have f: "hsize t' = hsize u" "pointerhashp t' = pointerhashp t" "rehashp t' = rehashp t" "keylockp t' = keylockp t"
      "nelems t' = nelems u + 1" "htab t' = push bucket_of ?n (htab u)"
    using wu by (simp_all add: t')
  have l: "length (htab u) = hsize u" "0 < length (htab u)" "nelems u = int (length (elements u))" "1 < hsize u"
      "hashed u" "\<forall>x \<in> set (elements u). hval x \<noteq> LNil"
    using wu(1,3) w(2) by (auto simp: wf_table_def)
  have M: "mset (elements t') = add_mset ?n (mset (elements u))"
    unfolding elements_def f by (rule mset_push [OF l(2)])
  then have len: "length (elements t') = Suc (length (elements u))" by (metis size_add_mset size_mset)
  have st: "set (elements t') = insert ?n (set (elements u))" using M by (metis set_mset_add_mset_insert set_mset_mset)
  have no: "lookup (same_key (pointerhashp t)) hkey (mset (elements u)) (hkey ?n) = {}"
    using search_entry(2) [OF w s] wu(2,6) by (simp add: entry_def)
  have "keyed (same_key (pointerhashp t)) hkey (mset (elements u))" using wu(1,4) by (simp add: wf_table_def)
  then have k: "keyed (same_key (pointerhashp t)) hkey (mset (elements t'))"
    unfolding M by (rule hk.keyed_add) (use no in simp)
  have "hashed t'"
    using l(5) st placed_push [of bucket_of "htab u" ?n] wu(4) unfolding hashed_def f by auto
  then have w': "wf_table t'"
    unfolding wf_table_def using f l len st k v w(2) by simp
  have en: "entry t' l = (if same_key (pointerhashp t) l k then {?n} else entry t l)"
  proof -
    have "entry t' l = (if same_key (pointerhashp t) l k then insert ?n (entry t l) else entry t l)"
      unfolding entry_def f M wu(6) hk.lookup_add by simp
    moreover have "same_key (pointerhashp t) l k \<Longrightarrow> entry t l = {}"
      using no wu(6) hk.lookup_same [of "pointerhashp t" l k "mset (elements t)"] by (simp add: entry_def)
    ultimately show ?thesis by simp
  qed
  have "balanced t e t'"
    unfolding balanced_def held_def f M wu(6) e wu(5) by simp
  then show ?thesis
    using w' w(2) f(3) en contents_via_entry [OF w', of l] contents_via_entry [OF w(1), of l] by simp
qed

text \<open>\<open>htable_set\<close> on a table that need not be rehashed.\<close>

lemma htable_set_ok:
  assumes w: "wf_table t" "\<not> rehashp t" and z: "\<not> zombie k" and r: "htable_set mem dies t k v = Inr (t', e)"
  shows "wf_table t' \<and> \<not> rehashp t' \<and> balanced t e t' \<and>
    contents t' l = (if same_key (pointerhashp t) l k then (if zombie v then LNil else v) else contents t l)"
proof -
  define v' where "v' = (if zombie v then LNil else v)"
  have v': "\<not> zombie v'" by (simp add: v'_def zombie_def)
  have r': "htable_set mem dies t k v' = Inr (t', e)" using r by (simp add: htable_set_def v'_def zombie_def)
  note b = r' [unfolded htable_set_branches [OF w(2) z v']]
  have "wf_table t' \<and> \<not> rehashp t' \<and> balanced t e t' \<and>
      contents t' l = (if same_key (pointerhashp t) l k then v' else contents t l)"
  proof (cases "search t k")
    case None
    show ?thesis
    proof (cases "v' = LNil")
      case True
      then have t': "t' = t" "e = []" using b None by simp_all
      have "same_key (pointerhashp t) l k \<Longrightarrow> entry t l = {}"
        using search_entry(2) [OF w None] hk.lookup_same [of "pointerhashp t" l k "mset (elements t)"] by (simp add: entry_def)
      then show ?thesis using w True contents_empty [OF w(1), of l] by (auto simp: t' balanced_def)
    next
      case False
      then show ?thesis using insert_ok [OF w None False] b None by simp
    qed
  next
    case (Some n)
    show ?thesis
    proof (cases "v' = LNil")
      case True
      then show ?thesis using remove_ok [OF w Some refl, of l] b Some by auto
    next
      case False
      then show ?thesis using replace_ok [OF w Some False refl, of l] b Some by auto
    qed
  qed
  then show ?thesis by (simp add: v'_def)
qed

lemma htable_get_ok:
  assumes w: "wf_table t" "\<not> rehashp t"
  shows "htable_get mem dies t k = Inr (contents t k, t, if contents t k = LNil then [] else [Lock (contents t k)])"
proof (cases "search t k")
  case None
  then show ?thesis using contents_empty [OF w(1) search_entry(2) [OF w None]]
    by (simp add: htable_get_def refresh_def w search_def bucket_def Let_def)
next
  case (Some n)
  have "contents t k = hval n" by (rule contents_entry [OF w(1) search_entry(1) [OF w Some]])
  moreover have "hval n \<noteq> LNil" using search_key [OF w Some] w(1) by (auto simp: wf_table_def)
  ultimately show ?thesis using Some
    by (simp add: htable_get_def refresh_def w search_def bucket_def Let_def)
qed

section \<open>Rehashing\<close>

lemma keyed_image: "(\<And>e. key' (g e) = key e) \<Longrightarrow> keyed same key' (image_mset g M) = keyed same key M"
proof -
  assume k: "\<And>e. key' (g e) = key e"
  have "image_mset g M - {#g e#} = image_mset g (M - {#e#})" if "e \<in># M" for e
    using that by (simp add: image_mset_Diff)
  then show ?thesis by (simp add: keyed_def k)
qed

definition kv :: "hashelt \<Rightarrow> lobj \<times> lobj" where
  "kv n = (hkey n, hval n)"

text \<open>The contents depend on the pairs of keys and values only.\<close>

lemma keyed_kv: "image_mset kv M = image_mset kv N \<Longrightarrow> keyed same hkey M = keyed same hkey N"
  by (metis keyed_image [of fst kv hkey same] fst_conv kv_def)

lemma contents_kv:
  assumes "wf_table t" "wf_table u" "pointerhashp u = pointerhashp t"
    and "image_mset kv (mset (elements u)) = image_mset kv (mset (elements t))"
  shows "contents u l = contents t l"
proof -
  have m: "\<exists>n' \<in># M'. kv n' = kv n" if "image_mset kv M' = image_mset kv M" "n \<in># M" for n M M'
    using that by (metis imageE image_eqI set_image_mset)
  have e: "\<exists>n' \<in> entry u' l. kv n' = kv n"
    if a: "n \<in> entry t' l" "image_mset kv (mset (elements u')) = image_mset kv (mset (elements t'))"
      "pointerhashp u' = pointerhashp t'" for n t' u'
  proof -
    obtain n' where "n' \<in># mset (elements u')" "kv n' = kv n"
      using m [OF a(2), of n] a(1) by (auto simp: entry_def lookup_def)
    then show ?thesis using a(1,3) by (auto simp: entry_def lookup_def kv_def)
  qed
  show ?thesis
  proof (rule entry_cases [OF assms(1), of l])
    assume n: "entry t l = {}" "contents t l = LNil"
    then have "entry u l = {}" using e [of _ u t] assms(3,4) by fastforce
    then show ?thesis using n contents_empty [OF assms(2)] by simp
  next
    fix n assume n: "entry t l = {n}" "contents t l = hval n"
    obtain n' where n': "n' \<in> entry u l" "kv n' = kv n" using e [of n t u] n assms(3,4) by auto
    have "entry u l = {n'}" by (rule entry_cases [OF assms(2), of l]) (use n'(1) in auto)
    then show ?thesis using n n'(2) contents_entry [OF assms(2)] by (simp add: kv_def)
  qed
qed

lemma finalize_none: "finalize_all [] t = (t, [])"
  by simp

lemma elements_filter: "elements (t\<lparr>htab := map (filter p) (htab t)\<rparr>) = filter p (elements t)"
  by (simp add: elements_def filter_concat)

lemma rehash_ok:
  assumes w: "wf_table t" and z: "\<forall>n \<in> set (elements t). \<not> stale n \<and> \<not> dies (hkey n)"
    and r: "htable_rehash mem dies t = Inr (t', e)"
  shows "wf_table t' \<and> \<not> rehashp t' \<and> (\<forall>l. contents t' l = contents t l) \<and> balanced t e t'"
proof -
  define u where "u = (if pointerhashp t \<and> keylockp t then t\<lparr>keylockp := False\<rparr> else t)"
  define e1 where "e1 = (if pointerhashp t \<and> keylockp t
    then map AddFin (map hkey (elements t)) @ map Unlock (rev (map hkey (elements t))) else [])"
  have f: "filter dies (rev (map hkey (elements t))) = []" using z by (auto simp: filter_empty_conv)
  have 1: "release_keys dies t = (u, e1)"
    unfolding release_keys_def Let_def f by (simp add: u_def e1_def)
  have eu: "elements u = elements t" "htab u = htab t" "hsize u = hsize t" "pointerhashp u = pointerhashp t" "nelems u = nelems t"
      "rehashp u = rehashp t"
    by (simp_all add: u_def elements_def)
  have ns: "filter stale (elements u) = []" using z by (auto simp: filter_empty_conv eu)
  have nb: "map (filter (\<lambda>n. \<not> stale n)) (htab u) = htab u"
    using z by (intro map_idI) (auto simp: eu elements_def intro!: filter_True)
  have 2: "zap_zombies u = (u, [])" unfolding zap_zombies_def ns nb by simp
  obtain v where v: "htable_resize mem (recompute u) (hsize u) = Inr v" "t' = v\<lparr>rehashp := False\<rparr>" "e = e1"
    using r 1 2 by (auto simp: htable_rehash_def res_bind_Inr_iff)
  have n: "1 < hsize t" using w by (simp add: wf_table_def)
  note rs = resize_ok [OF v(1)]
  have rs: "mset (elements v) = mset (elements (recompute u))" "length (htab v) = hsize t" "placed bucket_of (htab v)"
      "hsize v = hsize t" "pointerhashp v = pointerhashp t" "keylockp v = keylockp u" "nelems v = nelems t"
    using rs n eu by (simp_all add: recompute_def)
  let ?g = "\<lambda>n. n\<lparr>hhash := key_hash (pointerhashp t) (hkey n)\<rparr>"
  have M: "mset (elements t') = image_mset ?g (mset (elements t))"
    using rs(1) eu by (simp add: v(2) elements_def recompute_def map_concat [symmetric])
  have K: "image_mset kv (mset (elements t')) = image_mset kv (mset (elements t))"
    unfolding M by (simp add: multiset.map_comp comp_def kv_def [abs_def])
  have "set_mset (mset (elements t')) = set_mset (image_mset ?g (mset (elements t)))" unfolding M ..
  then have st: "set (elements t') = ?g ` set (elements t)" by simp
  have f: "hsize t' = hsize t" "pointerhashp t' = pointerhashp t" "keylockp t' = keylockp u" "nelems t' = nelems t"
      "\<not> rehashp t'" "htab t' = htab v"
    using rs by (simp_all add: v(2))
  have "size (mset (elements t')) = size (image_mset ?g (mset (elements t)))" unfolding M ..
  then have len: "length (elements t') = length (elements t)" by simp
  have k: "keyed (same_key (pointerhashp t)) hkey (mset (elements t'))"
    using keyed_kv [OF K] w by (simp add: wf_table_def)
  have "hashed t'" unfolding hashed_def f using rs(3) st by auto
  then have w': "wf_table t'" unfolding wf_table_def f using rs(2) n len k w st by (auto simp: wf_table_def)
  have "image_mset fst (image_mset kv (mset (elements t'))) = image_mset fst (image_mset kv (mset (elements t)))"
      "image_mset snd (image_mset kv (mset (elements t'))) = image_mset snd (image_mset kv (mset (elements t)))"
    by (simp_all only: K)
  then have kv: "image_mset hkey (mset (elements t')) = image_mset hkey (mset (elements t))"
      "image_mset hval (mset (elements t')) = image_mset hval (mset (elements t))"
    by (simp_all add: multiset.map_comp comp_def kv_def [abs_def])
  have s: "sum_list (map locks_of (map AddFin ks)) = {#}" "sum_list (map unlocks_of (map AddFin ks)) = {#}"
      "sum_list (map locks_of (map Unlock ks)) = {#}" "sum_list (map unlocks_of (map Unlock ks)) = mset ks" for ks
    by (induction ks) auto
  define ks where "ks = map hkey (elements t)"
  have ks: "image_mset hkey (mset (elements t)) = mset ks" by (simp add: ks_def)
  have "balanced t e t'"
    unfolding balanced_def held_def f kv v(3) e1_def u_def ks ks_def [symmetric] using s by simp
  then show ?thesis using w' f(5) contents_kv [OF w w' f(2) K] by blast
qed

end
