(* ===== verification/HtableProps.thy ===== *)
theory HtableProps
  imports HtableLaws
begin

text \<open>
  The properties of equality, hashing and hash tables.
\<close>

section \<open>Equality and hashing\<close>



text \<open>The two zeros of a double are equal but hash differently: a value stored under one of them is
  not found under the other one.\<close>

theorem zero_keys_differ:
  "eq_test (LNumber a 0) (LNumber b neg_zero) \<and> hash_value (LNumber a 0) \<noteq> hash_value (LNumber b neg_zero)"
  by (simp add: eq_test_cases num_eq_def num_key_def is_nan_def magnitude_def hash_value_def turn_def)

section \<open>The table as a map\<close>


lemma new_htable_wf: "new_htable mem n ptr = Inr t \<Longrightarrow> wf_table t \<and> \<not> rehashp t \<and> pointerhashp t = ptr \<and>
    elements t = [] \<and> htab t = replicate (hsize t) []"
  by (auto simp: new_htable_def wf_table_def hashed_def elements_def placed_def keyed_def Let_def split: if_splits)

definition fresh_table :: htable where
  "fresh_table = \<lparr>hsize = 31, nelems = 0, pointerhashp = False, keylockp = True, rehashp = False, htab = replicate 31 []\<rparr>"

lemma fresh_table_new: "new_htable (\<lambda>_. True) 0 False = Inr fresh_table"
  by (simp add: new_htable_def fresh_table_def)


text \<open>Inserting always ends: the table grows until it has room, whatever its size is, and an insertion
  fails only when the allocator refuses memory.\<close>

theorem insertion_ends:
  assumes "wf_table t" "\<not> rehashp t" "\<not> zombie k" "\<forall>n. mem n"
  shows "\<exists>t' e. htable_set mem dies t k v = Inr (t', e)"
proof -
  have z: "\<not> zombie (if zombie v then LNil else v)" by (simp add: zombie_def)
  have "htable_set mem dies t k v = htable_set mem dies t k (if zombie v then LNil else v)"
    by (simp add: htable_set_def zombie_def)
  moreover obtain u where "make_room mem t = Inr u" using make_room_total [OF assms(1), of mem] assms(4) by blast
  ultimately show ?thesis
    using htable_set_branches [OF assms(2,3) z, of mem dies]
    by (auto simp: insert_new_def split: option.split)
qed

theorem insertion_ends_witness:
  "\<exists>t' e. htable_set (\<lambda>_. True) (\<lambda>_. False) fresh_table LNil LNil = Inr (t', e)"
  by (rule insertion_ends) (use new_htable_wf [OF fresh_table_new] in \<open>simp_all add: zombie_def\<close>)

section \<open>Rehashing\<close>





section \<open>Comparing tables\<close>

lemma keyed_distinct: "keyed (same_key ptr) hkey (mset xs) \<Longrightarrow> distinct xs"
proof (induction xs)
  case (Cons x xs)
  then show ?case
    using hk.keyed_remove [of ptr x "mset xs"] hk.same_refl by (fastforce simp: lookup_def)
qed simp

lemma compare_elements_equal:
  "wf_table t \<Longrightarrow> \<not> rehashp t \<Longrightarrow> compare_elements mem dies ns t = Inr (0, t') \<Longrightarrow>
   \<forall>n \<in> set ns. contents t (hkey n) \<noteq> LNil \<and> eq_test (contents t (hkey n)) (hval n)"
  by (induction ns) (auto simp: htable_get_ok split: if_splits)

lemma xor_fold:
  fixes g :: "'a \<Rightarrow> 64 word"
  assumes "mset xs = mset ys"
  shows "fold (\<lambda>n x. x XOR g n) xs 0 = fold (\<lambda>n x. x XOR g n) ys 0"
proof -
  have "fold (\<lambda>n x. x XOR g n) xs = fold (\<lambda>n x. x XOR g n) ys"
    by (rule fold_multiset_equiv [OF _ assms]) (simp add: fun_eq_iff ac_simps)
  then show ?thesis by simp
qed

text \<open>Tables that \<open>htable_compare\<close> finds equal have the same hash code, so tables can be keys of
  tables: the hash does not depend on the order of the elements or the size of the array.\<close>

theorem equal_tables_hash:
  assumes w: "wf_table t1" "wf_table t2" "\<not> rehashp t2" "pointerhashp t1 = pointerhashp t2"
    and c: "htable_compare mem dies t1 t2 False = Inr (0, t')"
    and p: "\<forall>n \<in> set (elements t1 @ elements t2). plain (hkey n) \<and> plain (hval n)"
  shows "htable_hash t1 = htable_hash t2"
proof -
  let ?E = "elements t1" and ?F = "elements t2" and ?p = "pointerhashp t2"
  have n: "nelems t1 = nelems t2" and e: "\<forall>n \<in> set ?E. contents t2 (hkey n) \<noteq> LNil \<and> eq_test (contents t2 (hkey n)) (hval n)"
    using c compare_elements_equal [OF w(2,3), of mem dies ?E t'] by (auto simp: htable_compare_def split: if_splits)
  have k: "keyed (same_key ?p) hkey (mset ?E)" "keyed (same_key ?p) hkey (mset ?F)" "length ?E = length ?F"
    using w n by (simp_all add: wf_table_def)
  define f where "f n = the_elem (entry t2 (hkey n))" for n :: hashelt
  have f: "f n \<in> set ?F" "same_key ?p (hkey n) (hkey (f n))" "eq_test (hval (f n)) (hval n)" if a: "n \<in> set ?E" for n
  proof -
    obtain m where m: "entry t2 (hkey n) = {m}" "contents t2 (hkey n) = hval m"
      using entry_cases [OF w(2), of "hkey n"] e a by metis
    have "m \<in> entry t2 (hkey n)" using m by simp
    then show "f n \<in> set ?F" "same_key ?p (hkey n) (hkey (f n))" "eq_test (hval (f n)) (hval n)"
      using m e a by (auto simp: f_def entry_def lookup_def)
  qed
  have inj: "inj_on f (set ?E)"
  proof (rule inj_onI, rule ccontr)
    fix a b assume ab: "a \<in> set ?E" "b \<in> set ?E" "f a = f b" "a \<noteq> b"
    have "same_key ?p (hkey a) (hkey b)"
      using f(2) [OF ab(1)] f(2) [OF ab(2)] ab(3) hk.same_sym hk.same_trans by metis
    moreover have "b \<in># mset ?E - {#a#}" using ab by (simp add: in_diff_count)
    ultimately show False using k(1) ab(1) by (auto simp: keyed_def)
  qed
  have d: "distinct ?E" "distinct ?F" using k by (auto intro: keyed_distinct)
  have "f ` set ?E = set ?F"
    by (rule card_subset_eq) (use f inj d k(3) in \<open>auto simp: card_image distinct_card\<close>)
  then have m: "mset (map f ?E) = mset ?F"
    using d inj set_eq_iff_mset_eq_distinct [of "map f ?E" ?F] by (simp add: distinct_map)
  have g: "push_bit 6 (hash_value (hkey (f n))) XOR hash_value (hval (f n)) =
      push_bit 6 (hash_value (hkey n)) XOR hash_value (hval n)" if "n \<in> set ?E" for n
  proof -
    have "hash_value (hkey (f n)) = hash_value (hkey n)" using f(2) [OF that] by (auto simp: same_key_def)
    moreover have "hash_value (hval (f n)) = hash_value (hval n)"
      unfolding hash_value_def by (rule alike_hash [OF eq_test_alike [OF f(3) [OF that]]]) (use p f(1) [OF that] that in auto)
    ultimately show ?thesis by simp
  qed
  have "htable_hash t1 = fold (\<lambda>n x. x XOR (push_bit 6 (hash_value (hkey (f n))) XOR hash_value (hval (f n)))) ?E 0"
    unfolding htable_hash_def by (rule fold_cong) (use g in auto)
  also have "\<dots> = fold (\<lambda>n x. x XOR (push_bit 6 (hash_value (hkey n)) XOR hash_value (hval n))) (map f ?E) 0"
    by (simp add: fold_map comp_def)
  also have "\<dots> = htable_hash t2" unfolding htable_hash_def by (rule xor_fold [OF m])
  finally show ?thesis .
qed

theorem equal_tables_hash_witness: "htable_hash fresh_table = htable_hash (fresh_table\<lparr>hsize := 61, htab := replicate 61 []\<rparr>)"
  by (rule equal_tables_hash [of _ _ "\<lambda>_. True" "\<lambda>_. False" "fresh_table\<lparr>hsize := 61, htab := replicate 61 []\<rparr>"])
    (simp_all add: fresh_table_def wf_table_def hashed_def elements_def placed_def keyed_def htable_compare_def)

end
