(* ===== verification/Symbols.thy ===== *)
theory Symbols
  imports Cells
begin

unbundle bit_operations_syntax

text \<open>
  Symbols (\<open>src/src/symbol.c\<close>): the table of names, the stack of frames of each symbol, and the
  functions that read and set values. A symbol is a cell \<open>Extern (XSymbol frames)\<close>, the top frame
  first; the table \<open>names\<close> maps a name to the cell, and holds one reference to it.

  \<open>fr_bound\<close> of a frame says that \<open>valueptr\<close> is set; it then points to the value of the same frame.
  The warning that \<open>setq\<close> prints is left out, and so is its form \<open>:object:slot\<close>, which calls the
  evaluator.
\<close>

section \<open>The table of names\<close>

record hash_name =
  hn_name :: string
  hn_hash :: "64 word"
  hn_named :: ptr

type_synonym names = "hash_name list list"

definition HASHTABLESIZE :: nat where
  "HASHTABLESIZE = 1024"

definition name_hash :: "string \<Rightarrow> 64 word" where
  "name_hash s = fold (\<lambda>c h. (push_bit 6 h OR drop_bit (64 - 6) h) XOR of_char c) s 0"

definition name_slot :: "string \<Rightarrow> nat" where
  "name_slot s = unat (name_hash s) mod (HASHTABLESIZE - 1)"

definition find_name :: "names \<Rightarrow> string \<Rightarrow> hash_name option" where
  "find_name ns s = List.find (\<lambda>hn. hn_name hn = s) (ns ! name_slot s)"

text \<open>\<open>search_by_name\<close> in mode 1 (a missing name is added at the end of its list) and in mode -1.\<close>

definition add_name :: "names \<Rightarrow> string \<Rightarrow> names" where
  "add_name ns s = (if find_name ns s \<noteq> None then ns
     else ns[name_slot s := ns ! name_slot s @ [\<lparr>hn_name = s, hn_hash = name_hash s, hn_named = None\<rparr>]])"

fun remove_first :: "('a \<Rightarrow> bool) \<Rightarrow> 'a list \<Rightarrow> 'a list" where
  "remove_first p [] = []"
| "remove_first p (x # xs) = (if p x then xs else x # remove_first p xs)"

definition delete_name :: "string \<Rightarrow> names \<times> lheap \<Rightarrow> (names \<times> lheap) res" where
  "delete_name s = (\<lambda>(ns, h). case find_name ns s of
       None \<Rightarrow> Inr (ns, h)
     | Some hn \<Rightarrow> res_bind (UNLOCK (hn_named hn) h) (\<lambda>h.
         Inr (ns[name_slot s := remove_first (\<lambda>hn. hn_name hn = s) (ns ! name_slot s)], h)))"

definition kill_name :: "hash_name \<Rightarrow> names \<times> lheap \<Rightarrow> (names \<times> lheap) res" where
  "kill_name hn = (\<lambda>(ns, h). case hn_named hn of
       None \<Rightarrow> Inl (Undef ''name without a symbol'')
     | Some a \<Rightarrow> if count (cell h a) = 1 then delete_name (hn_name hn) (ns, h) else Inr (ns, h))"

text \<open>\<open>hn->named = p\<close>\<close>

fun set_named :: "string \<Rightarrow> ptr \<Rightarrow> hash_name list \<Rightarrow> hash_name list" where
  "set_named s p [] = []"
| "set_named s p (hn # hns) = (if hn_name hn = s then hn\<lparr>hn_named := p\<rparr> # hns else hn # set_named s p hns)"

definition new_frame :: frame where
  "new_frame = \<lparr>fr_mode = 1, fr_nopurge = False, fr_value = None, fr_bound = False\<rparr>"

definition new_symbol :: "string \<Rightarrow> names \<times> lheap \<Rightarrow> (ptr \<times> names \<times> lheap) res" where
  "new_symbol s = (\<lambda>(ns, h).
     if take 2 s = ''::'' then Inl (Lush ''belongs to a reserved package... '')
     else let ns = add_name ns s in
       case find_name ns s of
         None \<Rightarrow> Inl (Undef ''name table'')
       | Some hn \<Rightarrow> (case hn_named hn of
           Some a \<Rightarrow> res_bind (LOCK (Some a) h) (\<lambda>h. Inr (Some a, ns, h))
         | None \<Rightarrow> res_bind (new_extern (XSymbol [new_frame]) h) (\<lambda>(p, h).
             res_bind (LOCK p h) (\<lambda>h.
               Inr (p, ns[name_slot s := set_named s p (ns ! name_slot s)], h)))))"

definition named :: "string \<Rightarrow> names \<times> lheap \<Rightarrow> (ptr \<times> names \<times> lheap) res" where
  "named s = new_symbol s"

text \<open>The names in use, in the order \<open>iter_hash_name\<close> visits them, and the name of a symbol.\<close>

definition all_names :: "names \<Rightarrow> hash_name list" where
  "all_names ns = concat ns"

definition nameof :: "ptr \<Rightarrow> names \<Rightarrow> string option" where
  "nameof p ns = map_option hn_name (List.find (\<lambda>hn. hn_named hn = p \<and> p \<noteq> None) (all_names ns))"

text \<open>\<open>symblist\<close>: the names sorted by \<open>strcmp\<close>; \<open>less\<close> says that \<open>strcmp\<close> is negative.\<close>

fun name_less :: "string \<Rightarrow> string \<Rightarrow> bool" where
  "name_less s [] = False"
| "name_less [] (d # t) = True"
| "name_less (c # s) (d # t) = ((of_char c :: nat) < of_char d \<or> c = d \<and> name_less s t)"

fun insert_name :: "string \<Rightarrow> string list \<Rightarrow> string list" where
  "insert_name s [] = [s]"
| "insert_name s (t # ts) = (if name_less t s then t # insert_name s ts else s # t # ts)"

definition symblist :: "names \<Rightarrow> string list" where
  "symblist ns = fold (\<lambda>hn. insert_name (hn_name hn)) (all_names ns) []"

section \<open>Canonical names\<close>

definition isspace :: "char \<Rightarrow> bool" where
  "isspace c \<longleftrightarrow> (of_char c :: nat) \<in> {9, 10, 11, 12, 13, 32}"

definition tolower :: "char \<Rightarrow> char" where
  "tolower c = (if 65 \<le> (of_char c :: nat) \<and> (of_char c :: nat) \<le> 90 then char_of (of_char c + 32 :: nat) else c)"

text \<open>Trailing spaces go, but never the first character.\<close>

definition strip_right :: "string \<Rightarrow> string" where
  "strip_right s = (case s of [] \<Rightarrow> [] | c # t \<Rightarrow> c # rev (dropWhile isspace (rev t)))"

definition clean_char :: "char \<Rightarrow> char" where
  "clean_char c = (if c = CHR ''_'' then CHR ''-'' else tolower c)"

definition clean_name :: "string \<Rightarrow> string" where
  "clean_name s = (case dropWhile isspace s of
       [] \<Rightarrow> []
     | c # t \<Rightarrow> if c = CHR ''|''
         then if t \<noteq> [] \<and> last t = CHR ''|'' then butlast t else t
         else strip_right (tolower c # map clean_char t))"

definition namedclean :: "string \<Rightarrow> names \<times> lheap \<Rightarrow> (ptr \<times> names \<times> lheap) res" where
  "namedclean s = new_symbol (clean_name s)"

section \<open>Values\<close>

definition frames :: "lheap \<Rightarrow> ptr \<Rightarrow> frame list option" where
  "frames h p = (case objof h p of Extern (XSymbol fs) \<Rightarrow> Some fs | _ \<Rightarrow> None)"

definition SYMBOL_LOCKED :: int where
  "SYMBOL_LOCKED = 2"

definition SYMBOL_UNLOCKED :: int where
  "SYMBOL_UNLOCKED = 1"

definition set_frames :: "nat \<Rightarrow> frame list \<Rightarrow> lheap \<Rightarrow> lheap" where
  "set_frames a fs h = set_obj a (Extern (XSymbol fs)) h"

text \<open>
  The assignment all setters end with: the new value is locked, stored in frame \<open>i\<close>, and the old one
  is released.
\<close>

definition assign :: "nat \<Rightarrow> nat \<Rightarrow> ptr \<Rightarrow> frame list \<Rightarrow> lheap \<Rightarrow> lheap res" where
  "assign a i q fs h = (let old = (if fr_bound (fs ! i) then fr_value (fs ! i) else None);
      f = (fs ! i)\<lparr>fr_bound := True, fr_value := q\<rparr> in
     res_bind (LOCK q h) (\<lambda>h. UNLOCK old (set_frames a (fs[i := f]) h)))"

definition var_set :: "nat \<Rightarrow> ptr \<Rightarrow> lheap \<Rightarrow> lheap res" where
  "var_set a q h = (case frames h (Some a) of
       Some (f # fs) \<Rightarrow> if fr_mode f = SYMBOL_LOCKED then Inl (Lush ''locked symbol'')
         else assign a 0 q (f # fs) h
     | _ \<Rightarrow> Inl (Undef ''not a symbol''))"

definition var_SET :: "nat \<Rightarrow> ptr \<Rightarrow> lheap \<Rightarrow> lheap res" where
  "var_SET a q h = (case frames h (Some a) of
       Some (f # fs) \<Rightarrow> assign a 0 q (f # fs) h | _ \<Rightarrow> Inl (Undef ''not a symbol''))"

definition var_get :: "nat \<Rightarrow> lheap \<Rightarrow> (ptr \<times> lheap) res" where
  "var_get a h = (case frames h (Some a) of
       Some (f # fs) \<Rightarrow> let f' = (if fr_bound f then f else f\<lparr>fr_bound := True, fr_value := None\<rparr>) in
         return_locked (fr_value f') (set_frames a (f' # fs) h)
     | _ \<Rightarrow> Inl (Undef ''not a symbol''))"

definition var_lock :: "nat \<Rightarrow> lheap \<Rightarrow> lheap res" where
  "var_lock a h = (case frames h (Some a) of
       Some (f # fs) \<Rightarrow> Inr (set_frames a (f\<lparr>fr_mode := SYMBOL_LOCKED\<rparr> # fs) h)
     | _ \<Rightarrow> Inl (Undef ''not a symbol''))"

definition var_define :: "string \<Rightarrow> names \<times> lheap \<Rightarrow> (ptr \<times> names \<times> lheap) res" where
  "var_define s st = res_bind (named s st) (\<lambda>(p, ns, h). case frames h p of
       Some (f # fs) \<Rightarrow> res_bind (UNLOCK p (set_frames (the p) (f\<lparr>fr_nopurge := True, fr_bound := True\<rparr> # fs) h))
         (\<lambda>h. Inr (p, ns, h))
     | _ \<Rightarrow> Inl (Undef ''not a symbol''))"

text \<open>\<open>setq\<close>: a symbol, or the global value of one in the form \<open>:symbol\<close>; \<open>scp\<close> is the symbol \<open>scope\<close>.
  The returned object is not locked.\<close>

definition setq :: "ptr \<Rightarrow> ptr \<Rightarrow> ptr \<Rightarrow> lheap \<Rightarrow> (ptr \<times> lheap) res" where
  "setq scp p q h = (case frames h p of
       Some fs \<Rightarrow> res_bind (var_set (the p) q h) (\<lambda>h. Inr (q, h))
     | None \<Rightarrow> if CONSP h p
         then if carof h p \<noteq> scp \<or> \<not> CONSP h (cdrof h p) then Inl (Lush ''illegal scope syntax'')
           else let p = cdrof h p in
             if cdrof h p = None
             then (case frames h (carof h p) of
                 None \<Rightarrow> Inl (Lush ''illegal global scope specification'')
               | Some fs \<Rightarrow> if fs = [] then Inl (Undef ''not a symbol'')
                   else if fr_mode (last fs) = SYMBOL_LOCKED then Inl (Lush ''locked global variable'')
                   else res_bind (assign (the (carof h p)) (length fs - 1) q fs h) (\<lambda>h. Inr (q, h)))
             else Inl (Lush ''slot assignment'')
         else Inl (Lush ''neither a symbol nor an explicit scope specification''))"

definition symbol_push :: "nat \<Rightarrow> ptr \<Rightarrow> lheap \<Rightarrow> lheap res" where
  "symbol_push a q h = (case frames h (Some a) of
       Some fs \<Rightarrow> res_bind (LOCK q h) (\<lambda>h. Inr (set_frames a
         (\<lparr>fr_mode = SYMBOL_UNLOCKED, fr_nopurge = False, fr_value = q, fr_bound = True\<rparr> # fs) h))
     | None \<Rightarrow> Inl (Undef ''not a symbol''))"

definition symbol_pop :: "nat \<Rightarrow> lheap \<Rightarrow> lheap res" where
  "symbol_pop a h = (case frames h (Some a) of
       Some (f # g # fs) \<Rightarrow> UNLOCK (fr_value f) (set_frames a (g # fs) h)
     | Some [f] \<Rightarrow> Inr h
     | _ \<Rightarrow> Inl (Undef ''not a symbol''))"

text \<open>\<open>symbol_eval\<close>: a value that was deleted (a zombie) is forgotten.\<close>

definition symbol_eval :: "nat \<Rightarrow> lheap \<Rightarrow> (ptr \<times> lheap) res" where
  "symbol_eval a h = (case frames h (Some a) of
       Some (f # fs) \<Rightarrow> let q = (if fr_bound f then fr_value f else None) in
         if objof h q = Zombie
         then res_bind (UNLOCK q h) (\<lambda>h. Inr (None, set_frames a (f\<lparr>fr_value := None\<rparr> # fs) h))
         else return_locked q h
     | _ \<Rightarrow> Inl (Undef ''not a symbol''))"

definition globally_bound :: "nat \<Rightarrow> lheap \<Rightarrow> bool res" where
  "globally_bound a h = (case frames h (Some a) of
       Some fs \<Rightarrow> if fs = [] then Inl (Undef ''not a symbol'') else Inr (fr_bound (last fs))
     | None \<Rightarrow> Inl (Lush ''not a symbol''))"

definition set_modes :: "int \<Rightarrow> nat list \<Rightarrow> lheap \<Rightarrow> lheap" where
  "set_modes m as h = fold (\<lambda>a h. case frames h (Some a) of
     Some (f # fs) \<Rightarrow> set_frames a (f\<lparr>fr_mode := m\<rparr> # fs) h | _ \<Rightarrow> h) as h"

end
