(* ===== verification/SymbolLaws.thy ===== *)
theory SymbolLaws
  imports Symbols
begin

text \<open>
  The laws of the name table and of the setters: the table is a map from names to symbols, and
  reference counts stay exact under every change of a frame.
\<close>

section \<open>The table as a map\<close>

definition wf_names :: "names \<Rightarrow> bool" where
  "wf_names ns \<longleftrightarrow> length ns = HASHTABLESIZE \<and>
     (\<forall>i < length ns. distinct (map hn_name (ns ! i)) \<and> (\<forall>hn \<in> set (ns ! i). name_slot (hn_name hn) = i))"

definition symbol_of :: "names \<Rightarrow> string \<Rightarrow> ptr" where
  "symbol_of ns s = (case find_name ns s of None \<Rightarrow> None | Some hn \<Rightarrow> hn_named hn)"

text \<open>The references of the table.\<close>

definition table_refs :: "names \<Rightarrow> nat multiset" where
  "table_refs ns = refs (map hn_named (all_names ns))"

lemma name_slot_less: "wf_names ns \<Longrightarrow> name_slot s < length ns"
  by (simp add: wf_names_def name_slot_def HASHTABLESIZE_def)

lemma find_append: "List.find p (xs @ ys) = (case List.find p xs of None \<Rightarrow> List.find p ys | Some x \<Rightarrow> Some x)"
  by (induction xs) auto

lemma find_add_name:
  assumes "wf_names ns"
  shows "find_name (add_name ns s) t = (if t = s \<and> find_name ns s = None
    then Some \<lparr>hn_name = s, hn_hash = name_hash s, hn_named = None\<rparr> else find_name ns t)"
  using name_slot_less [OF assms, of s]
  by (cases "name_slot t = name_slot s")
    (auto simp: add_name_def find_name_def find_append split: option.splits)

lemma wf_add_name:
  assumes w: "wf_names ns"
  shows "wf_names (add_name ns s)"
proof (cases "find_name ns s = None")
  case True
  then have "s \<notin> hn_name ` set (ns ! name_slot s)" by (auto simp: find_name_def find_None_iff)
  then have "distinct (map hn_name (add_name ns s ! i)) \<and> (\<forall>hn \<in> set (add_name ns s ! i). name_slot (hn_name hn) = i)"
    if "i < length ns" for i
    using w that True by (cases "i = name_slot s") (auto simp: wf_names_def add_name_def)
  then show ?thesis using w True by (simp add: wf_names_def add_name_def)
qed (use w in \<open>simp add: add_name_def\<close>)

lemma find_set_named:
  "List.find (\<lambda>hn. hn_name hn = t) (set_named s p b) = (case List.find (\<lambda>hn. hn_name hn = t) b of
     None \<Rightarrow> None | Some hn \<Rightarrow> Some (if t = s then hn\<lparr>hn_named := p\<rparr> else hn))"
  by (induction b) (auto split: option.split)

lemma set_named_names [simp]: "map hn_name (set_named s p b) = map hn_name b"
  by (induction b) auto

lemma set_named_slot: "\<forall>hn \<in> set b. name_slot (hn_name hn) = i \<Longrightarrow> \<forall>hn \<in> set (set_named s p b). name_slot (hn_name hn) = i"
  by (induction b) auto

definition bind_name :: "names \<Rightarrow> string \<Rightarrow> ptr \<Rightarrow> names" where
  "bind_name ns s p = ns[name_slot s := set_named s p (ns ! name_slot s)]"

lemma wf_bind_name: "wf_names ns \<Longrightarrow> wf_names (bind_name ns s p)"
proof -
  assume w: "wf_names ns"
  have "distinct (map hn_name (bind_name ns s p ! i)) \<and> (\<forall>hn \<in> set (bind_name ns s p ! i). name_slot (hn_name hn) = i)"
    if "i < length ns" for i
    using w that set_named_slot [of "ns ! i" i s p]
    by (cases "i = name_slot s") (auto simp: wf_names_def bind_name_def)
  then show ?thesis using w by (simp add: wf_names_def bind_name_def)
qed

lemma symbol_of_bind:
  assumes "wf_names ns" "find_name ns s \<noteq> None"
  shows "symbol_of (bind_name ns s p) t = (if t = s then p else symbol_of ns t)"
  using assms name_slot_less [OF assms(1), of s]
  by (cases "name_slot t = name_slot s")
    (auto simp: symbol_of_def find_name_def bind_name_def find_set_named split: option.splits)

lemma symbol_of_add: "wf_names ns \<Longrightarrow> symbol_of (add_name ns s) t = symbol_of ns t"
  by (auto simp: symbol_of_def find_add_name)

lemma find_add_some: "wf_names ns \<Longrightarrow> \<exists>hn. find_name (add_name ns s) s = Some hn \<and> hn_named hn = symbol_of ns s"
  by (auto simp: find_add_name symbol_of_def split: option.splits)

section \<open>The references of the table\<close>

lemma refs_append [simp]: "refs (xs @ ys) = refs xs + refs ys"
  by (simp add: refs_def)

lemma refs_concat: "refs (concat xss) = sum_list (map refs xss)"
  by (induction xss) auto

lemma table_refs_update:
  assumes "i < length ns"
  shows "table_refs (ns[i := b]) + refs (map hn_named (ns ! i)) = table_refs ns + refs (map hn_named b)"
  using assms
proof (induction ns arbitrary: i)
  case (Cons c ns)
  then show ?case
  proof (cases i)
    case (Suc j)
    then have "table_refs (ns[j := b]) + refs (map hn_named (ns ! j)) = table_refs ns + refs (map hn_named b)"
      using Cons by simp
    then show ?thesis using Suc by (simp add: table_refs_def all_names_def ac_simps)
  qed (simp add: table_refs_def all_names_def ac_simps)
qed simp

lemma table_refs_add: "wf_names ns \<Longrightarrow> table_refs (add_name ns s) = table_refs ns"
  using table_refs_update [OF name_slot_less, of ns s
    "ns ! name_slot s @ [\<lparr>hn_name = s, hn_hash = name_hash s, hn_named = None\<rparr>]"] by (auto simp: add_name_def)

lemma refs_set_named: "List.find (\<lambda>hn. hn_name hn = s) b = Some hn \<Longrightarrow> hn_named hn = None \<Longrightarrow>
    refs (map hn_named (set_named s p b)) = refs (map hn_named b) + ref p"
  by (induction b) (auto split: if_splits simp: ac_simps)

lemma table_refs_bind:
  assumes "wf_names ns" "find_name ns s = Some hn" "hn_named hn = None"
  shows "table_refs (bind_name ns s p) = table_refs ns + ref p"
  using table_refs_update [OF name_slot_less [OF assms(1)], of s "set_named s p (ns ! name_slot s)"]
    refs_set_named [of s "ns ! name_slot s" hn p] assms(2,3)
  by (simp add: bind_name_def find_name_def ac_simps)

lemma table_ref_in: "wf_names ns \<Longrightarrow> symbol_of ns s = Some a \<Longrightarrow> \<exists>T. table_refs ns = T + ref (Some a)"
proof -
  assume w: "wf_names ns" and a: "symbol_of ns s = Some a"
  obtain hn where hn: "List.find (\<lambda>hn. hn_name hn = s) (ns ! name_slot s) = Some hn" "hn_named hn = Some a"
    using a by (auto simp: symbol_of_def find_name_def split: option.splits)
  have "hn \<in> set (ns ! name_slot s)" using hn(1) by (auto simp: find_Some_iff)
  then have "hn \<in> set (all_names ns)" using name_slot_less [OF w] by (auto simp: all_names_def)
  then obtain xs ys where "all_names ns = xs @ hn # ys" by (metis split_list)
  then have "table_refs ns = (refs (map hn_named xs) + refs (map hn_named ys)) + ref (Some a)"
    by (simp add: table_refs_def hn(2))
  then show ?thesis by blast
qed

section \<open>Interning\<close>

lemma new_symbol_ok:
  assumes w: "wf_names ns" and inv: "rc_inv {} (R + table_refs ns) h" and av: "0 < avail h" and b: "\<not> bump_active h"
    and s: "take 2 s \<noteq> ''::''"
  shows "\<exists>a ns' h'. new_symbol s (ns, h) = Inr (Some a, ns', h') \<and> wf_names ns' \<and>
    rc_inv {} (R + table_refs ns' + ref (Some a)) h' \<and> extends h h' \<and> \<not> bump_active h' \<and>
    (\<forall>t. symbol_of ns' t = (if t = s then Some a else symbol_of ns t)) \<and>
    (case symbol_of ns s of Some a' \<Rightarrow> a = a' | None \<Rightarrow> obj (cell h a) = Free \<and> obj (cell h' a) = Extern (XSymbol [new_frame]))"
proof -
  let ?n = "add_name ns s"
  have wn: "wf_names ?n" by (rule wf_add_name [OF w])
  obtain hn where hn: "find_name ?n s = Some hn" "hn_named hn = symbol_of ns s" using find_add_some [OF w] by blast
  show ?thesis
  proof (cases "symbol_of ns s")
    case (Some a)
    obtain T where T: "table_refs ns = T + ref (Some a)" using table_ref_in [OF w Some] by blast
    have "alive h (Some a)" by (rule alive_held [of "{}" "R + T"]) (use inv T in \<open>simp add: ac_simps\<close>)
    from LOCK_ok [OF inv this] obtain h' where h': "LOCK (Some a) h = Inr h'"
        "rc_inv {} (R + table_refs ns + ref (Some a)) h'" "locks h h'" by metis
    have "\<not> bump_active h'" using h'(3) b by (auto simp: locks_def)
    then show ?thesis
      using s hn Some h' wn table_refs_add [OF w] locks_extends [OF h'(3)] symbol_of_add [OF w]
      by (simp add: new_symbol_def Let_def)
  next
    case None
    have "rc_inv {} (R + table_refs ns + orefs (Extern (XSymbol [new_frame]))) h"
      using inv by (simp add: new_frame_def)
    from new_cell_ok [OF this av] obtain n h1 where n: "allocate h = Inr (n, h1)"
      "rc_inv {} (add_mset n (R + table_refs ns)) (init_cell n (Extern (XSymbol [new_frame])) h1)"
      "fresh h (init_cell n (Extern (XSymbol [new_frame])) h1) n (Extern (XSymbol [new_frame]))" by auto
    let ?h = "init_cell n (Extern (XSymbol [new_frame])) h1"
    have i: "rc_inv {} (R + table_refs ns + ref (Some n)) ?h" using n(2) by simp
    obtain h' where h': "LOCK (Some n) ?h = Inr h'" "rc_inv {} (R + table_refs ns + ref (Some n) + ref (Some n)) h'" "locks ?h h'"
      by (rule LOCK_ok [OF i alive_held [OF i]])
    have ne: "new_extern (XSymbol [new_frame]) h = Inr (Some n, ?h)"
      using n b by (simp add: new_extern_def fresh_def)
    have t: "table_refs (bind_name ?n s (Some n)) = table_refs ns + ref (Some n)"
      using table_refs_bind [OF wn hn(1)] hn(2) None table_refs_add [OF w] by simp
    have r: "new_symbol s (ns, h) = Inr (Some n, bind_name ?n s (Some n), h')"
      using s hn None ne h'(1) by (simp add: new_symbol_def bind_name_def Let_def)
    have f: "obj (cell h n) = Free" "extends h ?h" "obj (cell ?h n) = Extern (XSymbol [new_frame])" "\<not> bump_active ?h"
      using n(3) b by (simp_all add: fresh_def)
    have g: "extends h h'" "obj (cell h' n) = Extern (XSymbol [new_frame])" "\<not> bump_active h'"
      using extends_trans [OF f(2) locks_extends [OF h'(3)]] h'(3) f(3,4) by (auto simp: locks_def)
    have "symbol_of (bind_name ?n s (Some n)) u = (if u = s then Some n else symbol_of ns u)" for u
      using symbol_of_bind [OF wn] hn(1) symbol_of_add [OF w] by simp
    moreover have "rc_inv {} (R + table_refs (bind_name ?n s (Some n)) + ref (Some n)) h'"
      using h'(2) unfolding t by (simp add: ac_simps)
    ultimately show ?thesis using r wf_bind_name [OF wn] g f(1) None by fastforce
  qed
qed

section \<open>Changing a frame\<close>

lemma frames_cell: "frames h (Some a) = Some fs \<longleftrightarrow> obj (cell h a) = Extern (XSymbol fs)"
  by (auto simp: frames_def objof_def split: obj.splits xobj.splits)

lemma refs_update: "i < length ps \<Longrightarrow> refs (ps[i := p]) + ref (ps ! i) = refs ps + ref p"
proof (induction ps arbitrary: i)
  case (Cons r ps)
  then show ?case by (cases i) (auto simp: ac_simps)
qed simp

text \<open>A change of the frames of a symbol that the code holds, followed by the release of a reference.\<close>

lemma release_tail:
  assumes inv: "rc_inv {} (R + ref (Some a) + ref p) h1" and fr: "\<And>b. b \<noteq> a \<Longrightarrow> obj (cell h1 b) = obj (cell h b)"
  shows "\<exists>h2. UNLOCK p h1 = Inr h2 \<and> rc_inv {} (R + ref (Some a)) h2 \<and> updated h h2 a (obj (cell h1 a))"
proof -
  obtain h2 where h2: "UNLOCK p h1 = Inr h2" "rc_inv {} (R + ref (Some a)) h2" "frees h1 h2"
    by (rule UNLOCK_ok [OF inv])
  have "obj (cell h2 a) = obj (cell h1 a)" using held_obj [OF h2(2)] frees_keeps [OF h2(3)] by blast
  then show ?thesis using h2 fr unfolding updated_def frees_def by metis
qed

lemma assign_ok:
  assumes inv: "rc_inv {} (R + ref (Some a)) h" and fs: "frames h (Some a) = Some fs" and i: "i < length fs"
    and u: "\<not> fr_bound (fs ! i) \<Longrightarrow> fr_value (fs ! i) = None" and q: "alive h q"
  shows "\<exists>h'. assign a i q fs h = Inr h' \<and> rc_inv {} (R + ref (Some a)) h' \<and>
    updated h h' a (Extern (XSymbol (fs[i := (fs ! i)\<lparr>fr_bound := True, fr_value := q\<rparr>])))"
proof -
  let ?f = "(fs ! i)\<lparr>fr_bound := True, fr_value := q\<rparr>"
  let ?old = "if fr_bound (fs ! i) then fr_value (fs ! i) else None"
  obtain h1 where h1: "LOCK q h = Inr h1" "rc_inv {} (R + ref (Some a) + ref q) h1" "locks h h1"
    by (rule LOCK_ok [OF inv q])
  have o: "obj (cell h1 a) = Extern (XSymbol fs)" using h1(3) fs by (simp add: locks_def frames_cell)
  have len: "a < length (cells h1)" using o by (intro cell_nonfree_length) simp
  have old: "?old = fr_value (fs ! i)" using u by auto
  have "refs (map fr_value (fs[i := ?f])) + ref (fr_value (fs ! i)) = refs (map fr_value fs) + ref q"
    using refs_update [of i "map fr_value fs" q] i by (simp add: map_update)
  then have r: "rc_inv {} (R + ref (Some a) + ref ?old) (set_frames a (fs[i := ?f]) h1)"
    unfolding old set_frames_def by (intro rc_inv_set_obj [OF h1(2)]) (simp_all add: o ac_simps)
  have fr: "obj (cell (set_frames a (fs[i := ?f]) h1) b) = obj (cell h b)" if "b \<noteq> a" for b
    using that h1(3) by (simp add: set_frames_def set_obj_cell [OF len] locks_def)
  have "obj (cell (set_frames a (fs[i := ?f]) h1) a) = Extern (XSymbol (fs[i := ?f]))"
    by (simp add: set_frames_def set_obj_cell [OF len])
  then show ?thesis using release_tail [OF r fr] h1(1) by (simp add: assign_def Let_def)
qed

lemma push_ok:
  assumes inv: "rc_inv {} (R + ref (Some a)) h" and fs: "frames h (Some a) = Some fs" and q: "alive h q"
  shows "\<exists>h'. symbol_push a q h = Inr h' \<and> rc_inv {} (R + ref (Some a)) h' \<and> updated h h' a (Extern (XSymbol
    (\<lparr>fr_mode = SYMBOL_UNLOCKED, fr_nopurge = False, fr_value = q, fr_bound = True\<rparr> # fs)))"
proof -
  let ?f = "\<lparr>fr_mode = SYMBOL_UNLOCKED, fr_nopurge = False, fr_value = q, fr_bound = True\<rparr>"
  obtain h1 where h1: "LOCK q h = Inr h1" "rc_inv {} (R + ref (Some a) + ref q) h1" "locks h h1"
    by (rule LOCK_ok [OF inv q])
  have o: "obj (cell h1 a) = Extern (XSymbol fs)" using h1(3) fs by (simp add: locks_def frames_cell)
  have len: "a < length (cells h1)" using o by (intro cell_nonfree_length) simp
  have "rc_inv {} (R + ref (Some a)) (set_frames a (?f # fs) h1)"
    unfolding set_frames_def by (rule rc_inv_set_obj [OF h1(2)]) (simp_all add: o ac_simps)
  moreover have "updated h (set_frames a (?f # fs) h1) a (Extern (XSymbol (?f # fs)))"
    using h1(3) by (simp add: updated_def set_frames_def set_obj_cell [OF len] locks_def)
  ultimately show ?thesis using h1(1) fs by (simp add: symbol_push_def)
qed

lemma pop_ok:
  assumes inv: "rc_inv {} (R + ref (Some a)) h" and fs: "frames h (Some a) = Some (f # g # fs)"
  shows "\<exists>h'. symbol_pop a h = Inr h' \<and> rc_inv {} (R + ref (Some a)) h' \<and> updated h h' a (Extern (XSymbol (g # fs)))"
proof -
  have o: "obj (cell h a) = Extern (XSymbol (f # g # fs))" using fs by (simp add: frames_cell)
  have len: "a < length (cells h)" using o by (intro cell_nonfree_length) simp
  have r: "rc_inv {} (R + ref (Some a) + ref (fr_value f)) (set_frames a (g # fs) h)"
    unfolding set_frames_def by (rule rc_inv_set_obj [OF inv]) (simp_all add: o ac_simps)
  have fr: "obj (cell (set_frames a (g # fs) h) b) = obj (cell h b)" if "b \<noteq> a" for b
    using that by (simp add: set_frames_def set_obj_cell [OF len])
  have "obj (cell (set_frames a (g # fs) h) a) = Extern (XSymbol (g # fs))"
    by (simp add: set_frames_def set_obj_cell [OF len])
  then show ?thesis using release_tail [OF r fr] fs by (simp add: symbol_pop_def)
qed

section \<open>Sorted names\<close>

lemma name_less_total: "name_less s t \<or> s = t \<or> name_less t s"
proof (induction s arbitrary: t)
  case Nil
  then show ?case by (cases t) auto
next
  case (Cons c s)
  show ?case
  proof (cases t)
    case (Cons d u)
    have "(of_char c :: nat) < of_char d \<or> c = d \<or> (of_char d :: nat) < of_char c"
      using linorder_less_linear [of "of_char c :: nat" "of_char d"] by (simp add: of_char_eq_iff)
    then show ?thesis using Cons.IH [of u] Cons by auto
  qed simp
qed

lemma name_less_trans: "name_less s t \<Longrightarrow> name_less t u \<Longrightarrow> name_less s u"
proof (induction s u arbitrary: t rule: name_less.induct)
  case (3 c s d u)
  then show ?case by (cases t) auto
qed (auto elim: name_less.elims)

lemma name_less_irrefl: "\<not> name_less s s"
  by (induction s) auto

lemma insert_name_set: "mset (insert_name s ts) = add_mset s (mset ts)"
  by (induction ts) auto

lemma name_less_not: "name_less t s \<Longrightarrow> \<not> name_less s t"
  using name_less_trans name_less_irrefl by blast

lemma not_name_less_trans: "\<not> name_less t s \<Longrightarrow> \<not> name_less u t \<Longrightarrow> \<not> name_less u s"
  using name_less_total [of s t] name_less_total [of t u] name_less_trans name_less_not by blast

lemma insert_name_sorted:
  "sorted_wrt (\<lambda>s t. \<not> name_less t s) ts \<Longrightarrow> sorted_wrt (\<lambda>s t. \<not> name_less t s) (insert_name s ts)"
proof (induction ts)
  case (Cons t ts)
  have set: "set (insert_name s ts) = insert s (set ts)"
    using insert_name_set [of s ts] by (metis set_mset_add_mset_insert set_mset_mset)
  show ?case
  proof (cases "name_less t s")
    case True
    then show ?thesis using Cons name_less_not by (auto simp: set)
  next
    case False
    have "\<not> name_less u s" if u: "u \<in> set ts" for u
      using Cons.prems u by (intro not_name_less_trans [OF False]) simp
    then show ?thesis using Cons.prems False by auto
  qed
qed simp

lemma fold_insert_names:
  "mset (fold (\<lambda>hn. insert_name (hn_name hn)) hns ts) = mset (map hn_name hns) + mset ts"
  "sorted_wrt (\<lambda>s t. \<not> name_less t s) ts \<Longrightarrow>
     sorted_wrt (\<lambda>s t. \<not> name_less t s) (fold (\<lambda>hn. insert_name (hn_name hn)) hns ts)"
  by (induction hns arbitrary: ts) (auto simp: insert_name_set insert_name_sorted)

lemma distinct_slots:
  assumes "\<forall>i < length ns. distinct (map hn_name (ns ! i)) \<and> (\<forall>hn \<in> set (ns ! i). name_slot (hn_name hn) = k + i)"
  shows "distinct (map hn_name (concat ns)) \<and> (\<forall>hn \<in> set (concat ns). k \<le> name_slot (hn_name hn))"
  using assms
proof (induction ns arbitrary: k)
  case (Cons b ns)
  have "\<forall>i < length ns. distinct (map hn_name (ns ! i)) \<and> (\<forall>hn \<in> set (ns ! i). name_slot (hn_name hn) = Suc k + i)"
    using Cons.prems by (auto dest: spec [of _ "Suc _"])
  from Cons.IH [OF this] have ih: "distinct (map hn_name (concat ns))"
    "\<forall>hn \<in> set (concat ns). Suc k \<le> name_slot (hn_name hn)" by auto
  have b: "distinct (map hn_name b)" "\<forall>hn \<in> set b. name_slot (hn_name hn) = k"
    using Cons.prems [THEN spec, of 0] by auto
  have "hn_name x \<noteq> hn_name y" if "x \<in> set b" "y \<in> set (concat ns)" for x y
    using that b(2) ih(2) by (metis Suc_n_not_le_n)
  then have "hn_name ` set b \<inter> hn_name ` set (concat ns) = {}" by blast
  then have "distinct (map hn_name (concat (b # ns)))" using ih(1) b(1) by simp
  moreover have "\<forall>hn \<in> set (concat (b # ns)). k \<le> name_slot (hn_name hn)"
  proof
    fix hn assume "hn \<in> set (concat (b # ns))"
    then consider "hn \<in> set b" | "hn \<in> set (concat ns)" by auto
    then show "k \<le> name_slot (hn_name hn)" using b(2) bspec [OF ih(2), of hn] by cases simp_all
  qed
  ultimately show ?case by blast
qed simp

lemma distinct_names: "wf_names ns \<Longrightarrow> distinct (map hn_name (all_names ns))"
  using distinct_slots [of ns 0] by (simp add: wf_names_def all_names_def)

lemma in_all_names: "wf_names ns \<Longrightarrow> s \<in> hn_name ` set (all_names ns) \<longleftrightarrow> find_name ns s \<noteq> None"
proof
  assume w: "wf_names ns"
  {
    assume "s \<in> hn_name ` set (all_names ns)"
    then obtain hn b where "b \<in> set ns" "hn \<in> set b" "hn_name hn = s"
      by (auto simp: all_names_def)
    then obtain i where "i < length ns" "hn \<in> set (ns ! i)" "hn_name hn = s"
      by (metis in_set_conv_nth)
    moreover then have "i = name_slot s" using w by (auto simp: wf_names_def)
    ultimately show "find_name ns s \<noteq> None" by (auto simp: find_name_def find_None_iff)
  next
    assume "find_name ns s \<noteq> None"
    then obtain hn where "hn \<in> set (ns ! name_slot s)" "hn_name hn = s"
      by (auto simp: find_name_def find_None_iff)
    then show "s \<in> hn_name ` set (all_names ns)" using name_slot_less [OF w, of s] by (force simp: all_names_def)
  }
qed

lemma sorted_distinct_strict:
  "sorted_wrt (\<lambda>s t. \<not> name_less t s) ts \<Longrightarrow> distinct ts \<Longrightarrow> sorted_wrt name_less ts"
proof (induction ts)
  case (Cons t ts)
  have "name_less t u" if "u \<in> set ts" for u
    using that Cons.prems name_less_total [of t u] by auto
  then show ?case using Cons by simp
qed simp

section \<open>Canonical names\<close>

lemma tolower_value: "(of_char (tolower c) :: nat) =
    (if 65 \<le> (of_char c :: nat) \<and> (of_char c :: nat) \<le> 90 then of_char c + 32 else of_char c)"
  by (auto simp: tolower_def)

lemma tolower_twice [simp]: "tolower (tolower c) = tolower c"
proof -
  have "(of_char (tolower (tolower c)) :: nat) = of_char (tolower c)" by (simp only: tolower_value) auto
  then show ?thesis by (simp only: of_char_eq_iff)
qed

lemma isspace_tolower [simp]: "isspace (tolower c) = isspace c"
  unfolding isspace_def tolower_value by auto

lemma clean_char_twice [simp]: "clean_char (clean_char c) = clean_char c"
proof -
  have "tolower c \<noteq> CHR ''_''" if "c \<noteq> CHR ''_''"
  proof
    assume "tolower c = CHR ''_''"
    then have "(of_char (tolower c) :: nat) = 95" by simp
    then have "(of_char c :: nat) = of_char (CHR ''_'')" by (auto simp: tolower_value split: if_splits)
    then show False using that by (simp only: of_char_eq_iff)
  qed
  then show ?thesis by (auto simp: clean_char_def) (simp_all add: tolower_def)
qed

lemma dropWhile_dropWhile: "dropWhile P (dropWhile P xs) = dropWhile P xs"
  by (induction xs) auto

lemma strip_right_twice [simp]: "strip_right (strip_right s) = strip_right s"
proof (cases s)
  case (Cons c t)
  have "dropWhile isspace (dropWhile isspace (rev t)) = dropWhile isspace (rev t)" by (rule dropWhile_dropWhile)
  then show ?thesis using Cons by (simp add: strip_right_def)
qed (simp add: strip_right_def)

lemma clean_head: "\<not> isspace c \<Longrightarrow> c \<noteq> CHR ''|'' \<Longrightarrow> \<not> isspace (tolower c) \<and> tolower c \<noteq> CHR ''|''"
proof -
  assume c: "\<not> isspace c" "c \<noteq> CHR ''|''"
  have "tolower c \<noteq> CHR ''|''"
  proof
    assume "tolower c = CHR ''|''"
    then have "(of_char (tolower c) :: nat) = 124" by simp
    then have "(of_char c :: nat) = of_char (CHR ''|'')" by (auto simp: tolower_value split: if_splits)
    then show False using c by (simp only: of_char_eq_iff)
  qed
  then show ?thesis using c by simp
qed

lemma clean_name_stable:
  assumes s: "take 1 (dropWhile isspace s) \<noteq> ''|''"
  shows "clean_name (clean_name s) = clean_name s"
proof (cases "dropWhile isspace s")
  case (Cons c t)
  have c: "\<not> isspace c" "c \<noteq> CHR ''|''"
    using Cons s hd_dropWhile [of isspace s] by auto
  let ?u = "rev (dropWhile isspace (rev (map clean_char t)))"
  have r: "clean_name s = tolower c # ?u" using Cons c by (simp add: clean_name_def strip_right_def)
  have "set ?u \<subseteq> clean_char ` set t" using set_dropWhileD by fastforce
  then have u: "map clean_char ?u = ?u" by (intro map_idI) auto
  have "clean_name (tolower c # ?u) = strip_right (tolower c # ?u)"
    using clean_head [OF c] u by (simp add: clean_name_def)
  also have "\<dots> = tolower c # ?u" by (simp add: strip_right_def dropWhile_dropWhile)
  finally show ?thesis unfolding r .
next
  case Nil
  show ?thesis by (simp only: clean_name_def Nil list.case dropWhile.simps)
qed

section \<open>Push and pop\<close>

lemma cell_eqI: "length (cells h) = length (cells h') \<Longrightarrow> (\<And>b. cell h b = cell h' b) \<Longrightarrow> cells h = cells h'"
  by (rule nth_equalityI) (auto simp: cell_def, metis)

text \<open>Changes of a cell's object and of counts commute, so a balanced sequence gives back the heap.\<close>

lemma set_frames_simps [simp]:
  "length (cells (set_frames a fs h)) = length (cells h)"
  "a < length (cells h) \<Longrightarrow> cell (set_frames a fs h) b =
     (if b = a then (cell h a)\<lparr>obj := Extern (XSymbol fs)\<rparr> else cell h b)"
  by (simp_all add: set_frames_def set_obj_cell)

lemma set_count_rest: "h\<lparr>cells := x\<rparr> = h' \<Longrightarrow> (set_count a n h)\<lparr>cells := x\<rparr> = h'"
  by (simp add: set_count_def set_cell_def)

lemma set_frames_rest: "h\<lparr>cells := x\<rparr> = h' \<Longrightarrow> (set_frames a fs h)\<lparr>cells := x\<rparr> = h'"
  by (simp add: set_frames_def set_obj_def set_cell_def)

lemma push_then_pop:
  assumes fs: "frames h (Some a) = Some fs" "fs \<noteq> []" and q: "alive h q"
  shows "\<exists>h1. symbol_push a q h = Inr h1 \<and> symbol_pop a h1 = Inr h \<and>
    (\<exists>fs'. frames h1 (Some a) = Some fs' \<and> fr_bound (hd fs') \<and> fr_value (hd fs') = q)"
proof -
  let ?f = "\<lparr>fr_mode = SYMBOL_UNLOCKED, fr_nopurge = False, fr_value = q, fr_bound = True\<rparr>"
  have o: "obj (cell h a) = Extern (XSymbol fs)" using fs by (simp add: frames_cell)
  have len: "a < length (cells h)" using o by (intro cell_nonfree_length) simp
  obtain g fs0 where g: "fs = g # fs0" using fs(2) by (cases fs) auto
  have same: "h' = h" if c: "\<And>b. cell h' b = cell h b" "length (cells h') = length (cells h)"
    and r: "h'\<lparr>cells := cells h\<rparr> = h" for h'
    using r cell_eqI [OF c(2)] c(1) by (metis (no_types) lheap.surjective lheap.update_convs(1))
  show ?thesis
  proof (cases q)
    case None
    let ?h1 = "set_frames a (?f # fs) h"
    have "cell (set_frames a fs ?h1) x = cell h x" for x
      by (rule at.equality) (simp_all add: len o)
    then have "set_frames a fs ?h1 = h"
      by (rule same) (simp_all add: set_frames_rest)
    then have "symbol_pop a ?h1 = Inr h"
      using None len g by (simp add: symbol_pop_def UNLOCK_def unlock_with_def frames_cell [THEN iffD2])
    moreover have "symbol_push a q h = Inr ?h1" using None fs(1) by (simp add: symbol_push_def LOCK_def)
    ultimately show ?thesis using None len by (auto simp: frames_cell)
  next
    case (Some b)
    then obtain n where b: "b < length (cells h)" "count (cell h b) = Suc n"
      using q alive_length [of h b] by (cases "count (cell h b)") (auto simp: alive_def)
    let ?h0 = "set_count b (Suc (Suc n)) h"
    let ?h1 = "set_frames a (?f # fs) ?h0"
    have o1: "obj (cell ?h1 a) = Extern (XSymbol (?f # fs))" using len by simp
    have p: "symbol_push a q h = Inr ?h1"
      using Some b fs(1) by (simp add: symbol_push_def LOCK_def)
    have c2: "count (cell (set_frames a fs ?h1) b) = Suc (Suc n)"
      using len b by (simp add: cell_set_count)
    have "cell (set_count b (Suc n) (set_frames a fs ?h1)) x = cell h x" for x
      by (rule at.equality) (use o in \<open>auto simp: len b cell_set_count\<close>)
    then have "set_count b (Suc n) (set_frames a fs ?h1) = h"
      by (rule same) (simp_all add: set_frames_rest set_count_rest)
    then have "symbol_pop a ?h1 = Inr h"
      using Some frames_cell [THEN iffD2, OF o1] c2 unfolding g
      by (simp add: symbol_pop_def UNLOCK_def unlock_with_def)
    then show ?thesis using p o1 by (auto simp: frames_cell)
  qed
qed

end
