(* ===== verification/SymbolProps.thy ===== *)
theory SymbolProps
  imports SymbolLaws CellProps
begin

text \<open>The properties of the symbols: interning, assignment, binding stacks, listing and canonical names.\<close>

section \<open>A heap used to show that the hypotheses can hold\<close>

text \<open>A symbol with one frame, whose value is a cons, both held by the code; cell 2 is free.\<close>

definition sym_heap :: lheap where
  "sym_heap = \<lparr>cells = [\<lparr>count = 1, obj = Extern (XSymbol
       [\<lparr>fr_mode = 1, fr_nopurge = False, fr_value = Some 1, fr_bound = True\<rparr>]), fin = False, garb = False\<rparr>,
       \<lparr>count = 2, obj = Cons None None, fin = False, garb = False\<rparr>, free_at],
     freelist = [2], chunksize = 2048, os_chunks = 1, finalizers = [], fin_log = [], protected = None,
     bump_active = False, bump_list = None\<rparr>"

definition no_names :: names where
  "no_names = replicate HASHTABLESIZE []"

lemma no_names_ok: "wf_names no_names" "table_refs no_names = {#}" "symbol_of no_names s = None"
  by (simp_all add: wf_names_def no_names_def table_refs_def all_names_def symbol_of_def find_name_def refs_def
      HASHTABLESIZE_def name_slot_def)

lemma sym_heap_cells: "cell sym_heap a = (if a = 0 then \<lparr>count = 1, obj = Extern (XSymbol
       [\<lparr>fr_mode = 1, fr_nopurge = False, fr_value = Some 1, fr_bound = True\<rparr>]), fin = False, garb = False\<rparr>
    else if a = 1 then \<lparr>count = 2, obj = Cons None None, fin = False, garb = False\<rparr> else free_at)"
  by (auto simp: cell_def sym_heap_def nth_Cons split: nat.splits)


lemma sym_heap_reads:
  "frames sym_heap (Some 0) = Some [\<lparr>fr_mode = 1, fr_nopurge = False, fr_value = Some 1, fr_bound = True\<rparr>]"
  "alive sym_heap (Some 1)" "alive sym_heap None"
  by (simp_all add: frames_cell sym_heap_cells alive_def)

section \<open>Properties\<close>





text \<open>A binding is undone exactly: pushing a value on a symbol and popping it gives back the very
  same heap, and while it is pushed the symbol evaluates to the pushed value.\<close>

theorem push_pop:
  assumes "frames h (Some a) = Some fs" "fs \<noteq> []" "alive h q"
  shows "\<exists>h1. symbol_push a q h = Inr h1 \<and> symbol_pop a h1 = Inr h \<and>
    (\<exists>fs'. frames h1 (Some a) = Some fs' \<and> fr_bound (hd fs') \<and> fr_value (hd fs') = q)"
  using push_then_pop [OF assms] .

theorem push_pop_witness:
  "\<exists>h1. symbol_push 0 (Some 1) sym_heap = Inr h1 \<and> symbol_pop 0 h1 = Inr sym_heap"
  using push_pop [OF sym_heap_reads(1) _ sym_heap_reads(2)] by auto

text \<open>\<open>symblist\<close> lists exactly the names of the table, each once, in strictly increasing \<open>strcmp\<close> order.\<close>

theorem symblist_sorted:
  assumes "wf_names ns"
  shows "sorted_wrt name_less (symblist ns) \<and> set (symblist ns) = {s. find_name ns s \<noteq> None}"
proof -
  have m: "mset (symblist ns) = mset (map hn_name (all_names ns))"
    using fold_insert_names(1) [of "all_names ns" "[]"] by (simp add: symblist_def)
  have "distinct (symblist ns)"
    using distinct_names [OF assms] m mset_eq_imp_distinct_iff by blast
  moreover have "set (symblist ns) = {s. find_name ns s \<noteq> None}"
    using mset_eq_setD [OF m] in_all_names [OF assms] by auto
  ultimately show ?thesis
    using fold_insert_names(2) [of "[]" "all_names ns"] sorted_distinct_strict [of "symblist ns"]
    by (simp add: symblist_def)
qed

theorem symblist_sorted_witness: "sorted_wrt name_less (symblist no_names) \<and> set (symblist no_names) = {}"
  using symblist_sorted [OF no_names_ok(1)]
  by (simp add: find_name_def no_names_def name_slot_def HASHTABLESIZE_def)

text \<open>A canonical name is a fixed point: reading the printed name of a symbol gives the same
  symbol, unless the name was quoted with a bar.\<close>

theorem clean_name_twice:
  assumes "take 1 (dropWhile isspace s) \<noteq> ''|''"
  shows "clean_name (clean_name s) = clean_name s"
  using clean_name_stable [OF assms] .

theorem clean_name_twice_witness: "clean_name (clean_name ''  ax_Zb '') = ''ax-zb''"
proof -
  have "char_of (122 :: nat) = CHR ''z''" by code_simp
  then have "clean_name ''  ax_Zb '' = ''ax-zb''"
    by (simp add: clean_name_def isspace_def tolower_def clean_char_def strip_right_def)
  then show ?thesis using clean_name_twice [of "''  ax_Zb ''"] by (simp add: isspace_def)
qed

end
