(* ===== verification/Collector.thy ===== *)
theory Collector
  imports Symbols
begin

text \<open>
  The collector of \<open>src/src/allocate.c\<close> (\<open>garbage(TRUE)\<close>), which the top level calls after an error:
  the C code that was interrupted holds references that nobody will release, so the counts of all
  cells are computed anew from the named symbols and the protected objects.

  The recursive functions \<open>mark\<close> and \<open>unflag\<close> call themselves on the objects an object refers to,
  through \<open>self_action\<close> for an external one; the model keeps the pending calls on an explicit list,
  in the same order. The heap has no instance of a Lisp class (\<open>X_OOSTRUCT\<close>), whose destructor is
  Lisp code. The flags \<open>C_MARK\<close> and \<open>C_MULTIPLE\<close>, which no modelled code reads, are left out.
\<close>

section \<open>Following references\<close>

fun children :: "obj \<Rightarrow> ptr list" where
  "children (Cons a d) = [a, d]"
| "children (Extern x) = xrefs x"
| "children _ = []"

lemma unflag_terminates:
  assumes "garb (cell h a)"
  shows "card {b. b < length (cells h) \<and> garb (cell (set_cell a ((cell h a)\<lparr>garb := False\<rparr>) h) b)}
    < card {b. b < length (cells h) \<and> garb (cell h b)}"
proof (rule psubset_card_mono)
  have "a < length (cells h)" using assms by (cases "a < length (cells h)") (simp_all add: cell_def free_at_def)
  then show "{b. b < length (cells h) \<and> garb (cell (set_cell a ((cell h a)\<lparr>garb := False\<rparr>) h) b)}
      \<subset> {b. b < length (cells h) \<and> garb (cell h b)}"
    using assms by (auto simp: set_cell_def cell_def nth_list_update)
qed simp

function unflag_all :: "ptr list \<Rightarrow> lheap \<Rightarrow> lheap" where
  "unflag_all [] h = h"
| "unflag_all (None # ps) h = unflag_all ps h"
| "unflag_all (Some a # ps) h = (if garb (cell h a)
     then unflag_all (children (obj (cell h a)) @ ps) (set_cell a ((cell h a)\<lparr>garb := False\<rparr>) h)
     else unflag_all ps h)"
  by pat_completeness auto
termination
  by (relation "measures [\<lambda>(ps, h). card {b. b < length (cells h) \<and> garb (cell h b)}, \<lambda>(ps, h). length ps]")
    (auto simp: set_cell_def unflag_terminates [unfolded set_cell_def])

definition unflag :: "ptr \<Rightarrow> lheap \<Rightarrow> lheap" where
  "unflag p h = unflag_all [p] h"

lemma mark_terminates:
  assumes "a < length (cells h)" "count (cell h a) = 0"
  shows "card {b. b < length (cells h) \<and> count (cell (set_count a (Suc 0) h) b) = 0}
    < card {b. b < length (cells h) \<and> count (cell h b) = 0}"
  by (rule psubset_card_mono) (use assms in \<open>auto simp: cell_set_count split: if_splits\<close>)

lemma mark_free: "\<not> a < length (cells h) \<Longrightarrow> set_count a n h = h \<and> obj (cell h a) = Free"
  by (simp add: set_count_def set_cell_def cell_def free_at_def list_update_beyond)

lemma mark_again: "count (cell h a) = Suc c \<Longrightarrow>
   card {b. b < length (cells h) \<and> count (cell (set_count a (Suc (Suc c)) h) b) = 0}
    = card {b. b < length (cells h) \<and> count (cell h b) = 0}"
  by (rule arg_cong [where f = card]) (auto simp: set_count_def set_cell_def cell_def nth_list_update split: if_splits)

function mark_all :: "ptr list \<Rightarrow> lheap \<Rightarrow> lheap" where
  "mark_all [] h = h"
| "mark_all (None # ps) h = mark_all ps h"
| "mark_all (Some a # ps) h = (let h' = set_count a (Suc (count (cell h a))) h in
     if count (cell h a) = 0 then mark_all (children (obj (cell h a)) @ ps) h' else mark_all ps h')"
  by pat_completeness auto
termination
proof (relation "measures [\<lambda>(ps, h). card {b. b < length (cells h) \<and> count (cell h b) = 0}, \<lambda>(ps, h). length ps]", goal_cases)
  case (3 a ps h h')
  then show ?case using mark_terminates [of a h] mark_free [of a h]
    by (cases "a < length (cells h)") auto
next
  case (4 a ps h h')
  then obtain c where "count (cell h a) = Suc c" by (cases "count (cell h a)") auto
  then show ?case using 4 mark_again [of h a c] by simp
qed auto

declare unflag_all.simps [simp del] mark_all.simps [simp del]

definition mark :: "ptr \<Rightarrow> lheap \<Rightarrow> lheap" where
  "mark p h = mark_all [p] h"

section \<open>The steps of a collection\<close>

text \<open>The order in which the loops over all cells visit them: the newest chunk first.\<close>

definition cell_order :: "lheap \<Rightarrow> nat list" where
  "cell_order h = concat (map (\<lambda>i. [i * chunksize h ..< Suc i * chunksize h])
     (rev [0 ..< length (cells h) div chunksize h]))"

definition flag_cells :: "lheap \<Rightarrow> lheap" where
  "flag_cells h = h\<lparr>cells := map (\<lambda>c. if count c \<noteq> 0
     then c\<lparr>count := count c + 0x40000000, garb := True\<rparr> else c) (cells h)\<rparr>"

definition symbol_popall :: "ptr \<Rightarrow> lheap \<Rightarrow> lheap" where
  "symbol_popall p h = (case p of None \<Rightarrow> h | Some a \<Rightarrow>
     (case frames h p of Some fs \<Rightarrow> if fs = [] then h else set_frames a [last fs] h | None \<Rightarrow> h))"

definition roots :: "names \<Rightarrow> lheap \<Rightarrow> ptr list" where
  "roots ns h = map hn_named (all_names ns) @ [protected h]"

fun each :: "('a \<Rightarrow> 's \<Rightarrow> 's res) \<Rightarrow> 'a list \<Rightarrow> 's \<Rightarrow> 's res" where
  "each f [] s = Inr s"
| "each f (x # xs) s = res_bind (f x s) (each f xs)"

definition zombify :: "nat \<Rightarrow> lheap \<Rightarrow> lheap res" where
  "zombify a h = (if count (cell h a) = 0 \<or> \<not> garb (cell h a) then Inr h
     else res_bind (case obj (cell h a) of
           Extern x \<Rightarrow> res_bind (unlock_all UNLOCK (xrefs x) h) (\<lambda>h'.
             Inr (set_cell a ((cell h' a)\<lparr>obj := Zombie, fin := False\<rparr>) h'))
         | Zombie \<Rightarrow> Inr (set_cell a ((cell h a)\<lparr>fin := False\<rparr>) h)
         | _ \<Rightarrow> Inr h)
       (\<lambda>h'. Inr (if fin (cell h a) then run_finalizers a h' else h')))"

definition reset_cells :: "lheap \<Rightarrow> lheap" where
  "reset_cells h = h\<lparr>cells := map (\<lambda>c. if count c \<noteq> 0 then c\<lparr>count := 0, garb := False\<rparr> else c) (cells h)\<rparr>"

definition sweep :: "lheap \<Rightarrow> lheap" where
  "sweep h = fold (\<lambda>a h. if count (cell h a) = 0 then deallocate a h else h) (cell_order h) (h\<lparr>freelist := []\<rparr>)"

text \<open>The symbols that are dropped: held by the table only, and of no value.\<close>

definition removable :: "nat \<Rightarrow> lheap \<Rightarrow> bool" where
  "removable a h \<longleftrightarrow> count (cell h a) = 1 \<and> \<not> fin (cell h a) \<and> (case frames h (Some a) of
       Some (f # fs) \<Rightarrow> \<not> fr_nopurge f \<and> (\<not> fr_bound f \<or> fr_value f = None \<or> objof h (fr_value f) = Zombie)
     | _ \<Rightarrow> False)"

definition purge_name :: "hash_name \<Rightarrow> names \<times> lheap \<Rightarrow> (names \<times> lheap) res" where
  "purge_name hn st = (case hn_named hn of
       None \<Rightarrow> kill_name hn st
     | Some a \<Rightarrow> if removable a (snd st) then kill_name hn st else Inr st)"

definition garbage :: "names \<times> lheap \<Rightarrow> (names \<times> lheap) res" where
  "garbage = (\<lambda>(ns, h).
     let h1 = fold symbol_popall (map hn_named (all_names ns)) (flag_cells h);
         h2 = unflag_all (roots ns h1) h1 in
     res_bind (each zombify (cell_order h2) h2) (\<lambda>h3.
     let h4 = reset_cells h3;
         h5 = sweep (mark_all (roots ns h4) h4) in
     each purge_name (all_names ns) (ns, h5)))"

section \<open>The list of protected objects\<close>

text \<open>
  \<open>unprotect\<close>: \<open>*p\<close> is the field the loop stands at: \<open>protected\<close> itself, or the \<open>Cdr\<close> of a cons.
  The variable \<open>q\<close> is reused for the cons taken out, and the loop goes on with it.
\<close>

definition set_link :: "ptr \<Rightarrow> ptr \<Rightarrow> lheap \<Rightarrow> lheap" where
  "set_link at p h = (case at of None \<Rightarrow> h\<lparr>protected := p\<rparr>
     | Some a \<Rightarrow> set_obj a (Cons (carof h at) p) h)"

definition get_link :: "ptr \<Rightarrow> lheap \<Rightarrow> ptr" where
  "get_link at h = (case at of None \<Rightarrow> protected h | Some a \<Rightarrow> cdrof h at)"

fun unprotect_loop :: "nat \<Rightarrow> ptr \<Rightarrow> ptr \<Rightarrow> lheap \<Rightarrow> lheap res" where
  "unprotect_loop 0 q at h = Inl NoFuel"
| "unprotect_loop (Suc n) q at h = (let p = get_link at h in
     if \<not> CONSP h p then Inr h
     else if carof h p = q then
       (case p of None \<Rightarrow> Inl (Undef ''nil'')
        | Some b \<Rightarrow> let h1 = set_obj b (Cons (carof h p) None) (set_link at (cdrof h p) h) in
            res_bind (UNLOCK p h1) (unprotect_loop n p at))
     else unprotect_loop n q p h)"

definition unprotect :: "ptr \<Rightarrow> lheap \<Rightarrow> lheap res" where
  "unprotect q h = unprotect_loop (Suc (length (cells h))) q None h"

end
