(* ===== verification/CollectorLaws.thy ===== *)
theory CollectorLaws
  imports Collector SymbolLaws
begin

text \<open>
  The laws of the collector: \<open>unflag\<close> and \<open>mark\<close> visit exactly the reachable cells, \<open>mark\<close> counts the
  references, zombies lose their references without a purge, and the sweep rebuilds the invariant.
\<close>

section \<open>Reachability\<close>

inductive reach :: "(nat \<Rightarrow> obj) \<Rightarrow> nat set \<Rightarrow> nat \<Rightarrow> bool" for f :: "nat \<Rightarrow> obj" and S :: "nat set" where
  root: "a \<in> S \<Longrightarrow> reach f S a"
| step: "reach f S b \<Longrightarrow> a \<in># orefs (f b) \<Longrightarrow> reach f S a"

definition objs :: "lheap \<Rightarrow> nat \<Rightarrow> obj" where
  "objs h a = obj (cell h a)"

lemma reach_mono: "reach f S a \<Longrightarrow> S \<subseteq> T \<Longrightarrow> reach f T a"
  by (induction rule: reach.induct) (auto intro: reach.intros)

lemma reach_step: "reach f (set_mset (orefs (f b))) a \<Longrightarrow> reach f S b \<Longrightarrow> reach f S a"
  by (induction rule: reach.induct) (auto intro: reach.intros)

lemma reach_cong: "reach f S a \<Longrightarrow> (\<And>b. reach f S b \<Longrightarrow> g b = f b) \<Longrightarrow> reach g S a"
proof (induction rule: reach.induct)
  case (step b a)
  then have "g b = f b" by blast
  then show ?case using step by (metis reach.step)
qed (auto intro: reach.root)

lemma reach_cong_iff: "(\<And>b. reach f S b \<Longrightarrow> g b = f b) \<Longrightarrow> reach g S a = reach f S a"
proof
  assume eq: "\<And>b. reach f S b \<Longrightarrow> g b = f b"
  show "reach g S a \<Longrightarrow> reach f S a"
    by (induction rule: reach.induct) (auto intro: reach.intros simp: eq)
qed (rule reach_cong)

lemma refs_children: "refs (children x) = orefs x"
  by (cases x rule: children.cases) (simp_all add: refs_def)

text \<open>A step may change counts and flags of cells, but nothing else.\<close>

definition flags_only :: "lheap \<Rightarrow> lheap \<Rightarrow> bool" where
  "flags_only h h' \<longleftrightarrow> length (cells h') = length (cells h) \<and> objs h' = objs h \<and>
     (\<lambda>a. fin (cell h' a)) = (\<lambda>a. fin (cell h a)) \<and> h'\<lparr>cells := []\<rparr> = h\<lparr>cells := []\<rparr>"

lemma flags_only_refl [simp]: "flags_only h h"
  by (simp add: flags_only_def)

lemma flags_only_trans: "flags_only h h1 \<Longrightarrow> flags_only h1 h2 \<Longrightarrow> flags_only h h2"
  by (simp add: flags_only_def)

lemma flags_only_set: "obj c = obj (cell h a) \<Longrightarrow> fin c = fin (cell h a) \<Longrightarrow> flags_only h (set_cell a c h)"
  by (cases "a < length (cells h)")
    (auto simp: flags_only_def objs_def fun_eq_iff cell_set_cell, auto simp: set_cell_def list_update_beyond)

lemma fields_eq: "(h' :: lheap)\<lparr>cells := []\<rparr> = h\<lparr>cells := []\<rparr> \<longleftrightarrow> freelist h' = freelist h \<and> chunksize h' = chunksize h \<and>
   os_chunks h' = os_chunks h \<and> finalizers h' = finalizers h \<and> fin_log h' = fin_log h \<and>
   protected h' = protected h \<and> bump_active h' = bump_active h \<and> bump_list h' = bump_list h"
  by (cases h; cases h') simp

section \<open>\<open>unflag\<close>\<close>

lemma unflag_all_ok:
  "flags_only h (unflag_all ps h) \<and> (\<forall>a. count (cell (unflag_all ps h) a) = count (cell h a)) \<and>
   (\<forall>a. garb (cell (unflag_all ps h) a) \<longrightarrow> garb (cell h a)) \<and>
   (\<forall>a. garb (cell h a) \<and> \<not> garb (cell (unflag_all ps h) a) \<longrightarrow> reach (objs h) (set_mset (refs ps)) a) \<and>
   (\<forall>a \<in># refs ps. \<not> garb (cell (unflag_all ps h) a)) \<and>
   (\<forall>b. garb (cell h b) \<and> \<not> garb (cell (unflag_all ps h) b) \<longrightarrow>
      (\<forall>a \<in># orefs (objs h b). \<not> garb (cell (unflag_all ps h) a)))"
  (is "?P ps h")
proof (induction ps h rule: unflag_all.induct)
  case (3 a ps h)
  show ?case
  proof (cases "garb (cell h a)")
    case False
    then have ih: "?P ps h" using 3(2) by blast
    have r: "reach (objs h) (set_mset (refs (Some a # ps))) b" if "reach (objs h) (set_mset (refs ps)) b" for b
      using that by (rule reach_mono) auto
    have g: "\<not> garb (cell (unflag_all ps h) a)" using ih False by blast
    have s: "unflag_all (Some a # ps) h = unflag_all ps h" unfolding unflag_all.simps using False by simp
    have m: "b = a \<or> b \<in># refs ps" if "b \<in># refs (Some a # ps)" for b using that by simp
    show ?thesis unfolding s
    proof (intro conjI allI impI ballI, goal_cases)
      case (4 b) then show ?case using ih r by blast
    next
      case (5 b) then show ?case using ih g m by blast
    qed (use ih in blast)+
  next
    case True
    let ?h = "set_cell a ((cell h a)\<lparr>garb := False\<rparr>) h"
    let ?ps = "children (obj (cell h a)) @ ps"
    have ih: "?P ?ps ?h" using 3(1) True by blast
    have len: "a < length (cells h)" using True by (cases "a < length (cells h)") (simp_all add: cell_def free_at_def)
    have c: "cell ?h b = (if b = a then (cell h a)\<lparr>garb := False\<rparr> else cell h b)" for b by (rule cell_set_cell [OF len])
    have o: "objs ?h = objs h" by (auto simp: objs_def c fun_eq_iff)
    have f: "flags_only h ?h" by (rule flags_only_set) simp_all
    have r: "reach (objs h) (set_mset (refs (Some a # ps))) b" if "reach (objs h) (set_mset (refs ?ps)) b" for b
      using that
    proof (induction rule: reach.induct)
      case (root b)
      have ra: "reach (objs h) (set_mset (refs (Some a # ps))) a" by (rule reach.root) simp
      show ?case using root reach.step [OF ra, of b]
        by (auto simp: refs_children objs_def [symmetric] intro: reach.root)
    qed (rule reach.step)
    have s: "unflag_all (Some a # ps) h = unflag_all ?ps ?h" unfolding unflag_all.simps using True by simp
    have "\<not> garb (cell ?h a)" by (simp add: c)
    then have na: "\<not> garb (cell (unflag_all ?ps ?h) a)" using ih by blast
    show ?thesis unfolding s
    proof (intro conjI allI impI ballI, goal_cases)
      case 1 then show ?case using ih f flags_only_trans by blast
    next
      case (2 b) then show ?case using ih c by simp
    next
      case (3 b) then have "garb (cell ?h b)" using ih by blast
      then show ?case using c by (simp split: if_splits)
    next
      case (4 b)
      show ?case
      proof (cases "b = a")
        case False
        then have "garb (cell ?h b)" using 4 c by simp
        then show ?thesis using 4 ih [unfolded o] r by blast
      qed (auto intro: reach.root)
    next
      case (5 b)
      then have "b = a \<or> b \<in># refs ?ps" by auto
      then show ?case using ih na by blast
    next
      case (6 b d)
      then show ?case
      proof (cases "b = a")
        case True
        then have "d \<in># refs ?ps" using 6 by (simp add: refs_children objs_def)
        then show ?thesis using ih by blast
      next
        case False
        then have "garb (cell ?h b)" using 6 c by simp
        then show ?thesis using 6 ih [unfolded o] by blast
      qed
    qed
  qed
next
  case (2 ps h)
  then show ?case unfolding unflag_all.simps(2) refs_simps ref_simps empty_neutral .
qed (auto simp: unflag_all.simps)

text \<open>After the flag is set on all used cells, it stays on exactly the unreachable ones.\<close>

lemma unflag_exact:
  assumes g: "\<And>a. count (cell h a) \<noteq> 0 \<Longrightarrow> garb (cell h a)"
    and c: "\<And>a. reach (objs h) (set_mset (refs ps)) a \<Longrightarrow> count (cell h a) \<noteq> 0"
  shows "count (cell h a) \<noteq> 0 \<Longrightarrow> garb (cell (unflag_all ps h) a) \<longleftrightarrow> \<not> reach (objs h) (set_mset (refs ps)) a"
proof -
  note u = unflag_all_ok [of h ps]
  have "\<not> garb (cell (unflag_all ps h) b)" if "reach (objs h) (set_mset (refs ps)) b" for b
    using that
  proof (induction rule: reach.induct)
    case (step b a)
    then have "garb (cell h b)" using c g by blast
    then show ?case using u step by blast
  qed (use u in blast)
  then show "count (cell h a) \<noteq> 0 \<Longrightarrow> garb (cell (unflag_all ps h) a) \<longleftrightarrow> \<not> reach (objs h) (set_mset (refs ps)) a"
    using u g by blast
qed

section \<open>\<open>mark\<close>\<close>

definition visited :: "lheap \<Rightarrow> nat set" where
  "visited h = {a. a < length (cells h) \<and> count (cell h a) \<noteq> 0}"

definition vrefs :: "lheap \<Rightarrow> nat multiset" where
  "vrefs h = (\<Sum>a \<in> visited h. orefs (objs h a))"

lemma finite_visited [simp]: "finite (visited h)"
  by (simp add: visited_def)

lemma vrefs_visit:
  assumes "a < length (cells h)"
  shows "vrefs (set_count a (Suc n) h) = vrefs h + (if count (cell h a) = 0 then orefs (objs h a) else {#})"
proof -
  have o: "objs (set_count a (Suc n) h) = objs h" by (simp add: objs_def fun_eq_iff)
  have v: "visited (set_count a (Suc n) h) = insert a (visited h)"
    using assms by (auto simp: visited_def cell_set_count)
  have "a \<in> visited h \<longleftrightarrow> count (cell h a) \<noteq> 0" using assms by (simp add: visited_def)
  then show ?thesis unfolding vrefs_def v o by (auto simp: insert_absorb)
qed

lemma mark_all_ok:
  "flags_only h (mark_all ps h) \<and> (\<forall>a. garb (cell (mark_all ps h) a) = garb (cell h a)) \<and>
   (\<forall>a. count (cell h a) = 0 \<and> count (cell (mark_all ps h) a) \<noteq> 0 \<longrightarrow> reach (objs h) (set_mset (refs ps)) a) \<and>
   (\<forall>a < length (cells h). count (cell (mark_all ps h) a) + Multiset.count (vrefs h) a =
      count (cell h a) + Multiset.count (refs ps) a + Multiset.count (vrefs (mark_all ps h)) a)"
  (is "?P ps h")
proof (induction ps h rule: mark_all.induct)
  case (3 a ps h)
  let ?h = "set_count a (Suc (count (cell h a))) h"
  show ?case
  proof (cases "a < length (cells h)")
    case False
    have h: "?h = h" and n: "children (obj (cell h a)) = []" "count (cell h a) = 0"
      using False by (simp_all add: mark_free) (simp add: cell_def free_at_def)
    have ih: "?P ps h" using 3(1) h n by simp
    have r: "reach (objs h) (set_mset (refs (Some a # ps))) b" if "reach (objs h) (set_mset (refs ps)) b" for b
      using that by (rule reach_mono) auto
    have s: "mark_all (Some a # ps) h = mark_all ps h" unfolding mark_all.simps using h n by (simp add: Let_def)
    have e: "\<forall>b < length (cells h). Multiset.count (refs (Some a # ps)) b = Multiset.count (refs ps) b"
      using False by auto
    show ?thesis unfolding s
    proof (intro conjI allI impI, goal_cases)
      case (3 b) then show ?case using ih r by blast
    next
      case (4 b) then show ?case using ih e by (metis (no_types))
    qed (use ih in blast)+
  next
    case True
    let ?ps = "(if count (cell h a) = 0 then children (obj (cell h a)) else []) @ ps"
    have ih: "?P ?ps ?h" using 3 by (cases "count (cell h a) = 0") simp_all
    have s: "mark_all (Some a # ps) h = mark_all ?ps ?h" unfolding mark_all.simps by (simp add: Let_def)
    have o: "objs ?h = objs h" by (simp add: objs_def fun_eq_iff)
    note c = cell_set_count [OF True, of "Suc (count (cell h a))"]
    have f: "flags_only h ?h" unfolding set_count_def by (rule flags_only_set) simp_all
    have r: "reach (objs h) (set_mset (refs (Some a # ps))) b" if "reach (objs h) (set_mset (refs ?ps)) b" for b
      using that
    proof (induction rule: reach.induct)
      case (root b)
      have ra: "reach (objs h) (set_mset (refs (Some a # ps))) a" by (rule reach.root) simp
      show ?case using root reach.step [OF ra, of b]
        by (auto simp: refs_children objs_def [symmetric] intro: reach.root split: if_splits)
    qed (rule reach.step)
    have m: "refs ?ps = (if count (cell h a) = 0 then orefs (objs h a) else {#}) + refs ps"
      by (simp add: refs_children objs_def)
    show ?thesis unfolding s
    proof (intro conjI allI impI, goal_cases)
      case 1 then show ?case using ih f flags_only_trans by blast
    next
      case (2 b) then show ?case using ih c by simp
    next
      case (3 b)
      show ?case
      proof (cases "b = a")
        case False
        then have "count (cell ?h b) = 0" using 3 c by simp
        then show ?thesis using 3 ih [unfolded o] r by blast
      qed (auto intro: reach.root)
    next
      case (4 b)
      then have "count (cell (mark_all ?ps ?h) b) + Multiset.count (vrefs ?h) b =
          count (cell ?h b) + Multiset.count (refs ?ps) b + Multiset.count (vrefs (mark_all ?ps ?h)) b"
        using ih by simp
      then show ?case unfolding m vrefs_visit [OF True] by (auto simp: c split: if_splits)
    qed
  qed
next
  case (2 ps h)
  then show ?case unfolding mark_all.simps(2) refs_simps ref_simps empty_neutral .
qed (auto simp: mark_all.simps)

lemma mark_exact:
  assumes z: "\<And>a. count (cell h a) = 0"
    and c: "\<And>a. reach (objs h) (set_mset (refs ps)) a \<Longrightarrow> a < length (cells h)"
  shows "visited (mark_all ps h) = {a. reach (objs h) (set_mset (refs ps)) a}"
    and "a < length (cells h) \<Longrightarrow> count (cell (mark_all ps h) a) =
      Multiset.count (refs ps + vrefs (mark_all ps h)) a"
proof -
  let ?h = "mark_all ps h"
  note m = mark_all_ok [of h ps]
  have v: "vrefs h = {#}" by (simp add: vrefs_def visited_def z)
  have e: "count (cell ?h a) = Multiset.count (refs ps + vrefs ?h) a" if "a < length (cells h)" for a
    using m that z v by simp
  then show "a < length (cells h) \<Longrightarrow> count (cell ?h a) = Multiset.count (refs ps + vrefs ?h) a" .
  have l: "length (cells ?h) = length (cells h)" "objs ?h = objs h" using m by (simp_all add: flags_only_def)
  have "a \<in> visited ?h" if "reach (objs h) (set_mset (refs ps)) a" for a
    using that
  proof (induction rule: reach.induct)
    case (root a)
    then show ?case using c [OF reach.root [OF root]] e [of a] l by (simp add: visited_def)
  next
    case (step b a)
    have "a \<in># vrefs ?h" unfolding vrefs_def l using step by (auto simp: set_mset_sum)
    moreover have "a < length (cells h)" using step(1,2) c reach.step by metis
    ultimately show ?case using e [of a] l by (simp add: visited_def)
  qed
  then show "visited ?h = {a. reach (objs h) (set_mset (refs ps)) a}"
    using m z by (auto simp: visited_def)
qed

end
