(* ===== verification/CollectorExact.thy ===== *)
theory CollectorExact
  imports CollectorLaws
begin

text \<open>
  The steps of a collection put together: unreachable objects lose their references without a purge,
  the sweep rebuilds the invariant of the cells with exact counts, and the names of worthless symbols go.
\<close>

section \<open>Zombies\<close>

lemma UNLOCK_high: "Suc 0 < count (cell h a) \<Longrightarrow> UNLOCK (Some a) h = Inr (set_count a (count (cell h a) - 1) h)"
  by (simp add: UNLOCK_def unlock_with_def Let_def split: nat.split)

lemma used_length: "count (cell h a) \<noteq> 0 \<Longrightarrow> a < length (cells h)"
  by (cases "a < length (cells h)") (simp_all add: cell_def free_at_def)

lemma unlock_all_high:
  assumes "\<And>a. a \<in># refs ps \<Longrightarrow> Multiset.count (refs ps) a < count (cell h a)"
  shows "\<exists>h'. unlock_all UNLOCK ps h = Inr h' \<and> flags_only h h' \<and> (\<forall>a. garb (cell h' a) = garb (cell h a)) \<and>
    (\<forall>a. count (cell h' a) = count (cell h a) - Multiset.count (refs ps) a)"
  using assms
proof (induction ps arbitrary: h)
  case (Cons p ps)
  show ?case
  proof (cases p)
    case None
    then show ?thesis using Cons.IH [of h] Cons.prems by (simp add: UNLOCK_def unlock_with_def)
  next
    case (Some a)
    have c: "Suc (Multiset.count (refs ps) a) < count (cell h a)" using Cons.prems [of a] Some by simp
    let ?h = "set_count a (count (cell h a) - 1) h"
    have len: "a < length (cells h)" using c by (intro used_length) simp
    note cell = cell_set_count [OF len]
    have "Multiset.count (refs ps) b < count (cell ?h b)" if "b \<in># refs ps" for b
      using Cons.prems [of b] that c Some by (simp add: cell split: if_splits)
    from Cons.IH [OF this] obtain h' where h': "unlock_all UNLOCK ps ?h = Inr h'" "flags_only ?h h'"
      "\<And>b. garb (cell h' b) = garb (cell ?h b)" "\<And>b. count (cell h' b) = count (cell ?h b) - Multiset.count (refs ps) b"
      by blast
    have "flags_only h ?h" unfolding set_count_def by (rule flags_only_set) simp_all
    then have "flags_only h h'" using h'(2) flags_only_trans by blast
    then show ?thesis using h'(1,3,4) UNLOCK_high [of h a] c Some by (simp add: cell)
  qed
qed simp

definition base :: "lheap \<Rightarrow> nat \<times> ptr \<times> ptr \<times> nat \<times> bool" where
  "base h = (length (cells h), protected h, bump_list h, chunksize h, bump_active h)"

lemma flags_only_base: "flags_only h h' \<Longrightarrow> base h' = base h"
  by (simp add: flags_only_def base_def fields_eq)

lemma base_set_cell [simp]: "base (set_cell a c h) = base h"
  by (simp add: base_def)

lemma base_run_finalizers [simp]: "base (run_finalizers a h) = base h"
  by (simp add: base_def)

lemma garb_run_finalizers [simp]: "garb (cell (run_finalizers a h) b) = garb (cell h b)"
  by (auto simp: run_finalizers_def set_cell_def cell_def nth_list_update split: prod.split)

text \<open>The references of the flagged cells of a list.\<close>

definition grefs :: "nat list \<Rightarrow> lheap \<Rightarrow> nat multiset" where
  "grefs as h = sum_list (map (\<lambda>b. if garb (cell h b) then orefs (objs h b) else {#}) as)"

lemma grefs_Cons: "grefs (a # as) h = (if garb (cell h a) then orefs (objs h a) else {#}) + grefs as h"
  by (simp add: grefs_def)

definition zombified :: "lheap \<Rightarrow> lheap \<Rightarrow> bool" where
  "zombified h h' \<longleftrightarrow> base h' = base h \<and> (\<forall>b. garb (cell h' b) = garb (cell h b)) \<and>
     (\<forall>b. (count (cell h' b) = 0) = (count (cell h b) = 0)) \<and> (\<forall>b. \<not> garb (cell h b) \<longrightarrow> objs h' b = objs h b)"

lemma zombify_one:
  assumes c: "\<And>c. c \<in># grefs (a # as) h \<Longrightarrow> Multiset.count (grefs (a # as) h) c < count (cell h c)" and a: "a \<notin> set as"
  shows "\<exists>h'. zombify a h = Inr h' \<and> zombified h h' \<and>
    (\<forall>c. c \<in># grefs as h' \<longrightarrow> Multiset.count (grefs as h') c < count (cell h' c))"
proof -
  have tl: "Multiset.count (grefs as h) c + (if garb (cell h a) then Multiset.count (orefs (objs h a)) c else 0)
      < count (cell h c)" if "c \<in># grefs as h \<or> garb (cell h a) \<and> c \<in># orefs (objs h a)" for c
    using c [of c] that unfolding grefs_Cons by (auto split: if_splits)
  have fin: "\<exists>h'. (if fin (cell h a) then run_finalizers a h1 else h1) = h' \<and> zombified h h' \<and>
      (\<forall>c. c \<in># grefs as h' \<longrightarrow> Multiset.count (grefs as h') c < count (cell h' c))"
    if z: "zombified h h1" "\<And>b. b \<noteq> a \<Longrightarrow> objs h1 b = objs h b"
      "\<And>c. c \<in># grefs as h \<Longrightarrow> Multiset.count (grefs as h) c < count (cell h1 c)" for h1
  proof -
    let ?h' = "if fin (cell h a) then run_finalizers a h1 else h1"
    have same: "count (cell ?h' b) = count (cell h1 b)" "objs ?h' b = objs h1 b" "garb (cell ?h' b) = garb (cell h1 b)" "base ?h' = base h1" for b
      by (simp_all add: cell_run_finalizers objs_def)
    have e: "objs ?h' b = objs h b" if "b \<in> set as" for b using same(2) z(2) that a by metis
    have "garb (cell ?h' b) = garb (cell h b)" for b using same(3) z(1) by (simp add: zombified_def)
    then have "grefs as ?h' = grefs as h" unfolding grefs_def
      by (intro arg_cong [where f = sum_list] map_cong) (simp_all add: e)
    then show ?thesis using same z by (simp add: zombified_def)
  qed
  consider "count (cell h a) = 0 \<or> \<not> garb (cell h a)"
    | x where "count (cell h a) \<noteq> 0" "garb (cell h a)" "obj (cell h a) = Extern x"
    | "count (cell h a) \<noteq> 0" "garb (cell h a)" "obj (cell h a) = Zombie"
    | "count (cell h a) \<noteq> 0" "garb (cell h a)" "\<forall>x. obj (cell h a) \<noteq> Extern x" "obj (cell h a) \<noteq> Zombie" by blast
  then show ?thesis
  proof cases
    case 1
    moreover have "Multiset.count (grefs as h) c < count (cell h c)" if "c \<in># grefs as h" for c using tl [of c] that by simp
    ultimately show ?thesis by (simp add: zombify_def zombified_def)
  next
    case (2 x)
    have o: "orefs (objs h a) = refs (xrefs x)" using 2 by (simp add: objs_def)
    have "Multiset.count (refs (xrefs x)) c < count (cell h c)" if "c \<in># refs (xrefs x)" for c
      using tl [of c] that 2 by (simp add: o)
    from unlock_all_high [OF this] obtain h1 where h1: "unlock_all UNLOCK (xrefs x) h = Inr h1" "flags_only h h1"
      "\<And>b. garb (cell h1 b) = garb (cell h b)"
      "\<And>b. count (cell h1 b) = count (cell h b) - Multiset.count (refs (xrefs x)) b" by blast
    let ?h = "set_cell a ((cell h1 a)\<lparr>obj := Zombie, fin := False\<rparr>) h1"
    have l: "a < length (cells h1)" using 2 used_length [of h a] h1(2) by (simp add: flags_only_def)
    note cell = cell_set_cell [OF l, of "(cell h1 a)\<lparr>obj := Zombie, fin := False\<rparr>"]
    have ob: "objs h1 = objs h" using h1(2) by (simp add: flags_only_def)
    have k: "Multiset.count (refs (xrefs x)) c < count (cell h c)" if "c \<in># refs (xrefs x)" for c
      using tl [of c] that 2 by (simp add: o)
    have cnt: "count (cell ?h b) = count (cell h b) - Multiset.count (refs (xrefs x)) b" "garb (cell ?h b) = garb (cell h b)"
      "b \<noteq> a \<Longrightarrow> objs ?h b = objs h b" for b
      using h1(3,4) ob by (simp_all add: cell objs_def fun_eq_iff)
    have "(count (cell ?h b) = 0) = (count (cell h b) = 0)" for b
      using k [of b] cnt(1) by (cases "b \<in># refs (xrefs x)") (simp_all add: not_in_iff)
    then have "zombified h ?h" using flags_only_base [OF h1(2)] cnt 2 unfolding zombified_def by (metis base_set_cell)
    moreover have "Multiset.count (grefs as h) c < count (cell ?h c)" if "c \<in># grefs as h" for c
      using tl [of c] that 2 unfolding cnt(1) by (simp add: o)
    ultimately show ?thesis using fin [of ?h] cnt(3) 2 h1(1) by (simp add: zombify_def)
  next
    case 3
    let ?h = "set_cell a ((cell h a)\<lparr>fin := False\<rparr>) h"
    have cell: "cell ?h b = (if b = a then (cell h a)\<lparr>fin := False\<rparr> else cell h b)" for b
      using 3 used_length by (intro cell_set_cell) blast
    have "zombified h ?h" by (simp add: zombified_def cell objs_def)
    moreover have "Multiset.count (grefs as h) c < count (cell ?h c)" if "c \<in># grefs as h" for c
      using tl [of c] that by (cases "c = a") (simp_all add: cell)
    ultimately show ?thesis using fin [of ?h] 3 by (simp add: zombify_def cell objs_def)
  next
    case 4
    have "Multiset.count (grefs as h) c < count (cell h c)" if "c \<in># grefs as h" for c using tl [of c] that by simp
    then show ?thesis using fin [of h] 4
      by (cases "obj (cell h a)") (simp_all add: zombify_def zombified_def)
  qed
qed

lemma zombify_all:
  assumes "\<And>c. c \<in># grefs as h \<Longrightarrow> Multiset.count (grefs as h) c < count (cell h c)" "distinct as"
  shows "\<exists>h'. each zombify as h = Inr h' \<and> zombified h h'"
  using assms
proof (induction as arbitrary: h)
  case (Cons a as)
  obtain h1 where h1: "zombify a h = Inr h1" "zombified h h1"
    "\<And>c. c \<in># grefs as h1 \<Longrightarrow> Multiset.count (grefs as h1) c < count (cell h1 c)"
    using zombify_one [OF Cons.prems(1)] Cons.prems(2) by force
  obtain h2 where h2: "each zombify as h1 = Inr h2" "zombified h1 h2" using Cons.IH [OF h1(3)] Cons.prems(2) by auto
  have "zombified h h2" using h1(2) h2(2) by (simp add: zombified_def)
  then show ?case using h1(1) h2(1) by simp
qed (simp add: zombified_def)

section \<open>Popping and sweeping\<close>

text \<open>What \<open>symbol_popall\<close> leaves of an object.\<close>

definition global :: "obj \<Rightarrow> obj" where
  "global x = (case x of Extern (XSymbol fs) \<Rightarrow> if fs = [] then x else Extern (XSymbol [last fs]) | _ \<Rightarrow> x)"

lemma global_twice [simp]: "global (global x) = global x"
  by (simp add: global_def split: obj.split xobj.split)

lemma orefs_global: "orefs (global x) \<subseteq># orefs x"
proof -
  have "refs [fr_value (last fs)] \<subseteq># refs (map fr_value fs)" if "fs \<noteq> []" for fs
    using that by (induction fs) (auto intro: subset_mset.add_increasing)
  then show ?thesis by (auto simp: global_def split: obj.split xobj.split)
qed

lemma global_Free [simp]: "global x = Free \<longleftrightarrow> x = Free"
  by (auto simp: global_def split: obj.split xobj.split)

lemma popall_one:
  "objs (symbol_popall p h) b = (if p = Some b then global (objs h b) else objs h b)"
  "base (symbol_popall p h) = base h"
  "count (cell (symbol_popall p h) b) = count (cell h b)" "garb (cell (symbol_popall p h) b) = garb (cell h b)"
proof -
  have all: "objs (symbol_popall p h) b = (if p = Some b then global (objs h b) else objs h b) \<and>
    base (symbol_popall p h) = base h \<and> count (cell (symbol_popall p h) b) = count (cell h b) \<and>
    garb (cell (symbol_popall p h) b) = garb (cell h b)"
  proof (cases "\<exists>a fs. p = Some a \<and> obj (cell h a) = Extern (XSymbol fs) \<and> fs \<noteq> []")
    case True
    then obtain a fs where a: "p = Some a" "obj (cell h a) = Extern (XSymbol fs)" "fs \<noteq> []" by blast
    then have "a < length (cells h)" by (intro cell_nonfree_length) simp
    then show ?thesis using a
      by (auto simp: symbol_popall_def frames_cell [THEN iffD2] objs_def global_def base_def)
        (auto simp: set_frames_def set_obj_def)
  next
    case False
    then have "symbol_popall p h = h"
      by (auto simp: symbol_popall_def frames_def objof_def split: option.split obj.split xobj.split)
    moreover have "global (objs h b) = objs h b" if "p = Some b"
      using False that by (auto simp: global_def objs_def split: obj.split xobj.split)
    ultimately show ?thesis by auto
  qed
  then show "objs (symbol_popall p h) b = (if p = Some b then global (objs h b) else objs h b)"
    "base (symbol_popall p h) = base h"
    "count (cell (symbol_popall p h) b) = count (cell h b)" "garb (cell (symbol_popall p h) b) = garb (cell h b)"
    by blast+
qed

lemma popall_all:
  "objs (fold symbol_popall ps h) b = (if Some b \<in> set ps then global (objs h b) else objs h b)"
  "base (fold symbol_popall ps h) = base h"
  "count (cell (fold symbol_popall ps h) b) = count (cell h b)"
  "garb (cell (fold symbol_popall ps h) b) = garb (cell h b)"
  by (induction ps arbitrary: h) (auto simp: popall_one)

lemma flag_cells:
  "objs (flag_cells h) = objs h" "base (flag_cells h) = base h"
  "count (cell (flag_cells h) a) = (if count (cell h a) = 0 then 0 else count (cell h a) + 1073741824)"
  "count (cell h a) \<noteq> 0 \<Longrightarrow> garb (cell (flag_cells h) a)"
proof -
  have c: "cell (flag_cells h) a = (if count (cell h a) \<noteq> 0
     then (cell h a)\<lparr>count := count (cell h a) + 1073741824, garb := True\<rparr> else cell h a)" for a
    by (simp add: flag_cells_def cell_def free_at_def)
  show "objs (flag_cells h) = objs h" by (simp add: objs_def c fun_eq_iff)
  show "count (cell (flag_cells h) a) = (if count (cell h a) = 0 then 0 else count (cell h a) + 1073741824)"
    by (simp add: c)
  show "count (cell h a) \<noteq> 0 \<Longrightarrow> garb (cell (flag_cells h) a)" by (simp add: c)
qed (simp add: base_def flag_cells_def)

lemma reset_cells:
  "objs (reset_cells h) = objs h" "base (reset_cells h) = base h" "count (cell (reset_cells h) a) = 0"
proof -
  have c: "cell (reset_cells h) a = (if count (cell h a) \<noteq> 0 then (cell h a)\<lparr>count := 0, garb := False\<rparr> else cell h a)" for a
    by (simp add: reset_cells_def cell_def free_at_def)
  show "objs (reset_cells h) = objs h" "count (cell (reset_cells h) a) = 0" by (simp_all add: objs_def c fun_eq_iff)
qed (simp add: base_def reset_cells_def)

lemma sweep_fold:
  assumes "set as \<subseteq> {..<length (cells h)}"
  shows "cell (fold (\<lambda>a h. if count (cell h a) = 0 then deallocate a h else h) as h) b =
      (if b \<in> set as \<and> count (cell h b) = 0 then (cell h b)\<lparr>count := 0, obj := Free\<rparr> else cell h b) \<and>
    freelist (fold (\<lambda>a h. if count (cell h a) = 0 then deallocate a h else h) as h) =
      rev (filter (\<lambda>a. count (cell h a) = 0) as) @ freelist h \<and>
    base (fold (\<lambda>a h. if count (cell h a) = 0 then deallocate a h else h) as h) = base h"
  using assms
proof (induction as arbitrary: h)
  case (Cons a as)
  show ?case
  proof (cases "count (cell h a) = 0")
    case False then show ?thesis using Cons by auto
  next
    case True
    have c: "cell (deallocate a h) b = (if b = a then (cell h a)\<lparr>count := 0, obj := Free\<rparr> else cell h b)" for b
      using Cons.prems cell_set_cell [of a "h\<lparr>freelist := a # freelist h\<rparr>"] cell_cong [of "h\<lparr>freelist := a # freelist h\<rparr>" h]
      by (simp add: deallocate_def)
    have z: "(count (cell (deallocate a h) b) = 0) = (count (cell h b) = 0)" for b using True by (simp add: c)
    have f: "freelist (deallocate a h) = a # freelist h" "base (deallocate a h) = base h"
      by (simp_all add: deallocate_def base_def)
    have s: "set as \<subseteq> {..<length (cells (deallocate a h))}" using Cons.prems by simp
    note ih = Cons.IH [OF s, unfolded z f]
    show ?thesis using ih True by (cases "b = a") (simp_all add: c)
  qed
qed simp

lemma cell_order_ok:
  assumes "0 < chunksize h" "chunksize h dvd length (cells h)"
  shows "distinct (cell_order h)" "set (cell_order h) = {..<length (cells h)}"
proof -
  let ?n = "chunksize h"
  have blocks: "distinct (concat (map (\<lambda>i. [i * n ..< Suc i * n]) (rev [0 ..< k]))) \<and>
      set (concat (map (\<lambda>i. [i * n ..< Suc i * n]) (rev [0 ..< k]))) = {..<k * n}" for n k :: nat
    by (induction k) auto
  obtain k where "length (cells h) = k * ?n" using assms(2) by (metis dvd_div_mult_self)
  then show "distinct (cell_order h)" "set (cell_order h) = {..<length (cells h)}"
    using blocks [where n = ?n and k = k] assms(1) unfolding cell_order_def by (metis nonzero_mult_div_cancel_right not_gr0)+
qed

section \<open>Counts rebuilt\<close>

text \<open>The objects after the symbols were popped, and the collection up to the sweep.\<close>

definition popped :: "ptr list \<Rightarrow> lheap \<Rightarrow> nat \<Rightarrow> obj" where
  "popped ps h a = (if Some a \<in> set ps then global (objs h a) else objs h a)"

lemma orefs_popped: "orefs (popped ps h a) \<subseteq># orefs (objs h a)"
  by (simp add: popped_def orefs_global)

lemma reach_alive:
  assumes inv: "rc_inv {} (R + refs ps) h" and r: "reach (popped ps h) (set_mset (refs (ps @ [protected h]))) a"
  shows "count (cell h a) \<noteq> 0"
proof -
  have used: "count (cell h a) \<noteq> 0" if "a \<in># hrefs h {} + hroots h + (R + refs ps)" for a
    using rc_invD(1,2) [OF inv, of a] that by auto
  show ?thesis using r
  proof (induction rule: reach.induct)
    case (root a)
    then show ?case by (intro used) (auto simp: hroots_def)
  next
    case (step b a)
    then have "a \<in># orefs (obj (cell h b))" using mset_subset_eqD [OF orefs_popped] unfolding objs_def by blast
    moreover have "b < length (cells h)" using step by (intro used_length) blast
    ultimately have "a \<in># hrefs h {}" by (auto simp: hrefs_def set_mset_sum)
    then show ?case by (intro used) simp
  qed
qed

lemma grefs_bound:
  assumes L: "distinct L" "set L = {..<length (cells h)}" and o: "objs h' = popped ps h"
  shows "Multiset.count (grefs L h') c \<le> Multiset.count (hrefs h {}) c"
proof -
  let ?g = "\<lambda>b. if garb (cell h' b) then orefs (popped ps h b) else {#}"
  have "grefs L h' = sum ?g (set L)" unfolding grefs_def o by (rule sum_list_distinct_conv_sum_set [OF L(1)])
  then have "Multiset.count (grefs L h') c = (\<Sum>b < length (cells h). Multiset.count (?g b) c)"
    by (simp only: L(2) count_sum)
  also have "\<dots> \<le> (\<Sum>b < length (cells h). Multiset.count (orefs (obj (cell h b))) c)"
  proof (rule sum_mono)
    show "Multiset.count (?g b) c \<le> Multiset.count (orefs (obj (cell h b))) c" for b
      using mset_subset_eq_count [OF orefs_popped [of ps h b], of c] by (simp add: objs_def)
  qed
  finally show ?thesis by (simp add: hrefs_def count_sum)
qed

text \<open>The last part: the counts are computed and the free list is rebuilt.\<close>

lemma recount_ok:
  assumes z: "\<And>a. count (cell h a) = 0" and b: "bump_list h = None"
    and ch: "0 < chunksize h" "chunksize h dvd length (cells h)"
    and r: "\<And>a. reach (objs h) (set_mset (refs (ps @ [protected h]))) a \<Longrightarrow> a < length (cells h) \<and> objs h a \<noteq> Free"
  shows "rc_inv {} (refs ps) (sweep (mark_all (ps @ [protected h]) h)) \<and> base (sweep (mark_all (ps @ [protected h]) h)) = base h \<and>
    objs (sweep (mark_all (ps @ [protected h]) h)) a =
      (if reach (objs h) (set_mset (refs (ps @ [protected h]))) a then objs h a else Free)"
proof -
  let ?m = "mark_all (ps @ [protected h]) h" and ?s = "sweep (mark_all (ps @ [protected h]) h)"
  let ?S = "set_mset (refs (ps @ [protected h]))"
  let ?L = "cell_order ?m"
  have fo: "flags_only h ?m" using mark_all_ok by blast
  have m: "objs ?m = objs h" "length (cells ?m) = length (cells h)" "chunksize ?m = chunksize h"
    using fo by (simp_all add: flags_only_def fields_eq)
  have v: "visited ?m = {a. reach (objs h) ?S a}"
    "a < length (cells h) \<Longrightarrow> count (cell ?m a) = Multiset.count (refs (ps @ [protected h]) + vrefs ?m) a" for a
    using mark_exact [OF z, of "ps @ [protected h]"] r by blast+
  have L: "distinct ?L" "set ?L = {..<length (cells h)}" using cell_order_ok [of ?m] ch m by auto
  have cell0: "cell (?m\<lparr>freelist := []\<rparr>) = cell ?m" by (rule cell_cong) simp
  have s: "cell ?s a = (if a < length (cells h) \<and> count (cell ?m a) = 0 then (cell ?m a)\<lparr>count := 0, obj := Free\<rparr> else cell ?m a)"
    "freelist ?s = rev (filter (\<lambda>a. count (cell ?m a) = 0) ?L)" "base ?s = base h" for a
    using sweep_fold [of ?L "?m\<lparr>freelist := []\<rparr>" a] L m flags_only_base [OF fo]
    unfolding cell0 sweep_def by (auto simp: base_def)
  have len: "length (cells ?s) = length (cells h)" using s(3) by (simp add: base_def)
  have zero: "count (cell ?m a) = 0 \<longleftrightarrow> \<not> reach (objs h) ?S a" for a
  proof -
    have "a \<in> visited ?m \<longleftrightarrow> count (cell ?m a) \<noteq> 0" using used_length [of ?m a] by (auto simp: visited_def)
    then show ?thesis unfolding v(1) by simp
  qed
  have o: "objs ?s a = (if reach (objs h) ?S a then objs h a else Free)" for a
  proof (cases "a < length (cells h)")
    case True
    then show ?thesis using zero [of a] fun_cong [OF m(1), of a] by (simp add: objs_def s(1))
  next
    case False
    then have "cell ?m a = free_at" by (simp add: cell_def m(2))
    then show ?thesis using False r [of a] by (auto simp: objs_def s(1) free_at_def)
  qed
  have hr: "hrefs ?s {} = vrefs ?m"
  proof -
    have "hrefs ?s {} = (\<Sum>a < length (cells h). if a \<in> visited ?m then orefs (objs ?m a) else {#})"
      unfolding hrefs_def len by (intro sum.cong) (simp_all add: objs_def [symmetric] o v(1) m(1))
    also have "\<dots> = vrefs ?m" unfolding vrefs_def
      by (subst sum.inter_restrict [symmetric]) (auto simp: visited_def m(2) intro!: sum.cong)
    finally show ?thesis .
  qed
  have T: "hrefs ?s {} + hroots ?s + refs ps = refs (ps @ [protected h]) + vrefs ?m"
    using s(3) b unfolding hr by (simp add: hroots_def base_def ac_simps)
  have cnt: "count (cell ?s a) = count (cell ?m a)" for a by (simp add: s(1))
  have "rc_inv {} (refs ps) ?s" unfolding rc_inv_def T
  proof (rule rc_tableI, goal_cases)
    case (1 a) then show ?case using v(2) [of a] len cnt by simp
  next
    case (2 a)
    then consider "a \<in> ?S" | b where "b \<in> visited ?m" "a \<in># orefs (objs h b)"
      unfolding vrefs_def m(1) by (auto simp: set_mset_sum)
    then have "reach (objs h) ?S a" unfolding v(1) by cases (auto intro: reach.intros)
    then show ?case using r len by simp
  next
    case 3 show ?case unfolding s(2) using L(1) by simp
  next
    case 4 show ?case unfolding s(2) using L(2) o r zero len by (auto simp: objs_def)
  next
    case (5 a) then show ?case using o [of a] r [of a] zero [of a] by (simp add: cnt objs_def)
  qed auto
  then show ?thesis using s(3) o by blast
qed

section \<open>Dropping names\<close>

lemma distinct_head: "distinct (map f (c # b)) \<Longrightarrow> x \<in> set b \<Longrightarrow> f x \<noteq> f c"
  by (metis (no_types) distinct.simps(2) imageI list.set_map list.simps(9))

lemma find_remove_first:
  "distinct (map hn_name b) \<Longrightarrow> List.find (\<lambda>hn. hn_name hn = t) (remove_first (\<lambda>hn. hn_name hn = s) b) =
     (if t = s then None else List.find (\<lambda>hn. hn_name hn = t) b)"
proof (induction b)
  case (Cons c b)
  show ?case
  proof (cases "hn_name c = s")
    case True
    then have "hn_name x \<noteq> s" if "x \<in> set b" for x
      using distinct_head [OF Cons.prems that] by simp
    then have "List.find (\<lambda>hn. hn_name hn = s) b = None" by (simp add: find_None_iff)
    then show ?thesis using True by auto
  qed (use Cons in auto)
qed simp

lemma remove_first_set: "set (remove_first p b) \<subseteq> set b"
  by (induction b) auto

lemma remove_first_distinct: "distinct (map f b) \<Longrightarrow> distinct (map f (remove_first p b))"
  by (induction b) (use remove_first_set in \<open>fastforce+\<close>)

lemma refs_remove_first: "List.find p b = Some hn \<Longrightarrow>
    refs (map hn_named (remove_first p b)) + ref (hn_named hn) = refs (map hn_named b)"
  by (induction b) (auto split: if_splits simp: ac_simps)

lemma delete_name_ok:
  assumes w: "wf_names ns" and f: "find_name ns s = Some hn" and inv: "rc_inv {} (R + table_refs ns) h"
  shows "\<exists>ns' h'. delete_name s (ns, h) = Inr (ns', h') \<and> wf_names ns' \<and> rc_inv {} (R + table_refs ns') h' \<and>
    frees h h' \<and> (\<forall>t. find_name ns' t = (if t = s then None else find_name ns t))"
proof -
  let ?i = "name_slot s" and ?r = "remove_first (\<lambda>hn. hn_name hn = s)"
  let ?n = "ns[?i := ?r (ns ! ?i)]"
  have i: "?i < length ns" by (rule name_slot_less [OF w])
  have A: "table_refs ?n + refs (map hn_named (ns ! ?i)) = table_refs ns + refs (map hn_named (?r (ns ! ?i)))"
    by (rule table_refs_update [OF i])
  have B: "refs (map hn_named (ns ! ?i)) = refs (map hn_named (?r (ns ! ?i))) + ref (hn_named hn)"
    using f by (intro refs_remove_first [symmetric]) (simp add: find_name_def)
  have "table_refs ns + refs (map hn_named (?r (ns ! ?i))) =
      table_refs ?n + ref (hn_named hn) + refs (map hn_named (?r (ns ! ?i)))"
    unfolding A [symmetric] B by (simp only: ac_simps)
  then have t: "table_refs ns = table_refs ?n + ref (hn_named hn)" by (rule add_right_imp_eq)
  have "rc_inv {} ((R + table_refs ?n) + ref (hn_named hn)) h" using inv unfolding t by (simp add: ac_simps)
  then obtain h' where h': "UNLOCK (hn_named hn) h = Inr h'" "rc_inv {} (R + table_refs ?n) h'" "frees h h'"
    by (rule UNLOCK_ok)
  have "distinct (map hn_name (?n ! j)) \<and> (\<forall>hn \<in> set (?n ! j). name_slot (hn_name hn) = j)" if j: "j < length ns" for j
  proof (cases "j = ?i")
    case True
    have b: "distinct (map hn_name (ns ! j))" "\<forall>hn \<in> set (ns ! j). name_slot (hn_name hn) = j"
      using w j by (simp_all add: wf_names_def)
    have "?n ! j = ?r (ns ! j)" using True i by simp
    then show ?thesis
      using remove_first_distinct [OF b(1)] b(2) remove_first_set by (metis (no_types) subsetD)
  qed (use w j in \<open>simp add: wf_names_def\<close>)
  then have wn: "wf_names ?n" using w by (simp add: wf_names_def)
  have "distinct (map hn_name (ns ! ?i))" using w i by (simp add: wf_names_def)
  note r = find_remove_first [OF this, of t s for t]
  have "find_name ?n t = (if t = s then None else find_name ns t)" for t
    using r [of t] i by (cases "name_slot t = ?i") (auto simp: find_name_def)
  then show ?thesis using f h' wn by (simp add: delete_name_def)
qed

text \<open>A symbol without value, to be dropped unless something refers to it.\<close>

definition worthless :: "lheap \<Rightarrow> ptr \<Rightarrow> bool" where
  "worthless h p \<longleftrightarrow> (case frames h p of
       Some (f # fs) \<Rightarrow> \<not> fr_nopurge f \<and> (\<not> fr_bound f \<or> fr_value f = None \<or> objof h (fr_value f) = Zombie)
     | _ \<Rightarrow> False)"

lemma worthless_frees: "frees h h' \<Longrightarrow> worthless h' p \<Longrightarrow> worthless h p"
proof -
  assume f: "frees h h'" and w: "worthless h' p"
  have o: "objof h' q = objof h q \<or> objof h' q = Free" for q
    using f by (cases q) (auto simp: objof_def frees_def)
  have "frames h' p = frames h p" using w o [of p] by (auto simp: worthless_def frames_def)
  moreover have "objof h' q = Zombie \<Longrightarrow> objof h q = Zombie" for q using o [of q] by auto
  ultimately show ?thesis using w unfolding worthless_def by (auto split: option.splits list.splits)
qed

definition names_kept :: "lheap \<Rightarrow> names \<Rightarrow> names \<Rightarrow> bool" where
  "names_kept h ns ns' \<longleftrightarrow> (\<forall>t. find_name ns' t = find_name ns t \<or> find_name ns' t = None \<and> worthless h (symbol_of ns t))"

lemma purge_names_ok:
  assumes "wf_names ns" "rc_inv {} (R + table_refs ns) h" "distinct (map hn_name hns)"
    and "\<And>hn. hn \<in> set hns \<Longrightarrow> find_name ns (hn_name hn) = Some hn \<and> hn_named hn \<noteq> None"
  shows "\<exists>ns' h'. each purge_name hns (ns, h) = Inr (ns', h') \<and> wf_names ns' \<and> rc_inv {} (R + table_refs ns') h' \<and>
    frees h h' \<and> names_kept h ns ns'"
  using assms
proof (induction hns arbitrary: ns h)
  case (Cons hn hns)
  obtain a where a: "hn_named hn = Some a" and f: "find_name ns (hn_name hn) = Some hn" using Cons.prems(4) [of hn] by auto
  have "\<exists>ns1 h1. purge_name hn (ns, h) = Inr (ns1, h1) \<and> wf_names ns1 \<and> rc_inv {} (R + table_refs ns1) h1 \<and>
      frees h h1 \<and> names_kept h ns ns1 \<and> (\<forall>t. t \<noteq> hn_name hn \<longrightarrow> find_name ns1 t = find_name ns t)"
  proof (cases "removable a h")
    case False
    then show ?thesis using a Cons.prems by (simp add: purge_name_def names_kept_def)
  next
    case True
    obtain ns1 h1 where n: "delete_name (hn_name hn) (ns, h) = Inr (ns1, h1)" "wf_names ns1"
      "rc_inv {} (R + table_refs ns1) h1" "frees h h1"
      "\<And>t. find_name ns1 t = (if t = hn_name hn then None else find_name ns t)"
      using delete_name_ok [OF Cons.prems(1) f Cons.prems(2)] by blast
    have "symbol_of ns (hn_name hn) = Some a" using f a by (simp add: symbol_of_def)
    moreover have "worthless h (Some a)" using True by (simp add: removable_def worthless_def)
    ultimately have "names_kept h ns ns1" by (simp add: names_kept_def n(5))
    moreover have "purge_name hn (ns, h) = Inr (ns1, h1)"
      using a True n(1) by (simp add: purge_name_def kill_name_def removable_def)
    ultimately show ?thesis using n by auto
  qed
  then obtain ns1 h1 where one: "purge_name hn (ns, h) = Inr (ns1, h1)" "wf_names ns1" "rc_inv {} (R + table_refs ns1) h1"
    "frees h h1" "names_kept h ns ns1" "\<And>t. t \<noteq> hn_name hn \<Longrightarrow> find_name ns1 t = find_name ns t" by blast
  have "find_name ns1 (hn_name x) = Some x \<and> hn_named x \<noteq> None" if x: "x \<in> set hns" for x
  proof -
    have "hn_name x \<noteq> hn_name hn" by (rule distinct_head [OF Cons.prems(3) x])
    then show ?thesis using one(6) Cons.prems(4) [of x] x by simp
  qed
  from Cons.IH [OF one(2,3) _ this] Cons.prems(3) obtain ns2 h2 where two: "each purge_name hns (ns1, h1) = Inr (ns2, h2)"
    "wf_names ns2" "rc_inv {} (R + table_refs ns2) h2" "frees h1 h2" "names_kept h1 ns1 ns2" by auto
  have "names_kept h ns ns2" unfolding names_kept_def
  proof
    fix t
    have s: "find_name ns1 t = find_name ns t \<Longrightarrow> symbol_of ns1 t = symbol_of ns t" by (simp add: symbol_of_def)
    have e: "find_name ns1 t = None \<Longrightarrow> \<not> worthless h1 (symbol_of ns1 t)"
      by (simp add: symbol_of_def worthless_def frames_def objof_def)
    show "find_name ns2 t = find_name ns t \<or> find_name ns2 t = None \<and> worthless h (symbol_of ns t)"
      using one(5) two(5) s e worthless_frees [OF one(4)] unfolding names_kept_def by metis
  qed
  then show ?case using one(1) two frees_trans [OF one(4)] by auto
qed (simp add: names_kept_def)

section \<open>A whole collection\<close>

definition survivor :: "names \<Rightarrow> lheap \<Rightarrow> nat \<Rightarrow> bool" where
  "survivor ns h a \<longleftrightarrow> reach (popped (map hn_named (all_names ns)) h) (set_mset (refs (roots ns h))) a"

lemma collect_ok:
  assumes inv: "rc_inv {} (R + table_refs ns) h" and b: "bump_list h = None"
    and ch: "0 < chunksize h" "chunksize h dvd length (cells h)"
  obtains h2 h3 h5 where
    "h2 = unflag_all (roots ns h) (fold symbol_popall (map hn_named (all_names ns)) (flag_cells h))"
    "each zombify (cell_order h2) h2 = Inr h3" "h5 = sweep (mark_all (roots ns h) (reset_cells h3))"
    "protected h3 = protected h" "rc_inv {} (table_refs ns) h5" "bump_active h5 = bump_active h"
    "\<And>a. objs h5 a = (if survivor ns h a then popped (map hn_named (all_names ns)) h a else Free)"
proof -
  let ?ps = "map hn_named (all_names ns)"
  let ?f = "popped ?ps h" and ?S = "set_mset (refs (roots ns h))"
  define h1 where "h1 = fold symbol_popall ?ps (flag_cells h)"
  define h2 where "h2 = unflag_all (roots ns h) h1"
  have inv': "rc_inv {} (R + refs ?ps) h" using inv by (simp add: table_refs_def)
  have ro: "roots ns h = ?ps @ [protected h]" by (simp add: roots_def)
  have alive: "count (cell h a) \<noteq> 0" if "reach ?f ?S a" for a using reach_alive [OF inv', of a] that unfolding ro by blast
  have o1: "objs h1 = ?f" and c1: "count (cell h1 a) = (if count (cell h a) = 0 then 0 else count (cell h a) + 1073741824)"
    and b1: "base h1 = base h" and g1: "count (cell h1 a) \<noteq> 0 \<Longrightarrow> garb (cell h1 a)" for a
    using flag_cells(4) [of h a] unfolding h1_def
    by (auto simp: popall_all flag_cells popped_def fun_eq_iff split: if_splits)
  have alive1: "count (cell h1 a) \<noteq> 0" if "reach (objs h1) ?S a" for a using alive that unfolding o1 by (simp add: c1)
  note u = unflag_all_ok [of h1 "roots ns h", folded h2_def]
  have fo: "flags_only h1 h2" and c2: "count (cell h2 a) = count (cell h1 a)" for a using u by blast+
  have g2: "\<not> garb (cell h2 a)" if "reach ?f ?S a" for a
    using unflag_exact [of h1 "roots ns h" a] g1 alive1 that unfolding o1 h2_def by blast
  have o2: "objs h2 = ?f" and b2: "base h2 = base h" using fo flags_only_base [OF fo] o1 b1 by (simp_all add: flags_only_def)
  have L: "distinct (cell_order h2)" "set (cell_order h2) = {..<length (cells h)}"
    using cell_order_ok [of h2] ch b2 by (auto simp: base_def)
  have "Multiset.count (grefs (cell_order h2) h2) c < count (cell h2 c)" if "c \<in># grefs (cell_order h2) h2" for c
  proof -
    have le: "Multiset.count (grefs (cell_order h2) h2) c \<le> Multiset.count (hrefs h {}) c" by (rule grefs_bound [OF L o2])
    have "0 < Multiset.count (hrefs h {}) c" using le that by (metis count_greater_zero_iff less_le_trans)
    then have "c \<in># hrefs h {} + hroots h + (R + table_refs ns)" by simp
    then have "count (cell h c) = Multiset.count (hrefs h {} + hroots h + (R + table_refs ns)) c" "count (cell h c) \<noteq> 0"
      using rc_invD(1,2) [OF inv, of c] by auto
    then show ?thesis using le by (simp add: c2 c1)
  qed
  from zombify_all [OF this L(1)] obtain h3 where h3: "each zombify (cell_order h2) h2 = Inr h3" "zombified h2 h3" by blast
  define h4 where "h4 = reset_cells h3"
  have b4: "base h4 = base h" using h3(2) b2 by (simp add: h4_def reset_cells zombified_def)
  have o4: "objs h4 a = ?f a" if "reach ?f ?S a" for a
    using h3(2) g2 [OF that] o2 by (simp add: h4_def reset_cells zombified_def)
  have r4: "reach (objs h4) ?S a = reach ?f ?S a" for a by (rule reach_cong_iff [OF o4])
  have p4: "roots ns h = ?ps @ [protected h4]" using b4 by (simp add: ro base_def)
  have live: "a < length (cells h4) \<and> objs h4 a \<noteq> Free" if "reach (objs h4) ?S a" for a
  proof -
    have r: "reach ?f ?S a" using that r4 by blast
    have "a < length (cells h)" by (rule used_length [OF alive [OF r]])
    moreover have "objs h a \<noteq> Free" using alive [OF r] calculation rc_invD(5) [OF inv] by (auto simp: objs_def)
    ultimately show ?thesis using o4 [OF r] b4 by (simp add: popped_def base_def)
  qed
  note fin = recount_ok [of h4 ?ps, folded p4, OF _ _ _ _ live]
  have fin: "rc_inv {} (refs ?ps) (sweep (mark_all (roots ns h) h4)) \<and> base (sweep (mark_all (roots ns h) h4)) = base h4 \<and>
      objs (sweep (mark_all (roots ns h) h4)) a = (if reach (objs h4) ?S a then objs h4 a else Free)" for a
    using fin [of a] b4 b ch by (simp add: base_def h4_def reset_cells)
  have "objs (sweep (mark_all (roots ns h) h4)) a = (if survivor ns h a then ?f a else Free)" for a
    using fin [of a] r4 [of a] o4 [of a] by (simp add: survivor_def)
  then show ?thesis
    using that [of h2 h3 "sweep (mark_all (roots ns h) h4)"] fin h3 b4 b2
    unfolding h2_def h1_def h4_def by (simp add: table_refs_def base_def zombified_def)
qed

lemma garbage_ok:
  assumes w: "wf_names ns" and inv: "rc_inv {} (R + table_refs ns) h" and b: "bump_list h = None"
    and ch: "0 < chunksize h" "chunksize h dvd length (cells h)" and sy: "\<And>hn. hn \<in> set (all_names ns) \<Longrightarrow> hn_named hn \<noteq> None"
  shows "\<exists>ns' h5 h'. garbage (ns, h) = Inr (ns', h') \<and> wf_names ns' \<and> rc_inv {} (table_refs ns') h' \<and> frees h5 h' \<and>
    (\<forall>a. objs h5 a = (if survivor ns h a then popped (map hn_named (all_names ns)) h a else Free)) \<and> names_kept h5 ns ns'"
proof -
  obtain h2 h3 h5 where h: "h2 = unflag_all (roots ns h) (fold symbol_popall (map hn_named (all_names ns)) (flag_cells h))"
    "each zombify (cell_order h2) h2 = Inr h3" "h5 = sweep (mark_all (roots ns h) (reset_cells h3))"
    "protected h3 = protected h" "rc_inv {} (table_refs ns) h5"
    "\<And>a. objs h5 a = (if survivor ns h a then popped (map hn_named (all_names ns)) h a else Free)"
    using collect_ok [OF inv b ch] by metis
  have "find_name ns (hn_name hn) = Some hn \<and> hn_named hn \<noteq> None" if hn: "hn \<in> set (all_names ns)" for hn
  proof -
    have d: "distinct (map hn_name (all_names ns))" by (rule distinct_names [OF w])
    obtain x where x: "find_name ns (hn_name hn) = Some x" using in_all_names [OF w, of "hn_name hn"] hn by auto
    then have xs: "hn_name x = hn_name hn" "x \<in> set (ns ! name_slot (hn_name hn))"
      by (auto simp: find_name_def find_Some_iff)
    then have "x \<in> set (all_names ns)" using name_slot_less [OF w, of "hn_name hn"] by (auto simp: all_names_def)
    then have "x = hn" using d hn xs(1) by (simp add: distinct_map inj_on_def)
    then show ?thesis using x sy hn by simp
  qed
  moreover have "rc_inv {} ({#} + table_refs ns) h5" using h(5) by simp
  ultimately obtain ns' h' where n: "each purge_name (all_names ns) (ns, h5) = Inr (ns', h')" "wf_names ns'"
    "rc_inv {} ({#} + table_refs ns') h'" "frees h5 h'" "names_kept h5 ns ns'"
    using purge_names_ok [OF w _ distinct_names [OF w]] by blast
  have p1: "protected (fold symbol_popall (map hn_named (all_names ns)) (flag_cells h)) = protected h"
    using popall_all(2) [of "map hn_named (all_names ns)" "flag_cells h"] flag_cells(2) [of h] by (simp add: base_def)
  have p3: "protected (reset_cells h3) = protected h" using h(4) by (simp add: reset_cells_def)
  have r: "roots ns x = roots ns h" if "protected x = protected h" for x using that by (simp add: roots_def)
  have "garbage (ns, h) = Inr (ns', h')"
    unfolding garbage_def Let_def prod.case r [OF p1] h(1) [symmetric] h(2) res_bind_simps r [OF p3] h(3) [symmetric] n(1) ..
  then show ?thesis using n h(6) by auto
qed

end
