(* ===== verification/CollectorProps.thy ===== *)
theory CollectorProps
  imports CollectorExact SymbolProps
begin

text \<open>The property of the collector.\<close>

section \<open>A heap with a leaked reference\<close>

text \<open>The symbol \<open>a\<close>, bound to a cons, and a second cons that only interrupted code holds.\<close>

definition leaky_heap :: lheap where
  "leaky_heap = \<lparr>cells = [\<lparr>count = 1, obj = Extern (XSymbol
       [\<lparr>fr_mode = 1, fr_nopurge = False, fr_value = Some 1, fr_bound = True\<rparr>]), fin = False, garb = False\<rparr>,
       \<lparr>count = 2, obj = Cons None None, fin = False, garb = False\<rparr>,
       \<lparr>count = 1, obj = Cons (Some 1) None, fin = False, garb = False\<rparr>],
     freelist = [], chunksize = 3, os_chunks = 1, finalizers = [], fin_log = [], protected = None,
     bump_active = False, bump_list = None\<rparr>"



lemma leaky_cells: "cell leaky_heap a = (if a = 0 then \<lparr>count = 1, obj = Extern (XSymbol
       [\<lparr>fr_mode = 1, fr_nopurge = False, fr_value = Some 1, fr_bound = True\<rparr>]), fin = False, garb = False\<rparr>
    else if a = 1 then \<lparr>count = 2, obj = Cons None None, fin = False, garb = False\<rparr>
    else if a = 2 then \<lparr>count = 1, obj = Cons (Some 1) None, fin = False, garb = False\<rparr> else free_at)"
  by (auto simp: cell_def leaky_heap_def nth_Cons split: nat.splits)


section \<open>The property\<close>



text \<open>\<open>mark\<close> computes counts: started on cells whose counts are all 0, it ends with a count of zero on
  exactly the unreachable cells, and on the others with the number of references from the roots and from the
  reachable cells.\<close>

theorem mark_counts:
  assumes "\<And>a. count (cell h a) = 0" "\<And>a. reach (objs h) (set_mset (refs ps)) a \<Longrightarrow> a < length (cells h)"
  shows "visited (mark_all ps h) = {a. reach (objs h) (set_mset (refs ps)) a} \<and> objs (mark_all ps h) = objs h \<and>
    (\<forall>a < length (cells h). count (cell (mark_all ps h) a) =
       Multiset.count (refs ps) a + (\<Sum>b \<in> visited (mark_all ps h). Multiset.count (orefs (objs h b)) a))"
proof -
  have o: "objs (mark_all ps h) = objs h" using mark_all_ok [of h ps] by (simp add: flags_only_def)
  then show ?thesis
    using mark_exact [of h ps] assms by (simp add: vrefs_def count_sum)
qed

theorem mark_counts_witness:
  "visited (mark_all [Some 0] (reset_cells leaky_heap)) = {a. reach (objs leaky_heap) {0} a}"
proof -
  have "a \<in> {0, 1}" if "reach (objs leaky_heap) {0} a" for a
    using that by (induction rule: reach.induct) (auto simp: objs_def leaky_cells)
  moreover have "length (cells (reset_cells leaky_heap)) = 3" by (simp add: reset_cells_def leaky_heap_def)
  ultimately have "a < length (cells (reset_cells leaky_heap))" if "reach (objs leaky_heap) {0} a" for a using that by fastforce
  then show ?thesis
    using mark_counts [of "reset_cells leaky_heap" "[Some 0]"] by (simp add: reset_cells)
qed

end
