(* ===== verification/Regex.thy ===== *)
theory Regex
  imports Prelude
begin

unbundle bit_operations_syntax

text \<open>
  The regular expressions of \<open>src/src/string.c\<close>: the compiler, which writes code words of 16 bits into
  a buffer, and the backtracking machine that runs them.

  A pattern is the list of the characters that \<open>pat\<close> still points to; its end is the NUL. A piece of
  code (\<open>bounds\<close>) is the list of its words together with the index \<open>p\<close> in the buffer where it starts;
  jumps are relative, so moving a piece keeps it. \<open>lim\<close> is the index of \<open>buf.end\<close>, \<open>cap\<close> the size of the
  buffer. A word is a \<open>nat\<close> below 65536, so \<open>c&0xf000\<close> is \<open>c div 4096\<close>. \<open>serror\<close> makes
  \<open>regex_compile\<close> return its message: here the error. The recursion has fuel.
\<close>

section \<open>Words\<close>

definition RE_RNG :: nat where "RE_RNG = 0x1000"
definition RE_ANY :: nat where "RE_ANY = 0x2000"
definition RE_JMP :: nat where "RE_JMP = 0x3800"
definition RE_FAIL :: nat where "RE_FAIL = 0x4800"
definition RE_START :: nat where "RE_START = 0x5000"
definition RE_END :: nat where "RE_END = 0x6000"
definition RE_CARET :: nat where "RE_CARET = 0x7000"
definition RE_DOLLAR :: nat where "RE_DOLLAR = 0x8000"

lemmas re_words = RE_RNG_def RE_ANY_def RE_JMP_def RE_FAIL_def RE_START_def RE_END_def RE_CARET_def RE_DOLLAR_def

text \<open>A character as \<open>unsigned char\<close> and as \<open>char\<close>, and the conversion to \<open>unsigned short\<close>.\<close>

definition uchar :: "char \<Rightarrow> nat" where
  "uchar c = of_char c"

definition schar :: "char \<Rightarrow> int" where
  "schar c = (if uchar c < 128 then int (uchar c) else int (uchar c) - 256)"

definition ushort :: "int \<Rightarrow> nat" where
  "ushort x = nat (x mod 65536)"

section \<open>Character sets\<close>

definition charset_zero :: "nat list" where
  "charset_zero = replicate 16 0"

definition charset_toggle :: "nat list \<Rightarrow> nat list" where
  "charset_toggle ws = map (\<lambda>w. w XOR 65535) ws"

definition charset_set :: "nat list \<Rightarrow> nat \<Rightarrow> nat list" where
  "charset_set ws i = ws[i div 16 := (ws ! (i div 16)) OR 2 ^ (i mod 16)]"

definition charset_tst :: "nat \<Rightarrow> nat \<Rightarrow> bool" where
  "charset_tst w i = bit w (i mod 16)"

definition set_range :: "nat list \<Rightarrow> int \<Rightarrow> int \<Rightarrow> nat list" where
  "set_range ws a b = fold (\<lambda>i ws. charset_set ws (nat (i mod 256))) [a..b] ws"

text \<open>The loop over the characters between brackets; the result is the set and what follows the bracket.\<close>

function bracket_loop :: "string \<Rightarrow> int \<Rightarrow> nat list \<Rightarrow> (nat list \<times> string) res" where
  "bracket_loop pat prev ws = (case pat of
       [] \<Rightarrow> Inl (Lush ''Unbalanced [] in regex'')
     | c # rest \<Rightarrow>
         if c = CHR '']'' then Inr (ws, rest)
         else if c = CHR ''-'' \<and> prev \<noteq> 0 \<and> rest \<noteq> [] \<and> hd rest \<noteq> CHR '']''
         then bracket_loop (tl rest) (max prev (schar (hd rest) + 1)) (set_range ws prev (schar (hd rest)))
         else bracket_loop rest (schar c) (charset_set ws (uchar c)))"
  by pat_completeness auto
termination by (relation "measure (\<lambda>(pat, prev, ws). length pat)") (auto simp: neq_Nil_conv)

declare bracket_loop.simps [simp del]

text \<open>The index of the last word that is kept.\<close>

definition last_word :: "nat list \<Rightarrow> nat" where
  "last_word ws = (let is = filter (\<lambda>i. ws ! i \<noteq> 0) [0..<16] in if is = [] then 0 else last is)"

definition parse_set :: "string \<Rightarrow> (nat list \<times> string) res" where
  "parse_set pat = (let toggle = (take 1 pat = ''^''); pat = (if toggle then tl pat else pat);
       first = (take 1 pat = '']''); ws = (if first then charset_set charset_zero (uchar (CHR '']'')) else charset_zero) in
     res_bind (bracket_loop (if first then tl pat else pat) 0 ws) (\<lambda>(ws, rest).
       let ws = (if toggle then charset_toggle ws else ws) in Inr (take (last_word ws + 1) ws, rest)))"

section \<open>The compiler\<close>

definition too_complex :: lush_error where
  "too_complex = Lush ''Regex is too complex''"

definition concatc :: "nat \<Rightarrow> nat \<Rightarrow> nat list \<Rightarrow> int \<Rightarrow> nat list res" where
  "concatc p lim code c = (if p + length code + 4 > lim then Inl too_complex else Inr (code @ [ushort c]))"

definition concatb :: "nat \<Rightarrow> nat \<Rightarrow> nat list \<Rightarrow> nat list \<Rightarrow> nat list res" where
  "concatb p lim code b = (if p + length code + length b + 4 > lim then Inl too_complex else Inr (code @ b))"

text \<open>\<open>regex_single\<close>, over the function that compiles what is between parentheses.\<close>

definition regex_single_with ::
  "(nat \<Rightarrow> string \<Rightarrow> nat \<Rightarrow> (nat list \<times> string \<times> nat) res) \<Rightarrow> nat \<Rightarrow> nat \<Rightarrow> nat \<Rightarrow> string \<Rightarrow> nat \<Rightarrow>
   (nat list \<times> string \<times> nat) res" where
  "regex_single_with alternate cap lim p pat rnum = (case pat of
       [] \<Rightarrow> Inl (Lush ''Regex syntax error'')
     | c # rest \<Rightarrow>
         if c = CHR ''|'' then Inl (Lush ''Regex syntax error'')
         else if c = CHR '']'' then Inl (Lush ''Unbalanced [] in regex'')
         else if c = CHR '')'' then Inl (Lush ''Unbalanced () in regex'')
         else if c = CHR 0x5C then
           (case rest of
              [] \<Rightarrow> Inl (Lush ''Bad badslash escape in regex'')
            | d # rest' \<Rightarrow> res_bind (concatc p lim [] (schar d)) (\<lambda>code. Inr (code, rest', rnum)))
         else if c = CHR ''.'' then res_bind (concatc p lim [] (int RE_ANY)) (\<lambda>code. Inr (code, rest, rnum))
         else if c = CHR ''('' then
           res_bind (concatc p lim [] (int (RE_START + rnum))) (\<lambda>code.
           res_bind (alternate (p + 1) rest (rnum + 1)) (\<lambda>(tmp, rest', rnum').
           res_bind (concatb p lim code tmp) (\<lambda>code.
             if take 1 rest' \<noteq> '')'' then Inl (Lush ''Unbalanced () in regex'')
             else res_bind (concatc p lim code (int (RE_END + rnum))) (\<lambda>code. Inr (code, tl rest', rnum')))))
         else if c = CHR ''['' then
           (if p + 17 > cap then Inl (Undef ''character set written past the end of the buffer'')
            else res_bind (parse_set rest) (\<lambda>(ws, rest').
              res_bind (concatc p lim [] (int (RE_RNG + length ws))) (\<lambda>code. Inr (code @ ws, rest', rnum))))
         else if c = CHR ''^'' then res_bind (concatc p lim [] (int RE_CARET)) (\<lambda>code. Inr (code, rest, rnum))
         else if c = CHR ''$'' then res_bind (concatc p lim [] (int RE_DOLLAR)) (\<lambda>code. Inr (code, rest, rnum))
         else res_bind (concatc p lim [] (int (uchar c))) (\<lambda>code. Inr (code, rest, rnum)))"

definition regex_several_with ::
  "(nat \<Rightarrow> string \<Rightarrow> nat \<Rightarrow> (nat list \<times> string \<times> nat) res) \<Rightarrow> nat \<Rightarrow> nat \<Rightarrow> nat \<Rightarrow> string \<Rightarrow> nat \<Rightarrow>
   (nat list \<times> string \<times> nat) res" where
  "regex_several_with alternate cap lim p pat rnum =
     res_bind (regex_single_with alternate cap lim (p + 2) pat rnum) (\<lambda>(b, rest, rnum).
     let n = int (length b) in
     if take 1 rest = ''?'' then
       res_bind (concatc p lim [] (int RE_FAIL + n)) (\<lambda>code.
       res_bind (concatb p lim code b) (\<lambda>code. Inr (code, tl rest, rnum)))
     else if take 1 rest = ''+'' then
       res_bind (concatb p lim [] b) (\<lambda>code.
       res_bind (concatc p lim code (int RE_FAIL + 1)) (\<lambda>code.
       res_bind (concatc p lim code (int RE_JMP - n - 2)) (\<lambda>code. Inr (code, tl rest, rnum))))
     else if take 1 rest = ''*'' then
       res_bind (concatc p lim [] (int RE_FAIL + n + 1)) (\<lambda>code.
       res_bind (concatb p lim code b) (\<lambda>code.
       res_bind (concatc p lim code (int RE_JMP - n - 2)) (\<lambda>code. Inr (code, tl rest, rnum))))
     else res_bind (concatb p lim [] b) (\<lambda>code. Inr (code, rest, rnum)))"

text \<open>The loop of \<open>regex_catenate\<close>, at least one turn; \<open>code\<close> is what the turns so far wrote at \<open>p\<close>.\<close>

fun catenate_loop ::
  "nat \<Rightarrow> (nat \<Rightarrow> string \<Rightarrow> nat \<Rightarrow> (nat list \<times> string \<times> nat) res) \<Rightarrow> nat \<Rightarrow> nat \<Rightarrow> nat \<Rightarrow> nat list \<Rightarrow> string \<Rightarrow> nat \<Rightarrow>
   (nat list \<times> string \<times> nat) res" where
  "catenate_loop 0 alternate cap lim p code pat rnum = Inl NoFuel"
| "catenate_loop (Suc n) alternate cap lim p code pat rnum =
     res_bind (regex_several_with alternate cap lim (p + length code) pat rnum) (\<lambda>(b, rest, rnum).
     res_bind (concatb p lim code b) (\<lambda>code.
       if rest = [] \<or> hd rest \<in> {CHR ''|'', CHR '')''} then Inr (code, rest, rnum)
       else catenate_loop n alternate cap lim p code rest rnum))"

text \<open>\<open>regex_alternate\<close>; the second alternative numbers its registers like the first one.\<close>

fun regex_alternate :: "nat \<Rightarrow> nat \<Rightarrow> nat \<Rightarrow> nat \<Rightarrow> string \<Rightarrow> nat \<Rightarrow> (nat list \<times> string \<times> nat) res" where
  "regex_alternate 0 cap lim p pat rnum = Inl NoFuel"
| "regex_alternate (Suc n) cap lim p pat rnum =
     res_bind (catenate_loop (Suc (length pat)) (regex_alternate n cap lim) cap lim (p + 1) [] pat rnum) (\<lambda>(b1, rest, rnum1).
     if take 1 rest = ''|'' then
       res_bind (regex_alternate n cap lim (p + 1 + length b1 + 1) (tl rest) rnum) (\<lambda>(b2, rest', rnum2).
       res_bind (concatc p lim [] (int RE_FAIL + int (length b1) + 1)) (\<lambda>code.
       res_bind (concatb p lim code b1) (\<lambda>code.
       res_bind (concatc p lim code (int RE_JMP + int (length b2))) (\<lambda>code.
       res_bind (concatb p lim code b2) (\<lambda>code. Inr (code, rest', max rnum1 rnum2))))))
     else res_bind (concatb p lim [] b1) (\<lambda>code. Inr (code, rest, rnum1)))"

text \<open>\<open>regex_compile\<close> over a buffer of \<open>cap\<close> words: the words after the first one, up to the 0 that ends
  the code, and the number of registers.\<close>

definition regex_compile :: "nat \<Rightarrow> string \<Rightarrow> bool \<Rightarrow> (nat list \<times> nat) res" where
  "regex_compile cap pattern strict =
     res_bind (regex_alternate (Suc (length pattern)) cap (cap - (if strict then 2 else 1)) (if strict then 2 else 1) pattern 0)
       (\<lambda>(code, _, rnum).
         Inr ((if strict then [RE_CARET] else []) @ code @ (if strict then [RE_DOLLAR] else []) @ [0], rnum))"

section \<open>The machine\<close>

text \<open>
  \<open>pc\<close> and \<open>dat\<close> are the positions in the code and in the data; \<open>regsptr\<close> has the starts of the registers
  and, above them, the starts of the groups entered. The stack has its oldest entry first.
\<close>

record machine =
  pc :: nat
  dat :: nat
  stack :: "(nat \<times> nat) list"
  regsptr :: "nat option list"
  regslen :: "int list"

datatype outcome = Next machine | Accept machine | Reject machine | Crash

definition re_fail :: "machine \<Rightarrow> outcome" where
  "re_fail m = (if stack m = [] then Reject m
     else Next (m\<lparr>pc := fst (last (stack m)), dat := snd (last (stack m)), stack := butlast (stack m)\<rparr>))"

definition goto :: "int \<Rightarrow> machine \<Rightarrow> outcome" where
  "goto q m = (if q < 0 then Crash else Next (m\<lparr>pc := nat q\<rparr>))"

definition re_step :: "nat list \<Rightarrow> string \<Rightarrow> nat \<Rightarrow> machine \<Rightarrow> outcome" where
  "re_step code data nregs m = (
     if length code \<le> pc m then Crash
     else let c = code ! pc m; op = c div 4096; q = pc m + 1; d = dat m; over = (length data \<le> d) in
       if c = 0 then Accept m
       else if op = 7 then (if d \<noteq> 0 then re_fail m else Next (m\<lparr>pc := q\<rparr>))
       else if op = 8 then (if \<not> over then re_fail m else Next (m\<lparr>pc := q\<rparr>))
       else if op = 0 then
         (if over \<or> uchar (data ! d) \<noteq> c mod 256 then re_fail m else Next (m\<lparr>pc := q, dat := d + 1\<rparr>))
       else if op = 1 then
         (let n = c - RE_RNG in
          if over \<or> schar (data ! d) \<ge> int n * 16 then re_fail m
          else let w = q + uchar (data ! d) div 16 in
            if length code \<le> w then Crash
            else if \<not> charset_tst (code ! w) (uchar (data ! d)) then re_fail m
            else Next (m\<lparr>pc := q + n, dat := d + 1\<rparr>))
       else if op = 2 then (if over then re_fail m else Next (m\<lparr>pc := q, dat := d + 1\<rparr>))
       else if op = 3 then
         (if over \<and> c < RE_JMP then Next (m\<lparr>pc := q\<rparr>) else goto (int q + int c - int RE_JMP) m)
       else if op = 4 then
         (let t = int q + int c - int RE_FAIL; e = (nat t, d); sp = length (stack m) in
          if t < 0 then Crash
          else if 0 < sp \<and> stack m ! (sp div 2) = e then re_fail m
          else Next (m\<lparr>pc := q, stack := stack m @ [e]\<rparr>))
       else if op = 5 then
         (let r = c mod 256 in
          Next (m\<lparr>pc := q, regsptr := (if r < nregs then (regsptr m)[nregs + r := Some d] else regsptr m)\<rparr>))
       else if op = 6 then
         (let r = c mod 256 in
          if r \<ge> nregs then Next (m\<lparr>pc := q\<rparr>)
          else (case regsptr m ! (nregs + r) of
              None \<Rightarrow> Crash
            | Some b \<Rightarrow> Next (m\<lparr>pc := q, regsptr := (regsptr m)[r := Some b], regslen := (regslen m)[r := int d - int b]\<rparr>)))
       else Next (m\<lparr>pc := q\<rparr>))"

fun regex_execute :: "nat \<Rightarrow> nat list \<Rightarrow> string \<Rightarrow> nat \<Rightarrow> machine \<Rightarrow> outcome option" where
  "regex_execute 0 code data nregs m = None"
| "regex_execute (Suc n) code data nregs m = (case re_step code data nregs m of
       Next m' \<Rightarrow> regex_execute n code data nregs m' | r \<Rightarrow> Some r)"

definition re_start :: "nat \<Rightarrow> nat \<Rightarrow> machine" where
  "re_start d nregs = \<lparr>pc = 0, dat = d, stack = [], regsptr = replicate (2 * nregs) None, regslen = replicate nregs 0\<rparr>"

section \<open>The callers\<close>

definition regex_exec :: "nat \<Rightarrow> nat list \<Rightarrow> string \<Rightarrow> nat \<Rightarrow> outcome option" where
  "regex_exec fuel code data nregs = regex_execute fuel code data nregs (re_start 0 nregs)"

text \<open>\<open>regex_seek\<close> tries the positions from \<open>d\<close> on, but not the end of the string.\<close>

function regex_seek :: "nat \<Rightarrow> nat list \<Rightarrow> string \<Rightarrow> nat \<Rightarrow> nat \<Rightarrow> (nat \<times> machine) option res" where
  "regex_seek fuel code data nregs d = (if length data \<le> d then Inr None
     else case regex_execute fuel code data nregs (re_start d nregs) of
       None \<Rightarrow> Inl NoFuel
     | Some (Accept m) \<Rightarrow> Inr (Some (d, m))
     | Some (Reject m) \<Rightarrow> regex_seek fuel code data nregs (d + 1)
     | _ \<Rightarrow> Inl (Undef ''regex''))"
  by pat_completeness auto
termination by (relation "measure (\<lambda>(f, c, s, n, d). length s - d)") auto

declare regex_seek.simps [simp del]

definition xregex_match :: "nat \<Rightarrow> string \<Rightarrow> string \<Rightarrow> bool res" where
  "xregex_match fuel pattern data = res_bind (regex_compile 1024 pattern True) (\<lambda>(code, _).
     case regex_exec fuel code data 0 of
       None \<Rightarrow> Inl NoFuel
     | Some (Accept m) \<Rightarrow> Inr True
     | Some (Reject m) \<Rightarrow> Inr False
     | _ \<Rightarrow> Inl (Undef ''regex''))"

text \<open>\<open>regex-extract\<close>: the strings of the registers, or the whole string when there is none.\<close>

definition register_string :: "string \<Rightarrow> machine \<Rightarrow> nat \<Rightarrow> string res" where
  "register_string data m i = (if regslen m ! i < 0 then Inl (Undef ''string of negative length'') else if regslen m ! i = 0 then Inr []
     else case regsptr m ! i of None \<Rightarrow> Inl (Undef ''regex'')
     | Some b \<Rightarrow> Inr (take (nat (regslen m ! i)) (drop b data)))"

definition xregex_extract :: "nat \<Rightarrow> string \<Rightarrow> string \<Rightarrow> string list option res" where
  "xregex_extract fuel pattern data = res_bind (regex_compile 1024 pattern True) (\<lambda>(code, regnum).
     case regex_exec fuel code data regnum of
       None \<Rightarrow> Inl NoFuel
     | Some (Accept m) \<Rightarrow> res_bind (res_map (register_string data m) [0..<regnum]) (\<lambda>rs.
         Inr (Some (if rs = [] then [data] else rs)))
     | Some (Reject m) \<Rightarrow> Inr None
     | _ \<Rightarrow> Inl (Undef ''regex''))"

text \<open>\<open>regex-seek\<close>: the position of the match, from 1, and its length; \<open>n\<close> is the position to start from.\<close>

definition xregex_seek :: "nat \<Rightarrow> string \<Rightarrow> string \<Rightarrow> int \<Rightarrow> (int \<times> int) option res" where
  "xregex_seek fuel pattern data n = res_bind (regex_compile 1024 pattern False) (\<lambda>(code, _).
     res_bind (regex_seek fuel code data 0 (min (nat (n - 1)) (length data))) (\<lambda>r. Inr (case r of
         None \<Rightarrow> None
       | Some (s, m) \<Rightarrow> Some (1 + int s, int (dat m) - int s))))"

section \<open>Bytes\<close>

lemma uchar_less [simp]: "uchar c < 256"
  by (simp add: uchar_def)

lemma uchar_pos: "c \<noteq> CHR 0x00 \<Longrightarrow> 0 < uchar c"
proof -
  assume c: "c \<noteq> CHR 0x00"
  have "uchar c \<noteq> uchar (CHR 0x00)" using c unfolding uchar_def by (simp only: of_char_eq_iff) simp
  then show ?thesis by (simp add: uchar_def)
qed

end
