(* ===== verification/RegexSyntax.thy ===== *)
theory RegexSyntax
  imports Regex
begin

text \<open>
  The grammar of regular expressions, as the comment above the code gives it, with the expression each
  phrase stands for, and the proof that the compiler parses this grammar and emits the code of the
  expression: position-independent, every word in range.
\<close>

section \<open>Expressions and their code\<close>

text \<open>\<open>Skip w\<close> is a word that no case of the machine handles: an escaped character above 127.\<close>

datatype re =
    Lit nat
  | Skip nat
  | Rng "nat list"
  | Any
  | Caret
  | Dollar
  | Group nat re
  | Opt re
  | Plus re
  | Star re
  | Cat re re
  | Alt re re

fun emit :: "re \<Rightarrow> nat list" where
  "emit (Lit c) = [c]"
| "emit (Skip w) = [w]"
| "emit (Rng ws) = (RE_RNG + length ws) # ws"
| "emit Any = [RE_ANY]"
| "emit Caret = [RE_CARET]"
| "emit Dollar = [RE_DOLLAR]"
| "emit (Group k r) = (RE_START + k) # emit r @ [RE_END + k]"
| "emit (Opt r) = (RE_FAIL + length (emit r)) # emit r"
| "emit (Plus r) = emit r @ [RE_FAIL + 1, RE_JMP - length (emit r) - 2]"
| "emit (Star r) = (RE_FAIL + length (emit r) + 1) # emit r @ [RE_JMP - length (emit r) - 2]"
| "emit (Cat r s) = emit r @ emit s"
| "emit (Alt r s) = (RE_FAIL + length (emit r) + 1) # emit r @ (RE_JMP + length (emit s)) # emit s"

fun is_single :: "re \<Rightarrow> bool" where
  "is_single (Opt r) = False"
| "is_single (Plus r) = False"
| "is_single (Star r) = False"
| "is_single (Cat r s) = False"
| "is_single (Alt r s) = False"
| "is_single _ = True"

fun wf_re :: "re \<Rightarrow> bool" where
  "wf_re (Lit c) = (0 < c \<and> c < 256)"
| "wf_re (Skip w) = (w div 4096 = 15)"
| "wf_re (Rng ws) = (1 \<le> length ws \<and> length ws \<le> 16)"
| "wf_re (Group k r) = (k < 4096 \<and> wf_re r)"
| "wf_re (Opt r) = (is_single r \<and> wf_re r)"
| "wf_re (Plus r) = (is_single r \<and> wf_re r)"
| "wf_re (Star r) = (is_single r \<and> wf_re r)"
| "wf_re (Cat r s) = (wf_re r \<and> wf_re s)"
| "wf_re (Alt r s) = (wf_re r \<and> wf_re s)"
| "wf_re _ = True"

lemma emit_nonempty [simp]: "0 < length (emit r)"
  by (induction r) auto

section \<open>The grammar\<close>

text \<open>
  \<open>single s k r t k'\<close>: the text \<open>s\<close> starts with a phrase for \<open>r\<close> and goes on with \<open>t\<close>; \<open>k\<close> is the number of
  the next register before and \<open>k'\<close> after the phrase.
\<close>

definition special :: "char \<Rightarrow> bool" where
  "special c \<longleftrightarrow> c \<in> {CHR ''|'', CHR '']'', CHR '')'', CHR 0x5C, CHR ''.'', CHR ''('', CHR ''['', CHR ''^'', CHR ''$''}"

inductive
  single :: "string \<Rightarrow> nat \<Rightarrow> re \<Rightarrow> string \<Rightarrow> nat \<Rightarrow> bool" and
  several :: "string \<Rightarrow> nat \<Rightarrow> re \<Rightarrow> string \<Rightarrow> nat \<Rightarrow> bool" and
  catenate :: "string \<Rightarrow> nat \<Rightarrow> re \<Rightarrow> string \<Rightarrow> nat \<Rightarrow> bool" and
  alternate :: "string \<Rightarrow> nat \<Rightarrow> re \<Rightarrow> string \<Rightarrow> nat \<Rightarrow> bool"
where
  literal: "\<not> special c \<Longrightarrow> single (c # s) k (Lit (uchar c)) s k"
| escaped: "uchar c < 128 \<Longrightarrow> single (CHR 0x5C # c # s) k (Lit (uchar c)) s k"
| escaped_high: "128 \<le> uchar c \<Longrightarrow> single (CHR 0x5C # c # s) k (Skip (65280 + uchar c)) s k"
| any: "single (CHR ''.'' # s) k Any s k"
| caret: "single (CHR ''^'' # s) k Caret s k"
| dollar: "single (CHR ''$'' # s) k Dollar s k"
| set: "parse_set s = Inr (ws, t) \<Longrightarrow> single (CHR ''['' # s) k (Rng ws) t k"
| group: "alternate s (k + 1) r (CHR '')'' # t) k' \<Longrightarrow> single (CHR ''('' # s) k (Group k r) t k'"
| option: "single s k r (CHR ''?'' # t) k' \<Longrightarrow> several s k (Opt r) t k'"
| plus: "single s k r (CHR ''+'' # t) k' \<Longrightarrow> several s k (Plus r) t k'"
| star: "single s k r (CHR ''*'' # t) k' \<Longrightarrow> several s k (Star r) t k'"
| once: "single s k r t k' \<Longrightarrow> take 1 t \<notin> {''?'', ''+'', ''*''} \<Longrightarrow> several s k r t k'"
| one: "several s k r t k' \<Longrightarrow> t = [] \<or> hd t \<in> {CHR ''|'', CHR '')''} \<Longrightarrow> catenate s k r t k'"
| more: "several s k r t k' \<Longrightarrow> \<not> (t = [] \<or> hd t \<in> {CHR ''|'', CHR '')''}) \<Longrightarrow> catenate t k' r' u k'' \<Longrightarrow>
    catenate s k (Cat r r') u k''"
| last_one: "catenate s k r t k' \<Longrightarrow> take 1 t \<noteq> ''|'' \<Longrightarrow> alternate s k r t k'"
| either: "catenate s k r (CHR ''|'' # t) k1 \<Longrightarrow> alternate t k r' u k2 \<Longrightarrow> alternate s k (Alt r r') u (max k1 k2)"

section \<open>Sets\<close>

text \<open>The words of a set, and the characters between the brackets as a set of numbers.\<close>

definition in_words :: "nat list \<Rightarrow> nat \<Rightarrow> bool" where
  "in_words ws u \<longleftrightarrow> u div 16 < length ws \<and> charset_tst (ws ! (u div 16)) u"

lemma charset_set_tst:
  assumes "length ws = 16" "i < 256"
  shows "length (charset_set ws i) = 16" "in_words (charset_set ws i) u \<longleftrightarrow> u = i \<or> in_words ws u"
proof -
  show l: "length (charset_set ws i) = 16" using assms by (simp add: charset_set_def)
  have i: "i div 16 < 16" using assms by simp
  have "in_words (charset_set ws i) u \<longleftrightarrow> u div 16 < 16 \<and> (if u div 16 = i div 16 then bit (ws ! (i div 16)) (u mod 16) \<or> u mod 16 = i mod 16 else bit (ws ! (u div 16)) (u mod 16))"
    using assms i by (auto simp: in_words_def charset_set_def charset_tst_def bit_or_iff bit_exp_iff)
  moreover have "u = i \<longleftrightarrow> u div 16 = i div 16 \<and> u mod 16 = i mod 16"
    by (metis div_mult_mod_eq)
  ultimately show "in_words (charset_set ws i) u \<longleftrightarrow> u = i \<or> in_words ws u"
    using assms i by (auto simp: in_words_def charset_tst_def)
qed

lemma charset_zero_tst: "length charset_zero = 16" "\<not> in_words charset_zero u"
  by (simp_all add: charset_zero_def in_words_def charset_tst_def)

lemma charset_toggle_tst: "length ws = 16 \<Longrightarrow> in_words (charset_toggle ws) u \<longleftrightarrow> u < 256 \<and> \<not> in_words ws u"
proof -
  assume l: "length ws = 16"
  have m: "bit (65535 :: nat) n \<longleftrightarrow> n < 16" for n
    using bit_mask_iff [where 'a = nat, of 16 n] by (simp add: mask_eq_exp_minus_1)
  show ?thesis using l by (auto simp: in_words_def charset_toggle_def charset_tst_def bit_xor_iff m)
qed

lemma set_range_tst:
  assumes "length ws = 16"
  shows "length (set_range ws a b) = 16 \<and> (in_words (set_range ws a b) u \<longleftrightarrow> (\<exists>i. a \<le> i \<and> i \<le> b \<and> u = nat (i mod 256)) \<or> in_words ws u)"
proof -
  have "length (fold (\<lambda>i ws. charset_set ws (nat (i mod 256))) is ws) = 16 \<and>
      (in_words (fold (\<lambda>i ws. charset_set ws (nat (i mod 256))) is ws) u \<longleftrightarrow>
         (\<exists>i \<in> set is. u = nat (i mod 256)) \<or> in_words ws u)" for "is" :: "int list"
    using assms
  proof (induction "is" arbitrary: ws)
    case (Cons i "is")
    have "nat (i mod 256) < 256" by simp
    from charset_set_tst [OF Cons.prems this] show ?case using Cons.IH [of "charset_set ws (nat (i mod 256))"] by auto
  qed simp
  from this [of "[a..b]"] show ?thesis by (auto simp: set_range_def)
qed

lemma last_word_length: "length (take (last_word ws + 1) ws) = min (last_word ws + 1) (length ws)"
  by simp

definition ends_in :: "string \<Rightarrow> string \<Rightarrow> bool" where
  "ends_in t s \<longleftrightarrow> (\<exists>u. s = u @ t)"

lemma ends_in_refl [intro]: "ends_in t t"
  by (auto simp: ends_in_def)

lemma ends_in_Cons [intro]: "ends_in t s \<Longrightarrow> ends_in t (c # s)"
  unfolding ends_in_def by (metis append_Cons)

lemma ends_in_tl: "ends_in t (tl s) \<Longrightarrow> ends_in t s"
  using ends_in_Cons [of t "tl s" "hd s"] by (cases s) auto

lemma ends_in_ConsD: "ends_in (c # t) s \<Longrightarrow> ends_in t s"
  unfolding ends_in_def by (metis append_Cons append_Nil append_assoc)

lemma ends_in_trans: "ends_in t s \<Longrightarrow> ends_in u t \<Longrightarrow> ends_in u s"
  by (auto simp: ends_in_def)

lemma ends_inD: "ends_in t s \<Longrightarrow> length t \<le> length s \<and> set t \<subseteq> set s"
  by (auto simp: ends_in_def)

lemma bracket_loop_shape: "bracket_loop pat prev ws = Inr (ws', rest) \<Longrightarrow> length ws = 16 \<Longrightarrow>
    length ws' = 16 \<and> ends_in rest (tl pat) \<and> pat \<noteq> []"
proof (induction pat prev ws rule: bracket_loop.induct)
  case (1 pat prev ws)
  show ?case
  proof (cases pat)
    case Nil then show ?thesis using "1.prems" by (simp add: bracket_loop.simps [of "[]"])
  next
    case (Cons c s)
    note eq = bracket_loop.simps [of "c # s" prev ws]
    consider "c = CHR '']''" | "c \<noteq> CHR '']''" "c = CHR ''-'' \<and> prev \<noteq> 0 \<and> s \<noteq> [] \<and> hd s \<noteq> CHR '']''"
      | "c \<noteq> CHR '']''" "\<not> (c = CHR ''-'' \<and> prev \<noteq> 0 \<and> s \<noteq> [] \<and> hd s \<noteq> CHR '']'')" by blast
    then show ?thesis
    proof cases
      case 1 then show ?thesis using "1.prems" unfolding Cons eq by auto
    next
      case 2
      have e: "bracket_loop (tl s) (max prev (schar (hd s) + 1)) (set_range ws prev (schar (hd s))) = Inr (ws', rest)"
        using "1.prems"(1) 2 unfolding Cons eq by simp
      have "length ws' = 16 \<and> ends_in rest (tl (tl s)) \<and> tl s \<noteq> []"
        using "1.IH"(1) [OF Cons 2 e] set_range_tst [of ws prev "schar (hd s)"] "1.prems"(2) by simp
      then show ?thesis using Cons ends_in_tl by simp
    next
      case 3
      have e: "bracket_loop s (schar c) (charset_set ws (uchar c)) = Inr (ws', rest)"
        using "1.prems"(1) 3 unfolding Cons eq by (simp split: if_splits)
      have "uchar c < 256" by (simp add: uchar_def)
      then have "length ws' = 16 \<and> ends_in rest (tl s) \<and> s \<noteq> []"
        using "1.IH"(2) [OF Cons 3 e] charset_set_tst(1) [of ws "uchar c"] "1.prems"(2) by simp
      then show ?thesis using Cons ends_in_tl by simp
    qed
  qed
qed

lemma parse_set_shape: "parse_set s = Inr (ws, t) \<Longrightarrow> 1 \<le> length ws \<and> length ws \<le> 16 \<and> ends_in t s"
proof -
  assume p: "parse_set s = Inr (ws, t)"
  define s1 where "s1 = (if take 1 s = ''^'' then tl s else s)"
  define s2 where "s2 = (if take 1 s1 = '']'' then tl s1 else s1)"
  define z where "z = (if take 1 s1 = '']'' then charset_set charset_zero (uchar (CHR '']'')) else charset_zero)"
  have z: "length z = 16" by (simp add: z_def charset_set_def charset_zero_def)
  define F :: "nat list \<times> string \<Rightarrow> (nat list \<times> string) res" where
    "F = (\<lambda>(ws, rest). let ws = (if take 1 s = ''^'' then charset_toggle ws else ws) in Inr (take (last_word ws + 1) ws, rest))"
  have "parse_set s = res_bind (bracket_loop s2 0 z) F"
    unfolding parse_set_def Let_def s1_def s2_def z_def F_def by (rule refl)
  then have "res_bind (bracket_loop s2 0 z) F = Inr (ws, t)" using p by (rule trans [OF sym])
  then have "\<exists>q. bracket_loop s2 0 z = Inr q \<and> F q = Inr (ws, t)"
    by (rule res_bind_Inr_iff [THEN iffD1])
  then obtain ws1 u where q: "bracket_loop s2 0 z = Inr (ws1, u)" "F (ws1, u) = Inr (ws, t)" by (elim exE conjE) (metis surj_pair)
  then have w: "bracket_loop s2 0 z = Inr (ws1, t)"
    "ws = take (last_word (if take 1 s = ''^'' then charset_toggle ws1 else ws1) + 1) (if take 1 s = ''^'' then charset_toggle ws1 else ws1)"
    by (simp_all only: F_def prod.case Let_def sum.inject prod.inject)
  from bracket_loop_shape [OF w(1) z] have l: "length ws1 = 16" "ends_in t s2"
    using ends_in_tl [of t s2] by simp_all
  have "ends_in s2 s1" using ends_in_tl [OF ends_in_refl, of s1] ends_in_refl [of s1] by (simp add: s2_def)
  moreover have "ends_in s1 s" using ends_in_tl [OF ends_in_refl, of s] ends_in_refl [of s] by (simp add: s1_def)
  ultimately have "ends_in t s" using l(2) ends_in_trans by metis
  moreover have "length ws = min (last_word (if take 1 s = ''^'' then charset_toggle ws1 else ws1) + 1) 16"
    using l(1) by (simp add: w(2) charset_toggle_def min.commute)
  ultimately show ?thesis by simp
qed

section \<open>The compiler emits the code of a phrase\<close>

lemma ushort_id [simp]: "0 \<le> x \<Longrightarrow> x < 65536 \<Longrightarrow> ushort x = nat x"
  by (simp add: ushort_def)

lemma concatc_Inr: "concatc p lim code c = Inr code' \<longleftrightarrow> p + length code + 4 \<le> lim \<and> code' = code @ [ushort c]"
  by (auto simp: concatc_def too_complex_def)

lemma concatb_Inr: "concatb p lim code b = Inr code' \<longleftrightarrow> p + length code + length b + 4 \<le> lim \<and> code' = code @ b"
  by (auto simp: concatb_def too_complex_def)

lemmas regex_Inr = res_bind_Inr_iff concatc_Inr concatb_Inr

definition alternate_ok :: "nat \<Rightarrow> (nat \<Rightarrow> string \<Rightarrow> nat \<Rightarrow> (nat list \<times> string \<times> nat) res) \<Rightarrow> bool" where
  "alternate_ok lim alt \<longleftrightarrow> (\<forall>p s k code t k'. alt p s k = Inr (code, t, k') \<longrightarrow> k \<le> p \<longrightarrow> CHR 0x00 \<notin> set s \<longrightarrow>
     (\<exists>r. alternate s k r t k' \<and> code = emit r \<and> wf_re r \<and> p + length code + 4 \<le> lim \<and> k' \<le> k + length code))"

lemma single_simps:
  "regex_single_with alt cap lim p (CHR 0x5C # u) k = (case u of [] \<Rightarrow> Inl (Lush ''Bad badslash escape in regex'')
     | d # v \<Rightarrow> res_bind (concatc p lim [] (schar d)) (\<lambda>code. Inr (code, v, k)))"
  "regex_single_with alt cap lim p (CHR ''.'' # u) k = res_bind (concatc p lim [] (int RE_ANY)) (\<lambda>code. Inr (code, u, k))"
  "regex_single_with alt cap lim p (CHR ''('' # u) k =
     res_bind (concatc p lim [] (int (RE_START + k))) (\<lambda>code.
     res_bind (alt (p + 1) u (k + 1)) (\<lambda>(tmp, v, k').
     res_bind (concatb p lim code tmp) (\<lambda>code.
       if take 1 v \<noteq> '')'' then Inl (Lush ''Unbalanced () in regex'')
       else res_bind (concatc p lim code (int (RE_END + k))) (\<lambda>code. Inr (code, tl v, k')))))"
  "regex_single_with alt cap lim p (CHR ''['' # u) k =
     (if p + 17 > cap then Inl (Undef ''character set written past the end of the buffer'')
      else res_bind (parse_set u) (\<lambda>(ws, v).
        res_bind (concatc p lim [] (int (RE_RNG + length ws))) (\<lambda>code. Inr (code @ ws, v, k))))"
  "regex_single_with alt cap lim p (CHR ''^'' # u) k = res_bind (concatc p lim [] (int RE_CARET)) (\<lambda>code. Inr (code, u, k))"
  "regex_single_with alt cap lim p (CHR ''$'' # u) k = res_bind (concatc p lim [] (int RE_DOLLAR)) (\<lambda>code. Inr (code, u, k))"
  by (simp_all add: regex_single_with_def)

lemma single_literal:
  "\<not> special c \<Longrightarrow> regex_single_with alt cap lim p (c # u) k = res_bind (concatc p lim [] (int (uchar c))) (\<lambda>code. Inr (code, u, k))"
  by (simp add: regex_single_with_def special_def)

lemma single_error:
  "c \<in> {CHR ''|'', CHR '']'', CHR '')''} \<Longrightarrow> \<exists>m. regex_single_with alt cap lim p (c # u) k = Inl (Lush m)"
  by (elim insertE emptyE) (simp_all add: regex_single_with_def)

lemma regex_single_ok:
  assumes alt: "alternate_ok lim alt" and lim: "lim \<le> 2040" and k: "k \<le> p" and z: "CHR 0x00 \<notin> set s"
    and s: "regex_single_with alt cap lim p s k = Inr (code, t, k')"
  shows "\<exists>r. single s k r t k' \<and> code = emit r \<and> wf_re r \<and> is_single r \<and> p + 4 \<le> lim \<and> length code \<le> lim + 17 \<and> k' \<le> k + length code"
proof (cases s)
  case (Cons c u)
  note s' = s [unfolded Cons]
  have "c \<notin> {CHR ''|'', CHR '']'', CHR '')''}"
    using single_error [of c alt cap lim p u k] s' by auto
  then consider "c = CHR 0x5C" | "c = CHR ''.''" | "c = CHR ''(''" | "c = CHR ''[''" | "c = CHR ''^''" | "c = CHR ''$''" | "\<not> special c"
    by (auto simp: special_def)
  then show ?thesis
  proof cases
    case 1
    then obtain d v where d: "u = d # v" using s' by (cases u) (auto simp: single_simps)
    have r: "code = [ushort (schar d)]" "t = v" "k' = k" "p + 4 \<le> lim"
      using s' 1 d by (auto simp: single_simps regex_Inr)
    have pos: "0 < uchar d" using z Cons d by (intro uchar_pos) auto
    show ?thesis
    proof (cases "uchar d < 128")
      case True
      then have "ushort (schar d) = uchar d" by (simp add: schar_def)
      then show ?thesis using escaped [OF True, of v k] r Cons 1 d pos
        by (intro exI [of _ "Lit (uchar d)"]) simp
    next
      case False
      have "ushort (schar d) = 65280 + uchar d"
      proof -
        have "(int (uchar d) - 256) mod 65536 = (int (uchar d) - 256 + 65536) mod 65536" by (simp only: mod_add_self2)
        also have "\<dots> = int (uchar d) + 65280" using uchar_less [of d] by (simp add: mod_pos_pos_trivial del: uchar_less)
        finally show ?thesis using False by (simp add: schar_def ushort_def)
      qed
      moreover have "(65280 + uchar d) div 4096 = 15" using uchar_less [of d] by (intro div_nat_eqI) (simp_all del: uchar_less)
      ultimately show ?thesis using escaped_high [of d v k] False r Cons 1 d
        by (intro exI [of _ "Skip (65280 + uchar d)"]) simp
    qed
  next
    case 2 then show ?thesis using s' Cons any [of u k]
      by (intro exI [of _ Any]) (auto simp: single_simps regex_Inr re_words)
  next
    case 3
    obtain tmp v where a: "alt (p + 1) u (k + 1) = Inr (tmp, v, k')" "take 1 v = '')''" "t = tl v"
      "p + length tmp + 5 \<le> lim" "code = [ushort (int (RE_START + k))] @ tmp @ [ushort (int (RE_END + k))]" "p + 4 \<le> lim"
      using s' 3 by (auto simp: single_simps regex_Inr split: if_splits)
    obtain r where r: "alternate u (k + 1) r v k'" "tmp = emit r" "wf_re r" "k' \<le> k + 1 + length tmp"
      using alt [unfolded alternate_ok_def, rule_format, OF a(1)] k z Cons by auto
    have v: "v = CHR '')'' # t" using a(2,3) by (cases v) auto
    have "k < 2040" using k a(6) lim by simp
    then have "code = emit (Group k r)" using a(5) r(2) by (simp add: re_words nat_add_distrib)
    then show ?thesis using group [OF r(1) [unfolded v]] r a(4,6) Cons 3 \<open>k < 2040\<close>
      by (intro exI [of _ "Group k r"]) simp
  next
    case 4
    obtain ws where w: "parse_set u = Inr (ws, t)" "p + 4 \<le> lim" "code = ushort (int (RE_RNG + length ws)) # ws" "k' = k"
      using s' 4 by (auto simp: single_simps regex_Inr split: if_splits)
    from parse_set_shape [OF w(1)] have l: "1 \<le> length ws" "length ws \<le> 16" by auto
    then have "code = emit (Rng ws)" using w(3) by (simp add: re_words nat_add_distrib)
    then show ?thesis using RegexSyntax.set [OF w(1), of k] l w Cons 4 by (intro exI [of _ "Rng ws"]) simp
  next
    case 5 then show ?thesis using s' Cons caret [of u k]
      by (intro exI [of _ Caret]) (auto simp: single_simps regex_Inr re_words)
  next
    case 6 then show ?thesis using s' Cons dollar [of u k]
      by (intro exI [of _ Dollar]) (auto simp: single_simps regex_Inr re_words)
  next
    case 7
    have "code = [uchar c]" "t = u" "k' = k" "p + 4 \<le> lim"
      using s' uchar_less [of c] unfolding single_literal [OF 7] by (auto simp: regex_Inr)
    then show ?thesis using Cons literal [OF 7, of u k] z uchar_pos [of c]
      by (intro exI [of _ "Lit (uchar c)"]) auto
  qed
qed (use s in \<open>simp add: regex_single_with_def\<close>)

text \<open>A phrase is not empty, and the rest is an end of the text.\<close>

lemma phrase_shape:
  "single s k r t k' \<Longrightarrow> ends_in t (tl s) \<and> s \<noteq> []"
  "several s k r t k' \<Longrightarrow> ends_in t (tl s) \<and> s \<noteq> []"
  "catenate s k r t k' \<Longrightarrow> ends_in t (tl s) \<and> s \<noteq> []"
  "alternate s k r t k' \<Longrightarrow> ends_in t (tl s) \<and> s \<noteq> []"
proof (induction rule: single_several_catenate_alternate.inducts)
  case (group s k r t k')
  then have "ends_in t (tl s)" by (blast dest: ends_in_ConsD)
  then have "ends_in t s" by (rule ends_in_tl)
  then show ?case by simp
next
  case (more s k r t k' r' u k'')
  then have "ends_in t (tl s)" "ends_in u t" using ends_in_tl by blast+
  then show ?case using more ends_in_trans by blast
next
  case (either s k r t k1 r' u k2)
  then have "ends_in t (tl s)" "ends_in u t" using ends_in_ConsD ends_in_tl by blast+
  then show ?case using either ends_in_trans by blast
next
  case (set s ws t k)
  then show ?case using parse_set_shape by simp
next
  case (one s k r t k')
  then show ?case by blast
next
  case (last_one s k r t k')
  then show ?case by blast
next
  case (once s k r t k')
  then show ?case by blast
next
  case (option s k r t k')
  then show ?case using ends_in_ConsD by blast
next
  case (plus s k r t k')
  then show ?case using ends_in_ConsD by blast
next
  case (star s k r t k')
  then show ?case using ends_in_ConsD by blast
qed (simp_all add: ends_in_refl ends_in_Cons)

lemma take_1_Cons: "take 1 t = [c] \<longleftrightarrow> (\<exists>u. t = c # u)"
  by (cases t) auto

lemma regex_several_ok:
  assumes alt: "alternate_ok lim alt" and lim: "lim \<le> 2040" and k: "k \<le> p" and z: "CHR 0x00 \<notin> set s"
    and s: "regex_several_with alt cap lim p s k = Inr (code, t, k')"
  shows "\<exists>r. several s k r t k' \<and> code = emit r \<and> wf_re r \<and> p + length code + 3 \<le> lim \<and> k' \<le> k + length code"
proof -
  obtain b u where b: "regex_single_with alt cap lim (p + 2) s k = Inr (b, u, k')"
    using s by (auto simp: regex_several_with_def regex_Inr Let_def split: if_splits)
  obtain r where r: "single s k r u k'" "b = emit r" "wf_re r" "is_single r" "length b \<le> 2057" "k' \<le> k + length b"
    using regex_single_ok [OF alt lim _ z b] k lim by fastforce
  have w: "ushort (int RE_FAIL + int (length b)) = RE_FAIL + length b"
    "ushort (int RE_FAIL + int (length b) + 1) = RE_FAIL + length b + 1"
    "ushort (int RE_FAIL + 1) = RE_FAIL + 1" "ushort (int RE_JMP - int (length b) - 2) = RE_JMP - length b - 2"
    using r(5) by (simp_all add: re_words nat_add_distrib)
  note def = s [unfolded regex_several_with_def b res_bind_simps prod.case Let_def]
  consider "take 1 u = ''?''" | "take 1 u = ''+''" | "take 1 u = ''*''" | "take 1 u \<notin> {''?'', ''+'', ''*''}" by blast
  then show ?thesis
  proof cases
    case 1
    then have "code = emit (Opt r)" "t = tl u" "p + length b + 5 \<le> lim" using def w r(2) by (auto simp: regex_Inr)
    moreover have "u = CHR ''?'' # tl u" using 1 by (cases u) auto
    ultimately show ?thesis using option [of s k r t k'] r by (intro exI [of _ "Opt r"]) simp
  next
    case 2
    then have "code = emit (Plus r)" "t = tl u" "p + length b + 5 \<le> lim" using def w r(2) by (auto simp: regex_Inr)
    moreover have "u = CHR ''+'' # tl u" using 2 by (cases u) auto
    ultimately show ?thesis using plus [of s k r t k'] r by (intro exI [of _ "Plus r"]) simp
  next
    case 3
    then have "code = emit (Star r)" "t = tl u" "p + length b + 5 \<le> lim" using def w r(2) by (auto simp: regex_Inr)
    moreover have "u = CHR ''*'' # tl u" using 3 by (cases u) auto
    ultimately show ?thesis using star [of s k r t k'] r by (intro exI [of _ "Star r"]) simp
  next
    case 4
    then have "code = emit r" "t = u" "p + length b + 4 \<le> lim" using def r(2) by (auto simp: regex_Inr)
    then show ?thesis using once [OF r(1) 4] r by auto
  qed
qed

lemma catenate_loop_ok:
  assumes alt: "alternate_ok lim alt" and lim: "lim \<le> 2040"
  shows "catenate_loop n alt cap lim p code s k = Inr (code', t, k') \<Longrightarrow> k \<le> p + length code \<Longrightarrow> CHR 0x00 \<notin> set s \<Longrightarrow>
    \<exists>r. catenate s k r t k' \<and> code' = code @ emit r \<and> wf_re r \<and> p + length code' + 4 \<le> lim \<and> k' \<le> k + length (emit r)"
proof (induction n arbitrary: code s k)
  case (Suc n)
  obtain b u k1 where b: "regex_several_with alt cap lim (p + length code) s k = Inr (b, u, k1)"
    using Suc.prems(1) by (auto simp: regex_Inr)
  obtain r where r: "several s k r u k1" "b = emit r" "wf_re r" "p + length code + length b + 3 \<le> lim" "k1 \<le> k + length b"
    using regex_several_ok [OF alt lim Suc.prems(2,3) b] by blast
  show ?case
  proof (cases "u = [] \<or> hd u \<in> {CHR ''|'', CHR '')''}")
    case True
    then have "code' = code @ emit r" "t = u" "k' = k1" "p + length code' + 4 \<le> lim"
      using Suc.prems(1) b r(2) by (auto simp: regex_Inr)
    then show ?thesis using one [OF r(1) True] r by auto
  next
    case False
    have l: "catenate_loop n alt cap lim p (code @ b) u k1 = Inr (code', t, k')"
      using Suc.prems(1) b False by (simp add: regex_Inr)
    have "set u \<subseteq> set s"
      using phrase_shape(2) [OF r(1)] ends_inD [of u "tl s"] by (meson list.set_sel(2) subset_iff)
    then have z: "CHR 0x00 \<notin> set u" using Suc.prems(3) by blast
    obtain r' where r': "catenate u k1 r' t k'" "code' = (code @ b) @ emit r'" "wf_re r'" "p + length code' + 4 \<le> lim"
      "k' \<le> k1 + length (emit r')"
      using Suc.IH [OF l _ z] r(5) Suc.prems(2) by auto
    then show ?thesis using more [OF r(1) False r'(1)] r by (intro exI [of _ "Cat r r'"]) simp
  qed
qed simp

lemma regex_alternate_ok:
  assumes lim: "lim \<le> 2040"
  shows "alternate_ok lim (regex_alternate n cap lim)"
proof (induction n)
  case (Suc n)
  note IH = Suc
  show ?case unfolding alternate_ok_def
  proof (intro allI impI)
    fix p s k code t k'
    assume a: "regex_alternate (Suc n) cap lim p s k = Inr (code, t, k')" and k: "k \<le> p" and z: "CHR 0x00 \<notin> set s"
    obtain b1 u k1 where b1: "catenate_loop (Suc (length s)) (regex_alternate n cap lim) cap lim (p + 1) [] s k = Inr (b1, u, k1)"
      using a by (auto simp: res_bind_Inr_iff simp del: catenate_loop.simps)
    obtain r where r: "catenate s k r u k1" "b1 = emit r" "wf_re r" "p + 1 + length b1 + 4 \<le> lim" "k1 \<le> k + length b1"
      using catenate_loop_ok [OF IH lim b1] k z by auto
    note def = a [unfolded regex_alternate.simps b1 res_bind_simps prod.case Let_def]
    show "\<exists>r. alternate s k r t k' \<and> code = emit r \<and> wf_re r \<and> p + length code + 4 \<le> lim \<and> k' \<le> k + length code"
    proof (cases "take 1 u = ''|''")
      case True
      then obtain v where v: "u = CHR ''|'' # v" using take_1_Cons [THEN iffD1, OF True] by blast
      obtain b2 k2 where b2: "regex_alternate n cap lim (p + 1 + length b1 + 1) v k = Inr (b2, t, k2)"
        using def v by (auto simp: regex_Inr)
      have "set v \<subseteq> set s"
        using phrase_shape(3) [OF r(1)] ends_inD [of u "tl s"] v by (meson list.set_sel(2) set_subset_Cons subset_iff)
      then obtain r' where r': "alternate v k r' t k2" "b2 = emit r'" "wf_re r'"
          "p + 1 + length b1 + 1 + length b2 + 4 \<le> lim" "k2 \<le> k + length b2"
        using IH [unfolded alternate_ok_def, rule_format, OF b2] k z by auto
      have w: "ushort (int RE_FAIL + int (length b1) + 1) = RE_FAIL + length b1 + 1" "ushort (int RE_JMP + int (length b2)) = RE_JMP + length b2"
        using r(4) r'(4) lim by (simp_all add: re_words nat_add_distrib)
      have "code = emit (Alt r r')" "k' = max k1 k2" using def v b2 w r(2) r'(2) by (auto simp: regex_Inr)
      then show ?thesis using either [OF r(1) [unfolded v] r'(1)] r r' by (intro exI [of _ "Alt r r'"]) simp
    next
      case False
      then have "code = emit r" "t = u" "k' = k1" using def r(2) by (auto simp: regex_Inr)
      then show ?thesis using last_one [OF r(1) False] r by auto
    qed
  qed
qed (simp add: alternate_ok_def)

text \<open>The code of a pattern.\<close>

definition program :: "re \<Rightarrow> bool \<Rightarrow> nat list" where
  "program r strict = (if strict then [RE_CARET] else []) @ emit r @ (if strict then [RE_DOLLAR] else []) @ [0]"

lemma regex_compile_ok:
  assumes "regex_compile cap s strict = Inr (code, k)" "cap \<le> 2040" "CHR 0x00 \<notin> set s"
  obtains r t where "alternate s 0 r t k" "wf_re r" "code = program r strict" "length (emit r) + 5 \<le> cap"
proof -
  let ?p = "if strict then 2 else 1 :: nat"
  obtain b t where b: "regex_alternate (Suc (length s)) cap (cap - ?p) ?p s 0 = Inr (b, t, k)"
    "code = (if strict then [RE_CARET] else []) @ b @ (if strict then [RE_DOLLAR] else []) @ [0]"
    using assms(1) unfolding regex_compile_def by (auto simp: res_bind_Inr_iff simp del: regex_alternate.simps)
  have "cap - ?p \<le> 2040" using assms(2) by simp
  from regex_alternate_ok [OF this, of "Suc (length s)" cap, unfolded alternate_ok_def, rule_format, OF b(1)]
  obtain r where "alternate s 0 r t k" "b = emit r" "wf_re r" "?p + length b + 4 \<le> cap - ?p" using assms(3) by auto
  then show ?thesis using that [of r t] b(2) by (auto simp: program_def split: if_splits)
qed

end
