(* ===== verification/Search.thy ===== *)
theory Search
  imports Prelude
begin

text \<open>
  Backtracking over a stack of states to come back to, with the check that the machine for regular
  expressions makes before it keeps a state: when the middle of the stack is that very state it gives up
  the current state instead. A locale states what the moves must satisfy for this to lose no answer.
\<close>

section \<open>Walks\<close>

text \<open>\<open>walk mv n x y\<close>: \<open>n\<close> moves lead from \<open>x\<close> to \<open>y\<close>.\<close>

primrec walk :: "('c \<Rightarrow> 'c list) \<Rightarrow> nat \<Rightarrow> 'c \<Rightarrow> 'c \<Rightarrow> bool" where
  "walk mv 0 x y \<longleftrightarrow> x = y"
| "walk mv (Suc n) x y \<longleftrightarrow> (\<exists>z \<in> set (mv x). walk mv n z y)"

lemma walk_trans: "walk mv m x y \<Longrightarrow> walk mv n y z \<Longrightarrow> walk mv (m + n) x z"
  by (induction m arbitrary: x) auto

lemma walk_snoc: "walk mv n x y \<Longrightarrow> z \<in> set (mv y) \<Longrightarrow> walk mv (Suc n) x z"
  using walk_trans [of mv n x y 1 z] by simp

definition reaches :: "('c \<Rightarrow> 'c list) \<Rightarrow> 'c \<Rightarrow> 'c \<Rightarrow> bool" where
  "reaches mv x y \<longleftrightarrow> (\<exists>n. walk mv n x y)"

lemma reaches_refl [intro]: "reaches mv x x"
  unfolding reaches_def by (intro exI [of _ 0]) simp

lemma reaches_move: "z \<in> set (mv x) \<Longrightarrow> reaches mv z y \<Longrightarrow> reaches mv x y"
  unfolding reaches_def by (metis walk.simps(2))

lemma reaches_snoc: "reaches mv x y \<Longrightarrow> z \<in> set (mv y) \<Longrightarrow> reaches mv x z"
  unfolding reaches_def using walk_snoc by metis

lemma reaches_trans: "reaches mv x y \<Longrightarrow> reaches mv y z \<Longrightarrow> reaches mv x z"
  unfolding reaches_def using walk_trans by metis

definition bounded :: "('c \<Rightarrow> 'c list) \<Rightarrow> nat \<Rightarrow> 'c \<Rightarrow> bool" where
  "bounded mv b x \<longleftrightarrow> (\<forall>n y. walk mv n x y \<longrightarrow> n \<le> b)"

section \<open>The search\<close>

datatype 'c found = More 'c "'c list" | Found 'c | Failed

definition backtrack :: "'c list \<Rightarrow> 'c found" where
  "backtrack st = (if st = [] then Failed else More (last st) (butlast st))"

definition search_step :: "('c \<Rightarrow> 'c list) \<Rightarrow> ('c \<Rightarrow> bool) \<Rightarrow> 'c \<Rightarrow> 'c list \<Rightarrow> 'c found" where
  "search_step mv final x st = (if final x then Found x else case mv x of
       [] \<Rightarrow> backtrack st
     | [y] \<Rightarrow> More y st
     | y # z # _ \<Rightarrow> if st \<noteq> [] \<and> st ! (length st div 2) = z then backtrack st else More y (st @ [z]))"

fun search :: "('c \<Rightarrow> 'c list) \<Rightarrow> ('c \<Rightarrow> bool) \<Rightarrow> nat \<Rightarrow> 'c \<Rightarrow> 'c list \<Rightarrow> 'c found option" where
  "search mv final 0 x st = None"
| "search mv final (Suc n) x st = (case search_step mv final x st of
       More y st' \<Rightarrow> search mv final n y st' | r \<Rightarrow> Some r)"

lemma search_mono: "search mv final n x st = Some r \<Longrightarrow> n \<le> n' \<Longrightarrow> search mv final n' x st = Some r"
proof (induction n arbitrary: x st n')
  case (Suc n)
  then obtain k where k: "n' = Suc k" "n \<le> k" by (cases n') auto
  show ?case using Suc.prems(1) Suc.IH [OF _ k(2)] unfolding k(1) by (auto split: found.splits)
qed simp

lemma search_not_More: "search mv final n x st \<noteq> Some (More y st')"
  by (induction n arbitrary: x st) (auto split: found.splits)

lemma backtrack_More: "backtrack st = More y st' \<longleftrightarrow> st = st' @ [y]"
  by (cases st rule: rev_cases) (auto simp: backtrack_def)

lemma search_step_new: "search_step mv final x st = More x' st' \<Longrightarrow> c \<in> insert x' (set st') \<Longrightarrow>
    c \<in> insert x (set st) \<or> c \<in> set (mv x)"
  by (auto simp: search_step_def backtrack_More split: if_splits list.splits)

section \<open>What the search promises\<close>

text \<open>\<open>goal n x\<close>: a final state is at most \<open>n\<close> moves away.\<close>

definition near :: "('c \<Rightarrow> 'c list) \<Rightarrow> ('c \<Rightarrow> bool) \<Rightarrow> nat \<Rightarrow> 'c \<Rightarrow> bool" where
  "near mv final n x \<longleftrightarrow> (\<exists>k y. k \<le> n \<and> walk mv k x y \<and> final y)"

lemma near_mono: "near mv final n x \<Longrightarrow> n \<le> n' \<Longrightarrow> near mv final n' x"
  unfolding near_def by (meson order.trans)

lemma near_move: "near mv final n x \<Longrightarrow> \<not> final x \<Longrightarrow> \<exists>k y. n = Suc k \<and> y \<in> set (mv x) \<and> near mv final k y"
proof -
  assume a: "near mv final n x" "\<not> final x"
  then obtain k y where k: "k \<le> n" "walk mv k x y" "final y" by (auto simp: near_def)
  then obtain l where l: "k = Suc l" using a(2) by (cases k) auto
  then obtain z where z: "z \<in> set (mv x)" "walk mv l z y" using k(2) by auto
  obtain n' where n: "n = Suc n'" "l \<le> n'" using k(1) l by (cases n) auto
  then have "near mv final n' z" using z(2) k(3) by (auto simp: near_def)
  then show ?thesis using n(1) z(1) by blast
qed

locale backtracking =
  fixes mv :: "'p \<Rightarrow> 'c \<Rightarrow> 'c list" and final :: "'p \<Rightarrow> 'c \<Rightarrow> bool" and start :: "'p \<Rightarrow> 'c \<Rightarrow> bool"
  assumes two_moves: "length (mv p x) \<le> 2"
    and second_move: "start p a \<Longrightarrow> reaches (mv p) a x \<Longrightarrow> reaches (mv p) a x' \<Longrightarrow>
      mv p x = [y, z] \<Longrightarrow> mv p x' = [y', z] \<Longrightarrow> x = x'"
begin

text \<open>A state that is found is final and can be reached.\<close>

lemma search_sound:
  "search (mv p) (final p) n x st = Some (Found y) \<Longrightarrow> \<forall>c \<in> insert x (set st). reaches (mv p) a c \<Longrightarrow>
     reaches (mv p) a y \<and> final p y"
proof (induction n arbitrary: x st)
  case (Suc n)
  show ?case
  proof (cases "search_step (mv p) (final p) x st")
    case (More x' st')
    have "\<forall>c \<in> insert x' (set st'). reaches (mv p) a c"
      using search_step_new [OF More] Suc.prems(2) reaches_snoc [of "mv p" a x] by blast
    then show ?thesis using Suc.IH [of x' st'] Suc.prems(1) More by simp
  next
    case (Found c)
    then have "c = x" "final p x"
      by (auto simp: search_step_def backtrack_def split: if_splits list.splits)
    then show ?thesis using Suc.prems Found by simp
  qed (use Suc.prems(1) in simp)
qed simp

definition covers :: "'p \<Rightarrow> 'c \<Rightarrow> 'c list \<Rightarrow> nat \<Rightarrow> bool" where
  "covers p x st n \<longleftrightarrow> (\<exists>c \<in> insert x (set st). near (mv p) (final p) n c)"

text \<open>
  The invariant: each state kept is the second move of a state that was met, and what the first move
  of that state can reach is still reached, as fast, from the current state or from a state kept.
\<close>

definition promise :: "'p \<Rightarrow> 'c \<Rightarrow> 'c \<Rightarrow> 'c list \<Rightarrow> bool" where
  "promise p a x st \<longleftrightarrow> (\<forall>c \<in> insert x (set st). reaches (mv p) a c) \<and>
     (\<forall>z \<in> set st. \<exists>c y. reaches (mv p) a c \<and> mv p c = [y, z] \<and> (\<forall>n. near (mv p) (final p) n y \<longrightarrow> covers p x st n))"

text \<open>A step keeps what is covered.\<close>

lemma covers_step:
  assumes "search_step (mv p) (final p) x st = More x' st'" "start p a" "promise p a x st"
  shows "covers p x st n \<Longrightarrow> covers p x' st' n"
proof (induction n rule: less_induct)
  case (less n)
  have nf: "\<not> final p x" using assms(1) by (auto simp: search_step_def)
  note next_near = near_move [where final = "final p", OF _ nf]
  from less.prems obtain c where c: "c \<in> insert x (set st)" "near (mv p) (final p) n c" by (auto simp: covers_def)
  show ?case
  proof (cases "c = x")
    case True
    from next_near [OF c(2) [unfolded True]] obtain k y where k: "n = Suc k" "y \<in> set (mv p x)" "near (mv p) (final p) k y"
      by blast
    show ?thesis
    proof (cases "y \<in> insert x' (set st')")
      case True
      then show ?thesis using near_mono [OF k(3), of n] k(1) by (auto simp: covers_def)
    next
      case False
      from k(2) two_moves [of p x] consider "mv p x = [y]" | z where "mv p x = [y, z]" | w where "mv p x = [w, y]"
        by (cases "mv p x" rule: list.exhaust; cases "tl (mv p x)" rule: list.exhaust) auto
      then obtain z where z: "mv p x = [y, z]" "st \<noteq> []" "st ! (length st div 2) = z" "st = st' @ [x']"
      proof cases
        case 1 then show ?thesis using assms(1) nf False by (simp add: search_step_def)
      next
        case (2 z) then show ?thesis using assms(1) nf False that [of z]
          by (auto simp: search_step_def backtrack_More split: if_splits)
      next
        case (3 w)
        show ?thesis
        proof (cases "st \<noteq> [] \<and> st ! (length st div 2) = y")
          case True
          then have "y \<in> set st" by (metis nth_mem div_less_dividend length_greater_0_conv one_less_numeral_iff semiring_norm(76))
          moreover have "st = st' @ [x']" using assms(1) nf 3 True by (simp add: search_step_def backtrack_More)
          ultimately show ?thesis using False by auto
        next
          case no: False
          then show ?thesis using assms(1) nf 3 False unfolding search_step_def by auto
        qed
      qed
      have "z \<in> set st" using z(2,3) by (metis nth_mem div_less_dividend length_greater_0_conv one_less_numeral_iff semiring_norm(76))
      then obtain b y' where b: "reaches (mv p) a b" "mv p b = [y', z]"
        "\<forall>n. near (mv p) (final p) n y' \<longrightarrow> covers p x st n"
        using assms(3) unfolding promise_def by blast
      have "reaches (mv p) a x" using assms(3) by (simp add: promise_def)
      then have "b = x" using second_move [OF assms(2) b(1) _ b(2) z(1)] by blast
      then have "covers p x st k" using b(2,3) z(1) k(3) by simp
      then have "covers p x' st' k" using less.IH [of k] k(1) by simp
      then show ?thesis using near_mono [of "mv p" "final p" k _ n] k(1) by (auto simp: covers_def)
    qed
  next
    case False
    then have "c \<in> set st" using c(1) by simp
    then have "c \<in> insert x' (set st')" using assms(1) two_moves [of p x]
      by (auto simp: search_step_def backtrack_More split: if_splits list.splits)
    then show ?thesis using c(2) by (auto simp: covers_def)
  qed
qed

lemma promise_step:
  assumes "search_step (mv p) (final p) x st = More x' st'" "start p a" "promise p a x st"
  shows "promise p a x' st'"
  unfolding promise_def
proof (intro conjI ballI)
  fix c assume "c \<in> insert x' (set st')"
  from search_step_new [OF assms(1) this] show "reaches (mv p) a c"
    using assms(3) reaches_snoc [of "mv p" a x] unfolding promise_def by blast
next
  fix z assume z: "z \<in> set st'"
  show "\<exists>c y. reaches (mv p) a c \<and> mv p c = [y, z] \<and> (\<forall>n. near (mv p) (final p) n y \<longrightarrow> covers p x' st' n)"
  proof (cases "z \<in> set st")
    case True
    then show ?thesis using assms(3) covers_step [OF assms] unfolding promise_def by blast
  next
    case False
    then have "mv p x = [x', z]" using z assms(1) two_moves [of p x]
      by (auto simp: search_step_def backtrack_More split: if_splits list.splits)
    moreover have "reaches (mv p) a x" using assms(3) by (simp add: promise_def)
    moreover have "\<forall>n. near (mv p) (final p) n x' \<longrightarrow> covers p x' st' n" by (auto simp: covers_def)
    ultimately show ?thesis by blast
  qed
qed

lemma search_complete:
  "search (mv p) (final p) n x st = Some Failed \<Longrightarrow> start p a \<Longrightarrow> promise p a x st \<Longrightarrow> \<not> covers p x st k"
proof (induction n arbitrary: x st)
  case (Suc n)
  show ?case
  proof (cases "search_step (mv p) (final p) x st")
    case (More x' st')
    then have "\<not> covers p x' st' k" using Suc.IH Suc.prems promise_step by simp
    then show ?thesis using covers_step [OF More Suc.prems(2,3)] by blast
  next
    case (Found c)
    then show ?thesis using Suc.prems(1) by simp
  next
    case Failed
    then have nf: "\<not> final p x" and st: "st = []" and mv: "mv p x = []"
      by (auto simp: search_step_def backtrack_def split: if_splits list.splits)
    show ?thesis
    proof
      assume "covers p x st k"
      then have "near (mv p) (final p) k x" using st by (simp add: covers_def)
      from near_move [where final = "final p", OF this nf] show False using mv by auto
    qed
  qed
qed simp

lemma search_fails_only_without:
  assumes "search (mv p) (final p) n a [] = Some Failed" "start p a" "reaches (mv p) a y"
  shows "\<not> final p y"
proof
  assume f: "final p y"
  obtain k where "walk (mv p) k a y" using assms(3) by (auto simp: reaches_def)
  then have "covers p a [] k" using f by (auto simp: covers_def near_def)
  moreover have "promise p a a []" by (auto simp: promise_def)
  ultimately show False using search_complete [OF assms(1,2)] by blast
qed

text \<open>Where the walks are bounded the search returns: each step lowers a sum over the states it still has.\<close>

definition rank :: "'p \<Rightarrow> 'c \<Rightarrow> nat" where
  "rank p c = (LEAST b. bounded (mv p) b c)"

lemma rank_move:
  assumes "bounded (mv p) b x" "y \<in> set (mv p x)"
  shows "rank p y < rank p x" "\<exists>b. bounded (mv p) b y"
proof -
  have r: "bounded (mv p) (rank p x) x" unfolding rank_def using assms(1) by (rule LeastI)
  have "\<exists>b'. rank p x = Suc b' \<and> bounded (mv p) b' y"
  proof -
    have "walk (mv p) (Suc 0) x y" using assms(2) by simp
    then obtain b' where b': "rank p x = Suc b'" using r unfolding bounded_def by (metis not0_implies_Suc not_less_eq_eq zero_le)
    have "n \<le> b'" if "walk (mv p) n y z" for n z
    proof -
      have "walk (mv p) (Suc n) x z" using that assms(2) by auto
      then have "Suc n \<le> rank p x" using r unfolding bounded_def by blast
      then show ?thesis using b' by simp
    qed
    then show ?thesis using b' by (auto simp: bounded_def)
  qed
  then obtain b' where b': "rank p x = Suc b'" "bounded (mv p) b' y" by blast
  then have "rank p y \<le> b'" unfolding rank_def by (auto intro: Least_le)
  then show "rank p y < rank p x" "\<exists>b. bounded (mv p) b y" using b' by auto
qed

definition load :: "'p \<Rightarrow> 'c list \<Rightarrow> nat" where
  "load p cs = (\<Sum>c\<leftarrow>cs. 3 ^ rank p c)"

lemma load_simps [simp]: "load p [] = 0" "load p (cs @ [c]) = load p cs + 3 ^ rank p c"
  by (simp_all add: load_def)

lemma load_step:
  assumes "search_step (mv p) (final p) x st = More x' st'" "\<forall>c \<in> insert x (set st). \<exists>b. bounded (mv p) b c"
  shows "load p (st' @ [x']) < load p (st @ [x])" "\<forall>c \<in> insert x' (set st'). \<exists>b. bounded (mv p) b c"
proof -
  obtain b where b: "bounded (mv p) b x" using assms(2) by blast
  have y: "3 * 3 ^ rank p y \<le> (3 :: nat) ^ rank p x" if "y \<in> set (mv p x)" for y
  proof -
    have "Suc (rank p y) \<le> rank p x" using rank_move(1) [OF b that] by simp
    then have "(3 :: nat) ^ Suc (rank p y) \<le> 3 ^ rank p x" by (intro power_increasing) auto
    then show ?thesis by simp
  qed
  have pos: "0 < (3 :: nat) ^ rank p c" for c by simp
  consider "st = st' @ [x']" | "mv p x = [x']" "st' = st" | z where "mv p x = [x', z]" "st' = st @ [z]"
    using assms(1) two_moves [of p x] by (auto simp: search_step_def backtrack_More split: if_splits list.splits)
  then show "load p (st' @ [x']) < load p (st @ [x])"
  proof cases
    case 1 then show ?thesis using pos [of x] load_simps(2) [of p st x] by simp
  next
    case 2 then show ?thesis using rank_move(1) [OF b, of x'] by simp
  next
    case (3 z)
    have "a + b < c" if "3 * a \<le> c" "3 * b \<le> c" "0 < a" for a b c :: nat using that by linarith
    from this [OF y y pos, of z x'] show ?thesis using 3 load_simps(2) [of p "st @ [z]" x'] load_simps(2) [of p st z]
        load_simps(2) [of p st x] by simp
  qed
  show "\<forall>c \<in> insert x' (set st'). \<exists>b. bounded (mv p) b c"
    using search_step_new [OF assms(1)] assms(2) rank_move(2) [OF b] by blast
qed

lemma search_returns_load:
  "\<forall>c \<in> insert x (set st). \<exists>b. bounded (mv p) b c \<Longrightarrow> load p (st @ [x]) \<le> n \<Longrightarrow> search (mv p) (final p) n x st \<noteq> None"
proof (induction n arbitrary: x st)
  case 0
  then show ?case by simp
next
  case (Suc n)
  show ?case
  proof (cases "search_step (mv p) (final p) x st")
    case (More x' st')
    then show ?thesis using Suc.IH [OF load_step(2) [OF More Suc.prems(1)]] load_step(1) [OF More Suc.prems(1)] Suc.prems(2)
      by simp
  qed simp_all
qed

lemma search_returns: "bounded (mv p) b a \<Longrightarrow> 3 ^ b \<le> n \<Longrightarrow> search (mv p) (final p) n a [] \<noteq> None"
proof (rule search_returns_load)
  assume b: "bounded (mv p) b a" "3 ^ b \<le> n"
  then have "rank p a \<le> b" unfolding rank_def by (auto intro: Least_le)
  then have "(3 :: nat) ^ rank p a \<le> 3 ^ b" by (intro power_increasing) auto
  from le_trans [OF this b(2)] show "load p ([] @ [a]) \<le> n" by (simp add: load_def)
qed auto

end

end
