(* ===== verification/RegexMachine.thy ===== *)
theory RegexMachine
  imports RegexSyntax Search
begin

text \<open>
  What an expression matches, and the moves that the code of an expression allows: a move from the
  start of the code of an expression leads to its end exactly along a match.
\<close>

section \<open>Matching\<close>

text \<open>\<open>recognizes s r i j\<close>: the characters of \<open>s\<close> from \<open>i\<close> up to \<open>j\<close> match \<open>r\<close>.\<close>

inductive recognizes :: "string \<Rightarrow> re \<Rightarrow> nat \<Rightarrow> nat \<Rightarrow> bool" for s :: string where
  lit: "i < length s \<Longrightarrow> uchar (s ! i) = c \<Longrightarrow> recognizes s (Lit c) i (Suc i)"
| skip: "recognizes s (Skip w) i i"
| rng: "i < length s \<Longrightarrow> in_words ws (uchar (s ! i)) \<Longrightarrow> recognizes s (Rng ws) i (Suc i)"
| any: "i < length s \<Longrightarrow> recognizes s Any i (Suc i)"
| caret: "recognizes s Caret 0 0"
| dollar: "recognizes s Dollar (length s) (length s)"
| group: "recognizes s r i j \<Longrightarrow> recognizes s (Group k r) i j"
| opt0: "recognizes s (Opt r) i i"
| opt1: "recognizes s r i j \<Longrightarrow> recognizes s (Opt r) i j"
| plus1: "recognizes s r i j \<Longrightarrow> recognizes s (Plus r) i j"
| plus: "recognizes s r i j \<Longrightarrow> recognizes s (Plus r) j k \<Longrightarrow> recognizes s (Plus r) i k"
| star0: "recognizes s (Star r) i i"
| star: "recognizes s r i j \<Longrightarrow> recognizes s (Star r) j k \<Longrightarrow> recognizes s (Star r) i k"
| cat: "recognizes s r i j \<Longrightarrow> recognizes s r' j k \<Longrightarrow> recognizes s (Cat r r') i k"
| left: "recognizes s r i j \<Longrightarrow> recognizes s (Alt r r') i j"
| right: "recognizes s r' i j \<Longrightarrow> recognizes s (Alt r r') i j"

inductive_cases recognizes_elims: "recognizes s (Lit c) i j" "recognizes s (Skip w) i j" "recognizes s (Rng ws) i j"
  "recognizes s Any i j" "recognizes s Caret i j" "recognizes s Dollar i j" "recognizes s (Group k r) i j"
  "recognizes s (Opt r) i j" "recognizes s (Cat r r') i j" "recognizes s (Alt r r') i j"

lemma recognizes_bounds: "recognizes s r i j \<Longrightarrow> i \<le> length s \<Longrightarrow> i \<le> j \<and> j \<le> length s"
  by (induction rule: recognizes.induct) auto

section \<open>Code inside a program\<close>

definition emb :: "nat list \<Rightarrow> nat \<Rightarrow> nat list \<Rightarrow> bool" where
  "emb code p b \<longleftrightarrow> p + length b \<le> length code \<and> (\<forall>i < length b. code ! (p + i) = b ! i)"

lemma emb_Nil [simp]: "emb code p [] \<longleftrightarrow> p \<le> length code"
  by (simp add: emb_def)

lemma emb_Cons [simp]: "emb code p (c # b) \<longleftrightarrow> p < length code \<and> code ! p = c \<and> emb code (Suc p) b"
  by (auto simp: emb_def nth_Cons less_Suc_eq_0_disj split: nat.splits)

lemma emb_append [simp]: "emb code p (b @ b') \<longleftrightarrow> emb code p b \<and> emb code (p + length b) b'"
proof
  assume e: "emb code p (b @ b')"
  have "code ! (p + length b + i) = b' ! i" if "i < length b'" for i
    using e that unfolding emb_def by (auto simp: nth_append add.assoc dest!: conjunct2 spec [of _ "length b + i"])
  moreover have "code ! (p + i) = b ! i" if "i < length b" for i
    using e that unfolding emb_def by (auto simp: nth_append dest!: conjunct2 spec [of _ i])
  ultimately show "emb code p b \<and> emb code (p + length b) b'" using e by (simp add: emb_def)
next
  assume e: "emb code p b \<and> emb code (p + length b) b'"
  have "code ! (p + i) = (b @ b') ! i" if i: "i < length (b @ b')" for i
  proof (cases "i < length b")
    case True then show ?thesis using e by (simp add: emb_def nth_append)
  next
    case False
    then obtain l where l: "i = length b + l" using le_Suc_ex by force
    then have "code ! (p + length b + l) = b' ! l" using e i by (simp add: emb_def)
    then show ?thesis unfolding l by (simp add: add.assoc)
  qed
  then show "emb code p (b @ b')" using e by (simp add: emb_def)
qed

section \<open>Moves\<close>

text \<open>The states that may follow a state, the one the machine tries first in front.\<close>

definition moves :: "nat list \<Rightarrow> string \<Rightarrow> nat \<times> nat \<Rightarrow> (nat \<times> nat) list" where
  "moves code s = (\<lambda>(q, d). let c = code ! q; op = c div 4096 in
     if c = 0 then []
     else if op = 7 then (if d \<noteq> 0 then [] else [(Suc q, d)])
     else if op = 8 then (if d < length s then [] else [(Suc q, d)])
     else if op = 0 then (if length s \<le> d \<or> uchar (s ! d) \<noteq> c mod 256 then [] else [(Suc q, Suc d)])
     else if op = 1 then
       (if length s \<le> d \<or> int (c - RE_RNG) * 16 \<le> schar (s ! d) \<or>
           \<not> charset_tst (code ! (Suc q + uchar (s ! d) div 16)) (uchar (s ! d)) then []
        else [(Suc q + (c - RE_RNG), Suc d)])
     else if op = 2 then (if length s \<le> d then [] else [(Suc q, Suc d)])
     else if op = 3 then (if length s \<le> d \<and> c < RE_JMP then [(Suc q, d)] else [(Suc q + c - RE_JMP, d)])
     else if op = 4 then [(Suc q, d), (Suc q + c - RE_FAIL, d)]
     else [(Suc q, d)])"

definition ascii :: "string \<Rightarrow> bool" where
  "ascii s \<longleftrightarrow> (\<forall>c \<in> set s. uchar c < 128)"

lemma moves_words:
  "0 < c \<Longrightarrow> c < 256 \<Longrightarrow> code ! q = c \<Longrightarrow>
     moves code s (q, d) = (if d < length s \<and> uchar (s ! d) = c then [(Suc q, Suc d)] else [])"
  "w div 4096 = 15 \<Longrightarrow> code ! q = w \<Longrightarrow> moves code s (q, d) = [(Suc q, d)]"
  "code ! q = RE_ANY \<Longrightarrow> moves code s (q, d) = (if d < length s then [(Suc q, Suc d)] else [])"
  "code ! q = RE_CARET \<Longrightarrow> moves code s (q, d) = (if d = 0 then [(Suc q, d)] else [])"
  "code ! q = RE_DOLLAR \<Longrightarrow> moves code s (q, d) = (if d < length s then [] else [(Suc q, d)])"
  "k < 4096 \<Longrightarrow> code ! q = RE_START + k \<Longrightarrow> moves code s (q, d) = [(Suc q, d)]"
  "k < 4096 \<Longrightarrow> code ! q = RE_END + k \<Longrightarrow> moves code s (q, d) = [(Suc q, d)]"
proof -
  have c: "k < 4096 \<Longrightarrow> (RE_START + k) div 4096 = 5" "k < 4096 \<Longrightarrow> (RE_END + k) div 4096 = 6"
    by (simp_all add: re_words div_nat_eqI)
  show "0 < c \<Longrightarrow> c < 256 \<Longrightarrow> code ! q = c \<Longrightarrow>
     moves code s (q, d) = (if d < length s \<and> uchar (s ! d) = c then [(Suc q, Suc d)] else [])"
    by (auto simp: moves_def)
  show "w div 4096 = 15 \<Longrightarrow> code ! q = w \<Longrightarrow> moves code s (q, d) = [(Suc q, d)]"
    by (auto simp: moves_def)
  show "code ! q = RE_ANY \<Longrightarrow> moves code s (q, d) = (if d < length s then [(Suc q, Suc d)] else [])"
    "code ! q = RE_CARET \<Longrightarrow> moves code s (q, d) = (if d = 0 then [(Suc q, d)] else [])"
    "code ! q = RE_DOLLAR \<Longrightarrow> moves code s (q, d) = (if d < length s then [] else [(Suc q, d)])"
    by (simp_all add: moves_def re_words)
  show "k < 4096 \<Longrightarrow> code ! q = RE_START + k \<Longrightarrow> moves code s (q, d) = [(Suc q, d)]"
    using c(1) by (simp add: moves_def) (simp add: re_words)
  show "k < 4096 \<Longrightarrow> code ! q = RE_END + k \<Longrightarrow> moves code s (q, d) = [(Suc q, d)]"
    using c(2) by (simp add: moves_def) (simp add: re_words)
qed

lemma moves_fail:
  assumes "n < 2048" "code ! q = RE_FAIL + n"
  shows "moves code s (q, d) = [(Suc q, d), (Suc q + n, d)]"
proof -
  have "(RE_FAIL + n) div 4096 = 4" using assms(1) by (simp add: re_words div_nat_eqI)
  then show ?thesis using assms(2) by (simp add: moves_def) (simp add: re_words)
qed

lemma moves_forward:
  assumes "n < 2048" "code ! q = RE_JMP + n"
  shows "moves code s (q, d) = [(Suc q + n, d)]"
proof -
  have "(RE_JMP + n) div 4096 = 3" using assms(1) by (simp add: re_words div_nat_eqI)
  then show ?thesis using assms(2) by (simp add: moves_def) (simp add: re_words)
qed

lemma moves_back:
  assumes "0 < n" "n < 2048" "n \<le> Suc q" "code ! q = RE_JMP - n"
  shows "moves code s (q, d) = (if length s \<le> d then [(Suc q, d)] else [(Suc q - n, d)])"
proof -
  have "(RE_JMP - n) div 4096 = 3" using assms(2) by (simp add: re_words div_nat_eqI)
  then show ?thesis using assms by (simp add: moves_def) (simp add: re_words)
qed

lemma moves_rng:
  assumes "1 \<le> length ws" "length ws \<le> 16" "emb code q ((RE_RNG + length ws) # ws)" "ascii s"
  shows "moves code s (q, d) = (if d < length s \<and> in_words ws (uchar (s ! d)) then [(Suc q + length ws, Suc d)] else [])"
proof (cases "d < length s")
  case True
  have op: "(RE_RNG + length ws) div 4096 = 1" using assms(2) by (simp add: re_words div_nat_eqI)
  have a: "uchar (s ! d) < 128" using assms(4) True by (simp add: ascii_def)
  have n: "int (length ws) * 16 \<le> schar (s ! d) \<longleftrightarrow> \<not> uchar (s ! d) div 16 < length ws"
    using a by (auto simp: schar_def div_less_iff_less_mult)
  have w: "code ! (Suc q + uchar (s ! d) div 16) = ws ! (uchar (s ! d) div 16)" if "uchar (s ! d) div 16 < length ws"
    using assms(3) that unfolding emb_Cons by (auto simp: emb_def)
  have "RE_RNG + length ws \<noteq> 0" by (simp add: re_words)
  then show ?thesis using True op assms(3) n w by (auto simp: moves_def in_words_def Let_def)
next
  case False
  have op: "(RE_RNG + length ws) div 4096 = 1" using assms(2) by (simp add: re_words div_nat_eqI)
  have "RE_RNG + length ws \<noteq> 0" by (simp add: re_words)
  then show ?thesis using False op assms(3) by (simp add: moves_def Let_def)
qed

section \<open>From matches to moves\<close>

abbreviation path :: "nat list \<Rightarrow> string \<Rightarrow> nat \<Rightarrow> nat \<times> nat \<Rightarrow> nat \<times> nat \<Rightarrow> bool" where
  "path code s \<equiv> walk (moves code s)"

abbreviation leads :: "nat list \<Rightarrow> string \<Rightarrow> nat \<times> nat \<Rightarrow> nat \<times> nat \<Rightarrow> bool" where
  "leads code s \<equiv> reaches (moves code s)"

lemmas leads_move = reaches_move and leads_trans = reaches_trans

text \<open>The code of an expression at \<open>p\<close>, its parts and the moves at its own words.\<close>

definition placed_at :: "nat list \<Rightarrow> string \<Rightarrow> nat \<Rightarrow> re \<Rightarrow> bool" where
  "placed_at code s p r \<longleftrightarrow> emb code p (emit r) \<and> wf_re r \<and> length (emit r) \<le> 2040 \<and> ascii s"

lemma placed_sub:
  "placed_at code s p (Group k r) \<Longrightarrow> placed_at code s (Suc p) r"
  "placed_at code s p (Opt r) \<Longrightarrow> placed_at code s (Suc p) r"
  "placed_at code s p (Plus r) \<Longrightarrow> placed_at code s p r"
  "placed_at code s p (Star r) \<Longrightarrow> placed_at code s (Suc p) r"
  "placed_at code s p (Cat r r') \<Longrightarrow> placed_at code s p r"
  "placed_at code s p (Cat r r') \<Longrightarrow> placed_at code s (p + length (emit r)) r'"
  "placed_at code s p (Alt r r') \<Longrightarrow> placed_at code s (Suc p) r"
  "placed_at code s p (Alt r r') \<Longrightarrow> placed_at code s (Suc (Suc p + length (emit r))) r'"
  unfolding placed_at_def emit.simps wf_re.simps emb_Cons emb_append by simp_all

lemma placed_length: "placed_at code s p r \<Longrightarrow> p + length (emit r) \<le> length code \<and> length (emit r) < 2041"
  unfolding placed_at_def emb_def by simp

lemma placed_char_moves:
  "placed_at code s p (Lit c) \<Longrightarrow> moves code s (p, i) = (if i < length s \<and> uchar (s ! i) = c then [(Suc p, Suc i)] else [])"
  "placed_at code s p (Skip w) \<Longrightarrow> moves code s (p, i) = [(Suc p, i)]"
  "placed_at code s p (Rng ws) \<Longrightarrow>
     moves code s (p, i) = (if i < length s \<and> in_words ws (uchar (s ! i)) then [(Suc p + length ws, Suc i)] else [])"
  "placed_at code s p Any \<Longrightarrow> moves code s (p, i) = (if i < length s then [(Suc p, Suc i)] else [])"
  "placed_at code s p Caret \<Longrightarrow> moves code s (p, i) = (if i = 0 then [(Suc p, i)] else [])"
  "placed_at code s p Dollar \<Longrightarrow> moves code s (p, i) = (if i < length s then [] else [(Suc p, i)])"
proof -
  note d = placed_at_def emit.simps wf_re.simps
  show "placed_at code s p (Lit c) \<Longrightarrow> moves code s (p, i) = (if i < length s \<and> uchar (s ! i) = c then [(Suc p, Suc i)] else [])"
    unfolding d emb_Cons by (rule moves_words(1); blast)
  show "placed_at code s p (Skip w) \<Longrightarrow> moves code s (p, i) = [(Suc p, i)]"
    unfolding d emb_Cons by (rule moves_words(2); blast)
  show "placed_at code s p (Rng ws) \<Longrightarrow>
     moves code s (p, i) = (if i < length s \<and> in_words ws (uchar (s ! i)) then [(Suc p + length ws, Suc i)] else [])"
    unfolding d by (rule moves_rng; blast)
  show "placed_at code s p Any \<Longrightarrow> moves code s (p, i) = (if i < length s then [(Suc p, Suc i)] else [])"
    unfolding d emb_Cons by (rule moves_words(3); blast)
  show "placed_at code s p Caret \<Longrightarrow> moves code s (p, i) = (if i = 0 then [(Suc p, i)] else [])"
    unfolding d emb_Cons by (rule moves_words(4); blast)
  show "placed_at code s p Dollar \<Longrightarrow> moves code s (p, i) = (if i < length s then [] else [(Suc p, i)])"
    unfolding d emb_Cons by (rule moves_words(5); blast)
qed

lemma placed_moves:
  "placed_at code s p (Group k r) \<Longrightarrow> moves code s (p, i) = [(Suc p, i)]"
  "placed_at code s p (Group k r) \<Longrightarrow> moves code s (Suc p + length (emit r), i) = [(Suc (Suc p + length (emit r)), i)]"
  "placed_at code s p (Opt r) \<Longrightarrow> moves code s (p, i) = [(Suc p, i), (Suc p + length (emit r), i)]"
  "placed_at code s p (Plus r) \<Longrightarrow> moves code s (p + length (emit r), i) =
     [(Suc (p + length (emit r)), i), (Suc (Suc (p + length (emit r))), i)]"
  "placed_at code s p (Plus r) \<Longrightarrow> moves code s (Suc (p + length (emit r)), i) =
     (if length s \<le> i then [(Suc (Suc (p + length (emit r))), i)] else [(p, i)])"
  "placed_at code s p (Star r) \<Longrightarrow> moves code s (p, i) = [(Suc p, i), (Suc (Suc p + length (emit r)), i)]"
  "placed_at code s p (Star r) \<Longrightarrow> moves code s (Suc p + length (emit r), i) =
     (if length s \<le> i then [(Suc (Suc p + length (emit r)), i)] else [(p, i)])"
  "placed_at code s p (Alt r r') \<Longrightarrow> moves code s (p, i) = [(Suc p, i), (Suc (Suc p + length (emit r)), i)]"
  "placed_at code s p (Alt r r') \<Longrightarrow> moves code s (Suc p + length (emit r), i) =
     [(Suc (Suc p + length (emit r)) + length (emit r'), i)]"
proof -
  note d = placed_at_def emit.simps wf_re.simps emb_Cons emb_append
  show "placed_at code s p (Group k r) \<Longrightarrow> moves code s (p, i) = [(Suc p, i)]"
    unfolding d by (rule moves_words(6); blast)
  show "placed_at code s p (Group k r) \<Longrightarrow> moves code s (Suc p + length (emit r), i) = [(Suc (Suc p + length (emit r)), i)]"
    unfolding d by (rule moves_words(7); blast)
  show "placed_at code s p (Opt r) \<Longrightarrow> moves code s (p, i) = [(Suc p, i), (Suc p + length (emit r), i)]"
    unfolding d by (rule moves_fail) simp_all
  { assume a: "placed_at code s p (Plus r)"
    then have "code ! (p + length (emit r)) = RE_FAIL + 1" "code ! Suc (p + length (emit r)) = RE_JMP - (length (emit r) + 2)"
      "length (emit r) + 2 < 2048"
      unfolding d by simp_all
    then show "moves code s (p + length (emit r), i) = [(Suc (p + length (emit r)), i), (Suc (Suc (p + length (emit r))), i)]"
      "moves code s (Suc (p + length (emit r)), i) = (if length s \<le> i then [(Suc (Suc (p + length (emit r))), i)] else [(p, i)])"
      using moves_fail [of 1 code "p + length (emit r)" s i]
        moves_back [of "length (emit r) + 2" "Suc (p + length (emit r))" code s i] by simp_all }
  { assume a: "placed_at code s p (Star r)"
    then have "code ! p = RE_FAIL + (length (emit r) + 1)" "code ! (Suc p + length (emit r)) = RE_JMP - (length (emit r) + 2)"
      "length (emit r) + 2 < 2048"
      unfolding d by simp_all
    then show "moves code s (p, i) = [(Suc p, i), (Suc (Suc p + length (emit r)), i)]"
      "moves code s (Suc p + length (emit r), i) = (if length s \<le> i then [(Suc (Suc p + length (emit r)), i)] else [(p, i)])"
      using moves_fail [of "length (emit r) + 1" code p s i]
        moves_back [of "length (emit r) + 2" "Suc p + length (emit r)" code s i] by simp_all }
  { assume a: "placed_at code s p (Alt r r')"
    then have "code ! p = RE_FAIL + (length (emit r) + 1)" "code ! (Suc p + length (emit r)) = RE_JMP + length (emit r')"
      "length (emit r) + 1 < 2048" "length (emit r') < 2048"
      unfolding d by simp_all
    then show "moves code s (p, i) = [(Suc p, i), (Suc (Suc p + length (emit r)), i)]"
      "moves code s (Suc p + length (emit r), i) = [(Suc (Suc p + length (emit r)) + length (emit r'), i)]"
      using moves_fail [of "length (emit r) + 1" code p s i]
        moves_forward [of "length (emit r')" code "Suc p + length (emit r)" s i] by simp_all }
qed

lemma leads_step: "moves code s x = ys \<Longrightarrow> y \<in> set ys \<Longrightarrow> leads code s y z \<Longrightarrow> leads code s x z"
  by (rule reaches_move) simp_all

lemma leads_one: "moves code s x = ys \<Longrightarrow> y \<in> set ys \<Longrightarrow> leads code s x y"
  by (rule reaches_move) auto

lemma leads_loop:
  assumes "placed_at code s p (Plus r)" "recognizes s (Plus r) j k" "j \<le> length s"
    "j \<le> length s \<Longrightarrow> leads code s (p, j) (p + length (emit (Plus r)), k)"
  shows "leads code s (Suc (p + length (emit r)), j) (p + length (emit (Plus r)), k)"
proof (cases "j = length s")
  case True
  then have "k = j" using recognizes_bounds [OF assms(2,3)] by simp
  then show ?thesis using placed_moves(5) [OF assms(1), of j] True by (intro leads_one) auto
next
  case False
  then have "moves code s (Suc (p + length (emit r)), j) = [(p, j)]" using placed_moves(5) [OF assms(1), of j] assms(3) by simp
  then show ?thesis by (rule leads_step) (use assms(4) [OF assms(3)] in simp_all)
qed

lemma leads_loop_star:
  assumes "placed_at code s p (Star r)" "recognizes s (Star r) j k" "j \<le> length s"
    "j \<le> length s \<Longrightarrow> leads code s (p, j) (p + length (emit (Star r)), k)"
  shows "leads code s (Suc p + length (emit r), j) (p + length (emit (Star r)), k)"
proof (cases "j = length s")
  case True
  then have "k = j" using recognizes_bounds [OF assms(2,3)] by simp
  then show ?thesis using placed_moves(7) [OF assms(1), of j] True by (intro leads_one) auto
next
  case False
  then have "moves code s (Suc p + length (emit r), j) = [(p, j)]" using placed_moves(7) [OF assms(1), of j] assms(3) by simp
  then show ?thesis by (rule leads_step) (use assms(4) [OF assms(3)] in simp_all)
qed

lemma recognizes_leads:
  "recognizes s r i j \<Longrightarrow> placed_at code s p r \<Longrightarrow> i \<le> length s \<Longrightarrow> leads code s (p, i) (p + length (emit r), j)"
proof (induction arbitrary: p rule: recognizes.induct)
  case (lit i c)
  then show ?case by (intro leads_one [OF placed_char_moves(1) [OF lit.prems(1)]]) simp
next
  case (skip w i)
  show ?case by (intro leads_one [OF placed_char_moves(2) [OF skip.prems(1)]]) simp
next
  case (rng i ws)
  then show ?case by (intro leads_one [OF placed_char_moves(3) [OF rng.prems(1)]]) simp
next
  case (any i)
  then show ?case by (intro leads_one [OF placed_char_moves(4) [OF any.prems(1)]]) simp
next
  case caret
  show ?case by (intro leads_one [OF placed_char_moves(5) [OF caret.prems(1)]]) simp
next
  case dollar
  show ?case by (intro leads_one [OF placed_char_moves(6) [OF dollar.prems(1)]]) simp
next
  case (group r i j k)
  have "leads code s (Suc p, i) (Suc p + length (emit r), j)"
    by (rule group.IH [OF placed_sub(1) [OF group.prems(1)] group.prems(2)])
  moreover have "leads code s (Suc p + length (emit r), j) (p + length (emit (Group k r)), j)"
    by (rule leads_one [OF placed_moves(2) [OF group.prems(1)]]) simp
  ultimately have "leads code s (Suc p, i) (p + length (emit (Group k r)), j)" by (rule leads_trans)
  then show ?case by (intro leads_step [OF placed_moves(1) [OF group.prems(1)]]) simp_all
next
  case (opt0 r i)
  show ?case by (rule leads_one [OF placed_moves(3) [OF opt0.prems(1)]]) simp
next
  case (opt1 r i j)
  have "leads code s (Suc p, i) (Suc p + length (emit r), j)"
    by (rule opt1.IH [OF placed_sub(2) [OF opt1.prems(1)] opt1.prems(2)])
  then show ?case by (intro leads_step [OF placed_moves(3) [OF opt1.prems(1)], of "(Suc p, i)"]) simp_all
next
  case (plus1 r i j)
  have "leads code s (p, i) (p + length (emit r), j)"
    by (rule plus1.IH [OF placed_sub(3) [OF plus1.prems(1)] plus1.prems(2)])
  moreover have "leads code s (p + length (emit r), j) (p + length (emit (Plus r)), j)"
    by (rule leads_one [OF placed_moves(4) [OF plus1.prems(1)]]) simp
  ultimately show ?case by (rule leads_trans)
next
  case (plus r i j k)
  have j: "j \<le> length s" using recognizes_bounds [OF plus.hyps(1) plus.prems(2)] by simp
  have "leads code s (p, i) (p + length (emit r), j)"
    by (rule plus.IH(1) [OF placed_sub(3) [OF plus.prems(1)] plus.prems(2)])
  moreover have "leads code s (p + length (emit r), j) (Suc (p + length (emit r)), j)"
    by (rule leads_one [OF placed_moves(4) [OF plus.prems(1)]]) simp
  moreover have "leads code s (Suc (p + length (emit r)), j) (p + length (emit (Plus r)), k)"
    by (rule leads_loop [OF plus.prems(1) plus.hyps(2) j plus.IH(2) [OF plus.prems(1)]])
  ultimately show ?case by (blast intro: leads_trans)
next
  case (star0 r i)
  show ?case by (rule leads_one [OF placed_moves(6) [OF star0.prems(1)]]) simp
next
  case (star r i j k)
  have j: "j \<le> length s" using recognizes_bounds [OF star.hyps(1) star.prems(2)] by simp
  have "leads code s (p, i) (Suc p, i)"
    by (rule leads_one [OF placed_moves(6) [OF star.prems(1)]]) simp
  moreover have "leads code s (Suc p, i) (Suc p + length (emit r), j)"
    by (rule star.IH(1) [OF placed_sub(4) [OF star.prems(1)] star.prems(2)])
  moreover have "leads code s (Suc p + length (emit r), j) (p + length (emit (Star r)), k)"
    by (rule leads_loop_star [OF star.prems(1) star.hyps(2) j star.IH(2) [OF star.prems(1)]])
  ultimately show ?case by (blast intro: leads_trans)
next
  case (cat r i j r' k)
  have "j \<le> length s" using recognizes_bounds [OF cat.hyps(1) cat.prems(2)] by simp
  then have "leads code s (p + length (emit r), j) (p + length (emit r) + length (emit r'), k)"
    by (rule cat.IH(2) [OF placed_sub(6) [OF cat.prems(1)]])
  with cat.IH(1) [OF placed_sub(5) [OF cat.prems(1)] cat.prems(2)]
  have "leads code s (p, i) (p + length (emit r) + length (emit r'), k)" by (rule leads_trans)
  then show ?case by (simp add: add.assoc)
next
  case (left r i j r')
  have "leads code s (p, i) (Suc p, i)"
    by (rule leads_one [OF placed_moves(8) [OF left.prems(1)]]) simp
  moreover have "leads code s (Suc p, i) (Suc p + length (emit r), j)"
    by (rule left.IH [OF placed_sub(7) [OF left.prems(1)] left.prems(2)])
  moreover have "leads code s (Suc p + length (emit r), j) (p + length (emit (Alt r r')), j)"
    by (rule leads_one [OF placed_moves(9) [OF left.prems(1)]]) simp
  ultimately show ?case by (blast intro: leads_trans)
next
  case (right r' i j r)
  have "leads code s (p, i) (Suc (Suc p + length (emit r)), i)"
    by (rule leads_one [OF placed_moves(8) [OF right.prems(1)]]) simp
  moreover have "leads code s (Suc (Suc p + length (emit r)), i) (Suc (Suc p + length (emit r)) + length (emit r'), j)"
    by (rule right.IH [OF placed_sub(8) [OF right.prems(1)] right.prems(2)])
  ultimately have "leads code s (p, i) (Suc (Suc p + length (emit r)) + length (emit r'), j)" by (rule leads_trans)
  then show ?case by (simp add: add.assoc)
qed

end
