(* ===== verification/RegexPaths.thy ===== *)
theory RegexPaths
  imports RegexMachine
begin

text \<open>
  The paths that start at the code of an expression: each stays on the instructions of the expression
  or leaves at its end after a match; where the bodies of the loops cannot be empty it does so within a bound.
\<close>

section \<open>Empty matches\<close>

fun nullable :: "re \<Rightarrow> bool" where
  "nullable (Lit c) = False"
| "nullable (Rng ws) = False"
| "nullable Any = False"
| "nullable (Group k r) = nullable r"
| "nullable (Plus r) = nullable r"
| "nullable (Cat r r') = (nullable r \<and> nullable r')"
| "nullable (Alt r r') = (nullable r \<or> nullable r')"
| "nullable _ = True"

fun proper :: "re \<Rightarrow> bool" where
  "proper (Group k r) = proper r"
| "proper (Opt r) = proper r"
| "proper (Plus r) = (\<not> nullable r \<and> proper r)"
| "proper (Star r) = (\<not> nullable r \<and> proper r)"
| "proper (Cat r r') = (proper r \<and> proper r')"
| "proper (Alt r r') = (proper r \<and> proper r')"
| "proper _ = True"

lemma recognizes_advances: "recognizes s r i j \<Longrightarrow> i \<le> length s \<Longrightarrow> \<not> nullable r \<Longrightarrow> i < j"
proof (induction rule: recognizes.induct)
  case (plus r i j k)
  then show ?case using recognizes_bounds [of s r i j] recognizes_bounds [of s "Plus r" j k] by simp
next
  case (cat r i j r' k)
  then show ?case using recognizes_bounds [of s r i j] recognizes_bounds [of s r' j k] by fastforce
qed auto

section \<open>Instructions\<close>

fun pcs :: "nat \<Rightarrow> re \<Rightarrow> nat set" where
  "pcs p (Group k r) = {p, Suc p + length (emit r)} \<union> pcs (Suc p) r"
| "pcs p (Opt r) = {p} \<union> pcs (Suc p) r"
| "pcs p (Plus r) = {p + length (emit r), Suc (p + length (emit r))} \<union> pcs p r"
| "pcs p (Star r) = {p, Suc p + length (emit r)} \<union> pcs (Suc p) r"
| "pcs p (Cat r r') = pcs p r \<union> pcs (p + length (emit r)) r'"
| "pcs p (Alt r r') = {p, Suc p + length (emit r)} \<union> pcs (Suc p) r \<union> pcs (Suc (Suc p + length (emit r))) r'"
| "pcs p _ = {p}"

lemma pcs_start: "p \<in> pcs p r"
  by (induction r arbitrary: p) auto

lemma pcs_range: "q \<in> pcs p r \<Longrightarrow> p \<le> q \<and> q < p + length (emit r)"
  by (induction r arbitrary: p) fastforce+

text \<open>The largest number of moves inside the code of an expression, for data of length \<open>n\<close>.\<close>

fun steps :: "nat \<Rightarrow> re \<Rightarrow> nat" where
  "steps n (Group k r) = steps n r + 2"
| "steps n (Opt r) = steps n r + 1"
| "steps n (Plus r) = (n + 1) * (steps n r + 2)"
| "steps n (Star r) = (n + 1) * (steps n r + 2)"
| "steps n (Cat r r') = steps n r + steps n r'"
| "steps n (Alt r r') = steps n r + steps n r' + 2"
| "steps n _ = 1"

section \<open>Splitting a path\<close>

text \<open>\<open>splits_at B\<close>: the path from \<open>(p, i)\<close> to \<open>y\<close> stays inside for fewer than \<open>B\<close> moves or leaves after a match
  and at most \<open>B\<close> moves.\<close>

definition inside :: "nat \<Rightarrow> nat \<Rightarrow> re \<Rightarrow> nat \<Rightarrow> nat \<times> nat \<Rightarrow> bool" where
  "inside B p r n y \<longleftrightarrow> fst y \<in> pcs p r \<and> (proper r \<longrightarrow> n < B)"

definition leaves :: "nat \<Rightarrow> nat list \<Rightarrow> string \<Rightarrow> nat \<Rightarrow> re \<Rightarrow> nat \<Rightarrow> nat \<Rightarrow> nat \<times> nat \<Rightarrow> bool" where
  "leaves B code s p r i n y \<longleftrightarrow> (\<exists>m l k. n = m + l \<and> 0 < m \<and> (proper r \<longrightarrow> m \<le> B) \<and> recognizes s r i k \<and>
     path code s l (p + length (emit r), k) y)"

definition split_path :: "nat \<Rightarrow> nat list \<Rightarrow> string \<Rightarrow> nat \<Rightarrow> re \<Rightarrow> nat \<Rightarrow> nat \<Rightarrow> nat \<times> nat \<Rightarrow> bool" where
  "split_path B code s p r i n y \<longleftrightarrow> inside B p r n y \<or> leaves B code s p r i n y"

lemma leavesI: "n = m + l \<Longrightarrow> 0 < m \<Longrightarrow> (proper r \<Longrightarrow> m \<le> B) \<Longrightarrow> recognizes s r i k \<Longrightarrow>
    path code s l (p + length (emit r), k) y \<Longrightarrow> split_path B code s p r i n y"
  unfolding split_path_def leaves_def by blast

lemma insideI: "fst y \<in> pcs p r \<Longrightarrow> (proper r \<Longrightarrow> n < B) \<Longrightarrow> split_path B code s p r i n y"
  unfolding split_path_def inside_def by blast

lemma split_pathE:
  assumes "split_path B code s p r i n y"
  obtains (inside) "fst y \<in> pcs p r" "proper r \<longrightarrow> n < B"
  | (leaves) m l k where "n = m + l" "0 < m" "proper r \<longrightarrow> m \<le> B" "recognizes s r i k"
      "path code s l (p + length (emit r), k) y"
  using assms unfolding split_path_def inside_def leaves_def by blast

lemma path_first:
  assumes "path code s n x y" "moves code s x = ys"
  obtains (here) "n = 0" "y = x" | (move) l z where "n = Suc l" "z \<in> set ys" "path code s l z y"
  using assms by (cases n) auto

lemma split_char:
  assumes "path code s n (p, i) y" "moves code s (p, i) = (if b then [(p + length (emit r), k)] else [])"
    "b \<Longrightarrow> recognizes s r i k" "pcs p r = {p}" "steps (length s) r = 1"
  shows "split_path (steps (length s) r) code s p r i n y"
  using assms(1,2)
proof (cases rule: path_first)
  case here
  then show ?thesis using assms(4,5) by (intro insideI) auto
next
  case (move l z)
  then have b: "b" "z = (p + length (emit r), k)" by (auto split: if_splits)
  then show ?thesis using move assms(3,5) by (intro leavesI [of n 1 l]) auto
qed

lemma split_path_mono: "split_path B code s p r i n y \<Longrightarrow> B \<le> B' \<Longrightarrow> split_path B' code s p r i n y"
  by (elim split_pathE) (auto intro: insideI leavesI)

lemma loop_bound:
  assumes "(i::nat) < k" "k \<le> n"
  shows "(B + 2) + (n - k + 1) * (B + 2) \<le> (n - i + 1) * (B + 2)"
proof -
  have "(B + 2) + (n - k + 1) * (B + 2) = (n - k + 2) * (B + 2)" by simp
  also have "\<dots> \<le> (n - i + 1) * (B + 2)" using assms by (intro mult_le_mono1) simp
  finally show ?thesis .
qed

lemma loop_least: "(B::nat) + 2 \<le> (n + 1) * (B + 2)"
  by simp

lemma split_star:
  assumes IH: "\<And>n i. i \<le> length s \<Longrightarrow> path code s n (Suc p, i) y \<Longrightarrow> split_path B code s (Suc p) r i n y"
    and pl: "placed_at code s p (Star r)"
  shows "path code s n (p, i) y \<Longrightarrow> i \<le> length s \<Longrightarrow> split_path ((length s - i + 1) * (B + 2)) code s p (Star r) i n y"
proof (induction n arbitrary: i rule: less_induct)
  case (less n)
  let ?e = "p + length (emit (Star r))" and ?B = "(length s - i + 1) * (B + 2)"
  have B: "B + 2 \<le> ?B" by (rule loop_least)
  from less.prems(1) placed_moves(6) [OF pl] show ?case
  proof (cases rule: path_first)
    case here
    then show ?thesis using B by (intro insideI) auto
  next
    case (move l z)
    show ?thesis
    proof (cases "z = (Suc p, i)")
      case False
      then have "path code s l (?e, i) y" using move by auto
      then show ?thesis using move B by (intro leavesI [of n 1 l]) (auto intro: star0)
    next
      case True
      from IH [OF less.prems(2) move(3) [unfolded True]] show ?thesis
      proof (cases rule: split_pathE)
        case inside
        then show ?thesis using move B by (intro insideI) auto
      next
        case (leaves m l' k)
        have k: "k \<le> length s" "i \<le> k" using recognizes_bounds [OF leaves(4) less.prems(2)] by auto
        from leaves(5) placed_moves(7) [OF pl] show ?thesis
        proof (cases rule: path_first)
          case here
          then show ?thesis using leaves move B by (intro insideI) auto
        next
          case (move l2 z2)
          have n: "n = 2 + m + l2" using move(1) leaves(1) \<open>n = Suc l\<close> by simp
          show ?thesis
          proof (cases "length s \<le> k")
            case True
            then have "path code s l2 (?e, k) y" using move by auto
            moreover have "recognizes s (Star r) i k" using leaves(4) star0 by (rule star)
            ultimately show ?thesis using leaves n B by (intro leavesI [of n "2 + m" l2]) auto
          next
            case False
            then have "path code s l2 (p, k) y" using move by auto
            then have "split_path ((length s - k + 1) * (B + 2)) code s p (Star r) k l2 y"
              using n k by (intro less.IH) auto
            then show ?thesis
            proof (cases rule: split_pathE)
              case inside
              show ?thesis
              proof (rule insideI [OF inside(1)])
                assume "proper (Star r)"
                then have "m \<le> B" "i < k" "l2 < (length s - k + 1) * (B + 2)"
                  using leaves(3) inside(2) recognizes_advances [OF leaves(4) less.prems(2)] by auto
                then show "n < ?B" using loop_bound [of i k "length s" B] k n by linarith
              qed
            next
              case (leaves m2 l3 j)
              show ?thesis
              proof (rule leavesI [of n "2 + m + m2" l3])
                show "n = 2 + m + m2 + l3" "0 < 2 + m + m2" using n leaves(1) by auto
                show "recognizes s (Star r) i j" using \<open>recognizes s r i k\<close> leaves(4) by (rule star)
                show "path code s l3 (?e, j) y" by (rule leaves(5))
                assume "proper (Star r)"
                then have "m \<le> B" "i < k" "m2 \<le> (length s - k + 1) * (B + 2)"
                  using \<open>proper r \<longrightarrow> m \<le> B\<close> leaves(3) recognizes_advances [OF \<open>recognizes s r i k\<close> less.prems(2)] by auto
                then show "2 + m + m2 \<le> ?B" using loop_bound [of i k "length s" B] k n by linarith
              qed
            qed
          qed
        qed
      qed
    qed
  qed
qed

lemma split_plus:
  assumes IH: "\<And>n i. i \<le> length s \<Longrightarrow> path code s n (p, i) y \<Longrightarrow> split_path B code s p r i n y"
    and pl: "placed_at code s p (Plus r)"
  shows "path code s n (p, i) y \<Longrightarrow> i \<le> length s \<Longrightarrow> split_path ((length s - i + 1) * (B + 2)) code s p (Plus r) i n y"
proof (induction n arbitrary: i rule: less_induct)
  case (less n)
  let ?e = "p + length (emit (Plus r))" and ?B = "(length s - i + 1) * (B + 2)"
  have B: "B + 2 \<le> ?B" by (rule loop_least)
  from IH [OF less.prems(2,1)] show ?case
  proof (cases rule: split_pathE)
    case inside
    then show ?thesis using B by (intro insideI) auto
  next
    case (leaves m l k)
    have k: "k \<le> length s" "i \<le> k" using recognizes_bounds [OF leaves(4) less.prems(2)] by auto
    have once: "recognizes s (Plus r) i k" using leaves(4) by (rule plus1)
    from leaves(5) placed_moves(4) [OF pl] show ?thesis
    proof (cases rule: path_first)
      case here
      then show ?thesis using leaves B by (intro insideI) auto
    next
      case (move l1 z1)
      show ?thesis
      proof (cases "z1 = (?e, k)")
        case True
        then show ?thesis using leaves move B once by (intro leavesI [of n "1 + m" l1]) auto
      next
        case False
        then have "path code s l1 (Suc (p + length (emit r)), k) y" using move by auto
        from this placed_moves(5) [OF pl] show ?thesis
        proof (cases rule: path_first)
          case here
          then show ?thesis using leaves move B by (intro insideI) auto
        next
          case (move l2 z2)
          have n: "n = 2 + m + l2" using move(1) leaves(1) \<open>l = Suc l1\<close> by simp
          show ?thesis
          proof (cases "length s \<le> k")
            case True
            then have "path code s l2 (?e, k) y" using move by auto
            then show ?thesis using leaves n B once by (intro leavesI [of n "2 + m" l2]) auto
          next
            case False
            then have "path code s l2 (p, k) y" using move by auto
            then have "split_path ((length s - k + 1) * (B + 2)) code s p (Plus r) k l2 y"
              using n k by (intro less.IH) auto
            then show ?thesis
            proof (cases rule: split_pathE)
              case inside
              show ?thesis
              proof (rule insideI [OF inside(1)])
                assume "proper (Plus r)"
                then have "m \<le> B" "i < k" "l2 < (length s - k + 1) * (B + 2)"
                  using leaves(3) inside(2) recognizes_advances [OF leaves(4) less.prems(2)] by auto
                then show "n < ?B" using loop_bound [of i k "length s" B] k n by linarith
              qed
            next
              case (leaves m2 l3 j)
              show ?thesis
              proof (rule leavesI [of n "2 + m + m2" l3])
                show "n = 2 + m + m2 + l3" "0 < 2 + m + m2" using n leaves(1) by auto
                show "recognizes s (Plus r) i j" using \<open>recognizes s r i k\<close> leaves(4) by (rule plus)
                show "path code s l3 (?e, j) y" by (rule leaves(5))
                assume "proper (Plus r)"
                then have "m \<le> B" "i < k" "m2 \<le> (length s - k + 1) * (B + 2)"
                  using \<open>proper r \<longrightarrow> m \<le> B\<close> leaves(3) recognizes_advances [OF \<open>recognizes s r i k\<close> less.prems(2)] by auto
                then show "2 + m + m2 \<le> ?B" using loop_bound [of i k "length s" B] k n by linarith
              qed
            qed
          qed
        qed
      qed
    qed
  qed
qed

text \<open>A path from the start of the code of an expression.\<close>

lemma path_split: "placed_at code s p r \<Longrightarrow> i \<le> length s \<Longrightarrow> path code s n (p, i) y \<Longrightarrow>
    split_path (steps (length s) r) code s p r i n y"
proof (induction r arbitrary: p i n)
  case (Lit c)
  have "moves code s (p, i) = (if i < length s \<and> uchar (s ! i) = c then [(p + length (emit (Lit c)), Suc i)] else [])"
    using placed_char_moves(1) [OF Lit.prems(1), of i] by simp
  then show ?case
    by (rule split_char [OF Lit.prems(3)]) (auto intro: recognizes.intros)
next
  case (Skip w)
  have "moves code s (p, i) = (if True then [(p + length (emit (Skip w)), i)] else [])"
    using placed_char_moves(2) [OF Skip.prems(1), of i] by simp
  then show ?case
    by (rule split_char [OF Skip.prems(3)]) (auto intro: recognizes.intros)
next
  case (Rng ws)
  have "moves code s (p, i) = (if i < length s \<and> in_words ws (uchar (s ! i)) then [(p + length (emit (Rng ws)), Suc i)] else [])"
    using placed_char_moves(3) [OF Rng.prems(1), of i] by simp
  then show ?case
    by (rule split_char [OF Rng.prems(3)]) (auto intro: recognizes.intros)
next
  case Any
  have "moves code s (p, i) = (if i < length s then [(p + length (emit Any), Suc i)] else [])"
    using placed_char_moves(4) [OF Any.prems(1), of i] by simp
  then show ?case
    by (rule split_char [OF Any.prems(3)]) (auto intro: recognizes.intros)
next
  case Caret
  have "moves code s (p, i) = (if i = 0 then [(p + length (emit Caret), i)] else [])"
    using placed_char_moves(5) [OF Caret.prems(1), of i] by simp
  then show ?case
    by (rule split_char [OF Caret.prems(3)]) (auto intro: recognizes.intros)
next
  case Dollar
  have "moves code s (p, i) = (if i = length s then [(p + length (emit Dollar), i)] else [])"
    using placed_char_moves(6) [OF Dollar.prems(1), of i] Dollar.prems(2) by simp
  then show ?case
    by (rule split_char [OF Dollar.prems(3)]) (auto intro: recognizes.intros)
next
  case (Group k r)
  from Group.prems(3) placed_moves(1) [OF Group.prems(1)] show ?case
  proof (cases rule: path_first)
    case here
    then show ?thesis by (intro insideI) auto
  next
    case (move l z)
    then have "path code s l (Suc p, i) y" by auto
    from Group.IH [OF placed_sub(1) [OF Group.prems(1)] Group.prems(2) this] show ?thesis
    proof (cases rule: split_pathE)
      case inside
      then show ?thesis using move by (intro insideI) auto
    next
      case (leaves m l1 j)
      from leaves(5) placed_moves(2) [OF Group.prems(1)] show ?thesis
      proof (cases rule: path_first)
        case here
        then show ?thesis using leaves move by (intro insideI) auto
      next
        case (move l2 z2)
        then show ?thesis using leaves \<open>n = Suc l\<close>
          by (intro leavesI [of n "m + 2" l2]) (auto intro: recognizes.intros)
      qed
    qed
  qed
next
  case (Opt r)
  from Opt.prems(3) placed_moves(3) [OF Opt.prems(1)] show ?case
  proof (cases rule: path_first)
    case here
    then show ?thesis by (intro insideI) auto
  next
    case (move l z)
    show ?thesis
    proof (cases "z = (Suc p, i)")
      case False
      then show ?thesis using move by (intro leavesI [of n 1 l]) (auto intro: recognizes.intros)
    next
      case True
      from Opt.IH [OF placed_sub(2) [OF Opt.prems(1)] Opt.prems(2) move(3) [unfolded True]] show ?thesis
      proof (cases rule: split_pathE)
        case inside
        then show ?thesis using move by (intro insideI) auto
      next
        case (leaves m l1 j)
        then show ?thesis using move by (intro leavesI [of n "m + 1" l1]) (auto intro: recognizes.intros)
      qed
    qed
  qed
next
  case (Plus r)
  have "split_path ((length s - i + 1) * (steps (length s) r + 2)) code s p (Plus r) i n y"
    by (rule split_plus [OF _ Plus.prems(1,3,2)]) (rule Plus.IH [OF placed_sub(3) [OF Plus.prems(1)]])
  then show ?case by (rule split_path_mono) (unfold steps.simps, intro mult_le_mono1, simp)
next
  case (Star r)
  have "split_path ((length s - i + 1) * (steps (length s) r + 2)) code s p (Star r) i n y"
    by (rule split_star [OF _ Star.prems(1,3,2)]) (rule Star.IH [OF placed_sub(4) [OF Star.prems(1)]])
  then show ?case by (rule split_path_mono) (unfold steps.simps, intro mult_le_mono1, simp)
next
  case (Cat r r')
  from Cat.IH(1) [OF placed_sub(5) [OF Cat.prems(1)] Cat.prems(2,3)] show ?case
  proof (cases rule: split_pathE)
    case inside
    then show ?thesis by (intro insideI) auto
  next
    case (leaves m l k)
    have k: "k \<le> length s" using recognizes_bounds [OF leaves(4) Cat.prems(2)] by simp
    note first = leaves
    from Cat.IH(2) [OF placed_sub(6) [OF Cat.prems(1)] k leaves(5)] show ?thesis
    proof (cases rule: split_pathE)
      case inside
      then show ?thesis using first by (intro insideI) auto
    next
      case (leaves m2 l2 j)
      have "recognizes s (Cat r r') i j" using first(4) leaves(4) by (rule cat)
      then show ?thesis using first leaves by (intro leavesI [of n "m + m2" l2]) (auto simp: add.assoc)
    qed
  qed
next
  case (Alt r r')
  from Alt.prems(3) placed_moves(8) [OF Alt.prems(1)] show ?case
  proof (cases rule: path_first)
    case here
    then show ?thesis by (intro insideI) auto
  next
    case (move l z)
    show ?thesis
    proof (cases "z = (Suc p, i)")
      case True
      from Alt.IH(1) [OF placed_sub(7) [OF Alt.prems(1)] Alt.prems(2) move(3) [unfolded True]] show ?thesis
      proof (cases rule: split_pathE)
        case inside
        then show ?thesis using move by (intro insideI) auto
      next
        case (leaves m l1 j)
        from leaves(5) placed_moves(9) [OF Alt.prems(1)] show ?thesis
        proof (cases rule: path_first)
          case here
          then show ?thesis using leaves move by (intro insideI) auto
        next
          case (move l2 z2)
          then show ?thesis using leaves \<open>n = Suc l\<close>
            by (intro leavesI [of n "m + 2" l2]) (auto simp: add.assoc intro: left)
        qed
      qed
    next
      case False
      then have "path code s l (Suc (Suc p + length (emit r)), i) y" using move by auto
      from Alt.IH(2) [OF placed_sub(8) [OF Alt.prems(1)] Alt.prems(2) this] show ?thesis
      proof (cases rule: split_pathE)
        case inside
        then show ?thesis using move by (intro insideI) auto
      next
        case (leaves m l1 j)
        then show ?thesis using move by (intro leavesI [of n "m + 1" l1]) (auto simp: add.assoc intro: right)
      qed
    qed
  qed
qed

end
