(* ===== verification/RegexRun.thy ===== *)
theory RegexRun
  imports RegexPaths
begin

text \<open>
  Every instruction of the code of an expression is a word the machine handles, a step of the machine makes
  the first of the moves and keeps the second one on its stack, and the target of a \<open>RE_FAIL\<close> tells which it is.
\<close>

section \<open>Instructions are handled\<close>

definition good_word :: "nat list \<Rightarrow> nat \<Rightarrow> bool" where
  "good_word code q \<longleftrightarrow> q < length code \<and> code ! q \<noteq> 0 \<and>
     (code ! q div 4096 = 1 \<longrightarrow> Suc q + (code ! q - RE_RNG) \<le> length code) \<and>
     (code ! q div 4096 = 3 \<longrightarrow> RE_JMP \<le> Suc q + code ! q) \<and> (code ! q div 4096 = 4 \<longrightarrow> RE_FAIL \<le> Suc q + code ! q)"

lemma div_words:
  "(c :: nat) < 256 \<Longrightarrow> c div 4096 = 0" "k < 4096 \<Longrightarrow> (RE_START + k) div 4096 = 5" "k < 4096 \<Longrightarrow> (RE_END + k) div 4096 = 6"
  "n < 2048 \<Longrightarrow> (RE_FAIL + n) div 4096 = 4" "n < 2048 \<Longrightarrow> (RE_JMP + n) div 4096 = 3"
  "0 < n \<Longrightarrow> n < 2048 \<Longrightarrow> (RE_JMP - n) div 4096 = 3" "n \<le> 16 \<Longrightarrow> (RE_RNG + n) div 4096 = 1"
  "RE_ANY div 4096 = 2" "RE_CARET div 4096 = 7" "RE_DOLLAR div 4096 = 8"
  by (simp_all add: re_words div_nat_eqI)

lemma good_wordI:
  "q < length code \<Longrightarrow> code ! q = c \<Longrightarrow> c \<noteq> 0 \<Longrightarrow> c div 4096 \<notin> {1, 3, 4} \<Longrightarrow> good_word code q"
  by (auto simp: good_word_def)

lemma good_fail: "q < length code \<Longrightarrow> code ! q = RE_FAIL + n \<Longrightarrow> n < 2048 \<Longrightarrow> good_word code q"
  using div_words(4) [of n] by (simp add: good_word_def re_words)

lemma good_forward: "q < length code \<Longrightarrow> code ! q = RE_JMP + n \<Longrightarrow> n < 2048 \<Longrightarrow> good_word code q"
  using div_words(5) [of n] by (simp add: good_word_def re_words)

lemma good_back: "q < length code \<Longrightarrow> code ! q = RE_JMP - n \<Longrightarrow> 0 < n \<Longrightarrow> n < 2048 \<Longrightarrow> n \<le> Suc q \<Longrightarrow> good_word code q"
  using div_words(6) [of n] by (simp add: good_word_def re_words)

lemma good_rng: "Suc q + n \<le> length code \<Longrightarrow> code ! q = RE_RNG + n \<Longrightarrow> n \<le> 16 \<Longrightarrow> good_word code q"
  using div_words(7) [of n] by (simp add: good_word_def re_words)

lemma placed_words:
  "placed_at code s p (Lit c) \<Longrightarrow> p < length code \<and> code ! p = c \<and> 0 < c \<and> c < 256"
  "placed_at code s p (Skip w) \<Longrightarrow> p < length code \<and> code ! p = w \<and> w div 4096 = 15"
  "placed_at code s p (Rng ws) \<Longrightarrow> Suc p + length ws \<le> length code \<and> code ! p = RE_RNG + length ws \<and> length ws \<le> 16"
  "placed_at code s p Any \<Longrightarrow> p < length code \<and> code ! p = RE_ANY"
  "placed_at code s p Caret \<Longrightarrow> p < length code \<and> code ! p = RE_CARET"
  "placed_at code s p Dollar \<Longrightarrow> p < length code \<and> code ! p = RE_DOLLAR"
  "placed_at code s p (Group k r) \<Longrightarrow> p < length code \<and> Suc p + length (emit r) < length code \<and> k < 4096 \<and>
     code ! p = RE_START + k \<and> code ! (Suc p + length (emit r)) = RE_END + k"
  "placed_at code s p (Opt r) \<Longrightarrow> p < length code \<and> code ! p = RE_FAIL + length (emit r) \<and> length (emit r) < 2040"
  "placed_at code s p (Plus r) \<Longrightarrow> Suc (p + length (emit r)) < length code \<and> length (emit r) < 2040 \<and>
     code ! (p + length (emit r)) = RE_FAIL + 1 \<and> code ! Suc (p + length (emit r)) = RE_JMP - (length (emit r) + 2)"
  "placed_at code s p (Star r) \<Longrightarrow> p < length code \<and> Suc p + length (emit r) < length code \<and> length (emit r) < 2040 \<and>
     code ! p = RE_FAIL + (length (emit r) + 1) \<and> code ! (Suc p + length (emit r)) = RE_JMP - (length (emit r) + 2)"
  "placed_at code s p (Alt r r') \<Longrightarrow> p < length code \<and> Suc p + length (emit r) < length code \<and> length (emit r) < 2040 \<and>
     length (emit r') < 2040 \<and>
     code ! p = RE_FAIL + (length (emit r) + 1) \<and> code ! (Suc p + length (emit r)) = RE_JMP + length (emit r')"
  unfolding placed_at_def emit.simps wf_re.simps emb_Cons emb_append by (simp_all add: emb_def)

lemma pcs_good: "placed_at code s p r \<Longrightarrow> q \<in> pcs p r \<Longrightarrow> good_word code q"
proof (induction r arbitrary: p)
  case (Lit c)
  then show ?case using placed_words(1) [OF Lit.prems(1)] div_words(1) [of c] by (intro good_wordI [of _ _ c]) auto
next
  case (Skip w)
  then show ?case using placed_words(2) [OF Skip.prems(1)] by (intro good_wordI [of _ _ w]) auto
next
  case (Rng ws)
  then show ?case using placed_words(3) [OF Rng.prems(1)] by (intro good_rng [of _ "length ws"]) auto
next
  case Any
  then show ?case using placed_words(4) [OF Any.prems(1)] by (intro good_wordI [of _ _ RE_ANY]) (auto simp: re_words)
next
  case Caret
  then show ?case using placed_words(5) [OF Caret.prems(1)] by (intro good_wordI [of _ _ RE_CARET]) (auto simp: re_words)
next
  case Dollar
  then show ?case using placed_words(6) [OF Dollar.prems(1)] by (intro good_wordI [of _ _ RE_DOLLAR]) (auto simp: re_words)
next
  case (Group k r)
  have w: "good_word code p" "good_word code (Suc p + length (emit r))"
    using placed_words(7) [OF Group.prems(1)] div_words(2,3) [of k]
    by (auto intro!: good_wordI simp: re_words)
  show ?case using Group.prems(2) w Group.IH [OF placed_sub(1) [OF Group.prems(1)]] by auto
next
  case (Opt r)
  have "good_word code p" using placed_words(8) [OF Opt.prems(1)] by (intro good_fail [of _ _ "length (emit r)"]) auto
  then show ?case using Opt.prems(2) Opt.IH [OF placed_sub(2) [OF Opt.prems(1)]] by auto
next
  case (Plus r)
  note w = placed_words(9) [OF Plus.prems(1)]
  have "good_word code (p + length (emit r))" using w by (intro good_fail [of _ _ 1]) auto
  moreover have "good_word code (Suc (p + length (emit r)))" using w by (intro good_back [of _ _ "length (emit r) + 2"]) auto
  ultimately show ?case using Plus.prems(2) Plus.IH [OF placed_sub(3) [OF Plus.prems(1)]] by auto
next
  case (Star r)
  note w = placed_words(10) [OF Star.prems(1)]
  have "good_word code p" using w by (intro good_fail [of _ _ "length (emit r) + 1"]) auto
  moreover have "good_word code (Suc p + length (emit r))" using w by (intro good_back [of _ _ "length (emit r) + 2"]) auto
  ultimately show ?case using Star.prems(2) Star.IH [OF placed_sub(4) [OF Star.prems(1)]] by auto
next
  case (Cat r r')
  then show ?case using Cat.IH(1) [OF placed_sub(5) [OF Cat.prems(1)]] Cat.IH(2) [OF placed_sub(6) [OF Cat.prems(1)]] by auto
next
  case (Alt r r')
  note w = placed_words(11) [OF Alt.prems(1)]
  have "good_word code p" using w by (intro good_fail [of _ _ "length (emit r) + 1"]) auto
  moreover have "good_word code (Suc p + length (emit r))" using w by (intro good_forward [of _ _ "length (emit r')"]) auto
  ultimately show ?case using Alt.prems(2) Alt.IH(1) [OF placed_sub(7) [OF Alt.prems(1)]]
    Alt.IH(2) [OF placed_sub(8) [OF Alt.prems(1)]] by auto
qed

section \<open>Targets\<close>

fun fails :: "nat \<Rightarrow> re \<Rightarrow> (nat \<times> nat) set" where
  "fails p (Group k r) = fails (Suc p) r"
| "fails p (Opt r) = insert (p, Suc p + length (emit r)) (fails (Suc p) r)"
| "fails p (Plus r) = insert (p + length (emit r), p + length (emit r) + 2) (fails p r)"
| "fails p (Star r) = insert (p, p + length (emit r) + 2) (fails (Suc p) r)"
| "fails p (Cat r r') = fails p r \<union> fails (p + length (emit r)) r'"
| "fails p (Alt r r') = insert (p, p + length (emit r) + 2) (fails (Suc p) r \<union> fails (Suc (Suc p + length (emit r))) r')"
| "fails p _ = {}"

lemma fails_range:
  "(q, t) \<in> fails p r \<Longrightarrow> p \<le> q \<and> q < t \<and> t \<le> p + length (emit r) \<and> (is_single r \<longrightarrow> t < p + length (emit r))"
  by (induction r arbitrary: p) fastforce+

lemma fails_inj: "wf_re r \<Longrightarrow> (q, t) \<in> fails p r \<Longrightarrow> (q', t) \<in> fails p r \<Longrightarrow> q = q'"
proof (induction r arbitrary: p)
  case (Opt r)
  then show ?case using fails_range [of _ t "Suc p" r] by fastforce
next
  case (Plus r)
  then show ?case using fails_range [of _ t p r] by fastforce
next
  case (Star r)
  then show ?case using fails_range [of _ t "Suc p" r] by fastforce
next
  case (Cat r r')
  then show ?case using fails_range [of _ t p r] fails_range [of _ t "p + length (emit r)" r'] by fastforce
next
  case (Alt r r')
  then show ?case using fails_range [of _ t "Suc p" r] fails_range [of _ t "Suc (Suc p + length (emit r))" r'] by fastforce
qed auto

definition target :: "nat list \<Rightarrow> nat \<Rightarrow> nat" where
  "target code q = Suc q + code ! q - RE_FAIL"

lemma target_fail: "code ! q = RE_FAIL + n \<Longrightarrow> target code q = Suc q + n"
  by (simp add: target_def)

lemma pcs_fails: "placed_at code s p r \<Longrightarrow> q \<in> pcs p r \<Longrightarrow> code ! q div 4096 = 4 \<Longrightarrow> (q, target code q) \<in> fails p r"
proof (induction r arbitrary: p)
  case (Lit c)
  then show ?case using placed_words(1) [OF Lit.prems(1)] by auto
next
  case (Skip w)
  then show ?case using placed_words(2) [OF Skip.prems(1)] by auto
next
  case (Rng ws)
  then show ?case using placed_words(3) [OF Rng.prems(1)] div_words(7) [of "length ws"] by auto
next
  case Any
  then show ?case using placed_words(4) [OF Any.prems(1)] by (auto simp: re_words)
next
  case Caret
  then show ?case using placed_words(5) [OF Caret.prems(1)] by (auto simp: re_words)
next
  case Dollar
  then show ?case using placed_words(6) [OF Dollar.prems(1)] by (auto simp: re_words)
next
  case (Group k r)
  then show ?case using placed_words(7) [OF Group.prems(1)] div_words(2,3) [of k]
    Group.IH [OF placed_sub(1) [OF Group.prems(1)]] by auto
next
  case (Opt r)
  then show ?case using placed_words(8) [OF Opt.prems(1)] target_fail [of code p "length (emit r)"]
    Opt.IH [OF placed_sub(2) [OF Opt.prems(1)]] by auto
next
  case (Plus r)
  then show ?case using placed_words(9) [OF Plus.prems(1)] target_fail [of code "p + length (emit r)" 1]
    div_words(6) [of "length (emit r) + 2"] Plus.IH [OF placed_sub(3) [OF Plus.prems(1)]] by auto
next
  case (Star r)
  then show ?case using placed_words(10) [OF Star.prems(1)] target_fail [of code p "length (emit r) + 1"]
    div_words(6) [of "length (emit r) + 2"] Star.IH [OF placed_sub(4) [OF Star.prems(1)]] by auto
next
  case (Cat r r')
  then show ?case using Cat.IH(1) [OF placed_sub(5) [OF Cat.prems(1)]] Cat.IH(2) [OF placed_sub(6) [OF Cat.prems(1)]] by auto
next
  case (Alt r r')
  then show ?case using placed_words(11) [OF Alt.prems(1)] target_fail [of code p "length (emit r) + 1"]
    div_words(5) [of "length (emit r')"] Alt.IH(1) [OF placed_sub(7) [OF Alt.prems(1)]]
    Alt.IH(2) [OF placed_sub(8) [OF Alt.prems(1)]] by auto
qed

section \<open>Steps and moves\<close>

abbreviation conf :: "machine \<Rightarrow> nat \<times> nat" where
  "conf m \<equiv> (pc m, dat m)"

definition on :: "machine \<Rightarrow> nat \<times> nat \<Rightarrow> machine" where
  "on m y = m\<lparr>pc := fst y, dat := snd y\<rparr>"

text \<open>The machine over the moves: \<open>push\<close> gives up when the middle of the stack is the state to keep.\<close>

definition push_step :: "machine \<Rightarrow> nat \<times> nat \<Rightarrow> nat \<times> nat \<Rightarrow> outcome" where
  "push_step m y z = (if stack m \<noteq> [] \<and> stack m ! (length (stack m) div 2) = z then re_fail m
     else Next ((on m y)\<lparr>stack := stack m @ [z]\<rparr>))"

lemma on_sel [simp]: "pc (on m y) = fst y" "dat (on m y) = snd y" "stack (on m y) = stack m"
  by (simp_all add: on_def)

lemma schar_ascii: "ascii s \<Longrightarrow> d < length s \<Longrightarrow> schar (s ! d) = int (uchar (s ! d))"
  by (simp add: ascii_def schar_def)

lemma re_step_rng:
  assumes "good_word code (pc m)" "ascii s" "code ! pc m div 4096 = 1"
  shows "re_step code s 0 m = (case moves code s (conf m) of [] \<Rightarrow> re_fail m | y # _ \<Rightarrow> Next (on m y))"
proof -
  have c: "pc m < length code" "code ! pc m \<noteq> 0" "Suc (pc m) + (code ! pc m - RE_RNG) \<le> length code"
    using assms(1,3) by (auto simp: good_word_def)
  show ?thesis
  proof (cases "dat m < length s \<and> \<not> int (code ! pc m - RE_RNG) * 16 \<le> schar (s ! dat m)")
    case True
    then have "uchar (s ! dat m) div 16 < code ! pc m - RE_RNG"
      using schar_ascii [OF assms(2), of "dat m"] by (simp add: div_less_iff_less_mult)
    then have "\<not> length code \<le> pc m + 1 + uchar (s ! dat m) div 16" using c(3) by simp
    then show ?thesis using c True assms(3)
      by (simp add: re_step_def moves_def Let_def on_def)
  next
    case False
    then show ?thesis using c assms(3) by (auto simp: re_step_def moves_def Let_def)
  qed
qed

lemma re_step_jump:
  assumes "good_word code (pc m)" "code ! pc m div 4096 = 3"
  shows "\<exists>y. moves code s (conf m) = [y] \<and> re_step code s 0 m = Next (on m y)"
proof -
  have c: "pc m < length code" "code ! pc m \<noteq> 0" "RE_JMP \<le> Suc (pc m) + code ! pc m"
    using assms by (auto simp: good_word_def)
  have "nat (int (pc m + 1) + int (code ! pc m) - int RE_JMP) = Suc (pc m) + code ! pc m - RE_JMP"
    "\<not> int (pc m + 1) + int (code ! pc m) - int RE_JMP < 0"
    using c(3) by linarith+
  then show ?thesis using c assms(2) by (simp add: re_step_def moves_def Let_def on_def goto_def)
qed

lemma re_step_fail:
  assumes "good_word code (pc m)" "code ! pc m div 4096 = 4"
  shows "moves code s (conf m) = [(Suc (pc m), dat m), (target code (pc m), dat m)]"
    and "re_step code s 0 m = push_step m (Suc (pc m), dat m) (target code (pc m), dat m)"
proof -
  have c: "pc m < length code" "code ! pc m \<noteq> 0" "RE_FAIL \<le> Suc (pc m) + code ! pc m"
    using assms by (auto simp: good_word_def)
  have t: "nat (int (pc m + 1) + int (code ! pc m) - int RE_FAIL) = target code (pc m)"
    "\<not> int (pc m + 1) + int (code ! pc m) - int RE_FAIL < 0"
    using c(3) unfolding target_def by linarith+
  show "moves code s (conf m) = [(Suc (pc m), dat m), (target code (pc m), dat m)]"
    using c assms(2) by (simp add: moves_def target_def Let_def)
  show "re_step code s 0 m = push_step m (Suc (pc m), dat m) (target code (pc m), dat m)"
    using c(1,2) assms(2) t unfolding re_step_def Let_def
    by (simp add: push_step_def on_def)
qed

lemma re_step_other:
  assumes "good_word code (pc m)" "code ! pc m div 4096 \<notin> {1, 3, 4}"
  shows "length (moves code s (conf m)) \<le> 1 \<and>
    re_step code s 0 m = (case moves code s (conf m) of [] \<Rightarrow> re_fail m | y # _ \<Rightarrow> Next (on m y))"
  using assms by (cases m) (auto simp: good_word_def re_step_def moves_def Let_def on_def)

text \<open>The three ways a step goes.\<close>

lemma re_step_cases:
  assumes "good_word code (pc m)" "ascii s"
  obtains (stuck) "moves code s (conf m) = []" "re_step code s 0 m = re_fail m"
  | (one) y where "moves code s (conf m) = [y]" "re_step code s 0 m = Next (on m y)"
  | (two) y z where "moves code s (conf m) = [y, z]" "re_step code s 0 m = push_step m y z"
      "code ! pc m div 4096 = 4" "y = (Suc (pc m), dat m)" "z = (target code (pc m), dat m)"
proof -
  consider "code ! pc m div 4096 = 3" | "code ! pc m div 4096 = 4"
    | "length (moves code s (conf m)) \<le> 1"
      "re_step code s 0 m = (case moves code s (conf m) of [] \<Rightarrow> re_fail m | y # _ \<Rightarrow> Next (on m y))"
  proof -
    have "code ! pc m div 4096 = 1 \<Longrightarrow> length (moves code s (conf m)) \<le> 1"
      using assms(1) by (auto simp: moves_def good_word_def Let_def)
    then show ?thesis using that re_step_rng [OF assms] re_step_other [OF assms(1), of s] by blast
  qed
  then show thesis
  proof cases
    case 1 then show ?thesis using re_step_jump [OF assms(1)] one by blast
  next
    case 2 then show ?thesis using re_step_fail [OF assms(1) 2] two by blast
  next
    case 3 then show ?thesis using stuck one by (cases "moves code s (conf m)") auto
  qed
qed

end
