(* ===== verification/RegexLaws.thy ===== *)
theory RegexLaws
  imports RegexRun
begin

text \<open>
  The machine on the code of an expression is the backtracking search over its moves: it accepts only where the
  expression matches, rejects only where nothing matches, never leaves its code and, for a proper expression, ends.
\<close>

section \<open>The states met\<close>

definition object_code :: "re \<Rightarrow> nat list" where
  "object_code R = emit R @ [0]"

definition runs_on :: "re \<times> string \<Rightarrow> nat \<times> nat \<Rightarrow> bool" where
  "runs_on = (\<lambda>(R, s) a. wf_re R \<and> length (emit R) \<le> 2040 \<and> ascii s \<and> fst a = 0 \<and> snd a \<le> length s)"

definition arrived :: "re \<times> string \<Rightarrow> nat \<times> nat \<Rightarrow> bool" where
  "arrived = (\<lambda>(R, s) c. fst c = length (emit R))"

definition run_moves :: "re \<times> string \<Rightarrow> nat \<times> nat \<Rightarrow> (nat \<times> nat) list" where
  "run_moves = (\<lambda>(R, s). moves (object_code R) s)"

lemma placed_program: "runs_on (R, s) a \<Longrightarrow> placed_at (object_code R) s 0 R"
  unfolding runs_on_def placed_at_def object_code_def by (simp add: emb_def nth_append)

lemma object_code_end [simp]: "object_code R ! length (emit R) = 0" "length (emit R) < length (object_code R)"
  by (simp_all add: object_code_def)

lemma moves_end: "run_moves (R, s) (length (emit R), d) = []"
  by (simp add: run_moves_def moves_def)

lemma walk_end: "walk (run_moves (R, s)) n (length (emit R), d) y \<Longrightarrow> n = 0 \<and> y = (length (emit R), d)"
  by (cases n) (auto simp: moves_end)

lemma walk_program:
  assumes "runs_on (R, s) a" "walk (run_moves (R, s)) n a y"
  shows "(fst y \<in> pcs 0 R \<or> fst y = length (emit R) \<and> recognizes s R (snd a) (snd y)) \<and> (proper R \<longrightarrow> n \<le> steps (length s) R)"
proof -
  have a: "a = (0, snd a)" "snd a \<le> length s" using assms(1) by (auto simp: runs_on_def prod_eq_iff)
  have "path (object_code R) s n (0, snd a) y" using assms(2) a(1) by (simp add: run_moves_def)
  from path_split [OF placed_program [OF assms(1)] a(2) this] show ?thesis
  proof (cases rule: split_pathE)
    case inside then show ?thesis by auto
  next
    case (leaves m l k)
    then have "walk (run_moves (R, s)) l (length (emit R), k) y" by (simp add: run_moves_def)
    from walk_end [OF this] leaves show ?thesis by auto
  qed
qed

lemma reaches_program:
  assumes "runs_on (R, s) a" "reaches (run_moves (R, s)) a y"
  obtains (inside) "fst y \<in> pcs 0 R" "good_word (object_code R) (fst y)"
  | (arrived) "y = (length (emit R), snd y)" "recognizes s R (snd a) (snd y)"
proof -
  obtain n where "walk (run_moves (R, s)) n a y" using assms(2) by (auto simp: reaches_def)
  from walk_program [OF assms(1) this] show thesis
    using pcs_good [OF placed_program [OF assms(1)], of "fst y"] inside arrived by (metis prod.collapse)
qed

lemma program_bounded: "runs_on (R, s) a \<Longrightarrow> proper R \<Longrightarrow> bounded (run_moves (R, s)) (steps (length s) R) a"
  using walk_program unfolding bounded_def by blast

lemma recognizes_reaches: "runs_on (R, s) a \<Longrightarrow> recognizes s R (snd a) j \<Longrightarrow> reaches (run_moves (R, s)) a (length (emit R), j)"
proof -
  assume r: "runs_on (R, s) a" and m: "recognizes s R (snd a) j"
  have "leads (object_code R) s (0, snd a) (0 + length (emit R), j)"
    using r by (intro recognizes_leads [OF m placed_program [OF r]]) (simp add: runs_on_def)
  moreover have "a = (0, snd a)" using r by (auto simp: runs_on_def prod_eq_iff)
  ultimately show ?thesis by (simp add: run_moves_def)
qed

section \<open>The search\<close>

lemma moves_two:
  "moves code s (q, d) = [y, z] \<Longrightarrow> code ! q div 4096 = 4 \<and> y = (Suc q, d) \<and> z = (target code q, d)"
  by (auto simp: moves_def Let_def target_def split: if_splits)

lemma moves_at_most_two: "length (moves code s c) \<le> 2"
  by (cases c) (auto simp: moves_def Let_def)

interpretation rx: backtracking run_moves arrived runs_on
proof
  fix p :: "re \<times> string" and c
  show "length (run_moves p c) \<le> 2" using moves_at_most_two by (cases p) (simp add: run_moves_def)
next
  fix p :: "re \<times> string" and a x x' y y' z
  assume h: "runs_on p a" "reaches (run_moves p) a x" "reaches (run_moves p) a x'"
    "run_moves p x = [y, z]" "run_moves p x' = [y', z]"
  obtain R s where p: "p = (R, s)" by (cases p)
  note pl = placed_program [OF h(1) [unfolded p]]
  have wf: "wf_re R" using h(1) by (simp add: p runs_on_def)
  have t: "(fst u, fst z) \<in> fails 0 R \<and> u = (fst u, snd z)"
    if "reaches (run_moves p) a u" "run_moves p u = [v, z]" for u v
  proof -
    from that(2) have m: "moves (object_code R) s (fst u, snd u) = [v, z]" by (simp add: p run_moves_def)
    note two = moves_two [OF m]
    from h(1) [unfolded p] that(1) [unfolded p] show ?thesis
    proof (cases rule: reaches_program)
      case inside
      from pcs_fails [OF pl inside(1)] two show ?thesis by (auto simp: prod_eq_iff)
    next
      case arrived
      then show ?thesis using that(2) moves_end [of R s "snd u"] p by simp
    qed
  qed
  from t [OF h(2,4)] t [OF h(3,5)] show "x = x'"
    using fails_inj [OF wf, of "fst x" "fst z" 0 "fst x'"] by (metis)
qed

text \<open>The machine is this search.\<close>

definition view :: "outcome \<Rightarrow> (nat \<times> nat) found option" where
  "view r = (case r of Next m \<Rightarrow> Some (More (conf m) (stack m)) | Accept m \<Rightarrow> Some (Found (conf m))
     | Reject m \<Rightarrow> Some Failed | Crash \<Rightarrow> None)"

lemma view_fail: "view (re_fail m) = Some (backtrack (stack m))"
  by (simp add: view_def re_fail_def backtrack_def)

lemma view_step:
  assumes "runs_on (R, s) a" "reaches (run_moves (R, s)) a (conf m)"
  shows "view (re_step (object_code R) s 0 m) =
    Some (search_step (run_moves (R, s)) (arrived (R, s)) (conf m) (stack m))"
  using assms
proof (cases rule: reaches_program)
  case inside
  have na: "\<not> arrived (R, s) (conf m)" using pcs_range [OF inside(1)] by (simp add: arrived_def)
  have g: "good_word (object_code R) (pc m)" "ascii s" using inside(2) assms(1) by (auto simp: runs_on_def)
  have mv: "run_moves (R, s) (conf m) = moves (object_code R) s (conf m)" by (simp add: run_moves_def)
  from g show ?thesis
  proof (cases rule: re_step_cases)
    case stuck
    then show ?thesis using na mv by (simp add: search_step_def view_fail)
  next
    case (one y)
    then show ?thesis using na mv by (simp add: search_step_def view_def)
  next
    case (two y z)
    then show ?thesis using na mv by (simp add: search_step_def push_step_def view_fail) (simp add: view_def)
  qed
next
  case arrived
  then have "pc m = length (emit R)" by simp
  then show ?thesis using object_code_end(2) [of R]
    by (simp add: re_step_def search_step_def arrived_def view_def not_le del: object_code_end(2))
qed

lemma view_execute:
  "runs_on (R, s) a \<Longrightarrow> \<forall>c \<in> insert (conf m) (set (stack m)). reaches (run_moves (R, s)) a c \<Longrightarrow>
    map_option view (regex_execute n (object_code R) s 0 m) =
    map_option Some (search (run_moves (R, s)) (arrived (R, s)) n (conf m) (stack m))"
proof (induction n arbitrary: m)
  case (Suc n)
  note v = view_step [OF Suc.prems(1), of m]
  show ?case
  proof (cases "re_step (object_code R) s 0 m")
    case (Next m')
    then have st: "search_step (run_moves (R, s)) (arrived (R, s)) (conf m) (stack m) = More (conf m') (stack m')"
      using v Suc.prems(2) by (simp add: view_def)
    have "\<forall>c \<in> insert (conf m') (set (stack m')). reaches (run_moves (R, s)) a c"
      using search_step_new [OF st] Suc.prems(2) reaches_snoc [of "run_moves (R, s)" a "conf m"] by blast
    then show ?thesis using Suc.IH [OF Suc.prems(1)] Next st by simp
  next
    case (Accept m')
    then show ?thesis using v Suc.prems(2) by (auto simp: view_def split: found.splits)
  next
    case (Reject m')
    then show ?thesis using v Suc.prems(2) by (auto simp: view_def split: found.splits)
  next
    case Crash
    then show ?thesis using v Suc.prems(2) by (simp add: view_def)
  qed
qed simp

section \<open>What the machine answers\<close>

definition answers :: "re \<Rightarrow> string \<Rightarrow> nat \<Rightarrow> outcome option \<Rightarrow> bool" where
  "answers R s d r \<longleftrightarrow> (case r of None \<Rightarrow> True
     | Some (Accept m) \<Rightarrow> recognizes s R d (dat m)
     | Some (Reject m) \<Rightarrow> \<not> (\<exists>j. recognizes s R d j)
     | _ \<Rightarrow> False)"

lemma search_exact:
  assumes h: "wf_re R" "length (emit R) \<le> 2040" "ascii s" "d \<le> length s"
    and v: "map_option view r = map_option Some (search (run_moves (R, s)) (arrived (R, s)) n (0, d) [])"
  shows "answers R s d r" and "proper R \<Longrightarrow> 3 ^ steps (length s) R \<le> n \<Longrightarrow> r \<noteq> None"
proof -
  let ?f = "search (run_moves (R, s)) (arrived (R, s)) n (0, d) []"
  have on: "runs_on (R, s) (0, d)" using h by (simp add: runs_on_def)
  have refl: "\<forall>c \<in> insert (0, d) (set []). reaches (run_moves (R, s)) (0, d) c" by auto
  show "answers R s d r"
  proof (cases ?f)
    case None
    then show ?thesis using v by (simp add: answers_def)
  next
    case (Some f)
    show ?thesis
    proof (cases f)
      case (More c st)
      then show ?thesis using Some search_not_More by metis
    next
      case (Found c)
      then have r: "reaches (run_moves (R, s)) (0, d) c" "arrived (R, s) c"
        using rx.search_sound [OF _ refl] Some by blast+
      from on r(1) have "recognizes s R d (snd c)"
      proof (cases rule: reaches_program)
        case inside
        then show ?thesis using r(2) pcs_range [OF inside(1)] by (simp add: arrived_def)
      qed simp
      moreover from v Some Found obtain t where "r = Some t" "view t = Some (Found c)" by auto
      then obtain m where "r = Some (Accept m)" "c = conf m" by (cases t) (auto simp: view_def)
      ultimately show ?thesis by (simp add: answers_def)
    next
      case Failed
      have "\<not> recognizes s R d j" for j
      proof
        assume "recognizes s R d j"
        then have "reaches (run_moves (R, s)) (0, d) (length (emit R), j)" using recognizes_reaches [OF on] by simp
        from rx.search_fails_only_without [OF Some [unfolded Failed] on this] show False by (simp add: arrived_def)
      qed
      moreover from v Some Failed obtain t where "r = Some t" "view t = Some found.Failed" by auto
      then obtain m where "r = Some (Reject m)" by (cases t) (auto simp: view_def)
      ultimately show ?thesis by (simp add: answers_def)
    qed
  qed
  assume "proper R" "3 ^ steps (length s) R \<le> n"
  then have "?f \<noteq> None" using rx.search_returns [OF program_bounded [OF on]] by blast
  then show "r \<noteq> None" using v by auto
qed

lemma execute_exact:
  assumes "wf_re R" "length (emit R) \<le> 2040" "ascii s" "d \<le> length s"
  shows "answers R s d (regex_execute n (object_code R) s 0 (re_start d 0))"
    and "proper R \<Longrightarrow> 3 ^ steps (length s) R \<le> n \<Longrightarrow> regex_execute n (object_code R) s 0 (re_start d 0) \<noteq> None"
proof -
  have on: "runs_on (R, s) (0, d)" using assms by (simp add: runs_on_def)
  have "map_option view (regex_execute n (object_code R) s 0 (re_start d 0)) =
      map_option Some (search (run_moves (R, s)) (arrived (R, s)) n (0, d) [])"
    using view_execute [OF on, of "re_start d 0" n] by (auto simp: re_start_def)
  from search_exact [OF assms this] show "answers R s d (regex_execute n (object_code R) s 0 (re_start d 0))"
    "proper R \<Longrightarrow> 3 ^ steps (length s) R \<le> n \<Longrightarrow> regex_execute n (object_code R) s 0 (re_start d 0) \<noteq> None"
    by blast+
qed

end
