(* ===== verification/RegexTotal.thy ===== *)
theory RegexTotal
  imports RegexLaws
begin

text \<open>
  The compiler ends on every pattern with code or with one of its messages, and the members of a set between
  brackets.
\<close>

section \<open>Errors of the compiler\<close>

definition regex_errors :: "lush_error set" where
  "regex_errors = {too_complex, Lush ''Unbalanced () in regex'', Lush ''Unbalanced [] in regex'',
     Lush ''Bad badslash escape in regex'', Lush ''Regex syntax error'',
     Undef ''character set written past the end of the buffer''}"

lemma NoFuel_no_error: "NoFuel \<notin> regex_errors"
  by (simp add: regex_errors_def too_complex_def)

lemma regex_errors_members [simp]:
  "too_complex \<in> regex_errors" "Lush ''Unbalanced () in regex'' \<in> regex_errors" "Lush ''Unbalanced [] in regex'' \<in> regex_errors"
  "Lush ''Bad badslash escape in regex'' \<in> regex_errors" "Lush ''Regex syntax error'' \<in> regex_errors"
  "Undef ''character set written past the end of the buffer'' \<in> regex_errors"
  by (simp_all add: regex_errors_def)

lemma res_bind_Inl_iff: "res_bind m f = Inl e \<longleftrightarrow> m = Inl e \<or> (\<exists>x. m = Inr x \<and> f x = Inl e)"
  by (cases m) auto

lemma concat_errors: "concatc p lim code c = Inl e \<Longrightarrow> e \<in> regex_errors" "concatb p lim code b = Inl e \<Longrightarrow> e \<in> regex_errors"
  by (auto simp: concatc_def concatb_def split: if_splits)

lemma bracket_loop_errors: "bracket_loop pat prev ws = Inl e \<Longrightarrow> e \<in> regex_errors"
proof (induction pat prev ws rule: bracket_loop.induct)
  case (1 pat prev ws)
  show ?case
  proof (cases pat)
    case Nil then show ?thesis using "1.prems" by (auto simp: bracket_loop.simps [of "[]"])
  next
    case (Cons c s)
    note eq = bracket_loop.simps [of "c # s" prev ws]
    consider "c = CHR '']''" | "c \<noteq> CHR '']''" "c = CHR ''-'' \<and> prev \<noteq> 0 \<and> s \<noteq> [] \<and> hd s \<noteq> CHR '']''"
      | "c \<noteq> CHR '']''" "\<not> (c = CHR ''-'' \<and> prev \<noteq> 0 \<and> s \<noteq> [] \<and> hd s \<noteq> CHR '']'')" by blast
    then show ?thesis
    proof cases
      case 1 then show ?thesis using "1.prems" unfolding Cons eq by simp
    next
      case 2
      have e: "bracket_loop (tl s) (max prev (schar (hd s) + 1)) (set_range ws prev (schar (hd s))) = Inl e"
        using "1.prems"(1) 2 unfolding Cons eq by simp
      show ?thesis by (rule "1.IH"(1) [OF Cons 2 e])
    next
      case 3
      have e: "bracket_loop s (schar c) (charset_set ws (uchar c)) = Inl e"
        using "1.prems"(1) 3 unfolding Cons eq by (simp split: if_splits)
      show ?thesis by (rule "1.IH"(2) [OF Cons 3 e])
    qed
  qed
qed

lemma parse_set_errors: "parse_set s = Inl e \<Longrightarrow> e \<in> regex_errors"
  unfolding parse_set_def Let_def by (auto simp: res_bind_Inl_iff dest: bracket_loop_errors)

definition total_on :: "nat \<Rightarrow> (nat \<Rightarrow> string \<Rightarrow> nat \<Rightarrow> (nat list \<times> string \<times> nat) res) \<Rightarrow> bool" where
  "total_on n alt \<longleftrightarrow> (\<forall>p s k e. length s < n \<longrightarrow> k \<le> p \<longrightarrow> CHR 0x00 \<notin> set s \<longrightarrow> alt p s k = Inl e \<longrightarrow> e \<in> regex_errors)"

lemma regex_single_total:
  assumes "total_on n alt" "length s \<le> n" "k \<le> p" "CHR 0x00 \<notin> set s" "regex_single_with alt cap lim p s k = Inl e"
  shows "e \<in> regex_errors"
proof (cases s)
  case (Cons c u)
  note s' = assms(5) [unfolded Cons]
  consider "c = CHR 0x5C" | "c = CHR ''.''" | "c = CHR ''(''" | "c = CHR ''[''" | "c = CHR ''^''" | "c = CHR ''$''" | "\<not> special c"
    | "c = CHR ''|''" | "c = CHR '']''" | "c = CHR '')''"
    by (auto simp: special_def)
  then show ?thesis
  proof cases
    case 1 then show ?thesis using s' by (cases u) (auto simp: single_simps res_bind_Inl_iff dest: concat_errors)
  next
    case 2 then show ?thesis using s' by (auto simp: single_simps res_bind_Inl_iff dest: concat_errors)
  next
    case 3
    have "e' \<in> regex_errors" if "alt (p + 1) u (k + 1) = Inl e'" for e'
      using assms(1) [unfolded total_on_def, rule_format, OF _ _ _ that] assms(2-4) Cons by simp
    then show ?thesis using s' 3 by (auto simp: single_simps res_bind_Inl_iff split: if_splits dest: concat_errors)
  next
    case 4 then show ?thesis using s' by (auto simp: single_simps res_bind_Inl_iff split: if_splits dest: concat_errors parse_set_errors)
  next
    case 5 then show ?thesis using s' by (auto simp: single_simps res_bind_Inl_iff dest: concat_errors)
  next
    case 6 then show ?thesis using s' by (auto simp: single_simps res_bind_Inl_iff dest: concat_errors)
  next
    case 7 then show ?thesis using s' by (auto simp: single_literal res_bind_Inl_iff dest: concat_errors)
  qed (use s' in \<open>auto simp: regex_single_with_def\<close>)
qed (use assms(5) in \<open>auto simp: regex_single_with_def\<close>)

lemma regex_several_total:
  assumes "total_on n alt" "length s \<le> n" "k \<le> p" "CHR 0x00 \<notin> set s" "regex_several_with alt cap lim p s k = Inl e"
  shows "e \<in> regex_errors"
proof -
  have "e' \<in> regex_errors" if "regex_single_with alt cap lim (p + 2) s k = Inl e'" for e'
    using regex_single_total [OF assms(1,2) _ assms(4) that] assms(3) by simp
  then show ?thesis using assms(5) unfolding regex_several_with_def Let_def
    by (auto simp: res_bind_Inl_iff split: if_splits dest: concat_errors)
qed

lemma catenate_loop_total:
  assumes t: "total_on n alt" and ok: "alternate_ok lim alt" "lim \<le> 2040"
  shows "length s \<le> n \<Longrightarrow> length s < m \<Longrightarrow> k \<le> p + length code \<Longrightarrow> CHR 0x00 \<notin> set s \<Longrightarrow>
    catenate_loop m alt cap lim p code s k = Inl e \<Longrightarrow> e \<in> regex_errors"
proof (induction m arbitrary: code s k e)
  case (Suc m)
  show ?case
  proof (cases "regex_several_with alt cap lim (p + length code) s k")
    case (Inl e')
    then show ?thesis using regex_several_total [OF t Suc.prems(1,3,4) Inl] Suc.prems(5) by simp
  next
    case (Inr x)
    obtain b u k1 where x: "x = (b, u, k1)" by (cases x)
    obtain r where r: "several s k r u k1" "k1 \<le> k + length b"
      using regex_several_ok [OF ok Suc.prems(3,4) Inr [unfolded x]] by blast
    have u: "ends_in u (tl s)" "s \<noteq> []" using phrase_shape(2) [OF r(1)] by auto
    then have "length u < length s" "CHR 0x00 \<notin> set u"
      using ends_inD [OF u(1)] Suc.prems(4) by (cases s; auto)+
    then have "e' \<in> regex_errors" if "catenate_loop m alt cap lim p (code @ b) u k1 = Inl e'" for e'
      using that r(2) Suc.prems(1-3) by (intro Suc.IH [OF _ _ _ _ that]) auto
    then show ?thesis using Suc.prems(5) Inr x
      by (auto simp: res_bind_Inl_iff concatb_Inr split: if_splits dest: concat_errors)
  qed
qed simp

lemma regex_alternate_total:
  assumes lim: "lim \<le> 2040"
  shows "total_on n (regex_alternate n cap lim)"
proof (induction n)
  case (Suc n)
  show ?case unfolding total_on_def
  proof (intro allI impI)
    fix p s k e
    assume h: "length s < Suc n" "k \<le> p" "CHR 0x00 \<notin> set s" "regex_alternate (Suc n) cap lim p s k = Inl e"
    note ok = regex_alternate_ok [OF lim, of n cap]
    show "e \<in> regex_errors"
    proof (cases "catenate_loop (Suc (length s)) (regex_alternate n cap lim) cap lim (p + 1) [] s k")
      case (Inl e')
      then show ?thesis using catenate_loop_total [OF Suc ok lim _ _ _ h(3) Inl] h by (simp del: catenate_loop.simps)
    next
      case (Inr x)
      obtain b1 u k1 where x: "x = (b1, u, k1)" by (cases x)
      obtain r where r: "catenate s k r u k1"
        using catenate_loop_ok [OF ok lim Inr [unfolded x]] h(2,3) by auto
      have u: "ends_in u (tl s)" "s \<noteq> []" using phrase_shape(3) [OF r(1)] by auto
      then have u': "length u < length s" "CHR 0x00 \<notin> set u"
        using ends_inD [OF u(1)] h(3) by (cases s; auto)+
      have "e' \<in> regex_errors" if "take 1 u = ''|''" "regex_alternate n cap lim (p + 1 + length b1 + 1) (tl u) k = Inl e'" for e'
        using Suc [unfolded total_on_def, rule_format, OF _ _ _ that(2)] u' h(1,2) by (cases u) auto
      then show ?thesis using h(4) unfolding regex_alternate.simps Inr x res_bind_simps prod.case
        by (auto simp: res_bind_Inl_iff split: if_splits dest: concat_errors)
    qed
  qed
qed (simp add: total_on_def)

lemma regex_compile_errors:
  assumes "regex_compile cap s strict = Inl e" "cap \<le> 2040" "CHR 0x00 \<notin> set s"
  shows "e \<in> regex_errors"
proof -
  let ?p = "if strict then 2 else 1 :: nat"
  have "regex_alternate (Suc (length s)) cap (cap - ?p) ?p s 0 = Inl e"
    using assms(1) unfolding regex_compile_def by (auto simp: res_bind_Inl_iff simp del: regex_alternate.simps)
  from regex_alternate_total [of "cap - ?p" "Suc (length s)" cap, unfolded total_on_def, rule_format, OF _ _ _ _ this]
  show ?thesis using assms(2,3) by simp
qed

section \<open>The members of a set\<close>

text \<open>The characters that the text between brackets lists, from left to right, as a set of numbers.\<close>

function listed :: "string \<Rightarrow> int \<Rightarrow> nat set" where
  "listed pat prev = (case pat of
       [] \<Rightarrow> {}
     | c # rest \<Rightarrow>
         if c = CHR '']'' then {}
         else if c = CHR ''-'' \<and> prev \<noteq> 0 \<and> rest \<noteq> [] \<and> hd rest \<noteq> CHR '']''
         then {u. \<exists>i. prev \<le> i \<and> i \<le> schar (hd rest) \<and> u = nat (i mod 256)} \<union> listed (tl rest) (max prev (schar (hd rest) + 1))
         else insert (uchar c) (listed rest (schar c)))"
  by pat_completeness auto
termination by (relation "measure (\<lambda>(pat, prev). length pat)") (auto simp: neq_Nil_conv)

declare listed.simps [simp del]

lemma bracket_loop_listed: "bracket_loop pat prev ws = Inr (ws', rest) \<Longrightarrow> length ws = 16 \<Longrightarrow>
    in_words ws' u \<longleftrightarrow> u \<in> listed pat prev \<or> in_words ws u"
proof (induction pat prev ws rule: bracket_loop.induct)
  case (1 pat prev ws)
  show ?case
  proof (cases pat)
    case Nil then show ?thesis using "1.prems" by (simp add: bracket_loop.simps [of "[]"])
  next
    case (Cons c s)
    note eq = bracket_loop.simps [of "c # s" prev ws] and leq = listed.simps [of "c # s" prev]
    consider "c = CHR '']''" | "c \<noteq> CHR '']''" "c = CHR ''-'' \<and> prev \<noteq> 0 \<and> s \<noteq> [] \<and> hd s \<noteq> CHR '']''"
      | "c \<noteq> CHR '']''" "\<not> (c = CHR ''-'' \<and> prev \<noteq> 0 \<and> s \<noteq> [] \<and> hd s \<noteq> CHR '']'')" by blast
    then show ?thesis
    proof cases
      case 1 then show ?thesis using "1.prems" unfolding Cons eq leq by simp
    next
      case 2
      have e: "bracket_loop (tl s) (max prev (schar (hd s) + 1)) (set_range ws prev (schar (hd s))) = Inr (ws', rest)"
        using "1.prems"(1) 2 unfolding Cons eq by simp
      note r = set_range_tst [OF "1.prems"(2), of prev "schar (hd s)" u]
      from "1.IH"(1) [OF Cons 2 e] r
      have "in_words ws' u \<longleftrightarrow> u \<in> listed (tl s) (max prev (schar (hd s) + 1)) \<or>
          (\<exists>i. prev \<le> i \<and> i \<le> schar (hd s) \<and> u = nat (i mod 256)) \<or> in_words ws u" by blast
      then show ?thesis using 2 unfolding Cons leq by auto
    next
      case 3
      have e: "bracket_loop s (schar c) (charset_set ws (uchar c)) = Inr (ws', rest)"
        using "1.prems"(1) 3 unfolding Cons eq by (simp split: if_splits)
      have c: "uchar c < 256" by (simp add: uchar_def)
      from "1.IH"(2) [OF Cons 3 e] charset_set_tst(1) [OF "1.prems"(2) c] charset_set_tst(2) [OF "1.prems"(2) c, of u]
      have "in_words ws' u \<longleftrightarrow> u \<in> listed s (schar c) \<or> u = uchar c \<or> in_words ws u" by blast
      moreover have "listed (c # s) prev = insert (uchar c) (listed s (schar c))"
        unfolding leq list.case if_not_P [OF 3(1)] if_not_P [OF 3(2)] by (rule refl)
      ultimately show ?thesis unfolding Cons by blast
    qed
  qed
qed

lemma in_words_take_last:
  assumes "length ws = 16"
  shows "in_words (take (last_word ws + 1) ws) u \<longleftrightarrow> in_words ws u"
proof -
  let ?is = "filter (\<lambda>i. ws ! i \<noteq> 0) [0..<16]"
  have "j \<le> last_word ws" if "j < 16" "ws ! j \<noteq> 0" for j
  proof -
    have j: "j \<in> set ?is" using that by simp
    then have ne: "?is \<noteq> []" by (metis empty_iff empty_set)
    have "sorted ?is" by (intro sorted_wrt_filter) simp
    obtain n where n: "n < length ?is" "?is ! n = j" using j by (metis in_set_conv_nth)
    have "?is ! n \<le> ?is ! (length ?is - 1)" using n(1) by (intro sorted_nth_mono [OF \<open>sorted ?is\<close>]) auto
    then have "j \<le> last ?is" using n(2) last_conv_nth [OF ne] by simp
    then show ?thesis using ne by (simp add: last_word_def Let_def)
  qed
  then have "u div 16 \<le> last_word ws" if "u div 16 < 16" "charset_tst (ws ! (u div 16)) u"
    using that by (metis bit_0_eq bot_apply bot_bool_def charset_tst_def)
  then show ?thesis using assms by (auto simp: in_words_def less_Suc_eq_le)
qed

text \<open>The set in the code has the characters listed, with \<open>]\<close> when it stands first, or the others after \<open>^\<close>.\<close>

definition bracket_chars :: "string \<Rightarrow> nat set" where
  "bracket_chars s = (let neg = (take 1 s = ''^''); s = (if neg then tl s else s);
     A = (if take 1 s = '']'' then insert (uchar (CHR '']'')) (listed (tl s) 0) else listed s 0) in
     if neg then {..<256} - A else A)"

lemma parse_set_chars:
  assumes p: "parse_set s = Inr (ws, t)"
  shows "in_words ws u \<longleftrightarrow> u \<in> bracket_chars s"
proof -
  define neg where "neg = (take 1 s = ''^'')"
  define s1 where "s1 = (if neg then tl s else s)"
  define s2 where "s2 = (if take 1 s1 = '']'' then tl s1 else s1)"
  define z where "z = (if take 1 s1 = '']'' then charset_set charset_zero (uchar (CHR '']'')) else charset_zero)"
  have z: "length z = 16" by (simp add: z_def charset_set_def charset_zero_def)
  define F :: "nat list \<times> string \<Rightarrow> (nat list \<times> string) res" where
    "F = (\<lambda>(ws, rest). let ws = (if neg then charset_toggle ws else ws) in Inr (take (last_word ws + 1) ws, rest))"
  have "parse_set s = res_bind (bracket_loop s2 0 z) F"
    unfolding parse_set_def Let_def neg_def s1_def s2_def z_def F_def by (rule refl)
  then have "res_bind (bracket_loop s2 0 z) F = Inr (ws, t)" using p by (rule trans [OF sym])
  then have "\<exists>q. bracket_loop s2 0 z = Inr q \<and> F q = Inr (ws, t)" by (rule res_bind_Inr_iff [THEN iffD1])
  then obtain ws1 v where q: "bracket_loop s2 0 z = Inr (ws1, v)" "F (ws1, v) = Inr (ws, t)" by (elim exE conjE) (metis surj_pair)
  define ws2 where "ws2 = (if neg then charset_toggle ws1 else ws1)"
  have ws: "ws = take (last_word ws2 + 1) ws2"
    using q(2) by (simp only: F_def ws2_def prod.case Let_def sum.inject prod.inject)
  have l: "length ws1 = 16" using bracket_loop_shape [OF q(1) z] by simp
  have b: "uchar (CHR '']'') < 256" by (rule uchar_less)
  have zt: "in_words z u \<longleftrightarrow> take 1 s1 = '']'' \<and> u = uchar (CHR '']'')"
    using charset_zero_tst charset_set_tst(2) [OF charset_zero_tst(1) b, of u] by (simp add: z_def)
  have w1: "in_words ws1 u \<longleftrightarrow> u \<in> listed s2 0 \<or> take 1 s1 = '']'' \<and> u = uchar (CHR '']'')"
    using bracket_loop_listed [OF q(1) z, of u] zt by simp
  define A where "A = (if take 1 s1 = '']'' then insert (uchar (CHR '']'')) (listed (tl s1) 0) else listed s1 0)"
  have bc: "bracket_chars s = (if neg then {..<256} - A else A)"
    unfolding bracket_chars_def Let_def neg_def s1_def A_def by (rule refl)
  have "in_words ws u \<longleftrightarrow> in_words ws2 u"
    unfolding ws by (rule in_words_take_last) (use l in \<open>simp add: ws2_def charset_toggle_def\<close>)
  also have "\<dots> \<longleftrightarrow> (if neg then u < 256 \<and> \<not> in_words ws1 u else in_words ws1 u)"
    using charset_toggle_tst [OF l, of u] by (simp add: ws2_def)
  also have "\<dots> \<longleftrightarrow> u \<in> (if neg then {..<256} - A else A)"
    using w1 by (simp add: A_def s2_def) blast
  finally show ?thesis by (simp only: bc)
qed

end
