(* ===== verification/RegexRegs.thy ===== *)
theory RegexRegs
  imports RegexLaws
begin

text \<open>
  The registers of the machine: inside a group its start is known, so that the machine with registers runs
  like the machine without, and answers the same.
\<close>

section \<open>The groups around an instruction\<close>

fun groups :: "nat \<Rightarrow> re \<Rightarrow> nat \<Rightarrow> nat set" where
  "groups p (Group k r) q = (if p < q \<and> q \<le> Suc p + length (emit r) then insert k (groups (Suc p) r q) else {})"
| "groups p (Opt r) q = groups (Suc p) r q"
| "groups p (Plus r) q = groups p r q"
| "groups p (Star r) q = groups (Suc p) r q"
| "groups p (Cat r r') q = groups p r q \<union> groups (p + length (emit r)) r' q"
| "groups p (Alt r r') q = groups (Suc p) r q \<union> groups (Suc (Suc p + length (emit r))) r' q"
| "groups p _ q = {}"

lemma groups_outside: "q \<le> p \<or> p + length (emit r) \<le> q \<Longrightarrow> groups p r q = {}"
proof (induction r arbitrary: p)
  case (Cat r r')
  have "groups p r q = {}" by (rule Cat.IH(1)) (use Cat.prems in auto)
  moreover have "groups (p + length (emit r)) r' q = {}" by (rule Cat.IH(2)) (use Cat.prems in auto)
  ultimately show ?case by simp
next
  case (Alt r r')
  have "groups (Suc p) r q = {}" by (rule Alt.IH(1)) (use Alt.prems in auto)
  moreover have "groups (Suc (Suc p + length (emit r))) r' q = {}" by (rule Alt.IH(2)) (use Alt.prems in auto)
  ultimately show ?case by simp
next
  case (Opt r)
  have "groups (Suc p) r q = {}" by (rule Opt.IH) (use Opt.prems in auto)
  then show ?case by simp
next
  case (Plus r)
  have "groups p r q = {}" by (rule Plus.IH) (use Plus.prems in auto)
  then show ?case by simp
next
  case (Star r)
  have "groups (Suc p) r q = {}" by (rule Star.IH) (use Star.prems in auto)
  then show ?case by simp
qed auto

text \<open>The end of a group stands inside it.\<close>

lemma groups_end: "placed_at code s p r \<Longrightarrow> q \<in> pcs p r \<Longrightarrow> code ! q = RE_END + k \<Longrightarrow> k < 4096 \<Longrightarrow> k \<in> groups p r q"
proof (induction r arbitrary: p)
  case (Lit c)
  then show ?case using placed_words(1) [OF Lit.prems(1)] by (auto simp: re_words)
next
  case (Skip w)
  then show ?case using placed_words(2) [OF Skip.prems(1)] div_words(3) [of k] by auto
next
  case (Rng ws)
  then show ?case using placed_words(3) [OF Rng.prems(1)] by (auto simp: re_words)
next
  case Any
  then show ?case using placed_words(4) [OF Any.prems(1)] by (auto simp: re_words)
next
  case Caret
  then show ?case using placed_words(5) [OF Caret.prems(1)] div_words(3) [of k] by (auto simp: re_words)
next
  case Dollar
  then show ?case using placed_words(6) [OF Dollar.prems(1)] div_words(3) [of k] by (auto simp: re_words)
next
  case (Group j r)
  note w = placed_words(7) [OF Group.prems(1)]
  from Group.prems(2) consider "q = p" | "q = Suc p + length (emit r)" | "q \<in> pcs (Suc p) r" by auto
  then show ?case
  proof cases
    case 1 then show ?thesis using w Group.prems(3,4) div_words(2) [of j] div_words(3) [of k] by simp
  next
    case 2 then show ?thesis using w Group.prems(3) by simp
  next
    case 3
    then show ?thesis using Group.IH [OF placed_sub(1) [OF Group.prems(1)] 3 Group.prems(3,4)] pcs_range [OF 3] by simp
  qed
next
  case (Opt r)
  then show ?case using placed_words(8) [OF Opt.prems(1)] div_words(3) [of k] div_words(4) [of "length (emit r)"]
    Opt.IH [OF placed_sub(2) [OF Opt.prems(1)]] by auto
next
  case (Plus r)
  note w = placed_words(9) [OF Plus.prems(1)]
  have "q \<noteq> p + length (emit r)" "q \<noteq> Suc (p + length (emit r))"
    using w Plus.prems(3,4) div_words(3) [of k] div_words(4) [of 1] div_words(6) [of "length (emit r) + 2"] by auto
  then show ?case using Plus.prems Plus.IH [OF placed_sub(3) [OF Plus.prems(1)]] by auto
next
  case (Star r)
  note w = placed_words(10) [OF Star.prems(1)]
  have "q \<noteq> p" "q \<noteq> Suc p + length (emit r)"
    using w Star.prems(3,4) div_words(3) [of k] div_words(4) [of "length (emit r) + 1"] div_words(6) [of "length (emit r) + 2"] by auto
  then show ?case using Star.prems Star.IH [OF placed_sub(4) [OF Star.prems(1)]] by auto
next
  case (Cat r r')
  then show ?case using Cat.IH(1) [OF placed_sub(5) [OF Cat.prems(1)]] Cat.IH(2) [OF placed_sub(6) [OF Cat.prems(1)]] by auto
next
  case (Alt r r')
  note w = placed_words(11) [OF Alt.prems(1)]
  have "q \<noteq> p" "q \<noteq> Suc p + length (emit r)"
    using w Alt.prems(3,4) div_words(3) [of k] div_words(4) [of "length (emit r) + 1"] div_words(5) [of "length (emit r')"] by auto
  then show ?case using Alt.prems Alt.IH(1) [OF placed_sub(7) [OF Alt.prems(1)]]
    Alt.IH(2) [OF placed_sub(8) [OF Alt.prems(1)]] by auto
qed

text \<open>A move enters a group only at its \<open>RE_START\<close>, and stays in the code of the expression or goes to its end.\<close>

definition enters :: "nat list \<Rightarrow> nat \<Rightarrow> nat set" where
  "enters code q = {k. k < 4096 \<and> code ! q = RE_START + k}"

lemma groups_move:
  "placed_at code s p r \<Longrightarrow> q \<in> pcs p r \<Longrightarrow> y \<in> set (moves code s (q, i)) \<Longrightarrow>
    p \<le> fst y \<and> fst y \<le> p + length (emit r) \<and> groups p r (fst y) \<subseteq> groups p r q \<union> enters code q"
proof (induction r arbitrary: p)
  case (Lit c)
  then show ?case using placed_char_moves(1) [OF Lit.prems(1)] by (auto split: if_splits)
next
  case (Skip w)
  then show ?case using placed_char_moves(2) [OF Skip.prems(1)] by auto
next
  case (Rng ws)
  then show ?case using placed_char_moves(3) [OF Rng.prems(1)] by (auto split: if_splits)
next
  case Any
  then show ?case using placed_char_moves(4) [OF Any.prems(1)] by (auto split: if_splits)
next
  case Caret
  then show ?case using placed_char_moves(5) [OF Caret.prems(1)] by (auto split: if_splits)
next
  case Dollar
  then show ?case using placed_char_moves(6) [OF Dollar.prems(1)] by (auto split: if_splits)
next
  case (Group k r)
  note w = placed_words(7) [OF Group.prems(1)]
  from Group.prems(2) consider "q = p" | "q = Suc p + length (emit r)" | "q \<in> pcs (Suc p) r" by auto
  then show ?case
  proof cases
    case 1
    then have y: "fst y = Suc p" using Group.prems(3) placed_moves(1) [OF Group.prems(1), of i] by auto
    have "groups (Suc p) r (Suc p) = {}" by (rule groups_outside) simp
    then show ?thesis using y 1 w by (auto simp: enters_def)
  next
    case 2
    then have "fst y = Suc (Suc p + length (emit r))" using Group.prems(3) placed_moves(2) [OF Group.prems(1), of i] by auto
    then show ?thesis by simp
  next
    case 3
    from Group.IH [OF placed_sub(1) [OF Group.prems(1)] 3 Group.prems(3)] pcs_range [OF 3]
    show ?thesis by auto
  qed
next
  case (Opt r)
  show ?case
  proof (cases "q = p")
    case True
    then have y: "fst y \<in> {Suc p, Suc p + length (emit r)}" using Opt.prems(3) placed_moves(3) [OF Opt.prems(1), of i] by auto
    then have "groups (Suc p) r (fst y) = {}" by (intro groups_outside) auto
    then show ?thesis using y by auto
  next
    case False
    then have "q \<in> pcs (Suc p) r" using Opt.prems(2) by auto
    from Opt.IH [OF placed_sub(2) [OF Opt.prems(1)] this Opt.prems(3)] show ?thesis by auto
  qed
next
  case (Plus r)
  from Plus.prems(2) consider "q = p + length (emit r)" | "q = Suc (p + length (emit r))" | "q \<in> pcs p r" by auto
  then show ?case
  proof cases
    case 1
    then have y: "fst y \<in> {Suc (p + length (emit r)), Suc (Suc (p + length (emit r)))}"
      using Plus.prems(3) placed_moves(4) [OF Plus.prems(1), of i] by auto
    then have "groups p r (fst y) = {}" by (intro groups_outside) auto
    then show ?thesis using y by auto
  next
    case 2
    then have y: "fst y \<in> {p, Suc (Suc (p + length (emit r)))}"
      using Plus.prems(3) placed_moves(5) [OF Plus.prems(1), of i] by (auto split: if_splits)
    then have "groups p r (fst y) = {}" by (intro groups_outside) auto
    then show ?thesis using y by auto
  next
    case 3
    from Plus.IH [OF placed_sub(3) [OF Plus.prems(1)] this Plus.prems(3)] show ?thesis by auto
  qed
next
  case (Star r)
  from Star.prems(2) consider "q = p" | "q = Suc p + length (emit r)" | "q \<in> pcs (Suc p) r" by auto
  then show ?case
  proof cases
    case 1
    then have y: "fst y \<in> {Suc p, Suc (Suc p + length (emit r))}"
      using Star.prems(3) placed_moves(6) [OF Star.prems(1), of i] by auto
    then have "groups (Suc p) r (fst y) = {}" by (intro groups_outside) auto
    then show ?thesis using y by auto
  next
    case 2
    then have y: "fst y \<in> {p, Suc (Suc p + length (emit r))}"
      using Star.prems(3) placed_moves(7) [OF Star.prems(1), of i] by (auto split: if_splits)
    then have "groups (Suc p) r (fst y) = {}" by (intro groups_outside) auto
    then show ?thesis using y by auto
  next
    case 3
    from Star.IH [OF placed_sub(4) [OF Star.prems(1)] this Star.prems(3)] show ?thesis by auto
  qed
next
  case (Cat r r')
  from Cat.prems(2) consider "q \<in> pcs p r" | "q \<in> pcs (p + length (emit r)) r'" by auto
  then show ?case
  proof cases
    case 1
    note a = Cat.IH(1) [OF placed_sub(5) [OF Cat.prems(1)] 1 Cat.prems(3)]
    then have "groups (p + length (emit r)) r' (fst y) = {}" by (intro groups_outside) auto
    then show ?thesis using a by auto
  next
    case 2
    note a = Cat.IH(2) [OF placed_sub(6) [OF Cat.prems(1)] 2 Cat.prems(3)]
    then have "groups p r (fst y) = {}" by (intro groups_outside) auto
    then show ?thesis using a by auto
  qed
next
  case (Alt r r')
  let ?p' = "Suc (Suc p + length (emit r))"
  from Alt.prems(2) consider "q = p" | "q = Suc p + length (emit r)" | "q \<in> pcs (Suc p) r" | "q \<in> pcs ?p' r'" by auto
  then show ?case
  proof cases
    case 1
    then have y: "fst y \<in> {Suc p, ?p'}" using Alt.prems(3) placed_moves(8) [OF Alt.prems(1), of i] by auto
    then have "groups (Suc p) r (fst y) = {}" "groups ?p' r' (fst y) = {}" by (intro groups_outside; auto)+
    then show ?thesis using y by auto
  next
    case 2
    then have y: "fst y = ?p' + length (emit r')" using Alt.prems(3) placed_moves(9) [OF Alt.prems(1), of i] by auto
    then have "groups (Suc p) r (fst y) = {}" "groups ?p' r' (fst y) = {}" by (intro groups_outside; auto)+
    then show ?thesis using y by auto
  next
    case 3
    note a = Alt.IH(1) [OF placed_sub(7) [OF Alt.prems(1)] 3 Alt.prems(3)]
    then have "groups ?p' r' (fst y) = {}" by (intro groups_outside) auto
    then show ?thesis using a by auto
  next
    case 4
    note a = Alt.IH(2) [OF placed_sub(8) [OF Alt.prems(1)] 4 Alt.prems(3)]
    then have "groups (Suc p) r (fst y) = {}" by (intro groups_outside) auto
    then show ?thesis using a by auto
  qed
qed

section \<open>The machine with registers\<close>

definition entered :: "nat option list \<Rightarrow> nat \<Rightarrow> re \<Rightarrow> nat \<Rightarrow> bool" where
  "entered rp n R q \<longleftrightarrow> (\<forall>k \<in> groups 0 R q. k mod 256 < n \<longrightarrow> rp ! (n + k mod 256) \<noteq> None)"

lemma entered_update: "entered rp n R q \<Longrightarrow> entered (rp[i := Some b]) n R q"
  unfolding entered_def by (metis list_update_beyond not_le nth_list_update option.distinct(1))

lemma step_no_regs: "re_step code s 0 m = Next m' \<Longrightarrow> good_word code (pc m) \<Longrightarrow> ascii s \<Longrightarrow> regsptr m' = regsptr m"
proof -
  assume h: "re_step code s 0 m = Next m'" "good_word code (pc m)" "ascii s"
  from h(2,3) show "regsptr m' = regsptr m"
  proof (cases rule: re_step_cases)
    case stuck
    then show ?thesis using h(1) by (auto simp: re_fail_def split: if_splits)
  next
    case (one y)
    then show ?thesis using h(1) by (auto simp: on_def)
  next
    case (two y z)
    then show ?thesis using h(1) by (auto simp: push_step_def re_fail_def on_def split: if_splits)
  qed
qed

lemma step_other: "code ! pc m div 4096 \<notin> {5, 6} \<Longrightarrow> re_step code s n m = re_step code s 0 m"
  unfolding re_step_def Let_def by simp

lemma step_start: "pc m < length code \<Longrightarrow> code ! pc m div 4096 = 5 \<Longrightarrow>
    re_step code s n m = Next (m\<lparr>pc := pc m + 1, regsptr := (if code ! pc m mod 256 < n
      then (regsptr m)[n + code ! pc m mod 256 := Some (dat m)] else regsptr m)\<rparr>)"
  unfolding re_step_def Let_def by auto

lemma step_end: "pc m < length code \<Longrightarrow> code ! pc m div 4096 = 6 \<Longrightarrow> n \<le> code ! pc m mod 256 \<Longrightarrow>
    re_step code s n m = Next (m\<lparr>pc := pc m + 1\<rparr>)"
  "pc m < length code \<Longrightarrow> code ! pc m div 4096 = 6 \<Longrightarrow> code ! pc m mod 256 < n \<Longrightarrow>
    regsptr m ! (n + code ! pc m mod 256) = Some b \<Longrightarrow>
    re_step code s n m = Next (m\<lparr>pc := pc m + 1, regsptr := (regsptr m)[code ! pc m mod 256 := Some b],
      regslen := (regslen m)[code ! pc m mod 256 := int (dat m) - int b]\<rparr>)"
  unfolding re_step_def Let_def by auto

lemma enters_only: "code ! q div 4096 \<noteq> 5 \<Longrightarrow> enters code q = {}"
  by (auto simp: enters_def div_words(2))

lemma word_mod: "k < 4096 \<Longrightarrow> (RE_START + k) mod 256 = k mod 256" "(RE_END + k) mod 256 = k mod 256"
  by (simp_all add: re_words mod_add_eq [symmetric] del: mod_add_eq)

lemma step_regs:
  assumes on: "runs_on (R, s) a" and r: "reaches (run_moves (R, s)) a (conf m)"
    and e: "entered (regsptr m) n R (pc m)" and l: "length (regsptr m) = 2 * n"
  shows "view (re_step (object_code R) s n m) = view (re_step (object_code R) s 0 m)"
    and "re_step (object_code R) s n m = Next m' \<Longrightarrow> length (regsptr m') = 2 * n \<and>
      (\<forall>q. entered (regsptr m) n R q \<longrightarrow> entered (regsptr m') n R q) \<and>
      (\<forall>k \<in> enters (object_code R) (pc m). k mod 256 < n \<longrightarrow> regsptr m' ! (n + k mod 256) \<noteq> None)"
proof -
  let ?c = "object_code R"
  have "view (re_step ?c s n m) = view (re_step ?c s 0 m) \<and> (\<forall>m'. re_step ?c s n m = Next m' \<longrightarrow>
      length (regsptr m') = 2 * n \<and> (\<forall>q. entered (regsptr m) n R q \<longrightarrow> entered (regsptr m') n R q) \<and>
      (\<forall>k \<in> enters ?c (pc m). k mod 256 < n \<longrightarrow> regsptr m' ! (n + k mod 256) \<noteq> None))"
    using on r
  proof (cases rule: reaches_program)
    case arrived
    then have "pc m = length (emit R)" by simp
    then have "re_step ?c s k m = Accept m" for k using object_code_end(2) [of R]
      by (simp add: re_step_def not_le del: object_code_end(2))
    then show ?thesis by simp
  next
    case inside
    then have p: "pc m \<in> pcs 0 R" "good_word ?c (pc m)" "pc m < length ?c" "ascii s"
      using on by (auto simp: good_word_def runs_on_def)
    consider "?c ! pc m div 4096 = 5" | "?c ! pc m div 4096 = 6" | "?c ! pc m div 4096 \<notin> {5, 6}" by blast
    then show ?thesis
    proof cases
      case 1
      have w: "?c ! pc m mod 256 = k mod 256" if "k \<in> enters ?c (pc m)" for k
        using that word_mod(1) by (auto simp: enters_def)
      show ?thesis unfolding step_start [OF p(3) 1] using l entered_update w
        by (auto simp: view_def)
    next
      case 2
      note none = enters_only [of ?c "pc m"]
      define k where "k = ?c ! pc m - RE_END"
      have k: "?c ! pc m = RE_END + k" "k < 4096" using 2 by (simp_all add: k_def re_words)
      have g: "k \<in> groups 0 R (pc m)" by (rule groups_end [OF placed_program [OF on] p(1) k])
      have z: "view (re_step ?c s 0 m) = Some (More (Suc (pc m), dat m) (stack m))"
        using step_end(1) [OF p(3) 2, of 0 s] by (simp add: view_def)
      show ?thesis
      proof (cases "n \<le> ?c ! pc m mod 256")
        case True
        then show ?thesis unfolding z step_end(1) [OF p(3) 2 True] using l none 2 by (auto simp: view_def)
      next
        case False
        then obtain b where b: "regsptr m ! (n + ?c ! pc m mod 256) = Some b"
          using e g k word_mod(2) [of k] by (auto simp: entered_def)
        have lt: "?c ! pc m mod 256 < n" using False by simp
        show ?thesis unfolding z step_end(2) [OF p(3) 2 lt b] using l none 2 entered_update
          by (auto simp: view_def)
      qed
    next
      case 3
      have eq: "re_step ?c s n m = re_step ?c s 0 m" by (rule step_other [OF 3])
      have "regsptr m' = regsptr m" if "re_step ?c s 0 m = Next m'" for m'
        by (rule step_no_regs [OF that p(2,4)])
      moreover have "enters ?c (pc m) = {}" using 3 by (intro enters_only) simp
      ultimately show ?thesis unfolding eq using l by simp
    qed
  qed
  then show "view (re_step ?c s n m) = view (re_step ?c s 0 m)"
    "re_step ?c s n m = Next m' \<Longrightarrow> length (regsptr m') = 2 * n \<and>
      (\<forall>q. entered (regsptr m) n R q \<longrightarrow> entered (regsptr m') n R q) \<and>
      (\<forall>k \<in> enters ?c (pc m). k mod 256 < n \<longrightarrow> regsptr m' ! (n + k mod 256) \<noteq> None)"
    by blast+
qed

lemma view_execute_regs:
  "runs_on (R, s) a \<Longrightarrow>
    \<forall>c \<in> insert (conf m) (set (stack m)). reaches (run_moves (R, s)) a c \<and> entered (regsptr m) nr R (fst c) \<Longrightarrow>
    length (regsptr m) = 2 * nr \<Longrightarrow>
    map_option view (regex_execute n (object_code R) s nr m) =
    map_option Some (search (run_moves (R, s)) (arrived (R, s)) n (conf m) (stack m))"
proof (induction n arbitrary: m)
  case (Suc n)
  have rc: "reaches (run_moves (R, s)) a (conf m)" "entered (regsptr m) nr R (pc m)" using Suc.prems(2) by auto
  note st = step_regs [OF Suc.prems(1) rc Suc.prems(3)]
  have v: "view (re_step (object_code R) s nr m) = Some (search_step (run_moves (R, s)) (arrived (R, s)) (conf m) (stack m))"
    using st(1) view_step [OF Suc.prems(1) rc(1)] by simp
  show ?case
  proof (cases "re_step (object_code R) s nr m")
    case (Next m')
    then have more: "search_step (run_moves (R, s)) (arrived (R, s)) (conf m) (stack m) = More (conf m') (stack m')"
      using v by (simp add: view_def)
    note keep = st(2) [OF Next]
    have "reaches (run_moves (R, s)) a c \<and> entered (regsptr m') nr R (fst c)" if c: "c \<in> insert (conf m') (set (stack m'))" for c
    proof (cases "c \<in> insert (conf m) (set (stack m))")
      case True
      then show ?thesis using Suc.prems(2) keep by blast
    next
      case False
      then have mv: "c \<in> set (run_moves (R, s) (conf m))" using search_step_new [OF more c] by blast
      have i: "pc m \<in> pcs 0 R" using Suc.prems(1) rc(1)
      proof (cases rule: reaches_program)
        case arrived
        then show ?thesis using mv moves_end [of R s "dat m"] by simp
      qed simp
      have "c \<in> set (moves (object_code R) s (pc m, dat m))" using mv by (simp add: run_moves_def)
      from groups_move [OF placed_program [OF Suc.prems(1)] i this]
      have "groups 0 R (fst c) \<subseteq> groups 0 R (pc m) \<union> enters (object_code R) (pc m)" by simp
      then have "entered (regsptr m') nr R (fst c)"
        using keep rc(2) unfolding entered_def by blast
      then show ?thesis using reaches_snoc [OF rc(1) mv] by blast
    qed
    then show ?thesis using Suc.IH [OF Suc.prems(1), of m'] keep Next more by simp
  next
    case (Accept m')
    then show ?thesis using v by (auto simp: view_def split: found.splits)
  next
    case (Reject m')
    then show ?thesis using v by (auto simp: view_def split: found.splits)
  next
    case Crash
    then show ?thesis using v by (simp add: view_def)
  qed
qed simp

lemma execute_regs_exact:
  assumes "wf_re R" "length (emit R) \<le> 2040" "ascii s" "d \<le> length s"
  shows "answers R s d (regex_execute n (object_code R) s nr (re_start d nr))"
    and "proper R \<Longrightarrow> 3 ^ steps (length s) R \<le> n \<Longrightarrow> regex_execute n (object_code R) s nr (re_start d nr) \<noteq> None"
proof -
  have on: "runs_on (R, s) (0, d)" using assms by (simp add: runs_on_def)
  have "groups 0 R 0 = {}" by (rule groups_outside) simp
  then have "map_option view (regex_execute n (object_code R) s nr (re_start d nr)) =
      map_option Some (search (run_moves (R, s)) (arrived (R, s)) n (0, d) [])"
    using view_execute_regs [OF on, of "re_start d nr" nr n] by (auto simp: re_start_def entered_def)
  from search_exact [OF assms this] show "answers R s d (regex_execute n (object_code R) s nr (re_start d nr))"
    "proper R \<Longrightarrow> 3 ^ steps (length s) R \<le> n \<Longrightarrow> regex_execute n (object_code R) s nr (re_start d nr) \<noteq> None"
    by blast+
qed

end
