(* ===== verification/RegexProps.thy ===== *)
theory RegexProps
  imports RegexTotal RegexRegs
begin

text \<open>The properties of the regular expressions.\<close>

section \<open>The whole code\<close>

definition whole :: "re \<Rightarrow> bool \<Rightarrow> re" where
  "whole r strict = (if strict then Cat Caret (Cat r Dollar) else r)"

lemma program_whole: "program r strict = object_code (whole r strict)"
  by (simp add: program_def object_code_def whole_def)

lemma wf_whole: "wf_re r \<Longrightarrow> wf_re (whole r strict)"
  by (simp add: whole_def)

lemma length_whole: "length (emit (whole r strict)) \<le> length (emit r) + 2"
  by (simp add: whole_def)

lemma recognizes_whole: "recognizes s (whole r True) 0 j \<longleftrightarrow> j = length s \<and> recognizes s r 0 (length s)"
  by (auto simp: whole_def elim!: recognizes_elims intro: recognizes.intros)

lemma whole_False [simp]: "whole r False = r"
  by (simp add: whole_def)

text \<open>Evaluation of the compiler and of the machine.\<close>

lemmas regex_eval = regex_compile_def regex_several_with_def single_simps single_literal special_def concatc_def
  concatb_def re_words uchar_def numeral_2_eq_2

lemma regex_execute_numeral: "regex_execute (numeral k) code data nregs m = (case re_step code data nregs m of
    Next m' \<Rightarrow> regex_execute (pred_numeral k) code data nregs m' | r \<Rightarrow> Some r)"
  by (simp add: numeral_eq_Suc)

lemmas regex_run_eval = regex_exec_def re_start_def re_step_def Let_def re_fail_def regex_execute_numeral goto_def

section \<open>The compiler\<close>



text \<open>C13: \<open>regex_compile\<close> returns on every pattern (its recursion and its loops end), with code, with one of its five
  messages or, when a \<open>[\<close> stands too near the end of the buffer, with a write past the buffer.\<close>

theorem regex_compile_total:
  assumes "cap \<le> 2040" "CHR 0x00 \<notin> set pat"
  shows "case regex_compile cap pat strict of Inl e \<Rightarrow> e \<in> regex_errors \<and> e \<noteq> NoFuel | Inr _ \<Rightarrow> True"
  using regex_compile_errors [OF _ assms, of strict] NoFuel_no_error by (auto split: sum.splits)

theorem regex_compile_total_witness:
  "case regex_compile 1024 ''(a|b*'' True of Inl e \<Rightarrow> e \<in> regex_errors \<and> e \<noteq> NoFuel | Inr _ \<Rightarrow> True"
  by (rule regex_compile_total) simp_all

text \<open>C14: the set of characters that \<open>regex_single\<close> writes after a \<open>[\<close> as words of 16 bits, cut after the last word that
  is not 0, has exactly the characters listed up to the closing bracket, ranges included, or exactly the others after a \<open>^\<close>.\<close>

theorem charset_members:
  assumes "parse_set s = Inr (ws, t)"
  shows "in_words ws u \<longleftrightarrow> u \<in> bracket_chars s"
  using assms by (rule parse_set_chars)

lemma charset_example: "parse_set ''b]'' = Inr ([0, 0, 0, 0, 0, 0, 4], [])"
proof -
  have "charset_set charset_zero 98 = [0, 0, 0, 0, 0, 0, 4, 0, 0, 0, 0, 0, 0, 0, 0, 0]"
  proof -
    have z: "charset_zero = [0, 0, 0, 0, 0, 0, 0, 0, 0, 0, 0, 0, 0, 0, 0, 0]" by code_simp
    have "[0, 0, 0, 0, 0, 0, 0, 0, 0, 0, 0, 0, 0, 0, 0, 0] [6 := 4] = [0, 0, 0, 0, 0, 0, 4, 0, 0, 0, 0, 0, 0, 0, 0, 0 :: nat]"
      by code_simp
    then show ?thesis by (simp add: charset_set_def z)
  qed
  then have "bracket_loop ''b]'' 0 charset_zero = Inr ([0, 0, 0, 0, 0, 0, 4, 0, 0, 0, 0, 0, 0, 0, 0, 0], [])"
    by (simp add: bracket_loop.simps [of "''b]''"] bracket_loop.simps [of "'']''"] uchar_def)
  moreover have "last_word [0, 0, 0, 0, 0, 0, 4, 0, 0, 0, 0, 0, 0, 0, 0, 0] = 6"
    by code_simp
  ultimately show ?thesis by (simp add: parse_set_def)
qed

theorem charset_members_witness:
  "in_words [0, 0, 0, 0, 0, 0, 4] 98 \<longleftrightarrow> 98 \<in> bracket_chars ''b]''"
  by (rule charset_members [OF charset_example])

section \<open>The machine\<close>

text \<open>C10: \<open>regex-match\<close> on ASCII data answers \<open>t\<close> exactly when the expression of the pattern matches the whole of the
  data, whenever the backtracking machine stops; the machine never leaves its code; and it stops, within a number of
  steps that only depends on the expression and the length of the data, when no body of a \<open>*\<close> or \<open>+\<close> matches the empty string.\<close>

theorem regex_match_exact:
  assumes c: "regex_compile 1024 pat True = Inr (code, k)" and nul: "CHR 0x00 \<notin> set pat" and s: "ascii s"
  shows "\<exists>r t. alternate pat 0 r t k \<and>
    (\<forall>fuel. xregex_match fuel pat s \<in> {Inr (recognizes s r 0 (length s)), Inl NoFuel}) \<and>
    (proper r \<longrightarrow> (\<forall>fuel \<ge> 3 ^ steps (length s) (whole r True). xregex_match fuel pat s = Inr (recognizes s r 0 (length s))))"
proof -
  obtain r t where r: "alternate pat 0 r t k" "wf_re r" "code = program r True" "length (emit r) + 5 \<le> 1024"
    by (rule regex_compile_ok [OF c _ nul]) simp_all
  let ?R = "whole r True"
  have h: "wf_re ?R" "length (emit ?R) \<le> 2040" "0 \<le> length s"
    using wf_whole [OF r(2), of True] length_whole [of r True] r(4) by simp_all
  have e: "answers ?R s 0 (regex_exec fuel code s 0)"
    "proper ?R \<Longrightarrow> 3 ^ steps (length s) ?R \<le> fuel \<Longrightarrow> regex_exec fuel code s 0 \<noteq> None" for fuel
    using execute_exact [OF h(1,2) s h(3)] by (simp_all add: r(3) program_whole regex_exec_def)
  have m: "xregex_match fuel pat s = (case regex_exec fuel code s 0 of None \<Rightarrow> Inl NoFuel | Some _ \<Rightarrow> Inr (recognizes s r 0 (length s)))"
    for fuel
    using e(1) [of fuel] recognizes_whole [of s r]
    by (auto simp: xregex_match_def c answers_def split: option.splits outcome.splits)
  have "proper ?R \<longleftrightarrow> proper r" by (simp add: whole_def)
  then have "regex_exec fuel code s 0 \<noteq> None" if "proper r" "3 ^ steps (length s) ?R \<le> fuel" for fuel
    using e(2) that by blast
  then have "xregex_match fuel pat s = Inr (recognizes s r 0 (length s))" if "proper r" "3 ^ steps (length s) ?R \<le> fuel" for fuel
    using that m [of fuel] by (metis (no_types, lifting) option.case_eq_if)
  moreover have "xregex_match fuel pat s \<in> {Inr (recognizes s r 0 (length s)), Inl NoFuel}" for fuel
    unfolding m by (auto split: option.split)
  ultimately show ?thesis using r(1) by blast
qed

theorem regex_match_exact_witness:
  "\<exists>r t. alternate ''a*b'' 0 r t 0 \<and>
    (\<forall>fuel. xregex_match fuel ''a*b'' ''aab'' \<in> {Inr (recognizes ''aab'' r 0 (length ''aab'')), Inl NoFuel}) \<and>
    (proper r \<longrightarrow> (\<forall>fuel \<ge> 3 ^ steps (length ''aab'') (whole r True).
       xregex_match fuel ''a*b'' ''aab'' = Inr (recognizes ''aab'' r 0 (length ''aab''))))"
  by (rule regex_match_exact) (simp_all add: regex_eval ascii_def)






text \<open>\<open>regex-extract\<close> on ASCII data returns the empty list exactly when the expression of the pattern does not
  match the whole of the data, whenever the machine stops: the registers never change the course of the machine, which
  knows the start of every group it leaves.\<close>

theorem regex_extract_answer:
  assumes c: "regex_compile 1024 pat True = Inr (code, k)" and nul: "CHR 0x00 \<notin> set pat" and s: "ascii s"
  shows "\<exists>r t. alternate pat 0 r t k \<and> (\<forall>fuel. case xregex_extract fuel pat s of
      Inl e \<Rightarrow> e = NoFuel \<or> recognizes s r 0 (length s)
    | Inr None \<Rightarrow> \<not> recognizes s r 0 (length s)
    | Inr (Some l) \<Rightarrow> recognizes s r 0 (length s) \<and> l \<noteq> [])"
proof -
  obtain r t where r: "alternate pat 0 r t k" "wf_re r" "code = program r True" "length (emit r) + 5 \<le> 1024"
    by (rule regex_compile_ok [OF c _ nul]) simp_all
  let ?R = "whole r True"
  have h: "wf_re ?R" "length (emit ?R) \<le> 2040" "0 \<le> length s"
    using wf_whole [OF r(2), of True] length_whole [of r True] r(4) by simp_all
  have e: "answers ?R s 0 (regex_exec fuel code s k)" for fuel
    using execute_regs_exact(1) [OF h(1,2) s h(3)] by (simp add: r(3) program_whole regex_exec_def)
  have "case xregex_extract fuel pat s of Inl e \<Rightarrow> e = NoFuel \<or> recognizes s r 0 (length s)
    | Inr None \<Rightarrow> \<not> recognizes s r 0 (length s)
    | Inr (Some l) \<Rightarrow> recognizes s r 0 (length s) \<and> l \<noteq> []" for fuel
  proof (cases "regex_exec fuel code s k")
    case None
    then show ?thesis by (simp add: xregex_extract_def c)
  next
    case (Some x)
    then show ?thesis using e [of fuel] recognizes_whole [of s r]
      by (cases x) (auto simp: xregex_extract_def c answers_def res_bind_def split: sum.splits option.splits)
  qed
  then show ?thesis using r(1) by blast
qed

theorem regex_extract_answer_witness:
  "\<exists>r t. alternate ''(a)?ab'' 0 r t 1 \<and> (\<forall>fuel. case xregex_extract fuel ''(a)?ab'' ''ab'' of
      Inl e \<Rightarrow> e = NoFuel \<or> recognizes ''ab'' r 0 (length ''ab'')
    | Inr None \<Rightarrow> \<not> recognizes ''ab'' r 0 (length ''ab'')
    | Inr (Some l) \<Rightarrow> recognizes ''ab'' r 0 (length ''ab'') \<and> l \<noteq> [])"
  by (rule regex_extract_answer) (simp_all add: regex_eval ascii_def)

section \<open>Where the code goes wrong\<close>

text \<open>A pattern with a \<open>)\<close> too many is accepted and what follows is dropped: \<open>a)b\<close> matches \<open>a\<close>.\<close>

theorem regex_unbalanced: "xregex_match 9 ''a)b'' ''a'' = Inr True"
  by (simp add: xregex_match_def regex_eval regex_run_eval)

text \<open>A group entered and then given up by backtracking keeps its register: \<open>(a)?ab\<close> on \<open>ab\<close> extracts \<open>a\<close>,
  though the match passes outside the group.\<close>

theorem regex_stale_register: "xregex_extract 20 ''(a)?ab'' ''ab'' = Inr (Some [''a''])"
  by (simp add: xregex_extract_def regex_eval regex_run_eval register_string_def)

lemma literal_turn:
  "p + 6 \<le> lim \<Longrightarrow> take 1 u \<notin> {''?'', ''+'', ''*''} \<Longrightarrow>
     regex_several_with alt cap lim p (CHR ''a'' # u) k = Inr ([97], u, k)"
  by (simp add: regex_several_with_def single_literal special_def concatc_def concatb_def uchar_def)

lemma overflow_turn:
  "p + 19 > cap \<Longrightarrow> regex_several_with alt cap lim p (CHR ''['' # u) k =
     Inl (Undef ''character set written past the end of the buffer'')"
  by (simp add: regex_several_with_def single_simps)

lemma catenate_overflow:
  "j < n \<Longrightarrow> p + length code + j + 5 \<le> lim \<Longrightarrow> cap < p + length code + j + 19 \<Longrightarrow>
     catenate_loop n alt cap lim p code (replicate j (CHR ''a'') @ CHR ''['' # u) k =
       Inl (Undef ''character set written past the end of the buffer'')"
proof (induction j arbitrary: n code)
  case 0
  then obtain m where "n = Suc m" by (cases n) auto
  then show ?case using 0 overflow_turn [of cap "p + length code" alt lim u k] by simp
next
  case (Suc j)
  then obtain m where n: "n = Suc m" by (cases n) auto
  let ?u = "replicate j (CHR ''a'') @ CHR ''['' # u"
  have u: "take 1 ?u \<notin> {''?'', ''+'', ''*''}" "?u \<noteq> []" "hd ?u \<notin> {CHR ''|'', CHR '')''}" by (cases j; simp)+
  have "regex_several_with alt cap lim (p + length code) (CHR ''a'' # ?u) k = Inr ([97], ?u, k)"
    using Suc.prems by (intro literal_turn [OF _ u(1)]) simp
  then show ?case using Suc.prems Suc.IH [of m "code @ [97]"] u(2,3) by (simp add: n concatb_def)
qed

text \<open>C15: a \<open>[\<close> near the end of the buffer is not refused: \<open>charset_zero\<close> writes its 16 words past the buffer of the
  caller, since the only check there compares the start of the set with itself.\<close>

theorem regex_charset_overflow:
  assumes "32 \<le> cap"
  shows "regex_compile cap (replicate (cap - 20) (CHR ''a'') @ ''[b]'') True =
    Inl (Undef ''character set written past the end of the buffer'')"
proof -
  let ?s = "replicate (cap - 20) (CHR ''a'') @ ''[b]''"
  have "catenate_loop (Suc (length ?s)) (regex_alternate (length ?s) cap (cap - 2)) cap (cap - 2) (2 + 1) [] ?s 0 =
      Inl (Undef ''character set written past the end of the buffer'')"
    using assms by (intro catenate_overflow) simp_all
  then show ?thesis unfolding regex_compile_def by (simp del: catenate_loop.simps)
qed

theorem regex_charset_overflow_witness:
  "regex_compile 1024 (replicate (1024 - 20) (CHR ''a'') @ ''[b]'') True =
    Inl (Undef ''character set written past the end of the buffer'')"
  by (rule regex_charset_overflow) simp

text \<open>The end of a group may be reached again, after backtracking, before the start that the register holds:
  its length is then negative, and \<open>regex-extract\<close> asks for a string of that length.\<close>

theorem regex_negative_register:
  "xregex_extract 60 ''(ab?)+bc'' ''abc'' = Inl (Undef ''string of negative length'')"
  by (simp add: xregex_extract_def regex_eval regex_run_eval register_string_def)

end
