(* ===== verification/Strings.thy ===== *)
theory Strings
  imports Args Regex
begin

text \<open>
  The string functions of \<open>src/src/string.c\<close>: the buffer that collects a long string, the functions on
  bytes, and the conversions between strings and numbers. A string is the list of its characters before the
  terminating NUL, shorter than \<open>2^31\<close>; the characters of several bytes of the locale (\<open>upcase\<close>, \<open>explode-chars\<close> and
  their like) are not modelled. \<open>atof\<close> and \<open>printf\<close> of a double are parameters.
\<close>

section \<open>Large strings\<close>

text \<open>\<open>backup\<close> is the list of the strings already cut, the oldest first; \<open>lbuf\<close> is the buffer up to \<open>p\<close>.\<close>

record large_string =
  backup :: "string list"
  lbuf :: string

definition cstr :: "string \<Rightarrow> string" where
  "cstr s = takeWhile (\<lambda>c. c \<noteq> CHR 0x00) s"

definition LARGE_BUFFER :: nat where
  "LARGE_BUFFER = 1024"

definition large_string_init :: large_string where
  "large_string_init = \<lparr>backup = [], lbuf = []\<rparr>"

text \<open>Appending the bytes \<open>b\<close>.\<close>

definition large_put :: "large_string \<Rightarrow> string \<Rightarrow> large_string" where
  "large_put ls b = (
     let ls = (if lbuf ls \<noteq> [] \<and> length (lbuf ls) + length b > LARGE_BUFFER - 1
               then ls\<lparr>backup := backup ls @ [cstr (lbuf ls)], lbuf := []\<rparr> else ls) in
     if length b > LARGE_BUFFER - 1 then ls\<lparr>backup := backup ls @ [b], lbuf := []\<rparr> else ls\<lparr>lbuf := lbuf ls @ b\<rparr>)"

text \<open>The bytes are read from a string, with the NUL that ends it, and not past it.\<close>

definition large_string_add :: "large_string \<Rightarrow> string \<Rightarrow> int \<Rightarrow> large_string res" where
  "large_string_add ls s n = (let n = (if n < 0 then int (length s) else n) in
     if n > int (length s) + 1 then Inl (Undef ''read past the end of a string'')
     else Inr (large_put ls (take (nat n) (s @ [CHR 0x00]))))"

definition large_string_collect :: "large_string \<Rightarrow> string" where
  "large_string_collect ls = concat (map cstr (backup ls)) @ cstr (lbuf ls)"

section \<open>Parts of strings\<close>

definition badarg :: lush_error where
  "badarg = Lush ''Argument out of range''"

definition xstr_left :: "'o val list \<Rightarrow> 'o val res" where
  "xstr_left args = res_bind (ARG_NUMBER 2 args) (\<lambda>_. res_bind (ASTRING 1 args) (\<lambda>s. res_bind (AINT 2 args) (\<lambda>n.
     if n < 0 then Inl badarg
     else let l = int (length s); n = (if n > l then l else n) in Inr (VStr (take (nat n) s)))))"

definition xstr_right :: "'o val list \<Rightarrow> 'o val res" where
  "xstr_right args = res_bind (ARG_NUMBER 2 args) (\<lambda>_. res_bind (ASTRING 1 args) (\<lambda>s. res_bind (AINT 2 args) (\<lambda>n.
     if n < 0 then Inl badarg
     else let l = int (length s); n = (if n > l then l else n) in Inr (VStr (drop (nat (l - n)) s)))))"

definition xstr_mid :: "'o val list \<Rightarrow> 'o val res" where
  "xstr_mid args = (if length args = 2 then
       res_bind (ASTRING 1 args) (\<lambda>s. res_bind (AINT 2 args) (\<lambda>n.
       if n < 1 then Inl badarg
       else if n > int (length s) then Inr (VStr [])
       else Inr (VStr (drop (nat (n - 1)) s))))
     else
       res_bind (ARG_NUMBER 3 args) (\<lambda>_. res_bind (ASTRING 1 args) (\<lambda>s.
       res_bind (AINT 2 args) (\<lambda>n. res_bind (AINT 3 args) (\<lambda>m.
       if n < 1 then Inl badarg
       else if m < 0 then Inl badarg
       else let l = int (length s) - (n - 1); m = (if m > l then l else m) in
         if m < 1 then Inr (VStr []) else Inr (VStr (take (nat m) (drop (nat (n - 1)) s))))))))"

fun sum_lengths :: "int \<Rightarrow> string list \<Rightarrow> int res" where
  "sum_lengths n [] = Inr n"
| "sum_lengths n (s # ss) = res_bind (chk32 (n + int (length s))) (\<lambda>n. sum_lengths n ss)"

definition xstr_concat :: "'o val list \<Rightarrow> 'o val res" where
  "xstr_concat args = res_bind (res_map (\<lambda>i. ASTRING i args) [1..<length args + 1]) (\<lambda>ss.
     res_bind (sum_lengths 0 ss) (\<lambda>n. let here = concat ss in
     if n - int (length here) \<noteq> 0 then Inl (Lush ''Internal error: bad length'') else Inr (VStr here)))"

section \<open>Searching\<close>

text \<open>The inner loop of \<open>str_index\<close>, and \<open>strncmp(s,s1,strlen(s1))==0\<close>: \<open>s1\<close> is found at the start of \<open>s\<close>.\<close>

fun found_at :: "string \<Rightarrow> string \<Rightarrow> bool" where
  "found_at [] s = True"
| "found_at (b # bs) [] = False"
| "found_at (b # bs) (a # as) = (b = a \<and> found_at bs as)"

fun index_loop :: "string \<Rightarrow> string \<Rightarrow> int \<Rightarrow> int \<Rightarrow> int" where
  "index_loop s1 [] start indx = 0"
| "index_loop s1 (c # s2) start indx =
     (if start - 1 \<le> 0 \<and> found_at s1 (c # s2) then indx else index_loop s1 s2 (start - 1) (indx + 1))"

definition str_index :: "string \<Rightarrow> string \<Rightarrow> int \<Rightarrow> int" where
  "str_index s1 s2 start = index_loop s1 s2 start 1"

definition xstr_index :: "'o val list \<Rightarrow> 'o val res" where
  "xstr_index args = res_bind (if length args = 3 then AINT 3 args else res_bind (ARG_NUMBER 2 args) (\<lambda>_. Inr 1)) (\<lambda>start.
     res_bind (ASTRING 1 args) (\<lambda>s. res_bind (ASTRING 2 args) (\<lambda>s2.
     let i = str_index s s2 start in if i \<noteq> 0 then Inr (NEW_NUMBER i) else Inr VNil)))"

definition xstr_len :: "'o val list \<Rightarrow> 'o val res" where
  "xstr_len args = res_bind (ARG_NUMBER 1 args) (\<lambda>_. res_bind (ASTRING 1 args) (\<lambda>s. Inr (NEW_NUMBER (int (length s)))))"

section \<open>Editing\<close>

text \<open>The sum \<open>n+l\<close> has type \<open>int\<close>.\<close>

definition str_del :: "string \<Rightarrow> int \<Rightarrow> int \<Rightarrow> string res" where
  "str_del s n l = (let len = int (length s); n = (if n > 1 then n - 1 else 0); n = (if n > len then len else n) in
     res_bind (if l < 0 then Inr True else res_bind (chk32 (n + l)) (\<lambda>e. Inr (e > len))) (\<lambda>clip.
     let l = (if clip then len - n else l) in
     res_bind (large_string_add large_string_init s n) (\<lambda>ls.
     res_bind (large_string_add ls (drop (nat (n + l)) s) (- 1)) (\<lambda>ls. Inr (large_string_collect ls)))))"

definition xstr_del :: "'o val list \<Rightarrow> 'o val res" where
  "xstr_del args = res_bind (if length args \<noteq> 2 then res_bind (ARG_NUMBER 3 args) (\<lambda>_. AINT 3 args) else Inr (- 1)) (\<lambda>l.
     res_bind (ASTRING 1 args) (\<lambda>s. res_bind (AINT 2 args) (\<lambda>n. res_bind (str_del s n l) (\<lambda>r. Inr (VStr r)))))"

text \<open>\<open>s + pos\<close> with a negative \<open>pos\<close> points before the string.\<close>

definition str_ins :: "string \<Rightarrow> int \<Rightarrow> string \<Rightarrow> string res" where
  "str_ins s pos what = (let len = int (length s); pos = (if pos > len then len else pos) in
     res_bind (large_string_add large_string_init s pos) (\<lambda>ls.
     res_bind (large_string_add ls what (- 1)) (\<lambda>ls.
     if pos < 0 then Inl (Undef ''read before the start of a string'')
     else res_bind (large_string_add ls (drop (nat pos) s) (- 1)) (\<lambda>ls. Inr (large_string_collect ls)))))"

definition xstr_ins :: "'o val list \<Rightarrow> 'o val res" where
  "xstr_ins args = res_bind (ARG_NUMBER 3 args) (\<lambda>_. res_bind (ASTRING 1 args) (\<lambda>s. res_bind (AINT 2 args) (\<lambda>n.
     res_bind (ASTRING 3 args) (\<lambda>w. res_bind (str_ins s n w) (\<lambda>r. Inr (VStr r))))))"

text \<open>The loop of \<open>str_subst\<close>: \<open>prev\<close> has the characters from \<open>last\<close> up to \<open>s\<close>.\<close>

function subst_loop :: "string \<Rightarrow> string \<Rightarrow> string \<Rightarrow> string \<Rightarrow> large_string \<Rightarrow> large_string res" where
  "subst_loop s1 s2 prev [] ls = (if prev \<noteq> [] then large_string_add ls prev (int (length prev)) else Inr ls)"
| "subst_loop s1 s2 prev (c # s) ls =
     (if s1 \<noteq> [] \<and> c = hd s1 \<and> found_at s1 (c # s) then
        res_bind (large_string_add ls (prev @ c # s) (int (length prev))) (\<lambda>ls.
        res_bind (large_string_add ls s2 (int (length s2))) (\<lambda>ls.
        subst_loop s1 s2 [] (drop (length s1) (c # s)) ls))
      else subst_loop s1 s2 (prev @ [c]) s ls)"
  by pat_completeness auto
termination by (relation "measure (\<lambda>(s1, s2, prev, s, ls). length s)") auto

definition str_subst :: "string \<Rightarrow> string \<Rightarrow> string \<Rightarrow> string res" where
  "str_subst s s1 s2 = res_bind (subst_loop s1 s2 [] s large_string_init) (\<lambda>ls. Inr (large_string_collect ls))"

definition xstrsubst :: "'o val list \<Rightarrow> 'o val res" where
  "xstrsubst args = res_bind (ARG_NUMBER 3 args) (\<lambda>_. res_bind (ASTRING 1 args) (\<lambda>s. res_bind (ASTRING 2 args) (\<lambda>s1.
     res_bind (ASTRING 3 args) (\<lambda>s2. res_bind (str_subst s s1 s2) (\<lambda>r. Inr (VStr r))))))"

section \<open>Characters and bytes\<close>

definition xstr_asc :: "'o val list \<Rightarrow> 'o val res" where
  "xstr_asc args = res_bind (ARG_NUMBER 1 args) (\<lambda>_. res_bind (ASTRING 1 args) (\<lambda>s.
     case s of [] \<Rightarrow> Inl (Lush ''Empty string'') | c # _ \<Rightarrow> Inr (NEW_NUMBER (int (uchar c)))))"

definition xstr_chr :: "'o val list \<Rightarrow> 'o val res" where
  "xstr_chr args = res_bind (ARG_NUMBER 1 args) (\<lambda>_. res_bind (AINT 1 args) (\<lambda>i.
     if i < 0 \<or> i > 255 then Inl (Lush ''Out of range'') else Inr (VStr (cstr [char_of (nat i)]))))"

definition explode_bytes :: "string \<Rightarrow> 'o val" where
  "explode_bytes s = list_val (map (\<lambda>c. NEW_NUMBER (int (uchar c))) s)"

text \<open>\<open>(char)\<close> of a double: the low byte of the truncated number.\<close>

fun implode_loop :: "'o val \<Rightarrow> large_string \<Rightarrow> large_string res" where
  "implode_loop (VCons (VNum x) p) ls =
     (if \<not> in_int32 (ctrunc x) then Inl (Undef ''number out of the range of char'')
      else let b = nat (ctrunc x mod 256) in
        if b = 0 then Inr ls
        else if x \<noteq> of_nat b then Inl (Lush ''Integer in range 0..255 expected'')
        else res_bind (large_string_add ls [char_of b] 1) (\<lambda>ls. implode_loop p ls))"
| "implode_loop (VCons _ p) ls = Inl (Lush ''Number expected'')"
| "implode_loop _ ls = Inr ls"

definition implode_bytes :: "'o val \<Rightarrow> string res" where
  "implode_bytes p = res_bind (implode_loop p large_string_init) (\<lambda>ls. Inr (large_string_collect ls))"

section \<open>Numbers in strings\<close>

definition isspace :: "char \<Rightarrow> bool" where
  "isspace c \<longleftrightarrow> c = CHR '' '' \<or> 9 \<le> uchar c \<and> uchar c \<le> 13"

definition hex_value :: "char \<Rightarrow> int option" where
  "hex_value c = (if 48 \<le> uchar c \<and> uchar c \<le> 57 then Some (int (uchar c) - 48)
     else if 97 \<le> uchar c \<and> uchar c \<le> 102 then Some (int (uchar c) - 97 + 10)
     else if 65 \<le> uchar c \<and> uchar c \<le> 70 then Some (int (uchar c) - 65 + 10) else None)"

text \<open>The loop of \<open>str_val_hex\<close> with its variable \<open>x\<close> of type \<open>int\<close>.\<close>

fun hex_loop :: "32 word \<Rightarrow> string \<Rightarrow> 32 word option" where
  "hex_loop x [] = Some x"
| "hex_loop x (c # s) = (if x AND 0xf0000000 \<noteq> 0 then None
     else case hex_value c of None \<Rightarrow> None | Some d \<Rightarrow> hex_loop (push_bit 4 x + word_of_int d) s)"

definition str_val_hex :: "string \<Rightarrow> int option" where
  "str_val_hex s = (let s = dropWhile isspace s; neg = (take 1 s = ''-'');
     s = (if s \<noteq> [] \<and> hd s \<in> {CHR ''+'', CHR ''-''} then tl s else s) in
     if take 2 s \<in> {''0x'', ''0X''} \<and> drop 2 s \<noteq> []
     then map_option (\<lambda>x. sint (if neg then - x else x)) (hex_loop 0 (drop 2 s)) else None)"

text \<open>The scan of \<open>str_val_float\<close>: its flags say that a digit, a sign, a point and an exponent were met.\<close>

record scan_flags =
  fdigit :: bool
  fsign :: bool
  fdot :: bool
  fexp :: bool

definition float_char :: "char \<Rightarrow> bool" where
  "float_char c \<longleftrightarrow> isdigit c \<or> c \<in> {CHR ''+'', CHR ''-'', CHR ''.'', CHR ''e'', CHR ''E''}"

definition float_step :: "scan_flags \<Rightarrow> char \<Rightarrow> scan_flags option" where
  "float_step f c = (
     if isdigit c then Some (f\<lparr>fdigit := True\<rparr>)
     else if c \<in> {CHR ''+'', CHR ''-''} then (if fdigit f \<or> fsign f then None else Some (f\<lparr>fsign := True\<rparr>))
     else if c = CHR ''.'' then (if fdot f \<or> fexp f then None else Some (f\<lparr>fdot := True\<rparr>))
     else if fexp f then None else Some (f\<lparr>fdigit := False, fsign := False, fexp := True\<rparr>))"

fun float_scan :: "scan_flags \<Rightarrow> string \<Rightarrow> (scan_flags \<times> string) option" where
  "float_scan f [] = Some (f, [])"
| "float_scan f (c # s) = (if float_char c then (case float_step f c of None \<Rightarrow> None | Some f \<Rightarrow> float_scan f s)
     else Some (f, c # s))"

definition no_flags :: scan_flags where
  "no_flags = \<lparr>fdigit = False, fsign = False, fdot = False, fexp = False\<rparr>"

definition is_float :: "string \<Rightarrow> bool" where
  "is_float h \<longleftrightarrow> h \<noteq> [] \<and> (isdigit (hd h) \<or> hd h \<in> {CHR ''+'', CHR ''-'', CHR ''.''}) \<and>
     (case float_scan no_flags h of None \<Rightarrow> False | Some (f, s) \<Rightarrow> dropWhile isspace s = [] \<and> fdigit f)"

definition str_val_float :: "(string \<Rightarrow> rat) \<Rightarrow> string \<Rightarrow> rat option" where
  "str_val_float atof s = (let h = dropWhile isspace s in if is_float h then Some (atof h) else None)"

definition str_val :: "(string \<Rightarrow> rat) \<Rightarrow> string \<Rightarrow> rat option" where
  "str_val atof s = (case str_val_hex s of Some x \<Rightarrow> Some (of_int x) | None \<Rightarrow> str_val_float atof s)"

text \<open>\<open>0x%x\<close> of an \<open>unsigned int\<close>.\<close>

definition hex_char :: "nat \<Rightarrow> char" where
  "hex_char d = char_of (if d < 10 then 48 + d else 87 + d)"

fun hex_digits :: "nat \<Rightarrow> string" where
  "hex_digits n = (if n < 16 then [hex_char n] else hex_digits (n div 16) @ [hex_char (n mod 16)])"

declare hex_digits.simps [simp del]

definition str_number_hex :: "rat \<Rightarrow> string res" where
  "str_number_hex x = (let ix = \<lfloor>x\<rfloor> in
     if \<not> in_int32 ix then Inl (Undef ''number out of the range of int'')
     else if ix = 0 then Inr ''0'' else Inr (''0x'' @ hex_digits (nat (ix mod 4294967296))))"

text \<open>\<open>str_number\<close> removes the zeros after the last digit of the fraction, and the point when nothing is left:
  \<open>t\<close> walks over the digits, \<open>kept\<close> is the length up to \<open>s\<close>.\<close>

fun strip_loop :: "string \<Rightarrow> nat \<Rightarrow> nat \<Rightarrow> nat \<times> string" where
  "strip_loop [] p kept = (kept, [])"
| "strip_loop (c # t) p kept =
     (if isdigit c then strip_loop t (p + 1) (if c \<noteq> CHR ''0'' then p + 1 else kept) else (kept, c # t))"

definition strip_zeros :: "string \<Rightarrow> string" where
  "strip_zeros b = (let ip = takeWhile (\<lambda>c. c \<noteq> CHR ''.'') b in
     if ip = b then b
     else let (kept, t) = strip_loop (drop (length ip + 1) b) (length ip + 1) (length ip) in take kept b @ t)"

definition str_number :: "(rat \<Rightarrow> string) \<Rightarrow> (rat \<Rightarrow> string) \<Rightarrow> rat \<Rightarrow> string" where
  "str_number fmt_g fmt_4f x =
     strip_zeros (if \<bar>x\<bar> < 1 / 1000 \<or> \<bar>x\<bar> > 10000000000 then fmt_g x else fmt_4f x)"

end
