(* ===== verification/StringLaws.thy ===== *)
theory StringLaws
  imports Strings
begin

text \<open>
  The buffer of a long string holds what was added to it, in order, within its bounds; the searches of the
  string functions against their definitions on lists; the conversions of numbers.
\<close>

section \<open>Collecting a text\<close>

text \<open>What a function that builds a string relies on: putting a piece appends it to what is collected.\<close>

locale text_buffer =
  fixes empty :: 'b and put :: "'b \<Rightarrow> 'a list \<Rightarrow> 'b" and collect :: "'b \<Rightarrow> 'a list"
    and good :: "'b \<Rightarrow> bool" and clean :: "'a list \<Rightarrow> bool"
  assumes good_empty: "good empty" "collect empty = []"
    and good_put: "good b \<Longrightarrow> clean s \<Longrightarrow> good (put b s)"
    and collect_put: "good b \<Longrightarrow> clean s \<Longrightarrow> collect (put b s) = collect b @ s"
begin

lemma good_puts: "good b \<Longrightarrow> \<forall>s \<in> set ss. clean s \<Longrightarrow> good (foldl put b ss)"
  by (induction ss arbitrary: b) (auto simp: good_put)

lemma collect_puts: "good b \<Longrightarrow> \<forall>s \<in> set ss. clean s \<Longrightarrow> collect (foldl put b ss) = collect b @ concat ss"
  by (induction ss arbitrary: b) (auto simp: good_put collect_put)

lemma collect_all: "\<forall>s \<in> set ss. clean s \<Longrightarrow> collect (foldl put empty ss) = concat ss"
  using collect_puts [OF good_empty(1)] good_empty(2) by simp

end

definition nul_free :: "string \<Rightarrow> bool" where
  "nul_free s \<longleftrightarrow> CHR 0x00 \<notin> set s"

lemma nul_free_simps [simp]: "nul_free []" "nul_free (c # s) \<longleftrightarrow> c \<noteq> CHR 0x00 \<and> nul_free s"
  "nul_free (s @ t) \<longleftrightarrow> nul_free s \<and> nul_free t"
  by (auto simp: nul_free_def)

lemma nul_free_take [simp]: "nul_free s \<Longrightarrow> nul_free (take n s)"
  by (auto simp: nul_free_def dest: in_set_takeD)

lemma nul_free_drop [simp]: "nul_free s \<Longrightarrow> nul_free (drop n s)"
  by (auto simp: nul_free_def dest: in_set_dropD)

lemma cstr_id: "nul_free s \<Longrightarrow> cstr s = s"
  unfolding cstr_def nul_free_def by (simp add: takeWhile_eq_all_conv) blast

definition in_bounds :: "large_string \<Rightarrow> bool" where
  "in_bounds ls \<longleftrightarrow> length (lbuf ls) < LARGE_BUFFER \<and> nul_free (lbuf ls)"

lemma large_put_buffer: "in_bounds ls \<Longrightarrow> nul_free b \<Longrightarrow> in_bounds (large_put ls b)"
  by (auto simp: in_bounds_def large_put_def LARGE_BUFFER_def Let_def)

lemma large_put_collect: "in_bounds ls \<Longrightarrow> nul_free b \<Longrightarrow> large_string_collect (large_put ls b) = large_string_collect ls @ b"
  by (auto simp: in_bounds_def large_put_def large_string_collect_def cstr_id Let_def LARGE_BUFFER_def)

interpretation large: text_buffer large_string_init large_put large_string_collect in_bounds nul_free
proof
  show "in_bounds large_string_init" by (simp add: in_bounds_def large_string_init_def LARGE_BUFFER_def)
  show "large_string_collect large_string_init = []" by (simp add: large_string_init_def large_string_collect_def cstr_def)
qed (rule large_put_buffer large_put_collect; assumption)+

lemma large_add_part: "0 \<le> n \<Longrightarrow> n \<le> int (length s) \<Longrightarrow> large_string_add ls s n = Inr (large_put ls (take (nat n) s))"
  by (simp add: large_string_add_def)

lemma large_add_all: "large_string_add ls s (- 1) = Inr (large_put ls s)"
  by (simp add: large_string_add_def)

lemma large_add_length: "large_string_add ls s (int (length s)) = Inr (large_put ls s)"
  by (simp add: large_add_part)

section \<open>Searching\<close>

lemma found_at_prefix: "found_at s1 s \<longleftrightarrow> (\<exists>t. s = s1 @ t)"
  by (induction s1 s rule: found_at.induct) auto

lemma found_at_take: "found_at s1 s \<longleftrightarrow> take (length s1) s = s1"
  unfolding found_at_prefix by (metis append_eq_conv_conj append_take_drop_id)

text \<open>\<open>occurs s1 s2 k\<close>: \<open>s1\<close> occurs in \<open>s2\<close> from position \<open>k\<close>, counted from 1, on.\<close>

definition occurs :: "string \<Rightarrow> string \<Rightarrow> int \<Rightarrow> bool" where
  "occurs s1 s2 k \<longleftrightarrow> 1 \<le> k \<and> k \<le> int (length s2) \<and> found_at s1 (drop (nat (k - 1)) s2)"

lemma occurs_Cons: "occurs s1 (c # s2) (k + 1) \<longleftrightarrow> k = 0 \<and> found_at s1 (c # s2) \<or> occurs s1 s2 k"
proof -
  have "nat k = Suc (nat (k - 1))" if "1 \<le> k" using that by simp
  then show ?thesis by (cases "k = 0") (auto simp: occurs_def)
qed

lemma index_loop_exact:
  "case index_loop s1 s2 start indx of r \<Rightarrow>
     (r = 0 \<and> 0 < indx \<longrightarrow> (\<forall>k. start \<le> k \<longrightarrow> \<not> occurs s1 s2 k)) \<and>
     (r \<noteq> 0 \<longrightarrow> occurs s1 s2 (r - indx + 1) \<and> start \<le> r - indx + 1 \<and>
       (\<forall>k. start \<le> k \<longrightarrow> k < r - indx + 1 \<longrightarrow> \<not> occurs s1 s2 k))"
proof (induction s1 s2 start indx rule: index_loop.induct)
  case (1 s1 start indx)
  then show ?case by (simp add: occurs_def)
next
  case (2 s1 c s2 start indx)
  show ?case
  proof (cases "start - 1 \<le> 0 \<and> found_at s1 (c # s2)")
    case True
    then have "occurs s1 (c # s2) 1" by (simp add: occurs_def)
    moreover have "\<not> occurs s1 (c # s2) k" if "k < 1" for k using that by (simp add: occurs_def)
    ultimately show ?thesis using True by simp
  next
    case False
    let ?r = "index_loop s1 s2 (start - 1) (indx + 1)"
    have r: "index_loop s1 (c # s2) start indx = ?r" using False by auto
    have o: "occurs s1 (c # s2) k \<longleftrightarrow> occurs s1 s2 (k - 1)" if "start \<le> k" for k
      using occurs_Cons [of s1 c s2 "k - 1"] False that by auto
    note IH = "2.IH" [OF False, unfolded Let_def]
    have a: "\<forall>k. start \<le> k \<longrightarrow> \<not> occurs s1 (c # s2) k" if "?r = 0" "0 < indx"
      using IH that o by auto
    have b: "occurs s1 (c # s2) (?r - indx + 1) \<and> start \<le> ?r - indx + 1 \<and>
       (\<forall>k. start \<le> k \<longrightarrow> k < ?r - indx + 1 \<longrightarrow> \<not> occurs s1 (c # s2) k)" if "?r \<noteq> 0"
    proof -
      have h: "occurs s1 s2 (?r - (indx + 1) + 1)" "start - 1 \<le> ?r - (indx + 1) + 1"
        "\<forall>k. start - 1 \<le> k \<longrightarrow> k < ?r - (indx + 1) + 1 \<longrightarrow> \<not> occurs s1 s2 k"
        using IH that by auto
      then show ?thesis using o by (simp add: algebra_simps)
    qed
    show ?thesis unfolding r using a b by blast
  qed
qed

text \<open>Replacing every occurrence, from the left and without overlaps.\<close>

function replace_all :: "string \<Rightarrow> string \<Rightarrow> string \<Rightarrow> string" where
  "replace_all s1 s2 [] = []"
| "replace_all s1 s2 (c # s) =
     (if s1 \<noteq> [] \<and> take (length s1) (c # s) = s1 then s2 @ replace_all s1 s2 (drop (length s1) (c # s))
      else c # replace_all s1 s2 s)"
  by pat_completeness auto
termination by (relation "measure (\<lambda>(s1, s2, s). length s)") auto

lemma subst_loop_exact:
  "in_bounds ls \<Longrightarrow> nul_free s1 \<Longrightarrow> nul_free s2 \<Longrightarrow> nul_free prev \<Longrightarrow> nul_free s \<Longrightarrow>
    \<exists>ls'. subst_loop s1 s2 prev s ls = Inr ls' \<and> large_string_collect ls' = large_string_collect ls @ prev @ replace_all s1 s2 s"
proof (induction s1 s2 prev s ls rule: subst_loop.induct)
  case (1 s1 s2 prev ls)
  then show ?case by (simp add: large_add_length large.collect_put)
next
  case (2 s1 s2 prev c s ls)
  let ?hit = "s1 \<noteq> [] \<and> c = hd s1 \<and> found_at s1 (c # s)"
  have hit: "?hit \<longleftrightarrow> s1 \<noteq> [] \<and> take (length s1) (c # s) = s1"
    by (cases s1) (auto simp: found_at_take)
  show ?case
  proof (cases ?hit)
    case False
    have "replace_all s1 s2 (c # s) = c # replace_all s1 s2 s"
      unfolding replace_all.simps if_not_P [OF False [unfolded hit]] by (rule refl)
    moreover have "subst_loop s1 s2 prev (c # s) ls = subst_loop s1 s2 (prev @ [c]) s ls"
      unfolding subst_loop.simps if_not_P [OF False] by (rule refl)
    moreover have "nul_free (prev @ [c])" "nul_free s" using "2.prems"(4,5) by simp_all
    ultimately show ?thesis using "2.IH"(2) [OF False "2.prems"(1-3)] by simp
  next
    case True
    have r: "replace_all s1 s2 (c # s) = s2 @ replace_all s1 s2 (drop (length s1) (c # s))" using True hit by simp
    let ?a = "large_put ls prev" and ?t = "drop (length s1) (c # s)"
    have a: "in_bounds ?a" "large_string_collect ?a = large_string_collect ls @ prev"
      using large.good_put [OF "2.prems"(1,4)] large.collect_put [OF "2.prems"(1,4)] by simp_all
    have b: "in_bounds (large_put ?a s2)" "large_string_collect (large_put ?a s2) = large_string_collect ?a @ s2"
      using large.good_put [OF a(1) "2.prems"(3)] large.collect_put [OF a(1) "2.prems"(3)] by simp_all
    have add: "large_string_add ls (prev @ c # s) (int (length prev)) = Inr ?a"
      by (simp add: large_add_part)
    have t: "nul_free ?t" by (rule nul_free_drop) (rule "2.prems"(5))
    have e: "subst_loop s1 s2 prev (c # s) ls = subst_loop s1 s2 [] ?t (large_put ?a s2)"
      unfolding subst_loop.simps if_P [OF True] add res_bind_simps large_add_length by (rule refl)
    from "2.IH"(1) [OF True add large_add_length b(1) "2.prems"(2,3) nul_free_simps(1) t]
    show ?thesis unfolding e r using a(2) b(2) by (simp del: drop_Cons' subst_loop.simps)
  qed
qed

section \<open>Hexadecimal numbers\<close>

lemma hex_value_char: "d < 16 \<Longrightarrow> hex_value (hex_char d) = Some (int d)"
proof -
  assume d: "d < 16"
  have u: "uchar (hex_char d) = (if d < 10 then 48 + d else 87 + d)"
    using d by (simp add: uchar_def hex_char_def)
  show ?thesis using d unfolding hex_value_def u by auto
qed

lemma hex_loop_append: "hex_loop x (s @ t) = (case hex_loop x s of None \<Rightarrow> None | Some y \<Rightarrow> hex_loop y t)"
  by (induction s arbitrary: x) (auto split: option.splits)

lemma high_bits_clear: "m < 268435456 \<Longrightarrow> (of_nat m :: 32 word) AND 0xf0000000 = 0"
proof -
  assume m: "m < 268435456"
  have h: "(0xf0000000 :: 32 word) = push_bit 28 15" by simp
  have "\<not> bit (of_nat m :: 32 word) i" if "28 \<le> i" for i
  proof -
    have "(2::nat) ^ 28 \<le> 2 ^ i" using that by (intro power_increasing) auto
    then have "m div 2 ^ i = 0" using m by simp
    then have "\<not> bit m i" by (simp add: bit_iff_odd)
    then have "\<not> bit (of_nat m :: int) i" by (simp add: bit_of_nat_iff)
    then show ?thesis using bit_word_of_int_iff [where 'a = 32, of "int m" i] by simp
  qed
  moreover have "28 \<le> i" if "bit (0xf0000000 :: 32 word) i" for i
    using that unfolding h by (simp only: bit_push_bit_iff)
  ultimately show ?thesis by (intro bit_eqI) (auto simp only: bit_and_iff bit_0_eq bot_apply bot_bool_def)
qed

lemma hex_loop_digits: "n < 4294967296 \<Longrightarrow> hex_loop 0 (hex_digits n) = Some (of_nat n)"
proof (induction n rule: hex_digits.induct)
  case (1 n)
  show ?case
  proof (cases "n < 16")
    case True
    then show ?thesis by (subst hex_digits.simps) (simp add: hex_value_char)
  next
    case False
    have q: "hex_loop 0 (hex_digits (n div 16)) = Some (of_nat (n div 16))" using 1 False by simp
    have c: "(of_nat (n div 16) :: 32 word) AND 0xf0000000 = 0" using 1 by (intro high_bits_clear) simp
    have "push_bit 4 (of_nat (n div 16)) + word_of_int (int (n mod 16)) = (of_nat n :: 32 word)"
    proof -
      have "push_bit 4 (of_nat (n div 16)) + word_of_int (int (n mod 16)) = (of_nat (n div 16) * 16 + of_nat (n mod 16) :: 32 word)"
        by (simp add: push_bit_eq_mult)
      also have "\<dots> = of_nat (n div 16 * 16 + n mod 16)" by (simp only: of_nat_add of_nat_mult of_nat_numeral)
      finally show ?thesis by simp
    qed
    then show ?thesis using q c False
      by (subst hex_digits.simps) (simp add: hex_loop_append hex_value_char del: of_nat_div)
  qed
qed

lemma hex_digits_not_Nil [simp]: "hex_digits n \<noteq> []"
  by (subst hex_digits.simps) simp

lemma str_val_hex_digits: "n < 4294967296 \<Longrightarrow> str_val_hex (''0x'' @ hex_digits n) = Some (sint (of_nat n :: 32 word))"
  by (simp add: str_val_hex_def isspace_def uchar_def hex_loop_digits)

lemma sint_of_nat_mod: "in_int32 i \<Longrightarrow> sint (of_nat (nat (i mod 4294967296)) :: 32 word) = i"
proof -
  assume i: "in_int32 i"
  have "(of_nat (nat (i mod 4294967296)) :: 32 word) = word_of_int (i mod 4294967296)" by (simp add: of_nat_nat)
  also have "\<dots> = word_of_int i"
    using word_of_int_eq_iff [where 'a = 32, of "i mod 4294967296" i] by (simp add: take_bit_eq_mod)
  finally show ?thesis using int32_id [OF i] by (simp add: int32_def)
qed

section \<open>Decimal numbers\<close>

lemma float_scan_digits:
  "\<forall>c \<in> set ds. isdigit c \<Longrightarrow> float_scan f (ds @ t) = float_scan (f\<lparr>fdigit := fdigit f \<or> ds \<noteq> []\<rparr>) t"
proof (induction ds arbitrary: f)
  case (Cons c ds)
  then have c: "isdigit c" by simp
  have "float_scan f ((c # ds) @ t) = float_scan (f\<lparr>fdigit := True\<rparr>) (ds @ t)"
    using c by (simp add: float_char_def float_step_def)
  then show ?case using Cons by simp
qed simp

lemma not_digit [simp]: "\<not> isdigit (CHR ''+'')" "\<not> isdigit (CHR ''-'')" "\<not> isdigit (CHR ''.'')"
  "\<not> isdigit (CHR ''e'')" "\<not> isdigit (CHR ''E'')"
  by (simp_all add: isdigit_def)

lemma space_not_float: "isspace c \<Longrightarrow> \<not> float_char c"
  by (auto simp: isspace_def float_char_def isdigit_def uchar_def)

lemma float_scan_spaces: "\<forall>c \<in> set sp. isspace c \<Longrightarrow> float_scan f sp = Some (f, sp)"
  by (cases sp) (auto simp: space_not_float)

lemma digit_not_space: "isdigit c \<Longrightarrow> \<not> isspace c"
  by (auto simp: isspace_def isdigit_def uchar_def)

text \<open>The literals a reader expects.\<close>

definition signs :: "string set" where
  "signs = {[], ''+'', ''-''}"

definition all_digits :: "string \<Rightarrow> bool" where
  "all_digits s \<longleftrightarrow> (\<forall>c \<in> set s. isdigit c)"

inductive float_literal :: "string \<Rightarrow> bool" where
  plain: "sg \<in> signs \<Longrightarrow> all_digits ip \<Longrightarrow> ip \<noteq> [] \<Longrightarrow> float_literal (sg @ ip)"
| point: "sg \<in> signs \<Longrightarrow> all_digits ip \<Longrightarrow> all_digits fp \<Longrightarrow> ip \<noteq> [] \<or> fp \<noteq> [] \<Longrightarrow> float_literal (sg @ ip @ ''.'' @ fp)"
| exponent: "float_literal m \<Longrightarrow> CHR ''e'' \<notin> set m \<Longrightarrow> CHR ''E'' \<notin> set m \<Longrightarrow> e \<in> {CHR ''e'', CHR ''E''} \<Longrightarrow> sg \<in> signs \<Longrightarrow>
    all_digits ds \<Longrightarrow> ds \<noteq> [] \<Longrightarrow> float_literal (m @ e # sg @ ds)"

text \<open>What the scan has seen after a mantissa.\<close>

lemma scan_sign:
  assumes "sg \<in> signs" "\<not> fdigit f" "\<not> fsign f"
  shows "\<exists>b. \<forall>t. float_scan f (sg @ t) = float_scan (f\<lparr>fsign := b\<rparr>) t"
proof -
  have n: "f\<lparr>fsign := False\<rparr> = f" using assms(3) by (cases f) simp
  from assms(1) consider "sg = []" | "sg = ''+''" | "sg = ''-''" by (auto simp: signs_def)
  then show ?thesis
  proof cases
    case 1 then show ?thesis using n by (intro exI [of _ False]) simp
  next
    case 2 then show ?thesis using assms by (intro exI [of _ True]) (simp add: float_char_def float_step_def)
  next
    case 3 then show ?thesis using assms by (intro exI [of _ True]) (simp add: float_char_def float_step_def)
  qed
qed

lemma scan_exponent:
  assumes "e \<in> {CHR ''e'', CHR ''E''}" "\<not> fexp f"
  shows "float_char e \<and> float_step f e = Some (f\<lparr>fdigit := False, fsign := False, fexp := True\<rparr>)"
proof -
  from assms(1) consider "e = CHR ''e''" | "e = CHR ''E''" by blast
  then show ?thesis using assms(2) by cases (simp_all add: float_char_def float_step_def)
qed

lemma float_literal_first: "float_literal s \<Longrightarrow> s \<noteq> [] \<and> (isdigit (hd s) \<or> hd s \<in> {CHR ''+'', CHR ''-'', CHR ''.''})"
proof (induction rule: float_literal.induct)
  case (plain sg ip)
  then show ?case by (cases ip) (auto simp: signs_def all_digits_def)
next
  case (point sg ip fp)
  then show ?case by (cases ip) (auto simp: signs_def all_digits_def)
next
  case (exponent m e sg ds)
  then have "m \<noteq> []" by simp
  then show ?case using exponent.IH by simp
qed

lemma float_literal_scan:
  "float_literal s \<Longrightarrow> \<exists>f. fdigit f \<and> (fexp f \<longrightarrow> CHR ''e'' \<in> set s \<or> CHR ''E'' \<in> set s) \<and>
    (\<forall>t. float_scan no_flags (s @ t) = float_scan f t)"
proof (induction rule: float_literal.induct)
  case (plain sg ip)
  have b: "\<exists>b. \<forall>t. float_scan no_flags (sg @ t) = float_scan (no_flags\<lparr>fsign := b\<rparr>) t"
    by (rule scan_sign [OF plain(1)]) (simp_all add: no_flags_def)
  then obtain b where b: "\<And>t. float_scan no_flags (sg @ t) = float_scan (no_flags\<lparr>fsign := b\<rparr>) t" by blast
  show ?case using plain(2,3) by (intro exI [of _ "no_flags\<lparr>fsign := b, fdigit := True\<rparr>"])
      (simp add: b float_scan_digits all_digits_def, simp add: no_flags_def)
next
  case (point sg ip fp)
  have b: "\<exists>b. \<forall>t. float_scan no_flags (sg @ t) = float_scan (no_flags\<lparr>fsign := b\<rparr>) t"
    by (rule scan_sign [OF point(1)]) (simp_all add: no_flags_def)
  then obtain b where b: "\<And>t. float_scan no_flags (sg @ t) = float_scan (no_flags\<lparr>fsign := b\<rparr>) t" by blast
  show ?case using point(2-4) by (intro exI [of _ "no_flags\<lparr>fsign := b, fdigit := True, fdot := True\<rparr>"])
      (simp add: b float_scan_digits all_digits_def, auto simp: float_char_def float_step_def float_scan_digits all_digits_def no_flags_def)
next
  case (exponent m e sg ds)
  then obtain f where f: "fdigit f" "\<not> fexp f" "\<And>t. float_scan no_flags (m @ t) = float_scan f t" by blast
  let ?f = "f\<lparr>fdigit := False, fsign := False, fexp := True\<rparr>"
  have e: "float_scan f (e # t) = float_scan ?f t" for t
    using scan_exponent [OF exponent(4) f(2)] by simp
  have "\<exists>b. \<forall>t. float_scan ?f (sg @ t) = float_scan (?f\<lparr>fsign := b\<rparr>) t"
    by (rule scan_sign [OF exponent(5)]) simp_all
  then obtain b where b: "\<And>t. float_scan ?f (sg @ t) = float_scan (?f\<lparr>fsign := b\<rparr>) t" by blast
  let ?g = "?f\<lparr>fsign := b, fdigit := True\<rparr>"
  have "float_scan no_flags ((m @ e # sg @ ds) @ t) = float_scan ?g t" for t
    using exponent(6,7) by (simp add: f(3) e b float_scan_digits all_digits_def del: float_scan.simps)
  moreover have "CHR ''e'' \<in> set (m @ e # sg @ ds) \<or> CHR ''E'' \<in> set (m @ e # sg @ ds)"
    using exponent(4) by auto
  moreover have "fdigit ?g" by simp
  ultimately show ?case by blast
qed

lemma float_literal_accepted:
  assumes "float_literal s" "\<forall>c \<in> set sp. isspace c"
  shows "is_float (s @ sp)"
proof -
  obtain f where f: "fdigit f" "\<And>t. float_scan no_flags (s @ t) = float_scan f t"
    using float_literal_scan [OF assms(1)] by blast
  have "float_scan no_flags (s @ sp) = Some (f, sp)" using float_scan_spaces [OF assms(2)] f(2) by simp
  then show ?thesis using float_literal_first [OF assms(1)] f(1) assms(2) by (simp add: is_float_def)
qed

section \<open>Zeros after the point\<close>

lemma strip_loop_digits: "all_digits ds \<Longrightarrow> ds = [] \<or> last ds \<noteq> CHR ''0'' \<Longrightarrow>
    strip_loop (ds @ t) p kept = strip_loop t (p + length ds) (if ds = [] then kept else p + length ds)"
proof (induction ds arbitrary: p kept)
  case (Cons c ds)
  then show ?case by (cases "ds = []") (auto simp: all_digits_def)
qed simp

lemma strip_loop_zeros: "strip_loop (replicate k (CHR ''0'') @ t) p kept = strip_loop t (p + k) kept"
proof (induction k arbitrary: p)
  case (Suc k)
  have "isdigit (CHR ''0'')" by (simp add: isdigit_def)
  then show ?case using Suc by simp
qed simp

lemma strip_loop_end: "t = [] \<or> \<not> isdigit (hd t) \<Longrightarrow> strip_loop t p kept = (kept, t)"
  by (cases t) auto

end
