(* ===== verification/StringProps.thy ===== *)
theory StringProps
  imports StringLaws
begin

text \<open>The properties of the strings.\<close>

text \<open>C17: a long string collected piece by piece is the concatenation of its pieces, however they fall over the
  buffer of 1024 bytes, and the pointer \<open>p\<close> never leaves the buffer, its terminating NUL included.\<close>

theorem large_string_exact:
  assumes "\<forall>s \<in> set ss. nul_free s"
  shows "large_string_collect (foldl large_put large_string_init ss) = concat ss \<and>
    length (lbuf (foldl large_put large_string_init ss)) + 1 \<le> LARGE_BUFFER"
  using large.collect_all [OF assms] large.good_puts [OF large.good_empty(1) assms] by (simp add: in_bounds_def)

theorem large_string_exact_witness:
  "large_string_collect (foldl large_put large_string_init [replicate 1000 (CHR ''a''), replicate 2000 (CHR ''b'')]) =
     concat [replicate 1000 (CHR ''a''), replicate 2000 (CHR ''b'')] \<and>
   length (lbuf (foldl large_put large_string_init [replicate 1000 (CHR ''a''), replicate 2000 (CHR ''b'')])) + 1 \<le> LARGE_BUFFER"
  by (rule large_string_exact) (simp add: nul_free_def)

text \<open>C18: \<open>str-subst\<close> replaces every occurrence of its second argument, from the left and without overlaps, and ends
  (an empty second argument replaces nothing).\<close>

theorem str_subst_exact:
  assumes "nul_free s" "nul_free s1" "nul_free s2"
  shows "str_subst s s1 s2 = Inr (replace_all s1 s2 s)"
proof -
  obtain ls where "subst_loop s1 s2 [] s large_string_init = Inr ls" "large_string_collect ls = replace_all s1 s2 s"
    using subst_loop_exact [OF large.good_empty(1) assms(2,3) nul_free_simps(1) assms(1)] large.good_empty(2) by auto
  then show ?thesis by (simp add: str_subst_def)
qed

theorem str_subst_exact_witness: "str_subst ''aXbX'' ''X'' ''yz'' = Inr (replace_all ''X'' ''yz'' ''aXbX'')"
  by (rule str_subst_exact) simp_all

text \<open>\<open>(index s1 s2 start)\<close> is the first position from \<open>start\<close> on, counted from 1, where \<open>s1\<close> occurs in \<open>s2\<close>,
  and the empty list exactly when there is none.\<close>

theorem str_index_first:
  "(str_index s1 s2 start = 0 \<longleftrightarrow> (\<forall>k. start \<le> k \<longrightarrow> \<not> occurs s1 s2 k)) \<and>
   (str_index s1 s2 start \<noteq> 0 \<longrightarrow> occurs s1 s2 (str_index s1 s2 start) \<and> start \<le> str_index s1 s2 start \<and>
     (\<forall>k. start \<le> k \<longrightarrow> k < str_index s1 s2 start \<longrightarrow> \<not> occurs s1 s2 k))"
proof -
  have "(str_index s1 s2 start = 0 \<longrightarrow> (\<forall>k. start \<le> k \<longrightarrow> \<not> occurs s1 s2 k)) \<and>
     (str_index s1 s2 start \<noteq> 0 \<longrightarrow> occurs s1 s2 (str_index s1 s2 start) \<and> start \<le> str_index s1 s2 start \<and>
       (\<forall>k. start \<le> k \<longrightarrow> k < str_index s1 s2 start \<longrightarrow> \<not> occurs s1 s2 k))"
    using index_loop_exact [of s1 s2 start 1] by (simp add: str_index_def)
  then show ?thesis by blast
qed

theorem str_index_first_witness:
  "str_index ''bc'' ''abcabc'' 3 \<noteq> 0 \<and> occurs ''bc'' ''abcabc'' (str_index ''bc'' ''abcabc'' 3)"
  using str_index_first [of "''bc''" "''abcabc''" 3] by (simp add: str_index_def)

text \<open>\<open>left\<close> and \<open>mid\<close> cut a string without loss: for \<open>0 \<le> n\<close> the first \<open>n\<close> characters and those from \<open>n + 1\<close>
  on concatenate to the string.\<close>

theorem left_mid_concat:
  assumes "0 \<le> n" "n < 2147483647" "int (length s) < 2147483648"
  shows "\<exists>a b. xstr_left [VStr s, NEW_NUMBER n] = (Inr (VStr a) :: 'o val res) \<and>
    xstr_mid [VStr s, NEW_NUMBER (n + 1)] = (Inr (VStr b) :: 'o val res) \<and>
    xstr_concat [VStr a, VStr b] = (Inr (VStr s) :: 'o val res)"
proof -
  have i: "in_int32 n" "in_int32 (n + 1)" using assms by (simp_all add: in_int32_def)
  have n: "AINT 2 [VStr s :: 'o val, NEW_NUMBER n] = Inr n" "AINT 2 [VStr s :: 'o val, NEW_NUMBER (n + 1)] = Inr (n + 1)"
    using AINT_number [of 2 "[VStr s :: 'o val, NEW_NUMBER n]" n] AINT_number [of 2 "[VStr s :: 'o val, NEW_NUMBER (n + 1)]" "n + 1"] i
    by simp_all
  have a: "ASTRING 1 [VStr s :: 'o val, x] = Inr s" for x by (simp add: arg_defs)
  have left: "xstr_left [VStr s, NEW_NUMBER n] = (Inr (VStr (take (nat n) s)) :: 'o val res)"
    using assms(1) by (simp add: xstr_left_def n a ARG_NUMBER_def Let_def del: One_nat_def)
  have mid: "xstr_mid [VStr s, NEW_NUMBER (n + 1)] = (Inr (VStr (drop (nat n) s)) :: 'o val res)"
    using assms(1) by (simp add: xstr_mid_def n a del: One_nat_def)
  have "xstr_concat [VStr (take (nat n) s), VStr (drop (nat n) s)] = (Inr (VStr s) :: 'o val res)"
  proof -
    have "in_int32 (int (length (take (nat n) s)))"
      "in_int32 (int (length (take (nat n) s)) + int (length (drop (nat n) s)))"
      using assms(3) by (auto simp: in_int32_def)
    then show ?thesis by (simp add: xstr_concat_def arg_defs upt_rec chk32_def Let_def del: length_take length_drop) simp
  qed
  with left mid show ?thesis by blast
qed

theorem left_mid_concat_witness:
  "\<exists>a b. xstr_left [VStr ''hello'', NEW_NUMBER 2] = (Inr (VStr a) :: unit val res) \<and>
    xstr_mid [VStr ''hello'', NEW_NUMBER (2 + 1)] = (Inr (VStr b) :: unit val res) \<and>
    xstr_concat [VStr a, VStr b] = (Inr (VStr ''hello'') :: unit val res)"
  by (rule left_mid_concat) simp_all

text \<open>C19: \<open>(str-del s n l)\<close> cuts \<open>l\<close> characters from position \<open>n\<close> on, fewer at the end of the string and all of them when
  \<open>l\<close> is negative; the sum of the position and a huge \<open>l\<close>, computed as \<open>int\<close> before it is compared, overflows.\<close>

theorem str_del_exact:
  assumes "nul_free s"
  shows "str_del s n l = (let k = min (nat (n - 1)) (length s) in
    if l < 0 then Inr (take k s)
    else if int k + l > 2147483647 then Inl (Undef ''signed overflow'')
    else Inr (take k s @ drop (k + nat l) s))"
proof -
  let ?len = "int (length s)"
  define k where "k = min (nat (n - 1)) (length s)"
  have k: "(let n = (if n > 1 then n - 1 else 0) in if n > ?len then ?len else n) = int k"
    by (auto simp: k_def Let_def)
  have cut: "res_bind (large_string_add large_string_init s (int k)) (\<lambda>ls.
      res_bind (large_string_add ls (drop j s) (- 1)) (\<lambda>ls. Inr (large_string_collect ls))) = Inr (take k s @ drop j s)" for j
  proof -
    have "k \<le> length s" by (simp add: k_def)
    then have "large_string_add large_string_init s (int k) = Inr (large_put large_string_init (take k s))"
      using large_add_part [of "int k" s] by simp
    moreover have "large_string_collect (large_put (large_put large_string_init (take k s)) (drop j s)) = take k s @ drop j s"
      using large.collect_all [of "[take k s, drop j s]"] assms by simp
    ultimately show ?thesis by (simp add: large_add_all)
  qed
  have d: "str_del s n l = res_bind (if l < 0 then Inr True else res_bind (chk32 (int k + l)) (\<lambda>e. Inr (e > ?len))) (\<lambda>clip.
     let l = (if clip then ?len - int k else l) in
     res_bind (large_string_add large_string_init s (int k)) (\<lambda>ls.
     res_bind (large_string_add ls (drop (nat (int k + l)) s) (- 1)) (\<lambda>ls. Inr (large_string_collect ls))))"
    unfolding str_del_def k [symmetric] Let_def by (rule refl)
  have all: "res_bind (Inr True) (\<lambda>clip. let l = (if clip then ?len - int k else l) in
     res_bind (large_string_add large_string_init s (int k)) (\<lambda>ls.
     res_bind (large_string_add ls (drop (nat (int k + l)) s) (- 1)) (\<lambda>ls. Inr (large_string_collect ls)))) = Inr (take k s)"
    using cut [of "length s"] by (simp add: Let_def)
  show ?thesis
  proof (cases "l < 0")
    case True
    then show ?thesis unfolding d using all by (simp add: k_def [symmetric])
  next
    case False
    have "in_int32 (int k + l) \<longleftrightarrow> \<not> int k + l > 2147483647" using False by (auto simp: in_int32_def)
    then consider "int k + l > 2147483647" "\<not> in_int32 (int k + l)" | "\<not> int k + l > 2147483647" "in_int32 (int k + l)" by blast
    then show ?thesis
    proof cases
      case 1 then show ?thesis unfolding d using False by (simp add: chk32_def k_def [symmetric])
    next
      case 2
      show ?thesis
      proof (cases "int k + l > ?len")
        case True
        then have "drop (k + nat l) s = []" by simp
        then show ?thesis unfolding d using False 2 all True by (simp add: chk32_def k_def [symmetric])
      next
        case no: False
        have "nat (int k + l) = k + nat l" using False by simp
        then show ?thesis unfolding d using False 2 no cut [of "k + nat l"] by (simp add: chk32_def k_def [symmetric])
      qed
    qed
  qed
qed

theorem str_del_exact_witness:
  "str_del ''abcdef'' 2 2147483647 = (let k = min (nat (2 - 1)) (length ''abcdef'') in
    if (2147483647 :: int) < 0 then Inr (take k ''abcdef'')
    else if int k + 2147483647 > 2147483647 then Inl (Undef ''signed overflow'')
    else Inr (take k ''abcdef'' @ drop (k + nat 2147483647) ''abcdef''))"
  by (rule str_del_exact) simp

text \<open>\<open>(str-ins s pos w)\<close> inserts \<open>w\<close> after the first \<open>pos\<close> characters, or at the end, and a negative \<open>pos\<close>,
  which is never refused, reads before the start of the string.\<close>

theorem str_ins_exact:
  assumes "nul_free s" "nul_free w"
  shows "str_ins s pos w = (if pos < 0 then Inl (Undef ''read before the start of a string'')
    else Inr (take (nat pos) s @ w @ drop (nat pos) s))"
proof (cases "pos < 0")
  case True
  then show ?thesis by (simp add: str_ins_def large_string_add_def)
next
  case False
  define k where "k = min (nat pos) (length s)"
  have k: "(if pos > int (length s) then int (length s) else pos) = int k" "k \<le> length s" using False by (auto simp: k_def)
  have t: "take k s = take (nat pos) s" "drop k s = drop (nat pos) s" by (auto simp: k_def min_def)
  have a: "large_string_add large_string_init s (int k) = Inr (large_put large_string_init (take k s))"
    using large_add_part [of "int k" s] k(2) by simp
  have c: "large_string_collect (large_put (large_put (large_put large_string_init (take k s)) w) (drop k s)) = take k s @ w @ drop k s"
    using large.collect_all [of "[take k s, w, drop k s]"] assms by simp
  have "str_ins s pos w = (let pos = int k in
     res_bind (large_string_add large_string_init s pos) (\<lambda>ls.
     res_bind (large_string_add ls w (- 1)) (\<lambda>ls.
     if pos < 0 then Inl (Undef ''read before the start of a string'')
     else res_bind (large_string_add ls (drop (nat pos) s) (- 1)) (\<lambda>ls. Inr (large_string_collect ls)))))"
    unfolding str_ins_def k(1) [symmetric] Let_def by (rule refl)
  then show ?thesis using False by (simp add: a large_add_all c t [symmetric])
qed

theorem str_ins_exact_witness:
  "str_ins ''abc'' (- 1) ''x'' = (if (- 1 :: int) < 0 then Inl (Undef ''read before the start of a string'')
    else Inr (take (nat (- 1)) ''abc'' @ ''x'' @ drop (nat (- 1)) ''abc''))"
  by (rule str_ins_exact) simp_all

text \<open>The hexadecimal text of a number, \<open>str-hex\<close>, is read back by \<open>val\<close> as the same number, negative ones
  included, for every value of type \<open>int\<close> but 0, whose text has no prefix.\<close>

theorem hex_read_back:
  assumes "in_int32 i" "i \<noteq> 0"
  shows "\<exists>h. str_number_hex (of_int i) = Inr h \<and> str_val_hex h = Some i"
proof -
  have "str_number_hex (of_int i) = Inr (''0x'' @ hex_digits (nat (i mod 4294967296)))"
    using assms by (simp add: str_number_hex_def Let_def)
  moreover have "str_val_hex (''0x'' @ hex_digits (nat (i mod 4294967296))) = Some i"
    using str_val_hex_digits [of "nat (i mod 4294967296)"] sint_of_nat_mod [OF assms(1)] by simp
  ultimately show ?thesis by blast
qed

theorem hex_read_back_witness: "\<exists>h. str_number_hex (of_int (- 255)) = Inr h \<and> str_val_hex h = Some (- 255)"
  by (rule hex_read_back) (simp_all add: in_int32_def)

text \<open>\<open>val\<close> and the reader take every decimal literal (a sign, digits with or without a point, an exponent), with
  blanks after it, for a number.\<close>

theorem float_literals_accepted:
  assumes "float_literal s" "\<forall>c \<in> set sp. isspace c"
  shows "str_val_float atof (s @ sp) = Some (atof (s @ sp))"
proof -
  obtain c t where s: "s = c # t" "isdigit c \<or> c \<in> {CHR ''+'', CHR ''-'', CHR ''.''}"
    using float_literal_first [OF assms(1)] by (cases s) auto
  then have "\<not> isspace c" using digit_not_space by (auto simp: isspace_def uchar_def)
  then have "dropWhile isspace (s @ sp) = s @ sp" using s(1) by simp
  then show ?thesis using float_literal_accepted [OF assms] by (simp add: str_val_float_def)
qed

theorem float_literals_accepted_witness:
  "str_val_float atof (''-1.5'' @ '' '') = Some (atof (''-1.5'' @ '' ''))"
proof (rule float_literals_accepted)
  have "float_literal (''-'' @ ''1'' @ ''.'' @ ''5'')" by (rule point) (simp_all add: signs_def all_digits_def isdigit_def)
  then show "float_literal ''-1.5''" by simp
qed (simp add: isspace_def)

text \<open>A sign or a point with an exponent and no digit before it is taken for a number too: the symbol \<open>+e5\<close> is read
  as the number that \<open>atof\<close> makes of it.\<close>

theorem float_without_digits: "str_val atof ''+e5'' = Some (atof ''+e5'') \<and> str_val atof ''.-5'' = Some (atof ''.-5'')"
proof -
  have h: "str_val_hex ''+e5'' = None" "str_val_hex ''.-5'' = None"
    by (simp_all add: str_val_hex_def isspace_def uchar_def)
  have "is_float ''+e5''" "is_float ''.-5''"
    by (simp_all add: is_float_def float_char_def float_step_def no_flags_def isdigit_def)
  then show ?thesis using h by (simp add: str_val_def str_val_float_def isspace_def uchar_def)
qed

lemma implode_loop_explode:
  "in_bounds ls \<Longrightarrow> nul_free s \<Longrightarrow>
    \<exists>ls'. implode_loop (explode_bytes s :: 'o val) ls = Inr ls' \<and> large_string_collect ls' = large_string_collect ls @ s"
proof (induction s arbitrary: ls)
  case (Cons c s)
  have u: "uchar c < 256" "0 < uchar c" using Cons.prems(2) uchar_pos by auto
  have c: "char_of (uchar c) = c" by (simp add: uchar_def)
  have t: "ctrunc (rat_of_int (int (uchar c))) = int (uchar c)" by (rule ctrunc_of_int)
  have "in_int32 (int (uchar c))" unfolding in_int32_def using u(1) by linarith
  moreover have "nat (int (uchar c) mod 256) = uchar c" using u(1) by simp
  ultimately have e: "implode_loop (explode_bytes (c # s) :: 'o val) ls = implode_loop (explode_bytes s :: 'o val) (large_put ls [c])"
    using u c t large_add_part [of 1 "[c]" ls] by (simp add: explode_bytes_def NEW_NUMBER_def Let_def)
  have n: "nul_free [c]" "nul_free s" using Cons.prems(2) by simp_all
  show ?case unfolding e using Cons.IH [OF large.good_put [OF Cons.prems(1) n(1)] n(2)] large.collect_put [OF Cons.prems(1) n(1)] by simp
qed (simp add: explode_bytes_def)

text \<open>\<open>explode-bytes\<close> and \<open>implode-bytes\<close> are inverse to each other on strings.\<close>

theorem implode_explode:
  assumes "nul_free s"
  shows "implode_bytes (explode_bytes s :: 'o val) = Inr s"
  using implode_loop_explode [where 'o = 'o, OF large.good_empty(1) assms] large.good_empty(2) by (auto simp: implode_bytes_def)

theorem implode_explode_witness: "implode_bytes (explode_bytes ''lush'' :: unit val) = Inr ''lush''"
  by (rule implode_explode) simp

text \<open>\<open>implode-bytes\<close> tests the low byte for NUL before it tests the range: a multiple of 256 in the list ends the
  string silently instead of raising \<open>Integer in range 0..255 expected\<close>.\<close>

theorem implode_stops_silently: "implode_bytes (VCons (VNum 65) (VCons (VNum 256) (VCons (VNum 66) VNil))) = Inr ''A''"
proof -
  have c: "(char_of (65 :: nat) :: char) = CHR ''A''" using char_of_char [of "CHR ''A''", where 'a = nat] by simp
  show ?thesis by (simp add: implode_bytes_def in_int32_def large_string_add_def large_put_def large_string_init_def
    large_string_collect_def cstr_def LARGE_BUFFER_def Let_def c)
qed

text \<open>\<open>str\<close> removes from what \<open>printf\<close> wrote exactly the zeros that end the fraction, and the point with them when
  nothing is left of it; the exponent stays.\<close>

theorem strip_zeros_exact:
  assumes "CHR ''.'' \<notin> set ip" "all_digits ds" "ds = [] \<or> last ds \<noteq> CHR ''0''" "t = [] \<or> \<not> isdigit (hd t)"
  shows "strip_zeros (ip @ ''.'' @ ds @ replicate k (CHR ''0'') @ t) = ip @ (if ds = [] then [] else ''.'' @ ds) @ t"
proof -
  let ?r = "ds @ replicate k (CHR ''0'') @ t" and ?b = "ip @ ''.'' @ ds @ replicate k (CHR ''0'') @ t"
  have ip: "takeWhile (\<lambda>c. c \<noteq> CHR ''.'') ?b = ip"
    using assms(1) by (subst takeWhile_append2) auto
  have "strip_loop ?r (length ip + 1) (length ip) = (if ds = [] then length ip else length ip + 1 + length ds, t)"
    unfolding strip_loop_digits [OF assms(2,3)] strip_loop_zeros strip_loop_end [OF assms(4)] by simp
  then show ?thesis unfolding strip_zeros_def ip Let_def by simp
qed

theorem strip_zeros_exact_witness:
  "strip_zeros (''1'' @ ''.'' @ ''5'' @ replicate 3 (CHR ''0'') @ ''e+10'') = ''1'' @ (if ''5'' = [] then [] else ''.'' @ ''5'') @ ''e+10''"
  by (rule strip_zeros_exact) (simp_all add: all_digits_def isdigit_def)

end
