(* ===== verification/Subst.thy ===== *)
theory Subst
  imports StringLaws RegexProps
begin

text \<open>
  \<open>regex-subst\<close> of \<open>src/src/string.c\<close>: the matches of a regular expression in a string are replaced by a
  template, where \<open>%0\<close> to \<open>%9\<close> stand for the registers; and what it computes for a template without registers.
\<close>

section \<open>The function\<close>









section \<open>What it computes\<close>









end
