(* ===== verification/Events.thy ===== *)
theory Events
  imports Args
begin

text \<open>
  The events and the timers of \<open>src/src/event.c\<close>.

  An object is its address, 0 the null pointer. The queue is the list of its cells after the first one,
  \<open>head\<close>, which has address 0: the address of each cell with the event it holds; \<open>tail\<close> is the address of the
  cell where the next event is appended. A cell that \<open>ev_hndl\<close> does not accept has handler 0. The timers
  are the list \<open>timers\<close>, in its order. Memory that \<open>cons\<close> and \<open>malloc\<close> return is given by the caller: a fresh
  address, or \<open>None\<close> when there is none. The clock, \<open>os_curtime\<close>, is an argument. Seconds and milliseconds are
  unbounded integers.
\<close>

section \<open>Times\<close>

record evtime =
  sec :: int
  msec :: int

definition evtime_cmp :: "evtime \<Rightarrow> evtime \<Rightarrow> int" where
  "evtime_cmp t1 t2 = (if sec t1 < sec t2 then - 1 else if sec t1 > sec t2 then 1
     else if msec t1 < msec t2 then - 1 else if msec t1 > msec t2 then 1 else 0)"

text \<open>The loop that carries milliseconds into seconds.\<close>

function carry :: "evtime \<Rightarrow> evtime" where
  "carry r = (if msec r > 1000 then carry (r\<lparr>sec := sec r + 1, msec := msec r - 1000\<rparr>) else r)"
  by pat_completeness auto
termination by (relation "measure (\<lambda>r. nat (msec r))") auto

declare carry.simps [simp del]

definition evtime_add :: "evtime \<Rightarrow> evtime \<Rightarrow> evtime" where
  "evtime_add t1 t2 = carry \<lparr>sec = sec t1 + sec t2, msec = msec t1 + msec t2\<rparr>"

definition evtime_sub :: "evtime \<Rightarrow> evtime \<Rightarrow> evtime" where
  "evtime_sub t1 t2 = carry \<lparr>sec = sec t1 - sec t2 - 1, msec = msec t1 + 1000 - msec t2\<rparr>"

section \<open>State\<close>

record event_timer =
  address :: nat
  date :: evtime
  period :: evtime
  handler :: nat

text \<open>An event: its handler, the description and the modifiers it was queued with, and the list.\<close>

record 'o queued =
  qhandler :: nat
  qdesc :: "string option"
  qmods :: "int option"
  qevent :: "'o val"

text \<open>\<open>ev_final\<close> and \<open>ti_final\<close> are the objects with the finalizers \<open>ev_finalize\<close> and \<open>ti_finalize\<close>.\<close>

record 'o events =
  queue :: "(nat \<times> 'o queued) list"
  tail :: nat
  timers :: "event_timer list"
  evdesc :: "string option"
  evmods :: int
  ev_final :: "nat set"
  ti_final :: "nat set"

section \<open>The queue\<close>

text \<open>\<open>ev_remove\<close> moves the tail back when it removes the last cell; \<open>pp\<close> is the cell before.\<close>

definition tail_after :: "nat \<Rightarrow> nat \<Rightarrow> nat \<Rightarrow> nat" where
  "tail_after pp p t = (if t = p then pp else t)"

fun finalize_loop :: "nat \<Rightarrow> nat \<Rightarrow> nat \<Rightarrow> (nat \<times> 'o queued) list \<Rightarrow> (nat \<times> 'o queued) list \<times> nat" where
  "finalize_loop h pp t [] = ([], t)"
| "finalize_loop h pp t ((p, q) # qs) =
     (if qhandler q = 0 \<or> qhandler q = h then finalize_loop h pp (tail_after pp p t) qs
      else let (qs', t') = finalize_loop h p t qs in ((p, q) # qs', t'))"

definition ev_finalize :: "nat \<Rightarrow> 'o events \<Rightarrow> 'o events" where
  "ev_finalize h st = (let (qs, t) = finalize_loop h 0 (tail st) (queue st) in st\<lparr>queue := qs, tail := t\<rparr>)"

text \<open>\<open>tail->Cdr = cons(p,NIL)\<close>: what followed the tail is no longer reached.\<close>

fun cells_upto :: "nat \<Rightarrow> (nat \<times> 'o queued) list \<Rightarrow> (nat \<times> 'o queued) list" where
  "cells_upto t [] = []"
| "cells_upto t ((p, q) # qs) = (p, q) # (if p = t then [] else cells_upto t qs)"

definition ev_add :: "nat \<Rightarrow> nat \<Rightarrow> 'o val \<Rightarrow> string option \<Rightarrow> int \<Rightarrow> 'o events \<Rightarrow> 'o events" where
  "ev_add new h event desc mods st = (if h \<noteq> 0 \<and> (case event of VNil \<Rightarrow> False | _ \<Rightarrow> True) then
     let p = \<lparr>qhandler = h, qdesc = desc, qmods = (if 0 \<le> mods \<and> mods < 256 then Some mods else None), qevent = event\<rparr> in
     st\<lparr>queue := (if tail st = 0 then [] else cells_upto (tail st) (queue st)) @ [(new, p)], tail := new,
       ev_final := insert h (ev_final st)\<rparr> else st)"

fun peek_loop :: "nat \<Rightarrow> (nat \<times> 'o queued) list \<Rightarrow> nat \<times> (nat \<times> 'o queued) list \<times> nat" where
  "peek_loop t [] = (0, [], t)"
| "peek_loop t ((p, q) # qs) = (if qhandler q \<noteq> 0 then (qhandler q, (p, q) # qs, t) else peek_loop (tail_after 0 p t) qs)"

definition ev_peek :: "'o events \<Rightarrow> nat \<times> 'o events" where
  "ev_peek st = (let (h, qs, t) = peek_loop (tail st) (queue st) in (h, st\<lparr>queue := qs, tail := t\<rparr>))"

definition event_add :: "nat \<Rightarrow> nat \<Rightarrow> 'o val \<Rightarrow> 'o events \<Rightarrow> 'o events res" where
  "event_add new h event st = (if h = 0 then Inl (Lush ''Illegal null event handler'')
     else case event of VCons _ _ \<Rightarrow> Inr (ev_add new h event None (- 1) st)
     | _ \<Rightarrow> Inl (Lush ''Illegal event expression (list expected)''))"

definition event_peek :: "'o events \<Rightarrow> nat \<times> 'o events" where
  "event_peek st = ev_peek st"

fun get_loop :: "nat \<Rightarrow> bool \<Rightarrow> nat \<Rightarrow> nat \<Rightarrow> (nat \<times> 'o queued) list \<Rightarrow> 'o queued option \<times> (nat \<times> 'o queued) list \<times> nat" where
  "get_loop h remove pp t [] = (None, [], t)"
| "get_loop h remove pp t ((p, q) # qs) =
     (if qhandler q = h then (Some q, if remove then qs else (p, q) # qs, if remove then tail_after pp p t else t)
      else if qhandler q = 0 then get_loop h remove pp (tail_after pp p t) qs
      else let (r, qs', t') = get_loop h remove p t qs in (r, (p, q) # qs', t'))"

text \<open>\<open>ev_parsedesc\<close> sets what the description of the event holds and leaves the rest as it was.\<close>

definition ev_parsedesc :: "'o queued \<Rightarrow> 'o events \<Rightarrow> 'o events" where
  "ev_parsedesc q st = st\<lparr>evdesc := (case qdesc q of None \<Rightarrow> evdesc st | d \<Rightarrow> d),
     evmods := (case qmods q of None \<Rightarrow> evmods st | Some m \<Rightarrow> m)\<rparr>"

definition event_get :: "nat \<Rightarrow> bool \<Rightarrow> 'o events \<Rightarrow> 'o val \<times> 'o events" where
  "event_get h remove st = (let (r, qs, t) = get_loop h remove 0 (tail st) (queue st); st = st\<lparr>queue := qs, tail := t\<rparr> in
     case r of None \<Rightarrow> (VNil, st) | Some q \<Rightarrow> (qevent q, ev_parsedesc q st))"

section \<open>Timers\<close>

fun ti_finalize_loop :: "nat \<Rightarrow> event_timer list \<Rightarrow> event_timer list" where
  "ti_finalize_loop h [] = []"
| "ti_finalize_loop h (t # ts) = (if handler t = h then ti_finalize_loop h ts else t # ti_finalize_loop h ts)"

definition ti_finalize :: "nat \<Rightarrow> 'o events \<Rightarrow> 'o events" where
  "ti_finalize h st = st\<lparr>timers := ti_finalize_loop h (timers st)\<rparr>"

fun ti_insert :: "event_timer \<Rightarrow> event_timer list \<Rightarrow> event_timer list" where
  "ti_insert ti [] = [ti]"
| "ti_insert ti (t # ts) = (if evtime_cmp (date ti) (date t) < 0 then ti # t # ts else t # ti_insert ti ts)"

text \<open>Adding a timer gives back its handle, 0 without a handler.\<close>

definition timer_add_sub :: "nat option \<Rightarrow> nat \<Rightarrow> int \<Rightarrow> int \<Rightarrow> int \<Rightarrow> 'o events \<Rightarrow> (nat \<times> 'o events) res" where
  "timer_add_sub mem h s ms per st = (if h = 0 then Inr (0, st)
     else let st = st\<lparr>ti_final := insert h (ti_final st)\<rparr> in
     case mem of None \<Rightarrow> Inl (Lush ''Out of memory'')
     | Some a \<Rightarrow> Inr (a, st\<lparr>timers := ti_insert \<lparr>address = a, date = \<lparr>sec = s, msec = ms\<rparr>,
         period = \<lparr>sec = cdiv per 1000, msec = crem per 1000\<rparr>, handler = h\<rparr> (timers st)\<rparr>))"

definition timer_add :: "evtime \<Rightarrow> nat option \<Rightarrow> nat \<Rightarrow> int \<Rightarrow> int \<Rightarrow> 'o events \<Rightarrow> (nat \<times> 'o events) res" where
  "timer_add now mem h delay per st = (
     if h = 0 then Inl (Lush ''Illegal null event handler'')
     else if delay < 0 then Inl (Lush ''Illegal timer delay'')
     else if per < 0 then Inl (Lush ''Illegal timer interval'')
     else let per = (if 0 < per \<and> per < 20 then 20 else per);
       add = evtime_add now \<lparr>sec = cdiv delay 1000, msec = crem delay 1000\<rparr> in
       timer_add_sub mem h (sec add) (msec add) per st)"

definition timer_abs :: "nat option \<Rightarrow> nat \<Rightarrow> rat \<Rightarrow> 'o events \<Rightarrow> (nat \<times> 'o events) res" where
  "timer_abs mem h d st = (let s = ctrunc d in
     if \<not> in_int64 s then Inl (Undef ''number out of the range of long'')
     else let ms = ctrunc ((d - of_int s) * 1000) in
     if h = 0 then Inl (Lush ''Illegal null event handler'') else timer_add_sub mem h s ms 0 st)"

fun timer_del_loop :: "nat \<Rightarrow> event_timer list \<Rightarrow> event_timer list" where
  "timer_del_loop a [] = []"
| "timer_del_loop a (t # ts) = (if address t = a then ts else t # timer_del_loop a ts)"

definition timer_del :: "nat \<Rightarrow> 'o events \<Rightarrow> 'o events" where
  "timer_del a st = st\<lparr>timers := timer_del_loop a (timers st)\<rparr>"

text \<open>The two loops of \<open>timer_fire\<close>: \<open>None\<close> when they do not end. \<open>new\<close> gives the address of the cell of each event.\<close>

partial_function (option) advance :: "evtime \<Rightarrow> evtime \<Rightarrow> evtime \<Rightarrow> evtime option" where
  "advance now per d = (if evtime_cmp now d \<ge> 0 then advance now per (evtime_add d per) else Some d)"

definition fire_one :: "evtime \<Rightarrow> nat \<Rightarrow> event_timer \<Rightarrow> event_timer list \<Rightarrow> 'o events \<Rightarrow> 'o events res option" where
  "fire_one now new ti ts st = (
     case event_add new (handler ti) (list_val [VSym ''timer'', VGptr (of_nat (address ti))]) (st\<lparr>timers := ts\<rparr>) of
       Inl e \<Rightarrow> Some (Inl e)
     | Inr st \<Rightarrow>
         if sec (period ti) > 0 \<or> msec (period ti) > 0 then
           map_option (\<lambda>d. Inr (st\<lparr>timers := ti_insert (ti\<lparr>date := d\<rparr>) (timers st)\<rparr>)) (advance now (period ti) (date ti))
         else Some (Inr st))"

partial_function (option) fire_loop :: "evtime \<Rightarrow> (nat \<Rightarrow> nat) \<Rightarrow> nat \<Rightarrow> 'o events \<Rightarrow> 'o events res option" where
  "fire_loop now new i st = (case timers st of
       [] \<Rightarrow> Some (Inr st)
     | ti # ts \<Rightarrow>
         if evtime_cmp now (date ti) \<ge> 0 then
           Option.bind (fire_one now (new i) ti ts st) (\<lambda>r. case r of
             Inl e \<Rightarrow> Some (Inl e)
           | Inr st \<Rightarrow> fire_loop now new (i + 1) st)
         else Some (Inr st))"

definition DAY :: int where
  "DAY = 24 * 3600"

definition timer_wait :: "evtime \<Rightarrow> event_timer list \<Rightarrow> int" where
  "timer_wait now ts = (case ts of [] \<Rightarrow> DAY * 1000
     | t # _ \<Rightarrow> let diff = evtime_sub (date t) now in if sec diff < DAY then sec diff * 1000 + msec diff else DAY * 1000)"

definition timer_fire :: "evtime \<Rightarrow> (nat \<Rightarrow> nat) \<Rightarrow> 'o events \<Rightarrow> (int \<times> 'o events) res option" where
  "timer_fire now new st = map_option (\<lambda>r. res_bind r (\<lambda>st. Inr (timer_wait now (timers st), st))) (fire_loop now new 0 st)"

text \<open>The death of an object runs its finalizers.\<close>

definition object_dies :: "nat \<Rightarrow> 'o events \<Rightarrow> 'o events" where
  "object_dies h st = (let st = (if h \<in> ev_final st then ev_finalize h st else st);
     st = (if h \<in> ti_final st then ti_finalize h st else st) in
     st\<lparr>ev_final := ev_final st - {h}, ti_final := ti_final st - {h}\<rparr>)"

section \<open>Events of the graphic windows\<close>

text \<open>The numbers of the events, \<open>src/include/header.h\<close>, and the list made of each; \<open>None\<close> for an unknown one.\<close>

definition two_integers :: "int \<Rightarrow> int \<Rightarrow> 'o val" where
  "two_integers i1 i2 = list_val [NEW_NUMBER i1, NEW_NUMBER i2]"

definition four_integers :: "int \<Rightarrow> int \<Rightarrow> int \<Rightarrow> int \<Rightarrow> 'o val" where
  "four_integers i1 i2 i3 i4 = VCons (NEW_NUMBER i1) (VCons (NEW_NUMBER i2) (two_integers i3 i4))"

definition event_to_list :: "int \<Rightarrow> int \<Rightarrow> int \<Rightarrow> int \<Rightarrow> int \<Rightarrow> 'o val \<times> int" where
  "event_to_list ev xd yd xu yu = (
     if ev = 1002 then (VCons (VSym ''mouse-up'') (four_integers xd yd xu yu), - 1)
     else if ev = 1003 then (VCons (VSym ''mouse-drag'') (four_integers xd yd xu yu), - 1)
     else if ev = 2001 then (VCons (VSym ''resize'') (two_integers xd yd), - 1)
     else if ev = 2003 then (VCons (VSym ''delete'') VNil, - 1)
     else if ev = 2004 then (VCons (VSym ''sendevent'') (two_integers xd yd), - 1)
     else if ev = 4001 then (VCons (VSym ''expose'') (two_integers xd yd), - 1)
     else if ev = 4002 then (VCons (VSym ''glexpose'') (two_integers xd yd), - 1)
     else let mods = (if xu \<noteq> 0 then 1 else 0) + (if yu \<noteq> 0 then 2 else 0) in
       if 0 \<le> ev \<and> ev \<le> 255 then (VCons (VStr (if ev = 0 then [] else [char_of (nat ev)])) (two_integers xd yd), mods)
       else if ev = 1001 then (VCons (VSym ''mouse-down'') (two_integers xd yd), mods)
       else if ev = 2002 then (VCons (VSym ''help'') (two_integers xd yd), mods)
       else if ev = 1011 then (VCons (VSym ''arrow-up'') (two_integers xd yd), mods)
       else if ev = 1012 then (VCons (VSym ''arrow-right'') (two_integers xd yd), mods)
       else if ev = 1013 then (VCons (VSym ''arrow-down'') (two_integers xd yd), mods)
       else if ev = 1014 then (VCons (VSym ''arrow-left'') (two_integers xd yd), mods)
       else if ev = 1015 then (VCons (VSym ''fkey'') (two_integers xd yd), mods)
       else (VNil, mods))"

definition enqueue_eventdesc :: "nat \<Rightarrow> nat \<Rightarrow> int \<Rightarrow> int \<Rightarrow> int \<Rightarrow> int \<Rightarrow> int \<Rightarrow> string option \<Rightarrow> 'o events \<Rightarrow> 'o events" where
  "enqueue_eventdesc new h ev xd yd xu yu desc st = (let (e, mods) = event_to_list ev xd yd xu yu in
     if (case e of VNil \<Rightarrow> True | _ \<Rightarrow> False) then st else ev_add new h e desc mods st)"

definition enqueue_event :: "nat \<Rightarrow> nat \<Rightarrow> int \<Rightarrow> int \<Rightarrow> int \<Rightarrow> int \<Rightarrow> int \<Rightarrow> 'o events \<Rightarrow> 'o events" where
  "enqueue_event new h ev xd yd xu yu st = enqueue_eventdesc new h ev xd yd xu yu None st"

definition xeventinfo :: "'o events \<Rightarrow> 'o val" where
  "xeventinfo st = list_val [VStr (case evdesc st of Some d \<Rightarrow> d | None \<Rightarrow> ''n/a''),
     (if odd (evmods st) then VSym ''t'' else VNil), (if odd (evmods st div 2) then VSym ''t'' else VNil)]"

section \<open>Sources of events and their processing\<close>

text \<open>
  A source is registered with its functions. \<open>'w\<close> is the world of the program around the events, which those
  functions and the methods of the handlers may change too. \<open>send\<close> is the message \<open>handle\<close>, sent to a handler with
  an event; nothing is done for a handler without that method.
\<close>

record ('o, 'w) poll_functions =
  phandle :: nat
  fd :: int
  spoll :: "('o events \<times> 'w \<Rightarrow> int \<times> 'o events \<times> 'w) option"
  apoll :: bool

definition call_spoll :: "('o, 'w) poll_functions list \<Rightarrow> 'o events \<times> 'w \<Rightarrow> int \<times> 'o events \<times> 'w" where
  "call_spoll sources w = fold (\<lambda>src (timeout, w). case spoll src of
       None \<Rightarrow> (timeout, w)
     | Some f \<Rightarrow> let (ms, w) = f w in (if ms > 0 \<and> ms < timeout then ms else timeout, w)) sources (DAY * 1000, w)"

definition MAXFDS :: nat where
  "MAXFDS = 32"

definition async_poll_setup :: "('o, 'w) poll_functions list \<Rightarrow> int list" where
  "async_poll_setup sources = take MAXFDS (map fd (filter (\<lambda>src. apoll src \<and> fd src > 0) sources))"

fun unregister_loop :: "nat \<Rightarrow> ('o, 'w) poll_functions list \<Rightarrow> ('o, 'w) poll_functions list" where
  "unregister_loop h [] = []"
| "unregister_loop h (src # srcs) = (if phandle src = h then srcs else src # unregister_loop h srcs)"

text \<open>Registering and unregistering return the new list with the descriptors given to the system; \<open>None\<close> when the
  handle is unknown.\<close>

definition unregister_poll_functions :: "nat \<Rightarrow> ('o, 'w) poll_functions list \<Rightarrow> ('o, 'w) poll_functions list \<times> int list option" where
  "unregister_poll_functions h sources = (if \<forall>src \<in> set sources. phandle src \<noteq> h then (sources, None)
     else let s = unregister_loop h sources in (s, Some (async_poll_setup s)))"

definition register_poll_functions :: "('o, 'w) poll_functions \<Rightarrow> ('o, 'w) poll_functions list \<Rightarrow> ('o, 'w) poll_functions list \<times> int list" where
  "register_poll_functions src sources = (src # sources, async_poll_setup (src # sources))"

partial_function (option) drain :: "('o, 'w) poll_functions list \<Rightarrow> (nat \<Rightarrow> 'o val \<Rightarrow> 'o events \<times> 'w \<Rightarrow> 'o events \<times> 'w) \<Rightarrow>
    nat \<Rightarrow> 'o events \<times> 'w \<Rightarrow> ('o events \<times> 'w) option" where
  "drain sources send h w = (if h = 0 then Some w
     else let (event, st) = event_get h True (fst w); w = (st, snd w);
       w = (case event of VCons _ _ \<Rightarrow> send h event w | _ \<Rightarrow> w);
       w = snd (call_spoll sources w);
       (h, st) = ev_peek (fst w) in
     drain sources send h (st, snd w))"

definition process_pending_events :: "('o, 'w) poll_functions list \<Rightarrow> (nat \<Rightarrow> 'o val \<Rightarrow> 'o events \<times> 'w \<Rightarrow> 'o events \<times> 'w) \<Rightarrow>
    evtime \<Rightarrow> (nat \<Rightarrow> nat) \<Rightarrow> 'o events \<times> 'w \<Rightarrow> ('o events \<times> 'w) res option" where
  "process_pending_events sources send now new w = (
     let w = snd (call_spoll sources w); (h, st) = ev_peek (fst w) in
     Option.bind (drain sources send h (st, snd w)) (\<lambda>w.
     Option.bind (timer_fire now new (fst w)) (\<lambda>r. case r of
       Inl e \<Rightarrow> Some (Inl e)
     | Inr (_, st) \<Rightarrow> let (h, st) = ev_peek st in
         map_option Inr (drain sources send h (st, snd w)))))"

end
