(* ===== verification/EventLaws.thy ===== *)
theory EventLaws
  imports Events "HOL-Library.Product_Lexorder"
begin

text \<open>
  The queue keeps its tail and loses no event; the list of timers stays sorted; \<open>timer_fire\<close> ends, fires what is due
  in the order of the dates and sets the periodic timers again.
\<close>

section \<open>Times\<close>

definition total :: "evtime \<Rightarrow> int" where
  "total t = sec t * 1000 + msec t"

text \<open>The dates of the code go up to 1000 milliseconds included; the clock and the periods stay below.\<close>

definition normal :: "evtime \<Rightarrow> bool" where
  "normal t \<longleftrightarrow> 0 \<le> msec t \<and> msec t \<le> 1000"

definition clock :: "evtime \<Rightarrow> bool" where
  "clock t \<longleftrightarrow> 0 \<le> msec t \<and> msec t < 1000"

definition time_key :: "evtime \<Rightarrow> int \<times> int" where
  "time_key t = (sec t, msec t)"

lemma carry_total: "total (carry r) = total r"
proof (induction r rule: carry.induct)
  case (1 r)
  then show ?case by (subst carry.simps) (auto simp: total_def algebra_simps)
qed

lemma carry_range: "0 \<le> msec r \<Longrightarrow> normal (carry r)"
proof (induction r rule: carry.induct)
  case (1 r)
  then show ?case by (subst carry.simps) (auto simp: normal_def)
qed

lemma evtime_add_total: "total (evtime_add t1 t2) = total t1 + total t2"
  by (simp add: evtime_add_def carry_total) (simp add: total_def algebra_simps)

lemma evtime_add_normal: "normal t1 \<Longrightarrow> normal t2 \<Longrightarrow> normal (evtime_add t1 t2)"
  unfolding evtime_add_def by (rule carry_range) (simp add: normal_def)

lemma evtime_sub_total: "total (evtime_sub t1 t2) = total t1 - total t2"
  by (simp add: evtime_sub_def carry_total) (simp add: total_def algebra_simps)

lemma evtime_sub_normal: "normal t1 \<Longrightarrow> normal t2 \<Longrightarrow> normal (evtime_sub t1 t2)"
  unfolding evtime_sub_def by (rule carry_range) (simp add: normal_def)

lemma cmp_key: "evtime_cmp t1 t2 < 0 \<longleftrightarrow> time_key t1 < time_key t2" "0 \<le> evtime_cmp t1 t2 \<longleftrightarrow> time_key t2 \<le> time_key t1"
  by (auto simp: evtime_cmp_def time_key_def less_prod_def less_eq_prod_def)

lemma key_clock: "clock now \<Longrightarrow> normal d \<Longrightarrow> time_key d \<le> time_key now \<longleftrightarrow> total d \<le> total now"
  by (auto simp: time_key_def total_def clock_def normal_def less_eq_prod_def)

lemma key_less: "normal d \<Longrightarrow> normal e \<Longrightarrow> total d < total e \<Longrightarrow> time_key d < time_key e"
  by (auto simp: time_key_def total_def normal_def less_prod_def)

lemma key_total: "normal d \<Longrightarrow> normal e \<Longrightarrow> time_key d \<le> time_key e \<Longrightarrow> total d \<le> total e"
  using key_less [of e d] by (meson not_le)

lemma clock_normal: "clock t \<Longrightarrow> normal t"
  by (simp add: clock_def normal_def)

definition due :: "evtime \<Rightarrow> evtime \<Rightarrow> bool" where
  "due now d \<longleftrightarrow> total d \<le> total now"

lemma cmp_due: "clock now \<Longrightarrow> normal d \<Longrightarrow> 0 \<le> evtime_cmp now d \<longleftrightarrow> due now d"
  by (simp add: cmp_key(2) key_clock due_def)

text \<open>The next date of a periodic timer.\<close>

lemma advance_result:
  assumes "clock now" "normal per" "0 < total per" "normal d" "due now d"
  shows "\<exists>d' k. advance now per d = Some d' \<and> normal d' \<and> \<not> due now d' \<and> 0 < k \<and> total d' = total d + int k * total per \<and>
    total d' \<le> total now + total per"
  using assms(4,5)
proof (induction "nat (total now - total d)" arbitrary: d rule: less_induct)
  case less
  let ?d = "evtime_add d per"
  have n: "normal ?d" "total ?d = total d + total per"
    using evtime_add_normal [OF less.prems(1) assms(2)] evtime_add_total by simp_all
  have a: "advance now per d = advance now per ?d"
    using cmp_due [OF assms(1) less.prems(1)] less.prems(2) by (subst advance.simps) simp
  show ?case
  proof (cases "due now ?d")
    case True
    have "nat (total now - total ?d) < nat (total now - total d)"
      using less.prems(2) True n(2) assms(3) by (simp add: due_def)
    from less.hyps [OF this n(1) True] obtain d' k where
      d': "advance now per ?d = Some d'" "normal d'" "\<not> due now d'" "0 < k" "total d' = total ?d + int k * total per"
        "total d' \<le> total now + total per" by blast
    then show ?thesis using a n(2) by (intro exI [of _ d'] exI [of _ "Suc k"]) (simp add: algebra_simps)
  next
    case False
    then have "advance now per ?d = Some ?d"
      using cmp_due [OF assms(1) n(1)] by (subst advance.simps) simp
    then show ?thesis using a n False less.prems(2) by (intro exI [of _ ?d] exI [of _ 1]) (simp add: due_def)
  qed
qed

section \<open>The list of timers\<close>

definition timer_key :: "event_timer \<Rightarrow> int \<times> int" where
  "timer_key t = time_key (date t)"

lemma ti_insert_split:
  "sorted (map timer_key ts) \<Longrightarrow>
    ti_insert ti ts = takeWhile (\<lambda>t. timer_key t \<le> timer_key ti) ts @ ti # dropWhile (\<lambda>t. timer_key t \<le> timer_key ti) ts"
  by (induction ts) (auto simp: cmp_key timer_key_def not_less)

lemma ti_insert_set [simp]: "set (ti_insert ti ts) = insert ti (set ts)"
  by (induction ts) auto

lemma ti_insert_mset [simp]: "mset (ti_insert ti ts) = add_mset ti (mset ts)"
  by (induction ts) auto

lemma ti_insert_sorted: "sorted (map timer_key ts) \<Longrightarrow> sorted (map timer_key (ti_insert ti ts))"
proof (induction ts)
  case (Cons t ts)
  then show ?case by (auto simp: cmp_key timer_key_def not_less less_imp_le intro: order.trans)
qed simp

lemma ti_finalize_filter: "ti_finalize_loop h ts = filter (\<lambda>t. handler t \<noteq> h) ts"
  by (induction ts) auto

lemma timer_del_sorted: "sorted (map timer_key ts) \<Longrightarrow> sorted (map timer_key (timer_del_loop a ts))"
proof (induction ts)
  case (Cons t ts)
  have "set (timer_del_loop a ts) \<subseteq> set ts" by (induction ts) auto
  then show ?case using Cons by auto
qed simp

lemma timer_del_subset: "set (timer_del_loop a ts) \<subseteq> set ts"
  by (induction ts) auto

lemma timer_del_filter: "distinct (map address ts) \<Longrightarrow> timer_del_loop a ts = filter (\<lambda>t. address t \<noteq> a) ts"
proof (induction ts)
  case (Cons t ts)
  then show ?case by (cases "address t = a") (auto intro!: filter_True [symmetric] simp: image_iff)
qed simp

section \<open>Firing\<close>

definition good_timer :: "event_timer \<Rightarrow> bool" where
  "good_timer t \<longleftrightarrow> handler t \<noteq> 0 \<and> normal (date t) \<and> 0 \<le> sec (period t) \<and> 0 \<le> msec (period t) \<and> msec (period t) < 1000"

definition good_timers :: "event_timer list \<Rightarrow> bool" where
  "good_timers ts \<longleftrightarrow> sorted (map timer_key ts) \<and> (\<forall>t \<in> set ts. good_timer t)"

definition periodic :: "event_timer \<Rightarrow> bool" where
  "periodic t \<longleftrightarrow> sec (period t) > 0 \<or> msec (period t) > 0"

text \<open>\<open>rearmed now t t'\<close>: \<open>t'\<close> is \<open>t\<close> at its first date, among those a whole number of periods away, after \<open>now\<close>.\<close>

definition rearmed :: "evtime \<Rightarrow> event_timer \<Rightarrow> event_timer \<Rightarrow> bool" where
  "rearmed now t t' \<longleftrightarrow> (\<exists>d k. t' = t\<lparr>date := d\<rparr> \<and> normal d \<and> 0 < k \<and> total d = total (date t) + int k * total (period t) \<and>
     total now < total d \<and> total d \<le> total now + total (period t))"

definition timer_event :: "event_timer \<Rightarrow> 'o val" where
  "timer_event t = list_val [VSym ''timer'', VGptr (of_nat (address t))]"

lemma timer_event_cons: "\<exists>a b. timer_event t = VCons a b"
  by (simp add: timer_event_def)

text \<open>The events of fired timers, appended to the queue.\<close>

fun fired_events :: "(nat \<Rightarrow> nat) \<Rightarrow> nat \<Rightarrow> event_timer list \<Rightarrow> 'o events \<Rightarrow> 'o events" where
  "fired_events new i [] st = st"
| "fired_events new i (t # ts) st = fired_events new (i + 1) ts (ev_add (new i) (handler t) (timer_event t) None (- 1) st)"

lemma ev_add_timers [simp]: "timers (ev_add new h e d m st) = timers st"
  "ev_add new h e d m (st\<lparr>timers := ts\<rparr>) = (ev_add new h e d m st)\<lparr>timers := ts\<rparr>"
  by (simp_all add: ev_add_def Let_def)

lemma fired_events_timers: "fired_events new i ts (st\<lparr>timers := us\<rparr>) = (fired_events new i ts st)\<lparr>timers := us\<rparr>"
  by (induction ts arbitrary: i st) auto

lemma good_insert: "good_timers ts \<Longrightarrow> good_timer t \<Longrightarrow> good_timers (ti_insert t ts)"
  by (auto simp: good_timers_def ti_insert_sorted)

lemma ti_insert_late:
  assumes "good_timers (ds @ rs)" "good_timer t" "\<forall>d \<in> set ds. total (date d) < total (date t)"
  shows "\<exists>rs'. ti_insert t (ds @ rs) = ds @ rs' \<and> mset rs' = add_mset t (mset rs)"
proof -
  have "timer_key d \<le> timer_key t" if "d \<in> set ds" for d
    using key_less [of "date d" "date t"] assms that by (auto simp: timer_key_def good_timers_def good_timer_def less_imp_le)
  then have "takeWhile (\<lambda>x. timer_key x \<le> timer_key t) (ds @ rs) = ds @ takeWhile (\<lambda>x. timer_key x \<le> timer_key t) rs"
    "dropWhile (\<lambda>x. timer_key x \<le> timer_key t) (ds @ rs) = dropWhile (\<lambda>x. timer_key x \<le> timer_key t) rs"
    by (simp_all add: takeWhile_append2 dropWhile_append2)
  moreover have "sorted (map timer_key (ds @ rs))" using assms(1) by (simp add: good_timers_def)
  ultimately have "ti_insert t (ds @ rs) =
      ds @ (takeWhile (\<lambda>x. timer_key x \<le> timer_key t) rs @ t # dropWhile (\<lambda>x. timer_key x \<le> timer_key t) rs)"
    using ti_insert_split [of "ds @ rs" t] by simp
  moreover have "mset (takeWhile P rs @ t # dropWhile P rs) = add_mset t (mset rs)" for P
    using mset_append [of "takeWhile P rs" "dropWhile P rs"] by simp
  ultimately show ?thesis by blast
qed

lemma good_timers_append: "good_timers (xs @ ys) \<Longrightarrow> good_timers ys"
  by (auto simp: good_timers_def sorted_append)

lemma fire_loop_exact:
  "clock now \<Longrightarrow> good_timers (ds @ rs) \<Longrightarrow> timers st = ds @ rs \<Longrightarrow> \<forall>d \<in> set ds. due now (date d) \<Longrightarrow>
    \<forall>r \<in> set rs. \<not> due now (date r) \<Longrightarrow>
    \<exists>again ts. fire_loop now new i st = Some (Inr ((fired_events new i ds st)\<lparr>timers := ts\<rparr>)) \<and> good_timers ts \<and>
      list_all2 (rearmed now) (filter periodic ds) again \<and> mset ts = mset rs + mset again"
proof (induction ds arbitrary: rs st i)
  case Nil
  then have "fire_loop now new i st = Some (Inr st)"
  proof (cases rs)
    case (Cons t ts)
    then show ?thesis using Nil cmp_due [of now "date t"]
      by (subst fire_loop.simps) (auto simp: good_timers_def good_timer_def)
  qed (subst fire_loop.simps, simp)
  then show ?case using Nil by (intro exI [of _ "[]"] exI [of _ rs]) simp
next
  case (Cons t ds)
  have g: "good_timer t" "good_timers (ds @ rs)" using Cons.prems(2) by (auto simp: good_timers_def)
  have d: "0 \<le> evtime_cmp now (date t)" using cmp_due [OF Cons.prems(1)] g(1) Cons.prems(4) by (simp add: good_timer_def)
  let ?st = "(ev_add (new i) (handler t) (timer_event t) None (- 1) st)\<lparr>timers := ds @ rs\<rparr>"
  have add: "event_add (new i) (handler t) (list_val [VSym ''timer'', VGptr (of_nat (address t))]) (st\<lparr>timers := ds @ rs\<rparr>) = Inr ?st"
    using g(1) by (simp add: event_add_def good_timer_def timer_event_def)
  show ?case
  proof (cases "periodic t")
    case False
    have one: "fire_one now (new i) t (ds @ rs) st = Some (Inr ?st)"
      using False unfolding fire_one_def add by (simp add: periodic_def)
    have l: "fire_loop now new i st = fire_loop now new (i + 1) ?st"
      using d Cons.prems(3) one by (subst fire_loop.simps) simp
    have p: "timers ?st = ds @ rs" "\<forall>d \<in> set ds. due now (date d)" using Cons.prems(4) by simp_all
    from Cons.IH [OF Cons.prems(1) g(2) p Cons.prems(5), where i = "i + 1"] obtain again ts where
      "fire_loop now new (i + 1) ?st = Some (Inr ((fired_events new (i + 1) ds ?st)\<lparr>timers := ts\<rparr>))" "good_timers ts"
      "list_all2 (rearmed now) (filter periodic ds) again" "mset ts = mset rs + mset again" by blast
    then show ?thesis using False l by (auto simp: fired_events_timers)
  next
    case True
    have per: "normal (period t)" "0 < total (period t)"
      using True g(1) by (auto simp: periodic_def good_timer_def normal_def total_def)
    have dd: "normal (date t)" "due now (date t)" using g(1) Cons.prems(4) by (simp_all add: good_timer_def)
    obtain d' k where d': "advance now (period t) (date t) = Some d'" "normal d'" "\<not> due now d'" "0 < k"
      "total d' = total (date t) + int k * total (period t)" "total d' \<le> total now + total (period t)"
      using advance_result [OF Cons.prems(1) per dd] by blast
    let ?t = "t\<lparr>date := d'\<rparr>"
    have gt: "good_timer ?t" using g(1) d'(2) by (simp add: good_timer_def)
    have late: "\<forall>d \<in> set ds. total (date d) < total (date ?t)" using Cons.prems(4) d'(3) by (auto simp: due_def)
    obtain rs' where rs': "ti_insert ?t (ds @ rs) = ds @ rs'" "mset rs' = add_mset ?t (mset rs)"
      using ti_insert_late [OF g(2) gt late] by blast
    let ?st' = "?st\<lparr>timers := ds @ rs'\<rparr>"
    have one: "fire_one now (new i) t (ds @ rs) st = Some (Inr ?st')"
      using True unfolding fire_one_def add by (simp add: periodic_def d'(1) rs'(1))
    have l: "fire_loop now new i st = fire_loop now new (i + 1) ?st'"
      using d Cons.prems(3) one by (subst fire_loop.simps) simp
    have g': "good_timers (ds @ rs')" using good_insert [OF g(2) gt] rs'(1) by simp
    have p: "timers ?st' = ds @ rs'" "\<forall>d \<in> set ds. due now (date d)" using Cons.prems(4) by simp_all
    have "set rs' = insert ?t (set rs)" using rs'(2) by (metis set_mset_add_mset_insert set_mset_mset)
    then have nd: "\<forall>r \<in> set rs'. \<not> due now (date r)" using Cons.prems(5) d'(3) by auto
    from Cons.IH [OF Cons.prems(1) g' p nd, where i = "i + 1"] obtain again ts where
      a: "fire_loop now new (i + 1) ?st' = Some (Inr ((fired_events new (i + 1) ds ?st')\<lparr>timers := ts\<rparr>))" "good_timers ts"
      "list_all2 (rearmed now) (filter periodic ds) again" "mset ts = mset rs' + mset again" by blast
    have "rearmed now t ?t" using d' by (auto simp: rearmed_def due_def)
    then have "list_all2 (rearmed now) (filter periodic (t # ds)) (?t # again)" using True a(3) by simp
    moreover have "mset ts = mset rs + mset (?t # again)" using a(4) rs'(2) by simp
    moreover have "fire_loop now new i st = Some (Inr ((fired_events new i (t # ds) st)\<lparr>timers := ts\<rparr>))"
      using l a(1) by (simp add: fired_events_timers)
    ultimately show ?thesis using a(2) by blast
  qed
qed

text \<open>In a sorted list the timers that are due stand first.\<close>

lemma due_prefix:
  assumes "clock now" "good_timers ts"
  shows "ts = filter (\<lambda>t. due now (date t)) ts @ filter (\<lambda>t. \<not> due now (date t)) ts"
  using assms(2)
proof (induction ts)
  case (Cons t ts)
  have g: "good_timers ts" using Cons.prems by (simp add: good_timers_def)
  show ?case
  proof (cases "due now (date t)")
    case False
    have "\<not> due now (date u)" if "u \<in> set ts" for u
    proof
      assume u: "due now (date u)"
      have "timer_key t \<le> timer_key u" "normal (date t)" "normal (date u)"
        using Cons.prems that by (auto simp: good_timers_def good_timer_def)
      then have "total (date t) \<le> total (date u)" using key_total by (simp add: timer_key_def)
      then show False using False u by (simp add: due_def)
    qed
    then show ?thesis using False by (simp add: filter_empty_conv)
  qed (use Cons.IH [OF g] in simp)
qed simp

lemma timer_wait_exact:
  assumes "clock now" "good_timers ts" "\<forall>t \<in> set ts. \<not> due now (date t)"
  shows "0 < timer_wait now ts \<and> timer_wait now ts \<le> DAY * 1000 \<and>
    (\<forall>t \<in> set ts. timer_wait now ts \<le> total (date t) - total now) \<and>
    (timer_wait now ts < DAY * 1000 \<longrightarrow> ts \<noteq> [] \<and> timer_wait now ts = total (date (hd ts)) - total now)"
proof (cases ts)
  case Nil
  then show ?thesis by (simp add: timer_wait_def DAY_def)
next
  case (Cons t us)
  let ?d = "evtime_sub (date t) now"
  have n: "normal (date t)" using assms(2) Cons by (simp add: good_timers_def good_timer_def)
  have d: "normal ?d" "total ?d = total (date t) - total now"
    using evtime_sub_normal [OF n clock_normal [OF assms(1)]] evtime_sub_total by simp_all
  have pos: "0 < total ?d" using assms(3) Cons d(2) by (simp add: due_def)
  have w: "timer_wait now ts = (if sec ?d < DAY then total ?d else DAY * 1000)"
    by (simp add: timer_wait_def Cons Let_def total_def)
  have range: "sec ?d < DAY \<Longrightarrow> total ?d \<le> DAY * 1000" "\<not> sec ?d < DAY \<Longrightarrow> DAY * 1000 \<le> total ?d"
    using d(1) by (auto simp: total_def normal_def)
  have first: "total ?d \<le> total (date u) - total now" if "u \<in> set ts" for u
  proof -
    have "timer_key t \<le> timer_key u" "normal (date u)" using assms(2) that Cons by (auto simp: good_timers_def good_timer_def)
    then have "total (date t) \<le> total (date u)" using key_total n by (simp add: timer_key_def)
    then show ?thesis using d(2) by simp
  qed
  show ?thesis
  proof (cases "sec ?d < DAY")
    case True
    then show ?thesis using w pos range(1) first d(2) Cons by auto
  next
    case False
    then have "\<forall>u \<in> set ts. DAY * 1000 \<le> total (date u) - total now" using range(2) first by fastforce
    then show ?thesis using w False by (simp add: DAY_def)
  qed
qed

end
