(* ===== verification/EventProps.thy ===== *)
theory EventProps
  imports EventLaws
begin

text \<open>The queue of events, the states that the operations reach, and the properties of the events and timers.\<close>

section \<open>The queue\<close>

definition is_cons :: "'o val \<Rightarrow> bool" where
  "is_cons v \<longleftrightarrow> (case v of VCons _ _ \<Rightarrow> True | _ \<Rightarrow> False)"

definition last_cell :: "nat \<Rightarrow> (nat \<times> 'o queued) list \<Rightarrow> nat" where
  "last_cell pp qs = last (pp # map fst qs)"

lemma last_cell_simps [simp]: "last_cell pp [] = pp" "last_cell pp ((p, q) # qs) = last_cell p qs"
  by (simp_all add: last_cell_def)

lemma last_cell_snoc: "last_cell pp (qs @ [(p, q)]) = p"
  by (simp add: last_cell_def)

lemma last_cell_in: "last_cell pp qs = pp \<and> qs = [] \<or> last_cell pp qs \<in> fst ` set qs"
proof (cases qs rule: rev_cases)
  case (snoc ys y)
  then show ?thesis by (cases y) (simp add: last_cell_snoc)
qed simp

text \<open>The tail is the last cell, the cells are distinct, and each holds an event for a handler.\<close>

definition good_queue :: "'o events \<Rightarrow> bool" where
  "good_queue st \<longleftrightarrow> distinct (0 # map fst (queue st)) \<and> tail st = last_cell 0 (queue st) \<and>
     (\<forall>(p, q) \<in> set (queue st). qhandler q \<noteq> 0 \<and> is_cons (qevent q))"

lemma tail_after_last: "distinct (pp # p # map fst qs) \<Longrightarrow> tail_after pp p (last_cell p qs) = last_cell pp qs"
proof (cases qs)
  case (Cons x ys)
  obtain a b where x: "x = (a, b)" by (cases x)
  assume "distinct (pp # p # map fst qs)"
  moreover have "last_cell a ys \<in> fst ` set qs" using last_cell_in [of a ys] Cons x by force
  ultimately have "last_cell p qs \<noteq> p" using Cons x by auto
  then show ?thesis using Cons x by (simp add: tail_after_def)
qed (simp add: tail_after_def)

lemma finalize_loop_exact:
  "distinct (pp # map fst qs) \<Longrightarrow> finalize_loop h pp (last_cell pp qs) qs =
    (let r = filter (\<lambda>(p, q). qhandler q \<noteq> 0 \<and> qhandler q \<noteq> h) qs in (r, last_cell pp r))"
proof (induction qs arbitrary: pp)
  case (Cons x qs)
  obtain p q where x: "x = (p, q)" by (cases x)
  have d: "distinct (pp # map fst qs)" "distinct (p # map fst qs)" "distinct (pp # p # map fst qs)" using Cons.prems x by auto
  show ?case using Cons.IH [OF d(1)] Cons.IH [OF d(2)] tail_after_last [OF d(3)] by (simp add: x Let_def)
qed (simp add: Let_def)

lemma cells_upto_last: "distinct (pp # map fst qs) \<Longrightarrow> cells_upto (last_cell pp qs) qs = qs"
proof (induction qs arbitrary: pp)
  case (Cons x qs)
  obtain p q where x: "x = (p, q)" by (cases x)
  have "last_cell p qs = p \<Longrightarrow> qs = []" using last_cell_in [of p qs] Cons.prems x by auto
  then show ?case using Cons x by auto
qed simp

lemma ev_add_exact:
  assumes "good_queue st" "new \<noteq> 0" "new \<notin> fst ` set (queue st)" "h \<noteq> 0" "is_cons e"
  shows "ev_add new h e desc mods st = st\<lparr>queue := queue st @ [(new, \<lparr>qhandler = h, qdesc = desc,
      qmods = (if 0 \<le> mods \<and> mods < 256 then Some mods else None), qevent = e\<rparr>)], tail := new, ev_final := insert h (ev_final st)\<rparr>"
    and "good_queue (ev_add new h e desc mods st)"
proof -
  have q: "(if tail st = 0 then [] else cells_upto (tail st) (queue st)) = queue st"
  proof (cases "tail st = 0")
    case True
    then have "queue st = []" using assms(1) last_cell_in [of 0 "queue st"] unfolding good_queue_def by force
    then show ?thesis by simp
  next
    case False
    then show ?thesis using assms(1) cells_upto_last [of 0 "queue st"] by (simp add: good_queue_def)
  qed
  show e: "ev_add new h e desc mods st = st\<lparr>queue := queue st @ [(new, \<lparr>qhandler = h, qdesc = desc,
      qmods = (if 0 \<le> mods \<and> mods < 256 then Some mods else None), qevent = e\<rparr>)], tail := new, ev_final := insert h (ev_final st)\<rparr>"
    using assms(4,5) unfolding ev_add_def q by (cases e) (simp_all add: is_cons_def)
  show "good_queue (ev_add new h e desc mods st)"
    using assms unfolding e by (auto simp: good_queue_def last_cell_snoc)
qed

lemma ev_finalize_exact:
  assumes "good_queue st"
  shows "queue (ev_finalize h st) = filter (\<lambda>(p, q). qhandler q \<noteq> h) (queue st)" "good_queue (ev_finalize h st)"
proof -
  let ?r = "filter (\<lambda>(p, q). qhandler q \<noteq> 0 \<and> qhandler q \<noteq> h) (queue st)"
  have r: "?r = filter (\<lambda>(p, q). qhandler q \<noteq> h) (queue st)" using assms by (auto simp: good_queue_def intro!: filter_cong)
  have e: "ev_finalize h st = st\<lparr>queue := ?r, tail := last_cell 0 ?r\<rparr>"
    using assms finalize_loop_exact [of 0 "queue st" h] by (simp add: ev_finalize_def good_queue_def Let_def)
  show "queue (ev_finalize h st) = filter (\<lambda>(p, q). qhandler q \<noteq> h) (queue st)" unfolding e using r by simp
  show "good_queue (ev_finalize h st)"
    using assms unfolding e by (auto simp: good_queue_def distinct_map_filter)
qed

lemma ev_peek_exact: "good_queue st \<Longrightarrow> ev_peek st = (case queue st of [] \<Rightarrow> 0 | (p, q) # _ \<Rightarrow> qhandler q, st)"
  by (cases "queue st") (auto simp: ev_peek_def good_queue_def)

text \<open>The oldest event of a handler, and the queue without it.\<close>

definition oldest :: "nat \<Rightarrow> (nat \<times> 'o queued) list \<Rightarrow> 'o queued option" where
  "oldest h qs = map_option snd (List.find (\<lambda>(p, q). qhandler q = h) qs)"

fun without_oldest :: "nat \<Rightarrow> (nat \<times> 'o queued) list \<Rightarrow> (nat \<times> 'o queued) list" where
  "without_oldest h [] = []"
| "without_oldest h ((p, q) # qs) = (if qhandler q = h then qs else (p, q) # without_oldest h qs)"

lemma without_oldest_subset: "set (without_oldest h qs) \<subseteq> set qs"
  by (induction h qs rule: without_oldest.induct) auto

lemma without_oldest_distinct: "distinct (map fst qs) \<Longrightarrow> distinct (map fst (without_oldest h qs))"
proof (induction h qs rule: without_oldest.induct)
  case (2 h p q qs)
  then show ?case using without_oldest_subset [of h qs] by auto
qed simp

lemma get_loop_exact:
  "distinct (pp # map fst qs) \<Longrightarrow> \<forall>(p, q) \<in> set qs. qhandler q \<noteq> 0 \<Longrightarrow> get_loop h remove pp (last_cell pp qs) qs =
    (let r = if remove then without_oldest h qs else qs in (oldest h qs, r, last_cell pp r))"
proof (induction qs arbitrary: pp)
  case (Cons x qs)
  obtain p q where x: "x = (p, q)" by (cases x)
  have d: "distinct (p # map fst qs)" "distinct (pp # p # map fst qs)" using Cons.prems x by auto
  show ?case
  proof (cases "qhandler q = h")
    case True
    then show ?thesis using tail_after_last [OF d(2)] by (simp add: x Let_def oldest_def)
  next
    case False
    have "get_loop h remove p (last_cell p qs) qs =
        (let r = if remove then without_oldest h qs else qs in (oldest h qs, r, last_cell p r))"
      by (rule Cons.IH [OF d(1)]) (use Cons.prems(2) in auto)
    then show ?thesis using False Cons.prems(2) by (simp add: x Let_def oldest_def)
  qed
qed (simp add: Let_def oldest_def)

lemma event_get_exact:
  assumes "good_queue st"
  shows "event_get h remove st = (let st' = st\<lparr>queue := (if remove then without_oldest h (queue st) else queue st),
      tail := last_cell 0 (if remove then without_oldest h (queue st) else queue st)\<rparr> in
    case oldest h (queue st) of None \<Rightarrow> (VNil, st') | Some q \<Rightarrow> (qevent q, ev_parsedesc q st'))"
    and "good_queue (snd (event_get h remove st))"
proof -
  have v: "\<forall>(p, q) \<in> set (queue st). qhandler q \<noteq> 0" using assms by (auto simp: good_queue_def)
  show e: "event_get h remove st = (let st' = st\<lparr>queue := (if remove then without_oldest h (queue st) else queue st),
      tail := last_cell 0 (if remove then without_oldest h (queue st) else queue st)\<rparr> in
    case oldest h (queue st) of None \<Rightarrow> (VNil, st') | Some q \<Rightarrow> (qevent q, ev_parsedesc q st'))"
    using assms get_loop_exact [OF _ v, of 0 h remove] by (simp add: event_get_def good_queue_def Let_def)
  have "0 \<notin> fst ` set (without_oldest h (queue st))" "distinct (map fst (without_oldest h (queue st)))"
    using assms without_oldest_subset [of h "queue st"] without_oldest_distinct [of "queue st" h] by (auto simp: good_queue_def)
  then show "good_queue (snd (event_get h remove st))"
    using assms without_oldest_subset [of h "queue st"] unfolding e
    by (auto simp: good_queue_def ev_parsedesc_def Let_def split: option.split)
qed

section \<open>Reachable states\<close>

text \<open>No event and no timer outlives its handler: every handler has the finalizer that removes them.\<close>

definition known_handlers :: "'o events \<Rightarrow> bool" where
  "known_handlers st \<longleftrightarrow> (\<forall>(p, q) \<in> set (queue st). qhandler q \<in> ev_final st) \<and> (\<forall>t \<in> set (timers st). handler t \<in> ti_final st)"

definition sound_state :: "'o events \<Rightarrow> bool" where
  "sound_state st \<longleftrightarrow> good_queue st \<and> good_timers (timers st) \<and> known_handlers st"

definition init_events :: "'o events" where
  "init_events = \<lparr>queue = [], tail = 0, timers = [], evdesc = None, evmods = 0, ev_final = {}, ti_final = {}\<rparr>"

text \<open>The operations on the events, each with what its caller grants: fresh cells, a clock below 1000 milliseconds,
  an absolute date that is not negative.\<close>

inductive reachable_events :: "'o events \<Rightarrow> bool" where
  init: "reachable_events init_events"
| add: "reachable_events st \<Longrightarrow> new \<noteq> 0 \<Longrightarrow> new \<notin> fst ` set (queue st) \<Longrightarrow> is_cons e \<Longrightarrow>
    reachable_events (ev_add new h e desc mods st)"
| peek: "reachable_events st \<Longrightarrow> reachable_events (snd (ev_peek st))"
| get: "reachable_events st \<Longrightarrow> reachable_events (snd (event_get h remove st))"
| timer: "reachable_events st \<Longrightarrow> clock now \<Longrightarrow> timer_add now mem h delay per st = Inr (a, st') \<Longrightarrow> reachable_events st'"
| absolute: "reachable_events st \<Longrightarrow> 0 \<le> d \<Longrightarrow> timer_abs mem h d st = Inr (a, st') \<Longrightarrow> reachable_events st'"
| del: "reachable_events st \<Longrightarrow> reachable_events (timer_del a st)"
| fire: "reachable_events st \<Longrightarrow> clock now \<Longrightarrow> inj new \<Longrightarrow> 0 \<notin> range new \<Longrightarrow> range new \<inter> fst ` set (queue st) = {} \<Longrightarrow>
    timer_fire now new st = Some (Inr (w, st')) \<Longrightarrow> reachable_events st'"
| dies: "reachable_events st \<Longrightarrow> h \<noteq> 0 \<Longrightarrow> reachable_events (object_dies h st)"

lemma event_of_timer: "is_cons (timer_event t)"
  by (simp add: timer_event_def is_cons_def)

lemma fired_events_exact:
  assumes "inj new" "0 \<notin> range new"
  shows "good_queue st \<Longrightarrow> (\<forall>j \<ge> i. new j \<notin> fst ` set (queue st)) \<Longrightarrow> \<forall>t \<in> set ts. handler t \<noteq> 0 \<Longrightarrow>
    good_queue (fired_events new i ts st) \<and>
    (\<exists>cells. queue (fired_events new i ts st) = queue st @ cells \<and>
      map (\<lambda>(p, q). (qhandler q, qevent q)) cells = map (\<lambda>t. (handler t, timer_event t)) ts) \<and>
    ev_final (fired_events new i ts st) = ev_final st \<union> handler ` set ts \<and> ti_final (fired_events new i ts st) = ti_final st"
proof (induction ts arbitrary: i st)
  case (Cons t ts)
  have new: "new i \<noteq> 0" "new i \<notin> fst ` set (queue st)" using assms(2) Cons.prems(2) by (metis rangeI, simp)
  have h: "handler t \<noteq> 0" using Cons.prems(3) by simp
  note a = ev_add_exact [OF Cons.prems(1) new h event_of_timer [of t], where desc = None and mods = "- 1"]
  let ?st = "ev_add (new i) (handler t) (timer_event t) None (- 1) st"
  have "\<forall>j \<ge> i + 1. new j \<notin> fst ` set (queue ?st)"
    using Cons.prems(2) assms(1) unfolding a(1) by (auto dest: injD)
  from Cons.IH [OF a(2) this] Cons.prems(3) obtain cells where
    c: "good_queue (fired_events new (i + 1) ts ?st)" "queue (fired_events new (i + 1) ts ?st) = queue ?st @ cells"
      "map (\<lambda>(p, q). (qhandler q, qevent q)) cells = map (\<lambda>t. (handler t, timer_event t)) ts"
      "ev_final (fired_events new (i + 1) ts ?st) = ev_final ?st \<union> handler ` set ts"
      "ti_final (fired_events new (i + 1) ts ?st) = ti_final ?st" by auto
  have q: "queue ?st = queue st @ [(new i, \<lparr>qhandler = handler t, qdesc = None, qmods = None, qevent = timer_event t\<rparr>)]"
    "ev_final ?st = insert (handler t) (ev_final st)" "ti_final ?st = ti_final st"
    unfolding a(1) by simp_all
  show ?case using c q by (auto intro!: exI [of _ "(new i, \<lparr>qhandler = handler t, qdesc = None, qmods = None, qevent = timer_event t\<rparr>) # cells"])
qed simp

lemma timer_fire_run:
  assumes "clock now" "good_timers (timers st)"
  shows "\<exists>again ts. timer_fire now new st = Some (Inr (timer_wait now ts,
      (fired_events new 0 (filter (\<lambda>t. due now (date t)) (timers st)) st)\<lparr>timers := ts\<rparr>)) \<and> good_timers ts \<and>
    list_all2 (rearmed now) (filter periodic (filter (\<lambda>t. due now (date t)) (timers st))) again \<and>
    mset ts = mset (filter (\<lambda>t. \<not> due now (date t)) (timers st)) + mset again"
proof -
  let ?ds = "filter (\<lambda>t. due now (date t)) (timers st)" and ?rs = "filter (\<lambda>t. \<not> due now (date t)) (timers st)"
  have s: "timers st = ?ds @ ?rs" by (rule due_prefix [OF assms])
  have g: "good_timers (?ds @ ?rs)" by (rule subst [OF s, of good_timers]) (rule assms(2))
  have d: "\<forall>t \<in> set ?ds. due now (date t)" "\<forall>t \<in> set ?rs. \<not> due now (date t)" by simp_all
  obtain again ts where r: "fire_loop now new 0 st = Some (Inr ((fired_events new 0 ?ds st)\<lparr>timers := ts\<rparr>))" "good_timers ts"
    "list_all2 (rearmed now) (filter periodic ?ds) again" "mset ts = mset ?rs + mset again"
    using fire_loop_exact [OF assms(1) g s d, of new 0] by blast
  have "timer_fire now new st = Some (Inr (timer_wait now ts, (fired_events new 0 ?ds st)\<lparr>timers := ts\<rparr>))"
    unfolding timer_fire_def r(1) by simp
  then show ?thesis using r(2-4) by blast
qed

lemma rearmed_all: "list_all2 (rearmed now) xs ys \<Longrightarrow> y \<in> set ys \<Longrightarrow> \<exists>x \<in> set xs. rearmed now x y"
  by (auto simp: in_set_conv_nth list_all2_conv_all_nth) (metis nth_mem)

lemma crem_period: "0 \<le> per \<Longrightarrow> 0 \<le> cdiv per 1000 \<and> 0 \<le> crem per 1000 \<and> crem per 1000 < 1000"
  by (simp add: cdiv_nonneg crem_nonneg)

lemma sound_timer:
  assumes "sound_state st" "timer_add_sub mem h s ms per st = Inr (a, st')" "0 \<le> ms" "ms \<le> 1000" "0 \<le> per"
  shows "sound_state st'"
proof (cases "h = 0")
  case True then show ?thesis using assms by (simp add: timer_add_sub_def)
next
  case False
  define t where "t = \<lparr>address = a, date = \<lparr>sec = s, msec = ms\<rparr>, period = \<lparr>sec = cdiv per 1000, msec = crem per 1000\<rparr>, handler = h\<rparr>"
  have st': "st' = st\<lparr>ti_final := insert h (ti_final st), timers := ti_insert t (timers st)\<rparr>"
    using assms(2) False by (cases mem) (auto simp: timer_add_sub_def t_def Let_def)
  have "good_timer t" using False assms(3,4) crem_period [OF assms(5)] by (simp add: t_def good_timer_def normal_def)
  then show ?thesis using assms(1) unfolding st'
    by (auto simp: sound_state_def good_insert known_handlers_def good_queue_def t_def)
qed

lemma sound_reachable:
  assumes "reachable_events st"
  shows "sound_state st"
  using assms
proof (induction rule: reachable_events.induct)
  case init
  then show ?case by (simp add: sound_state_def init_events_def good_queue_def good_timers_def known_handlers_def)
next
  case (add st new e h desc mods)
  show ?case
  proof (cases "h = 0")
    case True then show ?thesis using add by (simp add: ev_add_def)
  next
    case False
    have g: "good_queue st" using add.IH by (simp add: sound_state_def)
    note a = ev_add_exact [OF g add.hyps(2,3) False add.hyps(4), of desc mods]
    show ?thesis using a(2) add.IH unfolding sound_state_def a(1) by (auto simp: known_handlers_def)
  qed
next
  case (peek st)
  then show ?case using ev_peek_exact [of st] by (simp add: sound_state_def)
next
  case (get st h remove)
  have g: "good_queue st" using get.IH by (simp add: sound_state_def)
  show ?case using event_get_exact(2) [OF g, of h remove] get.IH without_oldest_subset [of h "queue st"]
    unfolding sound_state_def event_get_exact(1) [OF g]
    by (auto simp: known_handlers_def ev_parsedesc_def Let_def split: option.splits)
next
  case (timer st now mem h delay per a st')
  define add where "add = evtime_add now \<lparr>sec = cdiv delay 1000, msec = crem delay 1000\<rparr>"
  have d: "h \<noteq> 0" "0 \<le> delay" "0 \<le> per"
    "timer_add_sub mem h (sec add) (msec add) (if 0 < per \<and> per < 20 then 20 else per) st = Inr (a, st')"
    using timer.hyps(3) by (auto simp: timer_add_def add_def Let_def split: if_splits)
  have "normal add" unfolding add_def
    using crem_period [OF d(2)] timer.hyps(2) by (intro evtime_add_normal) (simp_all add: normal_def clock_def)
  then show ?case using sound_timer [OF timer.IH d(4)] d(3) by (simp add: normal_def)
next
  case (absolute st d mem h a st')
  define s where "s = ctrunc d"
  have s: "s = \<lfloor>d\<rfloor>" using absolute.hyps(2) by (simp add: s_def ctrunc_def)
  have "0 \<le> d - of_int s" "d - of_int s < 1" unfolding s using floor_correct [of d] by linarith+
  then have f: "0 \<le> (d - of_int s) * 1000" "(d - of_int s) * 1000 < 1000" by simp_all
  then have "ctrunc ((d - of_int s) * 1000) = \<lfloor>(d - of_int s) * 1000\<rfloor>" by (simp add: ctrunc_def)
  then have ms: "0 \<le> ctrunc ((d - of_int s) * 1000)" "ctrunc ((d - of_int s) * 1000) \<le> 1000"
    using f by linarith+
  have "timer_add_sub mem h s (ctrunc ((d - of_int s) * 1000)) 0 st = Inr (a, st')"
    using absolute.hyps(3) by (auto simp: timer_abs_def s_def Let_def split: if_splits)
  from sound_timer [OF absolute.IH this ms] show ?case by simp
next
  case (del st a)
  then show ?case using timer_del_subset [of a "timers st"] timer_del_sorted [of "timers st" a]
    by (auto simp: sound_state_def timer_del_def good_timers_def known_handlers_def good_queue_def)
next
  case (fire st now new w st')
  have g: "good_queue st" "good_timers (timers st)" using fire.IH by (simp_all add: sound_state_def)
  let ?ds = "filter (\<lambda>t. due now (date t)) (timers st)"
  obtain again ts where r: "timer_fire now new st = Some (Inr (timer_wait now ts, (fired_events new 0 ?ds st)\<lparr>timers := ts\<rparr>))"
    "good_timers ts" "list_all2 (rearmed now) (filter periodic ?ds) again"
    "mset ts = mset (filter (\<lambda>t. \<not> due now (date t)) (timers st)) + mset again"
    using timer_fire_run [OF fire.hyps(2) g(2)] by blast
  have st': "st' = (fired_events new 0 ?ds st)\<lparr>timers := ts\<rparr>" using r(1) fire.hyps(6) by simp
  have hs: "\<forall>t \<in> set ?ds. handler t \<noteq> 0" using g(2) by (auto simp: good_timers_def good_timer_def)
  have fresh: "\<forall>j \<ge> 0. new j \<notin> fst ` set (queue st)" using fire.hyps(5) by blast
  from fired_events_exact [OF fire.hyps(3,4) g(1) fresh hs] obtain cells where
    f: "good_queue (fired_events new 0 ?ds st)" "queue (fired_events new 0 ?ds st) = queue st @ cells"
      "map (\<lambda>(p, q). (qhandler q, qevent q)) cells = map (\<lambda>t. (handler t, timer_event t)) ?ds"
      "ev_final (fired_events new 0 ?ds st) = ev_final st \<union> handler ` set ?ds" "ti_final (fired_events new 0 ?ds st) = ti_final st"
    by blast
  have known: "qhandler q \<in> handler ` set ?ds" if "(p, q) \<in> set cells" for p q
  proof -
    have "(qhandler q, qevent q) \<in> set (map (\<lambda>(p, q). (qhandler q, qevent q)) cells)" using that by force
    then show ?thesis unfolding f(3) by auto
  qed
  have "handler t \<in> ti_final st" if "t \<in> set ts" for t
  proof -
    have "t \<in># mset ts" using that by simp
    then consider "t \<in> set (timers st)" | "t \<in> set again" unfolding r(4) by auto
    then show ?thesis
    proof cases
      case 1 then show ?thesis using fire.IH by (auto simp: sound_state_def known_handlers_def)
    next
      case 2
      from rearmed_all [OF r(3) this] obtain x where "x \<in> set (timers st)" "handler t = handler x"
        by (auto simp: rearmed_def)
      then show ?thesis using fire.IH by (auto simp: sound_state_def known_handlers_def)
    qed
  qed
  then show ?case using f known r(2) fire.IH unfolding st'
    by (auto simp: sound_state_def known_handlers_def good_queue_def)
next
  case (dies st h)
  define st1 where "st1 = (if h \<in> ev_final st then ev_finalize h st else st)"
  have g: "good_queue st" using dies.IH by (simp add: sound_state_def)
  have q1: "good_queue st1" "queue st1 = filter (\<lambda>(p, q). qhandler q \<noteq> h) (queue st)" "timers st1 = timers st"
    "ev_final st1 = ev_final st" "ti_final st1 = ti_final st"
    using dies.IH g ev_finalize_exact [OF g, of h]
    by (auto simp: st1_def sound_state_def known_handlers_def ev_finalize_def Let_def split: prod.splits intro!: filter_True [symmetric])
  have "h \<notin> ti_final st \<Longrightarrow> filter (\<lambda>t. handler t \<noteq> h) (timers st) = timers st"
    using dies.IH by (auto simp: sound_state_def known_handlers_def intro!: filter_True)
  then have d: "object_dies h st = st1\<lparr>timers := filter (\<lambda>t. handler t \<noteq> h) (timers st), ev_final := ev_final st - {h}, ti_final := ti_final st - {h}\<rparr>"
    using q1(3-5) by (cases "h \<in> ti_final st") (simp_all add: object_dies_def st1_def [symmetric] Let_def ti_finalize_def ti_finalize_filter)
  have "good_timers (filter (\<lambda>t. handler t \<noteq> h) (timers st))"
    using dies.IH by (auto simp: sound_state_def good_timers_def sorted_filter)
  then show ?case using q1 dies.IH unfolding d by (auto simp: sound_state_def known_handlers_def good_queue_def)
qed



text \<open>C28: \<open>event_get\<close> returns the oldest event of its handler and nothing but that event leaves the queue; asked not to remove
  it, it leaves the queue as it was. Events come out for each handler in the order \<open>ev_add\<close> put them in.\<close>

theorem event_get_oldest:
  assumes "reachable_events st"
  shows "fst (event_get h True st) = (case oldest h (queue st) of None \<Rightarrow> VNil | Some q \<Rightarrow> qevent q) \<and>
    queue (snd (event_get h True st)) = without_oldest h (queue st) \<and>
    fst (event_get h False st) = fst (event_get h True st) \<and> queue (snd (event_get h False st)) = queue st \<and>
    (\<forall>new k e desc mods. new \<noteq> 0 \<longrightarrow> new \<notin> fst ` set (queue st) \<longrightarrow> k \<noteq> 0 \<longrightarrow> is_cons e \<longrightarrow>
      map qevent (filter (\<lambda>q. qhandler q = h) (map snd (queue (ev_add new k e desc mods st)))) =
      map qevent (filter (\<lambda>q. qhandler q = h) (map snd (queue st))) @ (if k = h then [e] else []))"
proof -
  have g: "good_queue st" using sound_reachable [OF assms] by (simp add: sound_state_def)
  have "fst (event_get h True st) = (case oldest h (queue st) of None \<Rightarrow> VNil | Some q \<Rightarrow> qevent q)"
    "queue (snd (event_get h True st)) = without_oldest h (queue st)"
    "fst (event_get h False st) = fst (event_get h True st)" "queue (snd (event_get h False st)) = queue st"
    unfolding event_get_exact(1) [OF g] by (simp_all add: Let_def ev_parsedesc_def split: option.split)
  moreover have "map qevent (filter (\<lambda>q. qhandler q = h) (map snd (queue (ev_add new k e desc mods st)))) =
      map qevent (filter (\<lambda>q. qhandler q = h) (map snd (queue st))) @ (if k = h then [e] else [])"
    if "new \<noteq> 0" "new \<notin> fst ` set (queue st)" "k \<noteq> 0" "is_cons e" for new k e desc mods
    unfolding ev_add_exact(1) [OF g that] by simp
  ultimately show ?thesis by blast
qed

lemma event_get_oldest_witness:
  "fst (event_get 7 True (ev_add 1 7 (VCons VNil (VNil :: nat val)) None (- 1) init_events)) = VCons VNil VNil"
proof -
  have "reachable_events (ev_add 1 7 (VCons VNil (VNil :: nat val)) None (- 1) init_events)"
    by (rule reachable_events.add [OF reachable_events.init]) (simp_all add: init_events_def is_cons_def)
  from event_get_oldest [OF this, of 7] show ?thesis
    by (simp add: ev_add_def init_events_def oldest_def)
qed

section \<open>Firing the timers and processing the events\<close>

text \<open>C26: \<open>timer_fire\<close> ends on every reachable state. Each timer that is due has its event appended to the queue, once and in
  the order of the dates; the others stay; a periodic one is set again at its first date, a whole number of periods
  later, that is not past; the list stays sorted. The wait it returns is positive, at most a day, reaches no date of a
  timer that is left before that date, and is exact below a day.\<close>

theorem timer_fire_exact:
  assumes "reachable_events st" "clock now" "inj new" "0 \<notin> range new" "range new \<inter> fst ` set (queue st) = {}"
  shows "\<exists>w st' cells again. timer_fire now new st = Some (Inr (w, st')) \<and> queue st' = queue st @ cells \<and>
    map (\<lambda>(p, q). (qhandler q, qevent q)) cells = map (\<lambda>t. (handler t, timer_event t)) (filter (\<lambda>t. due now (date t)) (timers st)) \<and>
    sorted (map timer_key (timers st)) \<and> sorted (map timer_key (timers st')) \<and>
    mset (timers st') = mset (filter (\<lambda>t. \<not> due now (date t)) (timers st)) + mset again \<and>
    list_all2 (rearmed now) (filter periodic (filter (\<lambda>t. due now (date t)) (timers st))) again \<and>
    0 < w \<and> w \<le> DAY * 1000 \<and> (\<forall>t \<in> set (timers st'). w \<le> total (date t) - total now) \<and>
    (w < DAY * 1000 \<longrightarrow> timers st' \<noteq> [] \<and> w = total (date (hd (timers st'))) - total now)"
proof -
  let ?ds = "filter (\<lambda>t. due now (date t)) (timers st)"
  have s: "good_queue st" "good_timers (timers st)" using sound_reachable [OF assms(1)] by (simp_all add: sound_state_def)
  obtain again ts where r: "timer_fire now new st = Some (Inr (timer_wait now ts, (fired_events new 0 ?ds st)\<lparr>timers := ts\<rparr>))"
    "good_timers ts" "list_all2 (rearmed now) (filter periodic ?ds) again"
    "mset ts = mset (filter (\<lambda>t. \<not> due now (date t)) (timers st)) + mset again"
    using timer_fire_run [OF assms(2) s(2)] by blast
  have hs: "\<forall>t \<in> set ?ds. handler t \<noteq> 0" using s(2) by (auto simp: good_timers_def good_timer_def)
  have fresh: "\<forall>j \<ge> 0. new j \<notin> fst ` set (queue st)" using assms(5) by blast
  from fired_events_exact [OF assms(3,4) s(1) fresh hs] obtain cells where
    q: "queue (fired_events new 0 ?ds st) = queue st @ cells"
      "map (\<lambda>(p, q). (qhandler q, qevent q)) cells = map (\<lambda>t. (handler t, timer_event t)) ?ds" by blast
  have late: "\<forall>t \<in> set ts. \<not> due now (date t)"
  proof
    fix t assume "t \<in> set ts"
    then have "t \<in># mset ts" by simp
    then consider "\<not> due now (date t)" | "t \<in> set again" unfolding r(4) by auto
    then show "\<not> due now (date t)"
      using rearmed_all [OF r(3), of t] by cases (auto simp: rearmed_def due_def)
  qed
  have "sorted (map timer_key (timers st))" "sorted (map timer_key ts)" using s(2) r(2) by (simp_all add: good_timers_def)
  then show ?thesis using r(1,3,4) q timer_wait_exact [OF assms(2) r(2) late]
    by (intro exI [of _ "timer_wait now ts"] exI [of _ "(fired_events new 0 ?ds st)\<lparr>timers := ts\<rparr>"] exI [of _ cells] exI [of _ again]) auto
qed

lemma timer_fire_exact_witness:
  "\<exists>w st'. timer_fire \<lparr>sec = 10, msec = 0\<rparr> Suc (init_events :: nat events) = Some (Inr (w, st')) \<and> 0 < w"
  using timer_fire_exact [OF reachable_events.init, of "\<lparr>sec = 10, msec = 0\<rparr>" Suc]
  by (auto simp: clock_def init_events_def)

text \<open>Without sources, the methods of the handlers receive the queued events in their order.\<close>

definition deliver :: "(nat \<Rightarrow> 'o val \<Rightarrow> 'w \<Rightarrow> 'w) \<Rightarrow> 'o queued list \<Rightarrow> 'w \<Rightarrow> 'w" where
  "deliver f qs w = fold (\<lambda>q. f (qhandler q) (qevent q)) qs w"

definition head_handler :: "'o events \<Rightarrow> nat" where
  "head_handler st = (case queue st of [] \<Rightarrow> 0 | (p, q) # _ \<Rightarrow> qhandler q)"

lemma drain_all:
  "good_queue st \<Longrightarrow> \<exists>d m. drain [] (\<lambda>h e (st, w). (st, f h e w)) (head_handler st) (st, w) =
    Some (st\<lparr>queue := [], tail := 0, evdesc := d, evmods := m\<rparr>, deliver f (map snd (queue st)) w)"
proof (induction "length (queue st)" arbitrary: st w)
  case 0
  then show ?case
    by (intro exI [of _ "evdesc st"] exI [of _ "evmods st"], subst drain.simps)
      (simp add: head_handler_def deliver_def good_queue_def)
next
  case (Suc n)
  obtain p q qs where q: "queue st = (p, q) # qs" using Suc.hyps(2) by (cases "queue st") auto
  have h: "head_handler st = qhandler q" "qhandler q \<noteq> 0" "is_cons (qevent q)"
    using Suc.prems by (auto simp: head_handler_def q good_queue_def)
  obtain st' where st': "event_get (qhandler q) True st = (qevent q, st')" "queue st' = qs" "timers st' = timers st"
    "ev_final st' = ev_final st" "ti_final st' = ti_final st"
    using q unfolding event_get_exact(1) [OF Suc.prems] by (auto simp: oldest_def Let_def ev_parsedesc_def)
  have g: "good_queue st'" using event_get_exact(2) [OF Suc.prems, of "qhandler q" True] st'(1) by simp
  have "n = length (queue st')" using st'(2) Suc.hyps(2) q by simp
  from Suc.hyps(1) [OF this g] obtain d m where
    IH: "drain [] (\<lambda>h e (st, w). (st, f h e w)) (head_handler st') (st', f (qhandler q) (qevent q) w) =
      Some (st'\<lparr>queue := [], tail := 0, evdesc := d, evmods := m\<rparr>, deliver f (map snd qs) (f (qhandler q) (qevent q) w))"
    using st'(2) by metis
  obtain a b where v: "qevent q = VCons a b" using h(3) by (auto simp: is_cons_def split: val.splits)
  have p: "ev_peek st' = (head_handler st', st')" using ev_peek_exact [OF g] by (simp add: head_handler_def)
  have "drain [] (\<lambda>h e (st, w). (st, f h e w)) (qhandler q) (st, w) =
      drain [] (\<lambda>h e (st, w). (st, f h e w)) (head_handler st') (st', f (qhandler q) (qevent q) w)"
    using h(2) by (subst drain.simps) (simp add: call_spoll_def st'(1) v p)
  moreover have "st'\<lparr>queue := [], tail := 0, evdesc := d, evmods := m\<rparr> = st\<lparr>queue := [], tail := 0, evdesc := d, evmods := m\<rparr>"
    using st'(3-5) by (cases st; cases st') simp
  ultimately show ?case using IH h(1) by (auto simp: q deliver_def)
qed

text \<open>C27: \<open>process_pending_events\<close> ends and loses nothing: with handlers that leave the events alone and no other source, each
  queued event is delivered once to its handler, in the order of the queue, then the event of each timer that is due, in the
  order of the dates, and the queue ends empty.\<close>

theorem pending_events_delivered:
  assumes "reachable_events st" "clock now" "inj new" "0 \<notin> range new"
  shows "\<exists>st'. process_pending_events [] (\<lambda>h e (st, w). (st, f h e w)) now new (st, w) =
    Some (Inr (st', fold (\<lambda>t. f (handler t) (timer_event t)) (filter (\<lambda>t. due now (date t)) (timers st))
      (fold (\<lambda>q. f (qhandler q) (qevent q)) (map snd (queue st)) w))) \<and> queue st' = [] \<and> tail st' = 0"
proof -
  let ?ds = "filter (\<lambda>t. due now (date t)) (timers st)"
  have s: "good_queue st" "good_timers (timers st)" using sound_reachable [OF assms(1)] by (simp_all add: sound_state_def)
  have p: "ev_peek st = (head_handler st, st)" using ev_peek_exact [OF s(1)] by (simp add: head_handler_def)
  obtain d m where d: "drain [] (\<lambda>h e (st, w). (st, f h e w)) (head_handler st) (st, w) =
      Some (st\<lparr>queue := [], tail := 0, evdesc := d, evmods := m\<rparr>, deliver f (map snd (queue st)) w)"
    using drain_all [OF s(1), of f w] by blast
  let ?st = "st\<lparr>queue := [], tail := 0, evdesc := d, evmods := m\<rparr>"
  have s1: "good_queue ?st" "timers ?st = timers st" by (simp_all add: good_queue_def)
  have gt: "good_timers (timers ?st)" using s(2) by simp
  from timer_fire_run [OF assms(2) gt, of new] obtain ts where
    r: "timer_fire now new ?st = Some (Inr (timer_wait now ts, (fired_events new 0 ?ds ?st)\<lparr>timers := ts\<rparr>))"
    unfolding s1(2) by blast
  have hs: "\<forall>t \<in> set ?ds. handler t \<noteq> 0" using s(2) by (auto simp: good_timers_def good_timer_def)
  have fresh: "\<forall>j \<ge> 0. new j \<notin> fst ` set (queue ?st)" by simp
  let ?st2 = "(fired_events new 0 ?ds ?st)\<lparr>timers := ts\<rparr>"
  from fired_events_exact [OF assms(3,4) s1(1) fresh hs] obtain cells where
    q: "good_queue (fired_events new 0 ?ds ?st)" "queue (fired_events new 0 ?ds ?st) = queue ?st @ cells"
      "map (\<lambda>(p, q). (qhandler q, qevent q)) cells = map (\<lambda>t. (handler t, timer_event t)) ?ds" by blast
  have g2: "good_queue ?st2" using q(1) by (simp add: good_queue_def)
  have p2: "ev_peek ?st2 = (head_handler ?st2, ?st2)" using ev_peek_exact [OF g2] by (simp add: head_handler_def)
  obtain d2 m2 where d2: "drain [] (\<lambda>h e (st, w). (st, f h e w)) (head_handler ?st2) (?st2, deliver f (map snd (queue st)) w) =
      Some (?st2\<lparr>queue := [], tail := 0, evdesc := d2, evmods := m2\<rparr>,
        deliver f (map snd (queue ?st2)) (deliver f (map snd (queue st)) w))"
    using drain_all [OF g2, of f "deliver f (map snd (queue st)) w"] by blast
  have "fold (\<lambda>(h, e). f h e) (map (\<lambda>(p, q). (qhandler q, qevent q)) cells) w' =
      fold (\<lambda>(h, e). f h e) (map (\<lambda>t. (handler t, timer_event t)) ?ds) w'" for w' by (simp only: q(3))
  then have "deliver f (map snd (queue ?st2)) w' = fold (\<lambda>t. f (handler t) (timer_event t)) ?ds w'" for w'
    by (simp add: q(2) deliver_def fold_map comp_def case_prod_beta)
  moreover have "process_pending_events [] (\<lambda>h e (st, w). (st, f h e w)) now new (st, w) = Some (Inr (?st2\<lparr>queue := [], tail := 0, evdesc := d2, evmods := m2\<rparr>,
      deliver f (map snd (queue ?st2)) (deliver f (map snd (queue st)) w)))"
    using d r d2 p p2 by (simp add: process_pending_events_def call_spoll_def)
  ultimately show ?thesis
    by (intro exI [of _ "?st2\<lparr>queue := [], tail := 0, evdesc := d2, evmods := m2\<rparr>"]) (simp add: deliver_def)
qed

lemma pending_events_delivered_witness:
  "\<exists>st'. process_pending_events [] (\<lambda>h e (st, w). (st, w @ [h])) \<lparr>sec = 10, msec = 0\<rparr> Suc
     (ev_add 1 7 (VCons VNil (VNil :: nat val)) None (- 1) init_events, []) = Some (Inr (st', [7])) \<and> queue st' = []"
proof -
  have "reachable_events (ev_add 1 7 (VCons VNil (VNil :: nat val)) None (- 1) init_events)"
    by (rule reachable_events.add [OF reachable_events.init]) (simp_all add: init_events_def is_cons_def)
  from pending_events_delivered [OF this, of "\<lparr>sec = 10, msec = 0\<rparr>" Suc "\<lambda>h e w. w @ [h]" "[]"] show ?thesis
    by (auto simp: clock_def init_events_def ev_add_def)
qed

end
