(* ===== verification/Classes.thy ===== *)
theory Classes
  imports Prelude
begin

text \<open>
  Classes, methods and objects (\<open>src/src/oostruct.c\<close>).

  A cell is its address, 0 the null pointer. A class (\<open>struct class\<close>) is its position in the list of all
  classes that were made, where a freed one is \<open>None\<close>; \<open>subs\<close> is the chain of its subclasses, linked by \<open>nextclass\<close>. What
  the code asks of a cell is in \<open>atoms\<close>: the class that messages to it are sent to, and which of the flags it has. The slots
  of an instance (\<open>struct oostruct\<close>) are in \<open>ostore\<close>. Lists of slots and of methods are proper lists. Reference counts are left to the theories of
  the cells: here a class is disposed of when nothing refers to it. The number of a symbol's cell stands for its
  address; \<open>mem\<close> says whether the system grants a table of so many elements.
\<close>

section \<open>State\<close>

record hashelem =
  hsymbol :: nat
  hfunction :: nat
  hsofar :: nat

record lclass =
  cname :: nat
  slotssofar :: nat
  keylist :: "nat list"
  defaults :: "nat list"
  csuper :: "nat option"
  subs :: "nat list"
  methods :: "(nat \<times> nat) list"
  hashtable :: "hashelem list"
  hashok :: bool
  inherits_object :: bool

datatype detail = Plain | Symbol | Function | Zombie | Instance | Class nat

record atom =
  aclass :: "nat option"
  detail :: detail

record world =
  classes :: "lclass option list"
  atoms :: "nat \<Rightarrow> atom"
  ostore :: "nat \<Rightarrow> (nat \<times> nat) list"

definition zombie :: "world \<Rightarrow> nat \<Rightarrow> bool" where
  "zombie w a \<longleftrightarrow> detail (atoms w a) = Zombie"

definition deref :: "nat \<Rightarrow> world \<Rightarrow> lclass res" where
  "deref c w = (if c < length (classes w) then case classes w ! c of
       None \<Rightarrow> Inl (Undef ''class read after it was freed'') | Some k \<Rightarrow> Inr k
     else Inl (Undef ''no such class''))"

definition put_class :: "nat \<Rightarrow> lclass \<Rightarrow> world \<Rightarrow> world" where
  "put_class c k w = w\<lparr>classes := (classes w)[c := Some k]\<rparr>"

text \<open>The classes that a loop over \<open>super\<close> visits. There are no more of them than classes.\<close>

primrec lineage_from :: "nat \<Rightarrow> nat option \<Rightarrow> world \<Rightarrow> nat list res" where
  "lineage_from 0 c w = (case c of None \<Rightarrow> Inr [] | Some _ \<Rightarrow> Inl NoFuel)"
| "lineage_from (Suc n) c w = (case c of None \<Rightarrow> Inr []
     | Some c \<Rightarrow> res_bind (deref c w) (\<lambda>k. res_bind (lineage_from n (csuper k) w) (\<lambda>cs. Inr (c # cs))))"

definition lineage :: "nat \<Rightarrow> world \<Rightarrow> nat list res" where
  "lineage c w = lineage_from (length (classes w)) (Some c) w"

section \<open>The table of methods of a class\<close>

text \<open>\<open>clear_hashok\<close> calls itself on the subclasses.\<close>

fun res_fold :: "('a \<Rightarrow> 's \<Rightarrow> 's res) \<Rightarrow> 'a list \<Rightarrow> 's \<Rightarrow> 's res" where
  "res_fold f [] s = Inr s"
| "res_fold f (x # xs) s = res_bind (f x s) (res_fold f xs)"

primrec clear_hashok_rec :: "nat \<Rightarrow> nat \<Rightarrow> world \<Rightarrow> world res" where
  "clear_hashok_rec 0 = (\<lambda>c w. Inl NoFuel)"
| "clear_hashok_rec (Suc n) = (\<lambda>c w. res_bind (deref c w) (\<lambda>k.
     res_fold (clear_hashok_rec n) (subs k) (put_class c (k\<lparr>hashok := False\<rparr>) w)))"

definition clear_hashok :: "nat \<Rightarrow> world \<Rightarrow> world res" where
  "clear_hashok c w = clear_hashok_rec (length (classes w)) c w"

definition dispose_hashtable :: "lclass \<Rightarrow> lclass" where
  "dispose_hashtable k = (if hashtable k \<noteq> [] then k\<lparr>hashtable := [], hashok := False\<rparr> else k)"

fun put_loop :: "nat \<Rightarrow> nat \<Rightarrow> (nat \<times> nat) list \<Rightarrow> (nat \<times> nat) list" where
  "put_loop name value [] = (if value \<noteq> 0 then [(name, value)] else [])"
| "put_loop name value ((n, v) # ms) = (if n = name then if value \<noteq> 0 then (n, value) # ms else ms
     else (n, v) # put_loop name value ms)"

definition putmethod :: "nat \<Rightarrow> nat \<Rightarrow> nat \<Rightarrow> world \<Rightarrow> world res" where
  "putmethod cl name value w = (
     if name = 0 \<or> detail (atoms w name) \<noteq> Symbol then Inl (Lush ''Not a symbol'')
     else if value \<noteq> 0 \<and> detail (atoms w value) \<noteq> Function then Inl (Lush ''Not a function'')
     else res_bind (clear_hashok cl w) (\<lambda>w. res_bind (deref cl w) (\<lambda>k.
       Inr (put_class cl (k\<lparr>methods := put_loop name value (methods k)\<rparr>) w))))"

text \<open>The size of a table is \<open>2 ^ e\<close>.\<close>

definition HASH :: "nat \<Rightarrow> nat \<Rightarrow> nat" where
  "HASH q n = q mod (n - 3)"

function grow_size :: "nat \<Rightarrow> nat \<Rightarrow> nat" where
  "grow_size n e = (if 2 ^ e < n then grow_size n (Suc e) else e)"
  by pat_completeness auto
termination
proof (relation "measure (\<lambda>(n, e). n - 2 ^ e)", goal_cases)
  case (2 n e)
  have "(2 :: nat) ^ e < 2 ^ Suc e" by simp
  then have "n - 2 ^ Suc e < n - 2 ^ e" using 2 by (rule diff_less_mono2)
  then show ?case by simp
qed simp

declare grow_size.simps [simp del]

text \<open>The first of three elements that is empty or already has the name; \<open>None\<close> goes to \<open>restart\<close>.\<close>

definition free_slot :: "hashelem list \<Rightarrow> nat \<Rightarrow> nat \<Rightarrow> nat option" where
  "free_slot t hx prop = (
     if hsymbol (t ! hx) = 0 \<or> hsymbol (t ! hx) = prop then Some hx
     else if hsymbol (t ! (hx + 1)) = 0 \<or> hsymbol (t ! (hx + 1)) = prop then Some (hx + 1)
     else if hsymbol (t ! (hx + 2)) = 0 \<or> hsymbol (t ! (hx + 2)) = prop then Some (hx + 2)
     else None)"

definition insert_method :: "nat \<Rightarrow> nat \<times> nat \<Rightarrow> hashelem list \<Rightarrow> hashelem list option" where
  "insert_method prop v t = map_option (\<lambda>hx. if hsymbol (t ! hx) = 0
     then t[hx := \<lparr>hsymbol = prop, hfunction = fst v, hsofar = snd v\<rparr>] else t) (free_slot t (HASH prop (length t)) prop)"

text \<open>The loop over the methods of a class drops those without a function or with a dead one.\<close>

fun grab_methods :: "(nat \<Rightarrow> bool) \<Rightarrow> nat \<Rightarrow> (nat \<times> nat) list \<Rightarrow> hashelem list \<Rightarrow> hashelem list option \<times> (nat \<times> nat) list" where
  "grab_methods dead sf [] t = (Some t, [])"
| "grab_methods dead sf ((prop, value) # ms) t = (if value = 0 \<or> dead value then grab_methods dead sf ms t
     else case insert_method prop (value, sf) t of
       None \<Rightarrow> (None, (prop, value) # ms)
     | Some t \<Rightarrow> let (r, ms) = grab_methods dead sf ms t in (r, (prop, value) # ms))"

fun grab_classes :: "nat list \<Rightarrow> hashelem list \<Rightarrow> world \<Rightarrow> (hashelem list option \<times> world) res" where
  "grab_classes [] t w = Inr (Some t, w)"
| "grab_classes (c # cs) t w = res_bind (deref c w) (\<lambda>k.
     let (r, ms) = grab_methods (zombie w) (slotssofar k) (methods k) t; w = put_class c (k\<lparr>methods := ms\<rparr>) w in
     case r of None \<Rightarrow> Inr (None, w) | Some t \<Rightarrow> grab_classes cs t w)"

definition empty_table :: "nat \<Rightarrow> hashelem list" where
  "empty_table n = replicate n \<lparr>hsymbol = 0, hfunction = 0, hsofar = 0\<rparr>"

function restart :: "(nat \<Rightarrow> bool) \<Rightarrow> nat list \<Rightarrow> nat \<Rightarrow> nat \<Rightarrow> world \<Rightarrow> world res" where
  "restart mem cs cl e w = (
     if 30 \<le> e then Inl (Undef ''size of the table of methods overflows'')
     else res_bind (deref cl w) (\<lambda>k. let w = put_class cl (dispose_hashtable k) w in
       if \<not> mem (2 ^ Suc e) then Inl (Lush ''No memory'')
       else res_bind (grab_classes cs (empty_table (2 ^ Suc e)) w) (\<lambda>(r, w). case r of
         None \<Rightarrow> restart mem cs cl (Suc e) w
       | Some t \<Rightarrow> res_bind (deref cl w) (\<lambda>k. Inr (put_class cl (k\<lparr>hashtable := t, hashok := True\<rparr>) w)))))"
  by pat_completeness auto
termination by (relation "measure (\<lambda>(mem, cs, cl, e, w). 30 - e)") auto

declare restart.simps [simp del]

definition count_methods :: "nat list \<Rightarrow> world \<Rightarrow> nat res" where
  "count_methods cs w = res_bind (res_map (\<lambda>c. res_bind (deref c w) (\<lambda>k. Inr (length (methods k)))) cs) (\<lambda>ns. Inr (sum_list ns))"

definition update_hashtable :: "(nat \<Rightarrow> bool) \<Rightarrow> nat \<Rightarrow> world \<Rightarrow> world res" where
  "update_hashtable mem cl w = res_bind (lineage cl w) (\<lambda>cs. res_bind (count_methods cs w) (\<lambda>n.
     restart mem cs cl (grow_size n 4) w))"

definition find_slot :: "hashelem list \<Rightarrow> nat \<Rightarrow> nat \<Rightarrow> nat option" where
  "find_slot t hx prop = (if hsymbol (t ! hx) = prop then Some hx else if hsymbol (t ! (hx + 1)) = prop then Some (hx + 1)
     else if hsymbol (t ! (hx + 2)) = prop then Some (hx + 2) else None)"

text \<open>\<open>getmethod\<close> calls itself when the function it finds is dead: once, since the new table has no such function.\<close>

primrec getmethod_rec :: "nat \<Rightarrow> (nat \<Rightarrow> bool) \<Rightarrow> nat \<Rightarrow> nat \<Rightarrow> world \<Rightarrow> (hashelem option \<times> world) res" where
  "getmethod_rec 0 mem cl prop w = Inl NoFuel"
| "getmethod_rec (Suc n) mem cl prop w = res_bind (deref cl w) (\<lambda>k.
     res_bind (if hashok k then Inr w else update_hashtable mem cl w) (\<lambda>w. res_bind (deref cl w) (\<lambda>k.
       if hashtable k = [] then Inr (None, w)
       else case find_slot (hashtable k) (HASH prop (length (hashtable k))) prop of
         None \<Rightarrow> Inr (None, w)
       | Some hx \<Rightarrow> let h = hashtable k ! hx in
           if hfunction h \<noteq> 0 \<and> zombie w (hfunction h) then
             res_bind (clear_hashok cl w) (getmethod_rec n mem cl prop)
           else Inr (Some h, w))))"

definition getmethod :: "(nat \<Rightarrow> bool) \<Rightarrow> nat \<Rightarrow> nat \<Rightarrow> world \<Rightarrow> (hashelem option \<times> world) res" where
  "getmethod mem cl prop w = getmethod_rec 2 mem cl prop w"

definition checksend :: "(nat \<Rightarrow> bool) \<Rightarrow> nat \<Rightarrow> nat \<Rightarrow> world \<Rightarrow> (nat \<times> world) res" where
  "checksend mem cl prop w = res_bind (getmethod mem cl prop w) (\<lambda>(h, w).
     Inr (case h of None \<Rightarrow> 0 | Some h \<Rightarrow> hfunction h, w))"

section \<open>Classes and objects\<close>

text \<open>\<open>a\<close> is the address of the new cell, and \<open>class_class\<close> the class of the classes.\<close>

definition new_ooclass :: "nat \<Rightarrow> nat \<Rightarrow> nat \<Rightarrow> nat \<Rightarrow> nat list \<Rightarrow> nat list \<Rightarrow> world \<Rightarrow> (nat \<times> world) res" where
  "new_ooclass class_class a classname superclass keys defs w = (
     if classname = 0 \<or> detail (atoms w classname) \<noteq> Symbol then Inl (Lush ''not a symbol'')
     else if \<exists>(s, _) \<in> set (zip keys defs). s = 0 \<or> detail (atoms w s) \<noteq> Symbol then Inl (Lush ''not a symbol'')
     else if length keys \<noteq> length defs then Inl (Lush ''slot list and default list have different lengths'')
     else case detail (atoms w superclass) of
       Class sc \<Rightarrow> if superclass = 0 then Inl (Lush ''not a class'') else res_bind (deref sc w) (\<lambda>k.
         if \<not> inherits_object k then Inl (Lush ''superclass does not inherit class <object>'')
         else let c = length (classes w);
           new = \<lparr>cname = classname, slotssofar = slotssofar k + length keys, keylist = keys, defaults = defs, csuper = Some sc,
             subs = [], methods = [], hashtable = [], hashok = False, inherits_object = True\<rparr>;
           w = put_class sc (k\<lparr>subs := c # subs k\<rparr>) w in
         Inr (a, w\<lparr>classes := classes w @ [Some new], atoms := (atoms w)(a := \<lparr>aclass = Some class_class, detail = Class c\<rparr>)\<rparr>))
     | _ \<Rightarrow> Inl (Lush ''not a class''))"

definition class_dispose :: "nat \<Rightarrow> world \<Rightarrow> world res" where
  "class_dispose c w = res_bind (deref c w) (\<lambda>k.
     let w = (case csuper k of None \<Rightarrow> w | Some sc \<Rightarrow> (case deref sc w of Inl _ \<Rightarrow> w
       | Inr s \<Rightarrow> put_class sc (s\<lparr>subs := remove1 c (subs s)\<rparr>) w)) in
     Inr (w\<lparr>classes := (classes w)[c := None]\<rparr>))"

text \<open>The slots of the class itself come first, then those of the superclass, and so on. Writing past \<open>slotssofar\<close> elements
  would leave the object, writing fewer would leave some of them uninitialised.\<close>

definition class_slots :: "nat \<Rightarrow> world \<Rightarrow> (nat \<times> nat) list res" where
  "class_slots c w = res_bind (lineage c w) (\<lambda>cs.
     res_bind (res_map (\<lambda>c. res_bind (deref c w) (\<lambda>k. Inr (zip (keylist k) (defaults k)))) cs) (\<lambda>ss. Inr (concat ss)))"

definition new_oostruct :: "nat \<Rightarrow> nat \<Rightarrow> world \<Rightarrow> world res" where
  "new_oostruct a cl w = (case detail (atoms w cl) of
       Class c \<Rightarrow> if cl = 0 then Inl (Lush ''not a class'') else res_bind (deref c w) (\<lambda>k.
         if \<not> inherits_object k then Inl (Lush ''class is not a subclass of ::class:object'')
         else res_bind (class_slots c w) (\<lambda>s.
           if length s \<noteq> slotssofar k then Inl (Undef ''slots of the object and of its classes differ'')
           else Inr (w\<lparr>atoms := (atoms w)(a := \<lparr>aclass = Some c, detail = Instance\<rparr>), ostore := (ostore w)(a := s)\<rparr>)))
     | _ \<Rightarrow> Inl (Lush ''not a class''))"

text \<open>Slots along a path of names. Among the other classes none of this file accepts the scope syntax.\<close>

definition slot_index :: "nat \<Rightarrow> (nat \<times> nat) list \<Rightarrow> nat option" where
  "slot_index s slots = (let is = filter (\<lambda>i. fst (slots ! i) = s) [0..<length slots] in case is of [] \<Rightarrow> None | i # _ \<Rightarrow> Some i)"

fun getslot :: "nat \<Rightarrow> nat list \<Rightarrow> world \<Rightarrow> nat res" where
  "getslot obj [] w = Inr obj"
| "getslot obj (s # prop) w = (if obj = 0 \<or> detail (atoms w obj) \<noteq> Instance then Inl (Lush ''This object does not accept scope syntax'')
     else if s = 0 \<or> detail (atoms w s) \<noteq> Symbol then Inl (Lush ''Illegal slot name'')
     else case slot_index s (ostore w obj) of None \<Rightarrow> Inl (Lush ''Unknown slot name'')
     | Some i \<Rightarrow> getslot (snd (ostore w obj ! i)) prop w)"

text \<open>\<open>setslot\<close> gets the address of the variable or slot that holds the object: the answer \<open>True\<close> stands for a write there.\<close>

fun setslot :: "nat \<Rightarrow> nat list \<Rightarrow> nat \<Rightarrow> world \<Rightarrow> (bool \<times> world) res" where
  "setslot obj [] v w = Inr (True, w)"
| "setslot obj (s # prop) v w = (if obj = 0 \<or> detail (atoms w obj) \<noteq> Instance then Inl (Lush ''This object does not accept scope syntax'')
     else if s = 0 \<or> detail (atoms w s) \<noteq> Symbol then Inl (Lush ''Illegal slot name'')
     else case slot_index s (ostore w obj) of None \<Rightarrow> Inl (Lush ''Unknown slot name'')
     | Some i \<Rightarrow> res_bind (setslot (snd (ostore w obj ! i)) prop v w) (\<lambda>(here, w).
         Inr (False, if here then w\<lparr>ostore := (ostore w)(obj := (ostore w obj)[i := (s, v)])\<rparr> else w)))"

definition xnew_copy :: "nat \<Rightarrow> nat \<Rightarrow> world \<Rightarrow> (nat \<Rightarrow> nat) \<Rightarrow> world res" where
  "xnew_copy a p w backptr = (if p = 0 \<or> detail (atoms w p) \<noteq> Instance then Inl (Lush ''Not an instance of a user defined class'')
     else res_bind (new_oostruct a (case aclass (atoms w p) of Some c \<Rightarrow> backptr c | None \<Rightarrow> 0) w) (\<lambda>w.
       Inr (w\<lparr>ostore := (ostore w)(a := map (\<lambda>i. (fst (ostore w a ! i),
         if i < length (ostore w p) then snd (ostore w p ! i) else snd (ostore w a ! i))) [0..<length (ostore w a)])\<rparr>)))"

text \<open>What the language reads of a class: the slots, each with its default unless it is the empty list, the names of the live methods, the subclasses.\<close>

definition xslots :: "lclass \<Rightarrow> (nat \<times> nat option) list" where
  "xslots k = rev (map (\<lambda>(s, d). (s, if d \<noteq> 0 then Some d else None)) (zip (keylist k) (defaults k)))"

definition xmethods :: "world \<Rightarrow> lclass \<Rightarrow> nat list" where
  "xmethods w k = rev (map fst (filter (\<lambda>(p, f). f \<noteq> 0 \<and> \<not> zombie w f) (methods k)))"

definition xsubclasses :: "lclass \<Rightarrow> nat list" where
  "xsubclasses k = rev (subs k)"

primrec is_of_class_loop :: "nat \<Rightarrow> nat option \<Rightarrow> nat \<Rightarrow> world \<Rightarrow> bool res" where
  "is_of_class_loop 0 c cl w = Inl NoFuel"
| "is_of_class_loop (Suc n) c cl w = (case c of None \<Rightarrow> Inr False
     | Some c \<Rightarrow> if c = cl then Inr True else res_bind (deref c w) (\<lambda>k. is_of_class_loop n (csuper k) cl w))"

definition is_of_class :: "nat \<Rightarrow> nat \<Rightarrow> world \<Rightarrow> bool res" where
  "is_of_class p cl w = (if p = 0 \<or> aclass (atoms w p) = None then Inr False
     else is_of_class_loop (Suc (length (classes w))) (aclass (atoms w p)) cl w)"

section \<open>The context of a method\<close>

text \<open>What a symbol is bound to: \<open>valueptr\<close> points into its own frame or to a slot of an object.\<close>

datatype binding = Own nat | Slot nat nat

type_synonym bindings = "nat \<Rightarrow> binding list"

definition push_binding :: "nat \<Rightarrow> binding \<Rightarrow> bindings \<Rightarrow> bindings" where
  "push_binding s b st = st(s := b # st s)"

definition pop_binding :: "nat \<Rightarrow> bindings \<Rightarrow> bindings" where
  "pop_binding s st = st(s := tl (st s))"

text \<open>The first slot that is stacked: those before it are hidden.\<close>

definition first_slot :: "int \<Rightarrow> nat \<Rightarrow> nat" where
  "first_slot howmuch n = (if howmuch > 0 then nat (int n - howmuch) else 0)"

definition push_slots :: "nat \<Rightarrow> nat \<Rightarrow> (nat \<times> nat) list \<Rightarrow> bindings \<Rightarrow> bindings" where
  "push_slots obj first slots st = fold (\<lambda>i. push_binding (fst (slots ! i)) (Slot obj i)) (rev [first..<length slots]) st"

definition pop_slots :: "nat \<Rightarrow> (nat \<times> nat) list \<Rightarrow> bindings \<Rightarrow> bindings" where
  "pop_slots first slots st = fold (\<lambda>i. pop_binding (fst (slots ! i))) [first..<length slots] st"

text \<open>\<open>app\<close> is the application of the function, of any state \<open>'w\<close> around the bindings; an error leaves the bindings to the top level.\<close>

definition letslot :: "nat \<Rightarrow> nat \<Rightarrow> world \<Rightarrow> int \<Rightarrow> (bindings \<times> 'w \<Rightarrow> ('a \<times> bindings \<times> 'w) res) \<Rightarrow> bindings \<times> 'w \<Rightarrow>
    ('a \<times> bindings \<times> 'w) res" where
  "letslot this obj w howmuch app s = (
     if obj = 0 then Inl (Lush ''Cannot send a message to the empty list'')
     else if detail (atoms w obj) \<noteq> Instance then
       res_bind (app (push_binding this (Own obj) (fst s), snd s)) (\<lambda>(r, st, x). Inr (r, pop_binding this st, x))
     else let slots = ostore w obj; first = first_slot howmuch (length slots);
       st = push_binding this (Own obj) (push_slots obj first slots (fst s)) in
       res_bind (app (st, snd s)) (\<lambda>(r, st, x). Inr (r, pop_slots first slots (pop_binding this st), x)))"

text \<open>\<open>howmuch\<close> of \<open>letslot\<close>: all slots, or those of the class given first, which the object must belong to.\<close>

primrec yletslot_class :: "nat \<Rightarrow> nat option \<Rightarrow> nat \<Rightarrow> world \<Rightarrow> int res" where
  "yletslot_class 0 c p w = Inl NoFuel"
| "yletslot_class (Suc n) c p w = (case c of None \<Rightarrow> Inl (Lush ''object is not an instance of this superclass'')
     | Some c \<Rightarrow> res_bind (deref c w) (\<lambda>k. if c = p then Inr (int (slotssofar k)) else yletslot_class n (csuper k) p w))"

definition yletslot :: "nat \<Rightarrow> nat \<Rightarrow> nat option \<Rightarrow> world \<Rightarrow> (bindings \<times> 'w \<Rightarrow> ('a \<times> bindings \<times> 'w) res) \<Rightarrow> bindings \<times> 'w \<Rightarrow>
    ('a \<times> bindings \<times> 'w) res" where
  "yletslot this obj cl w app s = res_bind (case cl of None \<Rightarrow> Inr (- 1)
     | Some p \<Rightarrow> if obj \<noteq> 0 \<and> detail (atoms w obj) = Instance
         then yletslot_class (Suc (length (classes w))) (aclass (atoms w obj)) p w else Inr (- 1))
     (\<lambda>howmuch. letslot this obj w howmuch app s)"

section \<open>Messages\<close>

primrec find_superclass :: "nat \<Rightarrow> nat option \<Rightarrow> nat \<Rightarrow> world \<Rightarrow> nat res" where
  "find_superclass 0 c name w = Inl NoFuel"
| "find_superclass (Suc n) c name w = (case c of None \<Rightarrow> Inl (Lush ''cannot find superclass'')
     | Some c \<Rightarrow> res_bind (deref c w) (\<lambda>k. if cname k = name then Inr c else find_superclass n (csuper k) name w))"

text \<open>The method that a message runs, and with which arguments: those given, or the message itself for \<open>-unknown\<close>.\<close>

datatype 'a message_args = Given 'a | Unknown nat 'a

definition method_called :: "hashelem \<Rightarrow> 'b \<Rightarrow> world \<Rightarrow> (hashelem \<times> 'b \<times> world) res" where
  "method_called h args w = (if hfunction h = 0 \<or> detail (atoms w (hfunction h)) \<noteq> Function then Inl (Lush ''Internal error'')
     else Inr (h, args, w))"

definition send_message :: "(nat \<Rightarrow> bool) \<Rightarrow> nat \<Rightarrow> nat \<Rightarrow> nat \<Rightarrow> nat \<Rightarrow> 'a \<Rightarrow> world \<Rightarrow> (hashelem \<times> 'a message_args \<times> world) res" where
  "send_message mem at_unknown classname obj method args w = (
     if obj = 0 then Inl (Lush ''cannot send a message to nil'')
     else case aclass (atoms w obj) of None \<Rightarrow> Inl (Lush ''cannot send a message to this object'')
     | Some c \<Rightarrow> res_bind (if classname = 0 then Inr c else find_superclass (Suc (length (classes w))) (Some c) classname w) (\<lambda>c.
       res_bind (getmethod mem c method w) (\<lambda>(h, w). case h of
         Some h \<Rightarrow> method_called h (Given args) w
       | None \<Rightarrow> res_bind (getmethod mem c at_unknown w) (\<lambda>(h, w). case h of
           Some h \<Rightarrow> method_called h (Unknown method args) w
         | None \<Rightarrow> if classname \<noteq> 0 \<and> detail (atoms w classname) \<noteq> Symbol then Inl (Lush ''Not a valid class name'')
             else if method = 0 \<or> detail (atoms w method) \<noteq> Symbol then Inl (Lush ''Not a valid method name'')
             else Inl (Lush ''undefined method for this object'')))))"

text \<open>The destructors that the death of an object calls, in their order; calling them leaves the classes as they are.\<close>

primrec send_delete_loop :: "nat \<Rightarrow> (nat \<Rightarrow> bool) \<Rightarrow> nat \<Rightarrow> nat option \<Rightarrow> nat \<Rightarrow> world \<Rightarrow> (nat list \<times> world) res" where
  "send_delete_loop 0 mem at_destroy cl f w = Inl NoFuel"
| "send_delete_loop (Suc n) mem at_destroy cl f w = (case cl of None \<Rightarrow> Inr ([], w)
     | Some c \<Rightarrow> res_bind (getmethod mem c at_destroy w) (\<lambda>(h, w). res_bind (deref c w) (\<lambda>k. case h of
         None \<Rightarrow> Inr ([], w)
       | Some h \<Rightarrow> if hfunction h = f then send_delete_loop n mem at_destroy (csuper k) f w
           else res_bind (send_delete_loop n mem at_destroy (csuper k) (hfunction h) w) (\<lambda>(fs, w).
             Inr (hfunction h # fs, w)))))"

definition send_delete :: "(nat \<Rightarrow> bool) \<Rightarrow> nat \<Rightarrow> nat \<Rightarrow> world \<Rightarrow> (nat list \<times> world) res" where
  "send_delete mem at_destroy p w = (if p = 0 \<or> detail (atoms w p) \<noteq> Instance then Inr ([], w)
     else send_delete_loop (Suc (length (classes w))) mem at_destroy (aclass (atoms w p)) 0 w)"

end
