(* ===== verification/ClassLaws.thy ===== *)
theory ClassLaws
  imports Classes "HOL-Library.Sublist"
begin

text \<open>
  The laws of the classes: what the cached table of methods answers is the nearest live method, the lists of
  superclasses and subclasses agree, and no operation on the caches changes the classes.
\<close>

section \<open>A table where the first entry stays\<close>

text \<open>The interface of the table to the loop that fills it: a name keeps the first value put; putting may fail.\<close>

locale write_once =
  fixes ok :: "'t \<Rightarrow> bool" and get :: "'t \<Rightarrow> 'k \<Rightarrow> 'v option" and put :: "'k \<Rightarrow> 'v \<Rightarrow> 't \<Rightarrow> 't option" and key :: "'k \<Rightarrow> 'v \<Rightarrow> bool"
  assumes put_ok: "ok t \<Longrightarrow> key k v \<Longrightarrow> put k v t = Some t' \<Longrightarrow> ok t'"
    and get_put: "ok t \<Longrightarrow> key k v \<Longrightarrow> put k v t = Some t' \<Longrightarrow>
      get t' j = (if j = k then (case get t k of None \<Rightarrow> Some v | Some u \<Rightarrow> Some u) else get t j)"
begin

primrec fill :: "('k \<times> 'v) list \<Rightarrow> 't \<Rightarrow> 't option" where
  "fill [] t = Some t"
| "fill (x # xs) t = Option.bind (put (fst x) (snd x) t) (fill xs)"

lemma fill_append: "fill (xs @ ys) t = Option.bind (fill xs t) (fill ys)"
  by (induction xs arbitrary: t) (auto split: bind_splits)

lemma fill_ok:
  "ok t \<Longrightarrow> \<forall>(k, v) \<in> set xs. key k v \<Longrightarrow> fill xs t = Some t' \<Longrightarrow>
    ok t' \<and> (\<forall>k. get t' k = (case get t k of None \<Rightarrow> map_of xs k | Some u \<Rightarrow> Some u))"
proof (induction xs arbitrary: t)
  case Nil
  then show ?case by (simp split: option.split)
next
  case (Cons x xs)
  obtain k v where x: "x = (k, v)" by (cases x)
  from Cons.prems(3) obtain t1 where t1: "put k v t = Some t1" "fill xs t1 = Some t'"
    by (auto simp: x split: bind_splits)
  have k: "key k v" "\<forall>(k, v) \<in> set xs. key k v" using Cons.prems(2) by (auto simp: x)
  have "ok t1" "\<And>j. get t1 j = (if j = k then (case get t k of None \<Rightarrow> Some v | Some u \<Rightarrow> Some u) else get t j)"
    using put_ok [OF Cons.prems(1) k(1) t1(1)] get_put [OF Cons.prems(1) k(1) t1(1)] by blast+
  then show ?case using Cons.IH [OF _ k(2) t1(2)] by (auto simp: x split: option.splits)
qed

end

definition stored :: "hashelem \<Rightarrow> nat \<times> nat" where
  "stored h = (hfunction h, hsofar h)"

definition look :: "hashelem list \<Rightarrow> nat \<Rightarrow> (nat \<times> nat) option" where
  "look t s = (if s = 0 then None else map_option (\<lambda>i. stored (t ! i)) (find_slot t (HASH s (length t)) s))"

definition table_ok :: "hashelem list \<Rightarrow> bool" where
  "table_ok t \<longleftrightarrow> 4 \<le> length t \<and> (\<forall>i < length t. hsymbol (t ! i) \<noteq> 0 \<longrightarrow> hfunction (t ! i) \<noteq> 0 \<and>
     HASH (hsymbol (t ! i)) (length t) \<le> i \<and> (\<forall>m \<in> {HASH (hsymbol (t ! i)) (length t)..<i}. hsymbol (t ! m) \<noteq> 0))"

lemma HASH_less: "4 \<le> n \<Longrightarrow> HASH s n + 2 < n"
proof -
  assume "4 \<le> n"
  then have "HASH s n < n - 3" by (simp add: HASH_def)
  then show ?thesis using \<open>4 \<le> n\<close> by linarith
qed

lemma find_slot_Some: "find_slot t hx s = Some i \<Longrightarrow> hsymbol (t ! i) = s \<and> hx \<le> i \<and> i \<le> hx + 2"
  by (auto simp: find_slot_def split: if_splits)

lemma insert_method_ok:
  assumes "table_ok t" "k \<noteq> 0" "fst v \<noteq> 0" "insert_method k v t = Some t'"
  shows "table_ok t' \<and> look t' j = (if j = k then (case look t k of None \<Rightarrow> Some v | Some u \<Rightarrow> Some u) else look t j)"
proof -
  let ?hx = "\<lambda>s. HASH s (length t)"
  have b: "?hx s + 2 < length t" for s using HASH_less assms(1) by (simp add: table_ok_def)
  obtain i where i: "free_slot t (?hx k) k = Some i" "t' = (if hsymbol (t ! i) = 0
     then t[i := \<lparr>hsymbol = k, hfunction = fst v, hsofar = snd v\<rparr>] else t)"
    using assms(4) by (auto simp: insert_method_def)
  show ?thesis
  proof (cases "hsymbol (t ! i) = 0")
    case False
    then have "find_slot t (?hx k) k \<noteq> None" using i(1) by (auto simp: free_slot_def find_slot_def split: if_splits)
    then show ?thesis using i(2) False assms(1,2) by (auto simp: look_def split: option.split)
  next
    case True
    have r: "?hx k \<le> i" "i \<le> ?hx k + 2" "i < length t" using i(1) b [of k] by (auto simp: free_slot_def split: if_splits)
    have t': "t' = t[i := \<lparr>hsymbol = k, hfunction = fst v, hsofar = snd v\<rparr>]" using i(2) True by simp
    have before: "\<forall>m \<in> {?hx k..<i}. hsymbol (t ! m) \<noteq> 0"
      using i(1) assms(2) by (auto simp: free_slot_def le_Suc_eq less_Suc_eq split: if_splits)
    have n: "t' ! x = (if x = i then \<lparr>hsymbol = k, hfunction = fst v, hsofar = snd v\<rparr> else t ! x)" for x
      using r(3) by (simp add: t')
    have l: "length t' = length t" by (simp add: t')
    have "table_ok t'" using assms(1,2,3) before r(1) unfolding table_ok_def n l by auto
    moreover have "look t' j = look t j" if "j \<noteq> k"
    proof -
      have s: "hsymbol (t' ! x) = j \<longleftrightarrow> hsymbol (t ! x) = j" "hsymbol (t' ! x) = j \<Longrightarrow> t' ! x = t ! x"
        if "x < length t" "j \<noteq> 0" for x
        using that True r(3) \<open>j \<noteq> k\<close> unfolding t' by (cases "x = i"; simp)+
      show ?thesis
      proof (cases "j = 0")
        case False
        have "find_slot t' (?hx j) j = find_slot t (?hx j) j" using s(1) [OF _ False] b [of j] by (simp add: find_slot_def)
        moreover have "t' ! x = t ! x" if "find_slot t (?hx j) j = Some x" for x
          using find_slot_Some [OF that] b [of j] s [OF _ False, of x] by simp
        ultimately show ?thesis by (cases "find_slot t (?hx j) j") (simp_all add: look_def l)
      qed (simp add: look_def)
    qed
    moreover have "look t' k = Some v \<and> look t k = None"
    proof -
      have "find_slot t' (?hx k) k = Some i"
        using i(1) r b [of k] assms(2) True unfolding t' by (auto simp: free_slot_def find_slot_def nth_list_update split: if_splits)
      moreover have "find_slot t (?hx k) k = None"
      proof (rule ccontr)
        assume "find_slot t (?hx k) k \<noteq> None"
        then obtain x where x: "hsymbol (t ! x) = k" "?hx k \<le> x" "x \<le> ?hx k + 2" "x \<noteq> i"
          using find_slot_Some [of t "?hx k" k] True assms(2) by fastforce
        have "x < length t" using x(3) b [of k] by simp
        then have "\<forall>m \<in> {?hx k..<x}. hsymbol (t ! m) \<noteq> 0" using assms(1,2) x(1) unfolding table_ok_def by blast
        then have "i \<notin> {?hx k..<x}" using True by blast
        then have "\<not> i < x" using r(1) by simp
        then have "x < i" using x(4) by simp
        consider "x = ?hx k" | "x = ?hx k + 1" | "x = ?hx k + 2" using x(2,3) by linarith
        then show False using i(1) x(1) assms(2) True \<open>x < i\<close> by cases (auto simp: free_slot_def split: if_splits)
      qed
      ultimately show ?thesis using assms(2) r(3) by (simp add: look_def t' stored_def)
    qed
    ultimately show ?thesis by auto
  qed
qed

interpretation mt: write_once table_ok look insert_method "\<lambda>k v. k \<noteq> 0 \<and> fst v \<noteq> 0"
  by unfold_locales (use insert_method_ok in blast)+

lemma empty_table_ok: "4 \<le> n \<Longrightarrow> table_ok (empty_table n)"
  by (simp add: table_ok_def empty_table_def)

lemma look_empty: "4 \<le> n \<Longrightarrow> look (empty_table n) s = None"
  using HASH_less [of n s] by (simp add: look_def find_slot_def empty_table_def)

section \<open>Classes that differ in their caches only\<close>

definition class_at :: "nat \<Rightarrow> world \<Rightarrow> lclass option" where
  "class_at c w = (if c < length (classes w) then classes w ! c else None)"

lemma deref_class_at: "deref c w = Inr k \<longleftrightarrow> class_at c w = Some k"
  by (simp add: deref_def class_at_def split: option.split)

lemma class_at_put [simp]: "class_at c w = Some k \<Longrightarrow> class_at d (put_class c k' w) = (if d = c then Some k' else class_at d w)"
  by (auto simp: class_at_def put_class_def nth_list_update split: if_splits)

lemma put_class_rest [simp]: "atoms (put_class c k w) = atoms w" "ostore (put_class c k w) = ostore w"
  "length (classes (put_class c k w)) = length (classes w)"
  by (simp_all add: put_class_def)

text \<open>What the caches leave alone.\<close>

definition core :: "lclass \<Rightarrow> lclass" where
  "core k = k\<lparr>methods := [], hashtable := [], hashok := False\<rparr>"

definition live_methods :: "world \<Rightarrow> lclass \<Rightarrow> (nat \<times> nat) list" where
  "live_methods w k = filter (\<lambda>(p, f). f \<noteq> 0 \<and> \<not> zombie w f) (methods k)"

definition trimmed :: "world \<Rightarrow> lclass \<Rightarrow> lclass \<Rightarrow> bool" where
  "trimmed w k k' \<longleftrightarrow> core k' = core k \<and> live_methods w k' = live_methods w k \<and> subseq (methods k') (methods k)"

definition like :: "world \<Rightarrow> world \<Rightarrow> bool" where
  "like w w' \<longleftrightarrow> atoms w' = atoms w \<and> ostore w' = ostore w \<and> length (classes w') = length (classes w) \<and>
     (\<forall>c. rel_option (trimmed w) (class_at c w) (class_at c w'))"

lemma trimmed_refl [simp]: "trimmed w k k"
  by (simp add: trimmed_def)

lemma trimmed_trans: "trimmed w k k1 \<Longrightarrow> trimmed w k1 k2 \<Longrightarrow> trimmed w k k2"
  unfolding trimmed_def by (metis subseq_order.trans)

lemma like_refl [simp]: "like w w"
  by (simp add: like_def option.rel_refl)

lemma zombie_like: "like w w' \<Longrightarrow> zombie w' = zombie w"
  by (simp add: like_def zombie_def fun_eq_iff)

lemma live_methods_like: "like w w' \<Longrightarrow> live_methods w' = live_methods w"
  using zombie_like by (simp add: live_methods_def fun_eq_iff)

lemma trimmed_like: "like w w' \<Longrightarrow> trimmed w' = trimmed w"
  using live_methods_like by (simp add: trimmed_def fun_eq_iff)

lemma like_trans: 
  assumes "like w w1" "like w1 w2"
  shows "like w w2"
proof -
  have "rel_option (trimmed w) (class_at c w) (class_at c w2)" for c
  proof -
    have "rel_option (trimmed w) (class_at c w) (class_at c w1)" "rel_option (trimmed w) (class_at c w1) (class_at c w2)"
      using assms trimmed_like [OF assms(1)] by (simp_all add: like_def)
    then show ?thesis by (cases "class_at c w"; cases "class_at c w1"; cases "class_at c w2") (auto intro: trimmed_trans)
  qed
  then show ?thesis using assms by (simp add: like_def)
qed

lemma like_put:
  assumes "class_at c w = Some k" "trimmed w k k'"
  shows "like w (put_class c k' w)"
proof -
  have "rel_option (trimmed w) (class_at d w) (class_at d (put_class c k' w))" for d
    unfolding class_at_put [OF assms(1)] using assms by (cases "class_at d w") auto
  then show ?thesis by (simp add: like_def)
qed

lemma like_class:
  assumes "like w w'" "class_at c w = Some k"
  shows "\<exists>k'. class_at c w' = Some k' \<and> trimmed w k k'"
proof -
  have "rel_option (trimmed w) (class_at c w) (class_at c w')" using assms(1) by (simp add: like_def)
  then show ?thesis using assms(2) by (cases "class_at c w'") auto
qed

lemma like_None: "like w w' \<Longrightarrow> class_at c w = None \<longleftrightarrow> class_at c w' = None"
  unfolding like_def by (metis option.rel_distinct not_None_eq)

lemma core_fields: "core k' = core k \<Longrightarrow> slotssofar k' = slotssofar k \<and> csuper k' = csuper k \<and> subs k' = subs k \<and>
    keylist k' = keylist k \<and> defaults k' = defaults k \<and> cname k' = cname k \<and> inherits_object k' = inherits_object k"
  by (cases k; cases k') (simp add: core_def)

section \<open>The hierarchy\<close>

definition wf_methods :: "(nat \<times> nat) list \<Rightarrow> bool" where
  "wf_methods ms \<longleftrightarrow> distinct (map fst ms) \<and> (\<forall>(p, f) \<in> set ms. p \<noteq> 0 \<and> f \<noteq> 0)"

definition linked :: "world \<Rightarrow> nat \<Rightarrow> lclass \<Rightarrow> bool" where
  "linked w c k \<longleftrightarrow> distinct (subs k) \<and> length (keylist k) = length (defaults k) \<and>
     (\<forall>d \<in> set (subs k). \<exists>kd. class_at d w = Some kd \<and> csuper kd = Some c) \<and>
     (case csuper k of None \<Rightarrow> slotssofar k = length (keylist k)
      | Some s \<Rightarrow> s < c \<and> (\<exists>ks. class_at s w = Some ks \<and> c \<in> set (subs ks) \<and> slotssofar k = length (keylist k) + slotssofar ks))"

definition wf_links :: "world \<Rightarrow> bool" where
  "wf_links w \<longleftrightarrow> (\<forall>c k. class_at c w = Some k \<longrightarrow> wf_methods (methods k) \<and> linked w c k)"

lemma wf_linksD: "wf_links w \<Longrightarrow> class_at c w = Some k \<Longrightarrow> wf_methods (methods k) \<and> linked w c k"
  by (simp add: wf_links_def)

lemma child: "wf_links w \<Longrightarrow> class_at c w = Some k \<Longrightarrow> d \<in> set (subs k) \<Longrightarrow> \<exists>kd. class_at d w = Some kd \<and> csuper kd = Some c \<and> c < d"
proof -
  assume a: "wf_links w" "class_at c w = Some k" "d \<in> set (subs k)"
  have "linked w c k" using wf_linksD [OF a(1,2)] by blast
  then obtain kd where kd: "class_at d w = Some kd" "csuper kd = Some c" using a(3) unfolding linked_def by blast
  have "linked w d kd" using wf_linksD [OF a(1) kd(1)] by blast
  then show ?thesis using kd by (auto simp: linked_def)
qed

lemma wf_methods_subseq:
  assumes "wf_methods ms" "subseq ms' ms"
  shows "wf_methods ms'"
proof -
  from assms(2,1) show ?thesis
  proof (induction rule: list_emb.induct)
    case (list_emb_Cons2 x y xs ys)
    have "set xs \<subseteq> set ys" using list_emb_set [OF list_emb_Cons2.hyps(2)] by blast
    then show ?case using list_emb_Cons2 by (auto simp: wf_methods_def)
  qed (auto simp: wf_methods_def)
qed

lemma trimmed_fields: "trimmed w k k' \<Longrightarrow> slotssofar k' = slotssofar k \<and> csuper k' = csuper k \<and> subs k' = subs k \<and>
    keylist k' = keylist k \<and> defaults k' = defaults k \<and> cname k' = cname k \<and> inherits_object k' = inherits_object k"
  using core_fields [of k' k] by (simp add: trimmed_def)

lemma like_back:
  assumes "like w w'" "class_at c w' = Some k'"
  shows "\<exists>k. class_at c w = Some k \<and> trimmed w k k'"
  using like_None [OF assms(1), of c] like_class [OF assms(1), of c] assms(2) by (cases "class_at c w") auto

lemma linked_like:
  assumes "like w w'" "linked w c k" "trimmed w k k'"
  shows "linked w' c k'"
proof -
  have f: "subs k' = subs k" "keylist k' = keylist k" "defaults k' = defaults k" "csuper k' = csuper k" "slotssofar k' = slotssofar k"
    using trimmed_fields [OF assms(3)] by simp_all
  have "\<exists>kd. class_at d w' = Some kd \<and> csuper kd = Some c" if "d \<in> set (subs k)" for d
    using that assms(2) like_class [OF assms(1)] trimmed_fields unfolding linked_def by metis
  moreover have "\<exists>ks. class_at s w' = Some ks \<and> c \<in> set (subs ks) \<and> slotssofar k = length (keylist k) + slotssofar ks"
    if "class_at s w = Some ks" "c \<in> set (subs ks)" "slotssofar k = length (keylist k) + slotssofar ks" for s ks
    using that like_class [OF assms(1) that(1)] trimmed_fields by metis
  ultimately show ?thesis using assms(2) unfolding linked_def f by (auto split: option.splits)
qed

lemma wf_links_like: "wf_links w \<Longrightarrow> like w w' \<Longrightarrow> wf_links w'"
  unfolding wf_links_def by (metis like_back linked_like wf_methods_subseq trimmed_def)

text \<open>The classes from \<open>c\<close> up.\<close>

function up :: "world \<Rightarrow> nat \<Rightarrow> nat list" where
  "up w c = c # (case class_at c w of None \<Rightarrow> [] | Some k \<Rightarrow>
     (case csuper k of None \<Rightarrow> [] | Some s \<Rightarrow> if s < c then up w s else []))"
  by pat_completeness auto
termination by (relation "measure snd") auto

declare up.simps [simp del]

lemma up_root: "class_at c w = Some k \<Longrightarrow> csuper k = None \<Longrightarrow> up w c = [c]"
  by (subst up.simps) simp

lemma up_super: "class_at c w = Some k \<Longrightarrow> csuper k = Some s \<Longrightarrow> s < c \<Longrightarrow> up w c = c # up w s"
  by (subst up.simps) simp

text \<open>Induction along the superclasses.\<close>

lemma hierarchy_induct [consumes 2, case_names root sub]:
  assumes "wf_links w" "class_at c w = Some k"
    and "\<And>c k. class_at c w = Some k \<Longrightarrow> csuper k = None \<Longrightarrow> up w c = [c] \<Longrightarrow> P c k"
    and "\<And>c k s ks. class_at c w = Some k \<Longrightarrow> csuper k = Some s \<Longrightarrow> s < c \<Longrightarrow> class_at s w = Some ks \<Longrightarrow> c \<in> set (subs ks) \<Longrightarrow>
      slotssofar k = length (keylist k) + slotssofar ks \<Longrightarrow> up w c = c # up w s \<Longrightarrow> P s ks \<Longrightarrow> P c k"
  shows "P c k"
  using assms(2)
proof (induction c arbitrary: k rule: less_induct)
  case (less c)
  have l: "linked w c k" using wf_linksD [OF assms(1) less.prems] by blast
  show ?case
  proof (cases "csuper k")
    case None
    then show ?thesis by (rule assms(3) [OF less.prems _ up_root [OF less.prems None]])
  next
    case (Some s)
    then obtain ks where s: "s < c" "class_at s w = Some ks" "c \<in> set (subs ks)" "slotssofar k = length (keylist k) + slotssofar ks"
      using l by (auto simp: linked_def)
    show ?thesis by (rule assms(4) [OF less.prems Some s up_super [OF less.prems Some s(1)] less.IH [OF s(1,2)]])
  qed
qed

lemma up_like: 
  assumes "wf_links w" "like w w'" "class_at c w = Some k"
  shows "up w' c = up w c"
  using assms(1,3,2)
proof (induction rule: hierarchy_induct)
  case (root c k)
  obtain k' where "class_at c w' = Some k'" "trimmed w k k'" using like_class [OF root.prems root.hyps(1)] by blast
  then show ?case using root.hyps(2,3) trimmed_fields [of w k k'] up_root [of c w' k'] by simp
next
  case (sub c k s ks)
  obtain k' where "class_at c w' = Some k'" "trimmed w k k'" using like_class [OF sub.prems sub.hyps(1)] by blast
  then show ?case using sub.hyps(2,3,7) sub.IH [OF sub.prems] trimmed_fields [of w k k'] up_super [of c w' k' s] by simp
qed

lemma up_live: "wf_links w \<Longrightarrow> class_at c w = Some k \<Longrightarrow> d \<in> set (up w c) \<Longrightarrow> d \<le> c \<and> class_at d w \<noteq> None"
proof (induction rule: hierarchy_induct)
  case (sub c k s ks)
  then show ?case by (auto dest: less_imp_le_nat intro: order.trans)
qed simp

lemma class_at_length: "class_at c w = Some k \<Longrightarrow> c < length (classes w)"
  by (simp add: class_at_def split: if_splits)

lemma lineage_from_up: "wf_links w \<Longrightarrow> class_at c w = Some k \<Longrightarrow> c < n \<Longrightarrow> lineage_from n (Some c) w = Inr (up w c)"
proof (induction arbitrary: n rule: hierarchy_induct)
  case (root c k)
  have "deref c w = Inr k" using root.hyps(1) by (simp add: deref_class_at)
  moreover obtain m where "n = Suc m" using root.prems by (cases n) auto
  ultimately show ?case using root.hyps(2,3) by (cases m) simp_all
next
  case (sub c k s ks)
  have "deref c w = Inr k" using sub.hyps(1) by (simp add: deref_class_at)
  moreover obtain m where "n = Suc m" "s < m" using sub.prems sub.hyps(3) by (cases n) auto
  ultimately show ?case using sub.hyps(2,7) sub.IH by simp
qed

lemma lineage_up: "wf_links w \<Longrightarrow> class_at c w = Some k \<Longrightarrow> lineage c w = Inr (up w c)"
  unfolding lineage_def by (rule lineage_from_up) (auto dest: class_at_length)

section \<open>The nearest live method\<close>

definition own_entries :: "world \<Rightarrow> nat \<Rightarrow> (nat \<times> nat \<times> nat) list" where
  "own_entries w c = (case class_at c w of None \<Rightarrow> [] | Some k \<Rightarrow> map (\<lambda>(p, f). (p, f, slotssofar k)) (live_methods w k))"

definition nearest :: "world \<Rightarrow> nat \<Rightarrow> nat \<Rightarrow> (nat \<times> nat) option" where
  "nearest w c = map_of (concat (map (own_entries w) (up w c)))"

lemma own_entries_like:
  assumes l: "like w w'"
  shows "own_entries w' = own_entries w"
proof
  fix c
  show "own_entries w' c = own_entries w c"
  proof (cases "class_at c w")
    case None
    then show ?thesis using like_None [OF l, of c] by (simp add: own_entries_def)
  next
    case (Some k)
    obtain k' where k': "class_at c w' = Some k'" "trimmed w k k'" using like_class [OF l Some] by blast
    then have "live_methods w' k' = live_methods w k" using live_methods_like [OF l] by (simp add: trimmed_def)
    then show ?thesis using Some k' trimmed_fields [OF k'(2)] by (simp add: own_entries_def)
  qed
qed

lemma nearest_like: "wf_links w \<Longrightarrow> like w w' \<Longrightarrow> class_at c w = Some k \<Longrightarrow> nearest w' c = nearest w c"
  using up_like [of w w' c k] own_entries_like [of w w'] by (simp add: nearest_def)

definition cached :: "world \<Rightarrow> nat \<Rightarrow> hashelem list \<Rightarrow> bool" where
  "cached w c t \<longleftrightarrow> table_ok t \<and> (\<forall>p. p \<noteq> 0 \<longrightarrow> (case look t p of None \<Rightarrow> nearest w c p = None
     | Some v \<Rightarrow> \<not> zombie w (fst v) \<longrightarrow> nearest w c p = Some v))"

definition wf_world :: "world \<Rightarrow> bool" where
  "wf_world w \<longleftrightarrow> wf_links w \<and> (\<forall>c k. class_at c w = Some k \<longrightarrow> hashok k \<longrightarrow> cached w c (hashtable k))"

end
