(* ===== verification/ClassCache.thy ===== *)
theory ClassCache
  imports ClassLaws
begin

text \<open>The operations on the caches: \<open>clear_hashok\<close> clears a class and all that inherit from it, \<open>update_hashtable\<close>
  builds a table of the nearest live methods, \<open>getmethod\<close> answers from it.\<close>

section \<open>Clearing\<close>

definition unhash :: "nat set \<Rightarrow> world \<Rightarrow> world" where
  "unhash S w = w\<lparr>classes := map (\<lambda>c. if c \<in> S then map_option (\<lambda>k. k\<lparr>hashok := False\<rparr>) (classes w ! c) else classes w ! c)
     [0..<length (classes w)]\<rparr>"

definition heirs :: "world \<Rightarrow> nat \<Rightarrow> nat set" where
  "heirs w c = {d. class_at d w \<noteq> None \<and> c \<in> set (up w d)}"

lemma class_at_unhash: "class_at c (unhash S w) = (if c \<in> S then map_option (\<lambda>k. k\<lparr>hashok := False\<rparr>) (class_at c w) else class_at c w)"
  by (simp add: class_at_def unhash_def)

lemma put_unhash:
  assumes "class_at c w = Some k"
  shows "put_class c ((if c \<in> S then k\<lparr>hashok := False\<rparr> else k)\<lparr>hashok := False\<rparr>) (unhash S w) = unhash (insert c S) w"
proof -
  have "classes w ! c = Some k" "c < length (classes w)" using assms by (simp_all add: class_at_def split: if_splits)
  then show ?thesis unfolding put_class_def unhash_def
    by (simp, intro arg_cong [where f = "\<lambda>l. w\<lparr>classes := l\<rparr>"] nth_equalityI) (auto simp: nth_list_update)
qed

lemma unhash_empty [simp]: "unhash {} w = w"
  by (simp add: unhash_def map_nth)

lemma unhash_like: "like w (unhash S w)"
proof -
  have "rel_option (trimmed w) (class_at c w) (class_at c (unhash S w))" for c
    by (cases "class_at c w") (auto simp: class_at_unhash trimmed_def core_def live_methods_def)
  then show ?thesis by (simp add: like_def unhash_def)
qed

lemma heirs_split:
  assumes "wf_links w" "class_at c w = Some k"
  shows "heirs w c = insert c (\<Union>d \<in> set (subs k). heirs w d)"
proof -
  have own: "c \<in> heirs w c" using assms(2) by (simp add: heirs_def up.simps [of w c])
  have below: "d \<in> insert c (\<Union>e \<in> set (subs k). heirs w e)" if "class_at d w = Some kd" "c \<in> set (up w d)" for d kd
    using assms(1) that
  proof (induction rule: hierarchy_induct)
    case (sub d kd s ks)
    show ?case
    proof (cases "c = s")
      case True
      then have "d \<in> set (subs k)" using sub.hyps(4,5) assms(2) by simp
      moreover have "d \<in> heirs w d" using sub.hyps(1) by (simp add: heirs_def up.simps [of w d])
      ultimately show ?thesis by blast
    next
      case False
      show ?thesis
      proof (cases "c = d")
        case False
        then have "c \<in> set (up w s)" using sub.prems sub.hyps(7) by simp
        then have "s \<in> (\<Union>e \<in> set (subs k). heirs w e)" using sub.IH \<open>c \<noteq> s\<close> by simp
        then obtain e where "e \<in> set (subs k)" "e \<in> set (up w s)" by (auto simp: heirs_def)
        then have "d \<in> heirs w e" using sub.hyps(1,7) by (simp add: heirs_def)
        then show ?thesis using \<open>e \<in> set (subs k)\<close> by blast
      qed simp
    qed
  qed simp
  have above: "heirs w d \<subseteq> heirs w c" if dk: "d \<in> set (subs k)" for d
  proof
    fix x assume "x \<in> heirs w d"
    then obtain kx where x: "class_at x w = Some kx" "d \<in> set (up w x)" by (auto simp: heirs_def)
    obtain kd where kd: "class_at d w = Some kd" "csuper kd = Some c" using child [OF assms dk] by blast
    have "c \<in> set (up w x)" using assms(1) x
    proof (induction rule: hierarchy_induct)
      case (root x kx)
      then show ?case using kd by simp
    next
      case (sub x kx s ks)
      show ?case
      proof (cases "x = d")
        case True
        then have "s = c" using sub.hyps(1,2) kd by simp
        then show ?thesis using sub.hyps(7) by (simp add: up.simps [of w c])
      qed (use sub in simp)
    qed
    then show "x \<in> heirs w c" using x(1) by (simp add: heirs_def)
  qed
  have "heirs w c \<subseteq> insert c (\<Union>d \<in> set (subs k). heirs w d)"
  proof
    fix x assume "x \<in> heirs w c"
    then obtain kx where "class_at x w = Some kx" "c \<in> set (up w x)" by (auto simp: heirs_def)
    then show "x \<in> insert c (\<Union>d \<in> set (subs k). heirs w d)" by (rule below)
  qed
  then show ?thesis using own above by blast
qed

lemma clear_rec_exact:
  assumes "wf_links w"
  shows "class_at c w = Some k \<Longrightarrow> length (classes w) \<le> n + c \<Longrightarrow> clear_hashok_rec n c (unhash S w) = Inr (unhash (S \<union> heirs w c) w)"
proof (induction n arbitrary: c k S)
  case 0
  then show ?case using class_at_length by fastforce
next
  case (Suc n)
  have d: "deref c (unhash S w) = Inr (if c \<in> S then k\<lparr>hashok := False\<rparr> else k)"
    using Suc.prems(1) by (simp add: deref_class_at class_at_unhash)
  have fold: "res_fold (clear_hashok_rec n) ds (unhash T w) = Inr (unhash (T \<union> (\<Union>d \<in> set ds. heirs w d)) w)"
    if "set ds \<subseteq> set (subs k)" for ds T
    using that
  proof (induction ds arbitrary: T)
    case (Cons e ds)
    obtain ke where ke: "class_at e w = Some ke" "c < e" using child [OF assms Suc.prems(1)] Cons.prems by auto
    have "clear_hashok_rec n e (unhash T w) = Inr (unhash (T \<union> heirs w e) w)"
      using Suc.IH [OF ke(1)] Suc.prems(2) ke(2) by simp
    then show ?case using Cons by (simp add: Un_assoc)
  qed simp
  have "insert c S \<union> (\<Union>d \<in> set (subs k). heirs w d) = S \<union> heirs w c"
    using heirs_split [OF assms Suc.prems(1)] by blast
  then show ?case using fold [of "subs k" "insert c S"] put_unhash [OF Suc.prems(1), of S] by (simp add: d)
qed

lemma clear_exact: "wf_links w \<Longrightarrow> class_at c w = Some k \<Longrightarrow> clear_hashok c w = Inr (unhash (heirs w c) w)"
  using clear_rec_exact [of w c k "length (classes w)" "{}"] by (simp add: clear_hashok_def)

section \<open>Building the table of methods\<close>

lemma grab_methods_exact:
  "grab_methods dead sf ms t = (r, ms') \<Longrightarrow> r = mt.fill (map (\<lambda>(p, f). (p, f, sf)) (filter (\<lambda>(p, f). f \<noteq> 0 \<and> \<not> dead f) ms)) t \<and>
    filter (\<lambda>(p, f). f \<noteq> 0 \<and> \<not> dead f) ms' = filter (\<lambda>(p, f). f \<noteq> 0 \<and> \<not> dead f) ms \<and> subseq ms' ms"
proof (induction dead sf ms t arbitrary: r ms' rule: grab_methods.induct)
  case (2 dead sf pr v ms t)
  show ?case
  proof (cases "v = 0 \<or> dead v")
    case True
    then show ?thesis using 2 by auto
  next
    case False
    show ?thesis
    proof (cases "insert_method pr (v, sf) t")
      case None
      then show ?thesis using False 2 by auto
    next
      case (Some t1)
      obtain r1 ms1 where g: "grab_methods dead sf ms t1 = (r1, ms1)" by fastforce
      then show ?thesis using False Some 2 by auto
    qed
  qed
qed simp

lemma grab_classes_exact:
  "\<forall>c \<in> set cs. class_at c w \<noteq> None \<Longrightarrow> \<exists>r w'. grab_classes cs t w = Inr (r, w') \<and> like w w' \<and>
    r = mt.fill (concat (map (own_entries w) cs)) t \<and>
    (\<forall>c k k'. class_at c w = Some k \<longrightarrow> class_at c w' = Some k' \<longrightarrow> hashok k' = hashok k \<and> hashtable k' = hashtable k)"
proof (induction cs arbitrary: t w)
  case (Cons c cs)
  obtain k where k: "class_at c w = Some k" using Cons.prems by auto
  have d: "deref c w = Inr k" using k by (simp add: deref_class_at)
  obtain r ms where g: "grab_methods (zombie w) (slotssofar k) (methods k) t = (r, ms)" by fastforce
  note e = grab_methods_exact [OF g]
  let ?w = "put_class c (k\<lparr>methods := ms\<rparr>) w"
  have r: "r = mt.fill (own_entries w c) t" using e k by (simp add: own_entries_def live_methods_def)
  have tr: "trimmed w k (k\<lparr>methods := ms\<rparr>)" using e by (simp add: trimmed_def core_def live_methods_def)
  have l: "like w ?w" by (rule like_put [OF k tr])
  have h: "\<forall>c k k'. class_at c w = Some k \<longrightarrow> class_at c ?w = Some k' \<longrightarrow> hashok k' = hashok k \<and> hashtable k' = hashtable k"
    using k by simp
  show ?case
  proof (cases r)
    case None
    then show ?thesis using d g l h r by (auto simp: mt.fill_append)
  next
    case (Some t1)
    have "\<forall>c \<in> set cs. class_at c ?w \<noteq> None" using Cons.prems k by simp
    from Cons.IH [OF this, of t1] obtain r1 w1 where w1: "grab_classes cs t1 ?w = Inr (r1, w1)" "like ?w w1"
      "r1 = mt.fill (concat (map (own_entries ?w) cs)) t1"
      "\<forall>c k k'. class_at c ?w = Some k \<longrightarrow> class_at c w1 = Some k' \<longrightarrow> hashok k' = hashok k \<and> hashtable k' = hashtable k" by blast
    have "mt.fill (own_entries w c) t = Some t1" using r Some by simp
    then have "r1 = mt.fill (concat (map (own_entries w) (c # cs))) t"
      using w1(3) own_entries_like [OF l] by (simp add: mt.fill_append)
    moreover have "grab_classes (c # cs) t w = Inr (r1, w1)" using d g Some w1(1) by simp
    moreover have "\<forall>c k k'. class_at c w = Some k \<longrightarrow> class_at c w1 = Some k' \<longrightarrow> hashok k' = hashok k \<and> hashtable k' = hashtable k"
      using h w1(4) like_class [OF l] by metis
    ultimately show ?thesis using like_trans [OF l w1(2)] by blast
  qed
qed (auto intro: exI)

text \<open>The table is built or the error says why not.\<close>

definition table_errors :: "lush_error set" where
  "table_errors = {Lush ''No memory'', Undef ''size of the table of methods overflows''}"

definition hash_fields :: "lclass \<Rightarrow> hashelem list \<times> bool" where
  "hash_fields k = (hashtable k, hashok k)"

definition only_cache :: "nat \<Rightarrow> world \<Rightarrow> world \<Rightarrow> bool" where
  "only_cache cl w w' \<longleftrightarrow> like w w' \<and>
     (\<forall>c k k'. c \<noteq> cl \<longrightarrow> class_at c w = Some k \<longrightarrow> class_at c w' = Some k' \<longrightarrow> hash_fields k' = hash_fields k)"

lemma only_cache_trans: "only_cache cl w w1 \<Longrightarrow> only_cache cl w1 w2 \<Longrightarrow> only_cache cl w w2"
  unfolding only_cache_def using like_trans like_class by metis

lemma restart_exact:
  assumes "wf_links w" "class_at cl w = Some k"
  shows "(\<exists>e \<in> table_errors. restart mem (up w cl) cl n w = Inl e) \<or>
    (\<exists>w' k' sz. restart mem (up w cl) cl n w = Inr w' \<and> only_cache cl w w' \<and> class_at cl w' = Some k' \<and> hashok k' \<and>
      4 \<le> sz \<and> mt.fill (concat (map (own_entries w) (up w cl))) (empty_table sz) = Some (hashtable k')) \<or> n = 0"
  using assms
proof (induction "30 - n" arbitrary: n w k)
  case 0
  then have "restart mem (up w cl) cl n w = Inl (Undef ''size of the table of methods overflows'')"
    by (subst restart.simps) simp
  then show ?case by (simp add: table_errors_def)
next
  case (Suc m)
  let ?k = "dispose_hashtable k"
  let ?w = "put_class cl ?k w"
  have d: "deref cl w = Inr k" using Suc.prems(2) by (simp add: deref_class_at)
  have tr: "trimmed w k ?k" by (simp add: trimmed_def core_def live_methods_def dispose_hashtable_def)
  have l: "like w ?w" by (rule like_put [OF Suc.prems(2) tr])
  have o: "only_cache cl w ?w" using l Suc.prems(2) by (simp add: only_cache_def)
  have n: "\<not> 30 \<le> n" using Suc.hyps(2) by simp
  have at: "class_at cl ?w = Some ?k" using Suc.prems(2) by simp
  have lv: "\<forall>c \<in> set (up w cl). class_at c ?w \<noteq> None"
    using up_live [OF Suc.prems] like_None [OF l] by metis
  show ?case
  proof (cases "mem (2 ^ Suc n)")
    case False
    have "restart mem (up w cl) cl n w = Inl (Lush ''No memory'')"
      using n d False by (subst restart.simps) (simp add: Let_def)
    then show ?thesis by (simp add: table_errors_def)
  next
    case True
    obtain r w1 where w1: "grab_classes (up w cl) (empty_table (2 ^ Suc n)) ?w = Inr (r, w1)" "like ?w w1"
      "r = mt.fill (concat (map (own_entries ?w) (up w cl))) (empty_table (2 ^ Suc n))"
      "\<forall>c k k'. class_at c ?w = Some k \<longrightarrow> class_at c w1 = Some k' \<longrightarrow> hashok k' = hashok k \<and> hashtable k' = hashtable k"
      using grab_classes_exact [OF lv] by blast
    have o1: "only_cache cl w w1"
      by (rule only_cache_trans [OF o]) (use w1(2,4) in \<open>simp add: only_cache_def hash_fields_def\<close>)
    obtain k1 where k1: "class_at cl w1 = Some k1" using like_class [OF w1(2) at] by blast
    have lw: "like w w1" using o1 by (simp add: only_cache_def)
    show ?thesis
    proof (cases r)
      case None
      have s: "restart mem (up w cl) cl n w = restart mem (up w1 cl) cl (Suc n) w1"
        using n d True w1(1) None up_like [OF Suc.prems(1) lw Suc.prems(2)]
        by (subst restart.simps) (simp add: Let_def)
      have "m = 30 - Suc n" using Suc.hyps(2) by simp
      from Suc.hyps(1) [OF this wf_links_like [OF Suc.prems(1) lw] k1] show ?thesis
        unfolding s own_entries_like [OF lw] up_like [OF Suc.prems(1) lw Suc.prems(2)]
        using only_cache_trans [OF o1] by auto
    next
      case (Some t)
      let ?k1 = "k1\<lparr>hashtable := t, hashok := True\<rparr>"
      let ?w1 = "put_class cl ?k1 w1"
      have "like w1 ?w1" by (rule like_put [OF k1]) (simp add: trimmed_def core_def live_methods_def)
      then have "only_cache cl w1 ?w1" using k1 by (simp add: only_cache_def)
      then have "only_cache cl w ?w1" by (rule only_cache_trans [OF o1])
      moreover have "restart mem (up w cl) cl n w = Inr ?w1"
        using n d True w1(1) Some k1 by (subst restart.simps) (simp add: Let_def deref_class_at [symmetric])
      moreover have "class_at cl ?w1 = Some ?k1" using k1 by simp
      moreover have "n \<noteq> 0 \<Longrightarrow> 4 \<le> (2 :: nat) ^ Suc n" by (cases n) simp_all
      moreover have "mt.fill (concat (map (own_entries w) (up w cl))) (empty_table (2 ^ Suc n)) = Some t"
        using w1(3) Some own_entries_like [OF l] by simp
      moreover have "hashok ?k1" "hashtable ?k1 = t" by simp_all
      ultimately show ?thesis by metis
    qed
  qed
qed

lemma grow_size_least: "n \<le> grow_size m n"
  by (induction m n rule: grow_size.induct) (subst grow_size.simps, auto)

lemma count_methods_ok:
  assumes "\<forall>c \<in> set cs. class_at c w \<noteq> None"
  shows "\<exists>n. count_methods cs w = Inr n"
proof -
  have "res_map (\<lambda>c. res_bind (deref c w) (\<lambda>k. Inr (length (methods k)))) cs = Inr (map (\<lambda>c. length (methods (the (class_at c w)))) cs)"
  proof (rule res_map_Inr)
    fix c assume "c \<in> set cs"
    then obtain k where "class_at c w = Some k" using assms by blast
    then have "deref c w = Inr k" "the (class_at c w) = k" by (simp_all add: deref_class_at)
    then show "res_bind (deref c w) (\<lambda>k. Inr (length (methods k))) = Inr (length (methods (the (class_at c w))))" by simp
  qed
  then show ?thesis by (simp add: count_methods_def)
qed

lemma entries_keys:
  assumes "wf_links w"
  shows "\<forall>(p, v) \<in> set (concat (map (own_entries w) cs)). p \<noteq> 0 \<and> fst v \<noteq> 0"
proof -
  have "p \<noteq> 0 \<and> fst v \<noteq> 0" if "(p, v) \<in> set (own_entries w c)" for p v c
  proof (cases "class_at c w")
    case (Some k)
    then have "wf_methods (methods k)" using wf_linksD [OF assms] by blast
    then show ?thesis using that Some by (auto simp: own_entries_def live_methods_def wf_methods_def)
  qed (use that in \<open>simp add: own_entries_def\<close>)
  then show ?thesis by fastforce
qed

lemma update_exact:
  assumes "wf_links w" "class_at cl w = Some k"
  shows "(\<exists>e \<in> table_errors. update_hashtable mem cl w = Inl e) \<or>
    (\<exists>w' k'. update_hashtable mem cl w = Inr w' \<and> only_cache cl w w' \<and> class_at cl w' = Some k' \<and> hashok k' \<and>
      table_ok (hashtable k') \<and> (\<forall>p. p \<noteq> 0 \<longrightarrow> look (hashtable k') p = nearest w cl p))"
proof -
  obtain n where n: "count_methods (up w cl) w = Inr n"
    using count_methods_ok [of "up w cl" w] up_live [OF assms] by blast
  have "4 \<le> grow_size n 4" by (rule grow_size_least)
  then have g: "grow_size n 4 \<noteq> 0" by simp
  have u: "update_hashtable mem cl w = restart mem (up w cl) cl (grow_size n 4) w"
    using n lineage_up [OF assms] by (simp add: update_hashtable_def)
  have full: "table_ok t \<and> (\<forall>p. look t p = nearest w cl p)"
    if "4 \<le> sz" "mt.fill (concat (map (own_entries w) (up w cl))) (empty_table sz) = Some t" for sz t
    using mt.fill_ok [OF empty_table_ok [OF that(1)] entries_keys [OF assms(1)] that(2)] look_empty [OF that(1)]
    by (simp add: nearest_def)
  show ?thesis using restart_exact [OF assms, of mem "grow_size n 4"] g full unfolding u by blast
qed

lemma cached_like:
  assumes "wf_links w" "like w w'" "class_at c w = Some k"
  shows "cached w' c t = cached w c t"
  unfolding cached_def nearest_like [OF assms] zombie_like [OF assms(2)] by (rule refl)

lemma wf_world_only_cache:
  assumes "wf_world w" "only_cache cl w w'" "\<And>k'. class_at cl w' = Some k' \<Longrightarrow> hashok k' \<Longrightarrow> cached w' cl (hashtable k')"
  shows "wf_world w'"
proof -
  have l: "like w w'" "wf_links w" using assms(1,2) by (simp_all add: only_cache_def wf_world_def)
  have "cached w' c (hashtable k')" if h: "class_at c w' = Some k'" "hashok k'" for c k'
  proof (cases "c = cl")
    case False
    obtain k where k: "class_at c w = Some k" using like_back [OF l(1) h(1)] by blast
    then have "hash_fields k' = hash_fields k" using False assms(2) h(1) by (simp add: only_cache_def)
    then have "cached w c (hashtable k')" using assms(1) k h(2) by (auto simp: wf_world_def hash_fields_def)
    then show ?thesis using cached_like [OF l(2,1) k] by simp
  qed (use assms(3) h in simp)
  then show ?thesis using wf_links_like [OF l(2,1)] by (simp add: wf_world_def)
qed

lemma wf_world_unhash:
  assumes "wf_world w"
  shows "wf_world (unhash S w)"
proof -
  have "cached (unhash S w) c (hashtable k')" if h: "class_at c (unhash S w) = Some k'" "hashok k'" for c k'
  proof -
    obtain k where k: "class_at c w = Some k" "hashtable k' = hashtable k" "hashok k"
      using h by (auto simp: class_at_unhash split: if_splits)
    then show ?thesis using assms cached_like [OF _ unhash_like k(1)] by (simp add: wf_world_def)
  qed
  then show ?thesis using assms wf_links_like [OF _ unhash_like] by (simp add: wf_world_def)
qed

lemma look_find:
  assumes "p \<noteq> 0"
  shows "map_option (\<lambda>hx. stored (t ! hx)) (find_slot t (HASH p (length t)) p) = look t p"
  using assms by (simp add: look_def)

text \<open>A lookup in an up-to-date table.\<close>

lemma getmethod_hit:
  assumes "class_at cl w = Some k" "hashok k" "table_ok (hashtable k)" "p \<noteq> 0"
    "\<And>v. look (hashtable k) p = Some v \<Longrightarrow> \<not> zombie w (fst v)"
  shows "\<exists>h. getmethod_rec (Suc n) mem cl p w = Inr (h, w) \<and> map_option stored h = look (hashtable k) p"
proof -
  have d: "deref cl w = Inr k" using assms(1) by (simp add: deref_class_at)
  have t: "hashtable k \<noteq> []" using assms(3) by (auto simp: table_ok_def)
  show ?thesis
  proof (cases "find_slot (hashtable k) (HASH p (length (hashtable k))) p")
    case None
    then show ?thesis using d t assms(2,4) by (simp add: look_def)
  next
    case (Some hx)
    then have "look (hashtable k) p = Some (stored (hashtable k ! hx))" using assms(4) by (simp add: look_def)
    then have "\<not> zombie w (hfunction (hashtable k ! hx))" using assms(5) by (fastforce simp: stored_def)
    then show ?thesis using d t assms(2,4) Some by (simp add: look_def Let_def)
  qed
qed

lemma nearest_live: "nearest w c p = Some v \<Longrightarrow> \<not> zombie w (fst v)"
proof -
  assume "nearest w c p = Some v"
  then obtain d where "(p, v) \<in> set (own_entries w d)" by (auto simp: nearest_def dest!: map_of_SomeD)
  then show ?thesis by (auto simp: own_entries_def live_methods_def split: option.splits)
qed

lemma getmethod_fresh:
  assumes "wf_world w" "class_at cl w = Some k" "\<not> hashok k" "p \<noteq> 0"
  shows "(\<exists>e \<in> table_errors. getmethod_rec (Suc n) mem cl p w = Inl e) \<or>
    (\<exists>h w'. getmethod_rec (Suc n) mem cl p w = Inr (h, w') \<and> like w w' \<and> wf_world w' \<and> map_option stored h = nearest w cl p)"
proof -
  have l: "wf_links w" using assms(1) by (simp add: wf_world_def)
  have d: "deref cl w = Inr k" using assms(2) by (simp add: deref_class_at)
  show ?thesis
  proof (cases "\<exists>e \<in> table_errors. update_hashtable mem cl w = Inl e")
    case True
    then show ?thesis using d assms(3) by auto
  next
    case False
    then obtain w' k' where u: "update_hashtable mem cl w = Inr w'" "only_cache cl w w'" "class_at cl w' = Some k'" "hashok k'"
      "table_ok (hashtable k')" "\<forall>p. p \<noteq> 0 \<longrightarrow> look (hashtable k') p = nearest w cl p"
      using update_exact [OF l assms(2)] by blast
    have lk: "like w w'" using u(2) by (simp add: only_cache_def)
    have n: "nearest w' cl = nearest w cl" by (rule nearest_like [OF l lk assms(2)])
    have live: "look (hashtable k') p = Some v \<Longrightarrow> \<not> zombie w' (fst v)" for v
      using u(6) assms(4) nearest_live [of w cl p v] zombie_like [OF lk] by simp
    obtain h where h: "getmethod_rec (Suc n) mem cl p w' = Inr (h, w')" "map_option stored h = look (hashtable k') p"
      using getmethod_hit [OF u(3,4,5) assms(4) live] by blast
    have d': "deref cl w' = Inr k'" using u(3) by (simp add: deref_class_at)
    have "getmethod_rec (Suc n) mem cl p w = getmethod_rec (Suc n) mem cl p w'"
      using d d' u(1,4) assms(3) by simp
    moreover have "cached w' cl (hashtable k')" using u(5,6) n by (auto simp: cached_def split: option.split)
    then have "wf_world w'" using wf_world_only_cache [OF assms(1) u(2)] u(3) by simp
    ultimately show ?thesis using h lk u(6) assms(4) by auto
  qed
qed

lemma getmethod_exact:
  assumes "wf_world w" "class_at cl w = Some k" "p \<noteq> 0"
  shows "(\<exists>e \<in> table_errors. getmethod mem cl p w = Inl e) \<or>
    (\<exists>h w'. getmethod mem cl p w = Inr (h, w') \<and> like w w' \<and> wf_world w' \<and> map_option stored h = nearest w cl p)"
proof (cases "hashok k")
  case False
  then show ?thesis using getmethod_fresh [OF assms(1,2) _ assms(3)] unfolding getmethod_def numeral_2_eq_2 by blast
next
  case True
  have c: "cached w cl (hashtable k)" "table_ok (hashtable k)" "wf_links w"
    using assms(1,2) True by (auto simp: wf_world_def cached_def)
  show ?thesis
  proof (cases "\<exists>v. look (hashtable k) p = Some v \<and> zombie w (fst v)")
    case False
    moreover have "case look (hashtable k) p of None \<Rightarrow> nearest w cl p = None | Some v \<Rightarrow> \<not> zombie w (fst v) \<longrightarrow> nearest w cl p = Some v"
      using c(1) assms(3) unfolding cached_def by blast
    ultimately have "look (hashtable k) p = nearest w cl p" by (cases "look (hashtable k) p") auto
    moreover obtain h where "getmethod mem cl p w = Inr (h, w)" "map_option stored h = look (hashtable k) p"
      using getmethod_hit [OF assms(2) True c(2) assms(3), where n = "Suc 0" and mem = mem] False unfolding getmethod_def numeral_2_eq_2 by blast
    ultimately show ?thesis using assms(1) by auto
  next
    case True': True
    then obtain hx where hx: "find_slot (hashtable k) (HASH p (length (hashtable k))) p = Some hx" "zombie w (hfunction (hashtable k ! hx))"
      using assms(3) by (auto simp: look_def stored_def)
    let ?w = "unhash (heirs w cl) w"
    have "hx < length (hashtable k)" "hsymbol (hashtable k ! hx) = p"
      using find_slot_Some [OF hx(1)] HASH_less [of "length (hashtable k)" p] c(2) by (auto simp: table_ok_def)
    then have f: "hfunction (hashtable k ! hx) \<noteq> 0" using c(2) assms(3) by (auto simp: table_ok_def)
    have t: "hashtable k \<noteq> []" using c(2) by (auto simp: table_ok_def)
    have d: "deref cl w = Inr k" using assms(2) by (simp add: deref_class_at)
    have e: "getmethod mem cl p w = getmethod_rec (Suc 0) mem cl p ?w"
      using d t True hx f clear_exact [OF c(3) assms(2)] unfolding getmethod_def numeral_2_eq_2 by (simp add: Let_def)
    have "cl \<in> heirs w cl" using heirs_split [OF c(3) assms(2)] by blast
    then have k: "class_at cl ?w = Some (k\<lparr>hashok := False\<rparr>)" using assms(2) by (simp add: class_at_unhash)
    have l: "like w ?w" by (rule unhash_like)
    have n: "nearest ?w cl = nearest w cl" by (rule nearest_like [OF c(3) l assms(2)])
    show ?thesis using getmethod_fresh [OF wf_world_unhash [OF assms(1)] k _ assms(3), of 0 mem] like_trans [OF l]
      unfolding e n by auto
  qed
qed

section \<open>Methods\<close>

lemma put_loop_keys: "set (map fst (put_loop name value ms)) \<subseteq> insert name (set (map fst ms))"
  by (induction ms) (force split: if_splits)+

lemma put_loop_ok:
  assumes "wf_methods ms" "name \<noteq> 0"
  shows "wf_methods (put_loop name value ms) \<and>
    map_of (put_loop name value ms) = (map_of ms)(name := (if value = 0 then None else Some value))"
  using assms(1)
proof (induction ms)
  case Nil
  then show ?case using assms(2) by (auto simp: wf_methods_def)
next
  case (Cons x ms)
  obtain q f where x: "x = (q, f)" by (cases x)
  have w: "wf_methods ms" "q \<notin> set (map fst ms)" "q \<noteq> 0" "f \<noteq> 0" using Cons.prems by (auto simp: wf_methods_def x)
  have IH: "wf_methods (put_loop name value ms)" "map_of (put_loop name value ms) = (map_of ms)(name := (if value = 0 then None else Some value))"
    using Cons.IH [OF w(1)] by blast+
  show ?case
  proof (cases "q = name")
    case True
    have "map_of ms name = None" using w(2) True by (simp add: map_of_eq_None_iff)
    then show ?thesis using True w assms(2) by (auto simp: x wf_methods_def fun_eq_iff)
  next
    case False
    have "q \<notin> set (map fst (put_loop name value ms))" using put_loop_keys [of name "value" ms] w(2) False by blast
    then show ?thesis using False IH w by (auto simp: x wf_methods_def fun_eq_iff)
  qed
qed

end
