(* ===== verification/ClassSteps.thy ===== *)
theory ClassSteps
  imports ClassCache
begin

text \<open>Each operation keeps the invariants of the classes: the hierarchy, the cached tables, and the type of the
  instances, whose slots are those of their class and of its superclasses.\<close>

section \<open>Instances\<close>

definition keys_of :: "world \<Rightarrow> nat \<Rightarrow> nat list" where
  "keys_of w c = (case class_at c w of None \<Rightarrow> [] | Some k \<Rightarrow> keylist k)"

definition slot_names :: "world \<Rightarrow> nat \<Rightarrow> nat list" where
  "slot_names w c = concat (map (keys_of w) (up w c))"

definition typed :: "world \<Rightarrow> bool" where
  "typed w \<longleftrightarrow> (\<forall>a. detail (atoms w a) = Instance \<longrightarrow> (\<exists>c. aclass (atoms w a) = Some c \<and> class_at c w \<noteq> None \<and>
     map fst (ostore w a) = slot_names w c))"

lemma length_slot_names:
  assumes wl: "wf_links w" and k: "class_at c w = Some k"
  shows "length (slot_names w c) = slotssofar k"
  using assms
proof (induction rule: hierarchy_induct)
  case (root c k)
  then show ?case using wf_linksD [OF wl root.hyps(1)] by (simp add: slot_names_def keys_of_def linked_def)
next
  case (sub c k s ks)
  then show ?case by (simp add: slot_names_def keys_of_def)
qed

section \<open>Changes that leave a class and its superclasses alone\<close>

definition same_line :: "world \<Rightarrow> world \<Rightarrow> nat \<Rightarrow> bool" where
  "same_line w w' c \<longleftrightarrow> (\<forall>d \<in> set (up w c). rel_option (\<lambda>k k'. csuper k' = csuper k \<and> keylist k' = keylist k)
     (class_at d w) (class_at d w'))"

lemma up_same: "same_line w w' c \<Longrightarrow> up w' c = up w c"
proof (induction w c rule: up.induct)
  case (1 w c)
  have r: "rel_option (\<lambda>k k'. csuper k' = csuper k \<and> keylist k' = keylist k) (class_at c w) (class_at c w')"
    using "1.prems" by (simp add: same_line_def up.simps [of w c])
  show ?case
  proof (cases "class_at c w")
    case None
    then show ?thesis using r by (simp add: up.simps [of w c] up.simps [of w' c])
  next
    case (Some k)
    then obtain k' where k': "class_at c w' = Some k'" "csuper k' = csuper k" using r by (cases "class_at c w'") auto
    show ?thesis
    proof (cases "csuper k")
      case None
      then show ?thesis using Some k' by (simp add: up.simps [of w c] up.simps [of w' c])
    next
      case s: (Some s)
      show ?thesis
      proof (cases "s < c")
        case True
        then have "same_line w w' s" using "1.prems" Some s by (simp add: same_line_def up.simps [of w c])
        then show ?thesis using "1.IH" [OF Some s True] Some s k' True by (simp add: up.simps [of w c] up.simps [of w' c])
      qed (use Some s k' in \<open>simp add: up.simps [of w c] up.simps [of w' c]\<close>)
    qed
  qed
qed

lemma slot_names_same: 
  assumes "same_line w w' c"
  shows "slot_names w' c = slot_names w c"
proof -
  have "keys_of w' d = keys_of w d" if "d \<in> set (up w c)" for d
    using assms that unfolding same_line_def keys_of_def by (cases "class_at d w"; cases "class_at d w'") force+
  then show ?thesis by (simp add: slot_names_def up_same [OF assms] cong: map_cong)
qed

lemma nearest_same:
  assumes "same_line w w' c" "\<forall>d \<in> set (up w c). own_entries w' d = own_entries w d"
  shows "nearest w' c = nearest w c"
  using assms(2) by (simp add: nearest_def up_same [OF assms(1)] cong: map_cong)

text \<open>Up-to-date tables stay so when the class, its superclasses and what the table holds stay.\<close>

lemma look_in: "look t p = Some v \<Longrightarrow> table_ok t \<Longrightarrow> fst v \<in> hfunction ` set t"
proof -
  assume l: "look t p = Some v" "table_ok t"
  then obtain i where i: "find_slot t (HASH p (length t)) p = Some i" "v = stored (t ! i)" by (auto simp: look_def split: if_splits)
  have "i < length t" using find_slot_Some [OF i(1)] HASH_less [of "length t" p] l(2) by (simp add: table_ok_def)
  then show ?thesis using i(2) by (simp add: stored_def)
qed

lemma wf_world_step:
  assumes "wf_world w" "wf_links w'"
    and "\<And>c k'. class_at c w' = Some k' \<Longrightarrow> hashok k' \<Longrightarrow> \<exists>k. class_at c w = Some k \<and> hashok k \<and> hashtable k' = hashtable k \<and>
      same_line w w' c \<and> (\<forall>d \<in> set (up w c). own_entries w' d = own_entries w d) \<and>
      (\<forall>f \<in> hfunction ` set (hashtable k). zombie w' f = zombie w f)"
  shows "wf_world w'"
proof -
  have "cached w' c (hashtable k')" if h: "class_at c w' = Some k'" "hashok k'" for c k'
  proof -
    obtain k where k: "class_at c w = Some k" "hashok k" "hashtable k' = hashtable k" "same_line w w' c"
      "\<forall>d \<in> set (up w c). own_entries w' d = own_entries w d" "\<forall>f \<in> hfunction ` set (hashtable k). zombie w' f = zombie w f"
      using assms(3) [OF h] by blast
    have c: "cached w c (hashtable k)" using assms(1) k(1,2) by (simp add: wf_world_def)
    have n: "nearest w' c = nearest w c" by (rule nearest_same [OF k(4,5)])
    have z: "zombie w' (fst v) = zombie w (fst v)" if "look (hashtable k) p = Some v" for p v
      using look_in [OF that] c k(6) by (auto simp: cached_def)
    show ?thesis unfolding cached_def k(3) n
    proof (intro conjI allI impI)
      show "table_ok (hashtable k)" using c by (simp add: cached_def)
      fix p :: nat assume "p \<noteq> 0"
      then have "case look (hashtable k) p of None \<Rightarrow> nearest w c p = None | Some v \<Rightarrow> \<not> zombie w (fst v) \<longrightarrow> nearest w c p = Some v"
        using c unfolding cached_def by blast
      then show "case look (hashtable k) p of None \<Rightarrow> nearest w c p = None | Some v \<Rightarrow> \<not> zombie w' (fst v) \<longrightarrow> nearest w c p = Some v"
        using z [of p] by (cases "look (hashtable k) p") auto
    qed
  qed
  then show ?thesis using assms(2) by (simp add: wf_world_def)
qed

lemma typed_step:
  assumes "typed w"
    and "\<And>a. detail (atoms w' a) = Instance \<Longrightarrow> detail (atoms w a) = Instance \<and> aclass (atoms w' a) = aclass (atoms w a) \<and>
      map fst (ostore w' a) = map fst (ostore w a)"
    and "\<And>a c. detail (atoms w' a) = Instance \<Longrightarrow> aclass (atoms w a) = Some c \<Longrightarrow> class_at c w \<noteq> None \<Longrightarrow> same_line w w' c"
  shows "typed w'"
proof -
  have "\<exists>c. aclass (atoms w' a) = Some c \<and> class_at c w' \<noteq> None \<and> map fst (ostore w' a) = slot_names w' c"
    if i: "detail (atoms w' a) = Instance" for a
  proof -
    obtain c where c: "aclass (atoms w a) = Some c" "class_at c w \<noteq> None" "map fst (ostore w a) = slot_names w c"
      using assms(1,2) i by (fastforce simp: typed_def)
    have s: "same_line w w' c" by (rule assms(3) [OF i c(1,2)])
    have "c \<in> set (up w c)" by (simp add: up.simps [of w c])
    then have "class_at c w' \<noteq> None" using s c(2) unfolding same_line_def by (cases "class_at c w'") force+
    then show ?thesis using c assms(2) [OF i] slot_names_same [OF s] by simp
  qed
  then show ?thesis by (simp add: typed_def)
qed

section \<open>Operations on methods and functions\<close>

lemma core_csuper: "core k' = core k \<Longrightarrow> csuper k' = csuper k \<and> keylist k' = keylist k"
  using core_fields [of k' k] by simp

lemma same_line_cores:
  assumes "\<And>d. map_option core (class_at d w') = map_option core (class_at d w)"
  shows "same_line w w' c"
proof -
  have "rel_option (\<lambda>k k'. csuper k' = csuper k \<and> keylist k' = keylist k) (class_at d w) (class_at d w')" for d
  proof (cases "class_at d w")
    case None
    then show ?thesis using assms [of d] by simp
  next
    case (Some k)
    then obtain k' where k': "class_at d w' = Some k'" "core k' = core k" using assms [of d] by (cases "class_at d w'") auto
    then show ?thesis using Some core_csuper [OF k'(2)] by simp
  qed
  then show ?thesis by (simp add: same_line_def)
qed

lemma wf_links_cores:
  assumes "wf_links w" "\<And>d. map_option core (class_at d w') = map_option core (class_at d w)"
    "\<And>c k. class_at c w' = Some k \<Longrightarrow> wf_methods (methods k)"
  shows "wf_links w'"
proof -
  have there: "\<exists>k'. class_at c w' = Some k' \<and> core k' = core k" if "class_at c w = Some k" for c k
    using assms(2) [of c] that by (cases "class_at c w'") auto
  have "linked w' c k'" if h: "class_at c w' = Some k'" for c k'
  proof -
    obtain k where k: "class_at c w = Some k" "core k' = core k" using assms(2) [of c] h by (cases "class_at c w") auto
    have f: "subs k' = subs k" "keylist k' = keylist k" "defaults k' = defaults k" "csuper k' = csuper k" "slotssofar k' = slotssofar k"
      using core_fields [OF k(2)] by simp_all
    have l: "linked w c k" using wf_linksD [OF assms(1) k(1)] by blast
    have "\<exists>kd. class_at d w' = Some kd \<and> csuper kd = Some c" if "d \<in> set (subs k)" for d
    proof -
      obtain kd where "class_at d w = Some kd" "csuper kd = Some c" using child [OF assms(1) k(1) \<open>d \<in> set (subs k)\<close>] by blast
      moreover obtain kd' where "class_at d w' = Some kd'" "core kd' = core kd" using there [OF calculation(1)] by blast
      ultimately show ?thesis using core_csuper [of kd' kd] by auto
    qed
    moreover have "\<exists>ks. class_at s w' = Some ks \<and> c \<in> set (subs ks) \<and> slotssofar k = length (keylist k) + slotssofar ks"
      if h: "class_at s w = Some ks" "c \<in> set (subs ks)" "slotssofar k = length (keylist k) + slotssofar ks" for s ks
    proof -
      obtain ks' where "class_at s w' = Some ks'" "core ks' = core ks" using there [OF h(1)] by blast
      then show ?thesis using h(2,3) core_fields [of ks' ks] by auto
    qed
    ultimately show ?thesis using l unfolding linked_def f by (auto split: option.splits)
  qed
  then show ?thesis using assms(3) by (simp add: wf_links_def)
qed

lemma put_cores: "class_at c w = Some k \<Longrightarrow> core k' = core k \<Longrightarrow> map_option core (class_at d (put_class c k' w)) = map_option core (class_at d w)"
  by simp

lemma like_cores: "like w w' \<Longrightarrow> map_option core (class_at d w') = map_option core (class_at d w)"
  unfolding like_def trimmed_def by (drule conjunct2, drule conjunct2, drule conjunct2, drule spec [where x = d])
    (cases "class_at d w"; cases "class_at d w'"; simp)

lemma typed_like: "typed w \<Longrightarrow> like w w' \<Longrightarrow> typed w'"
  by (rule typed_step [of w w'], assumption, simp add: like_def, rule same_line_cores, rule like_cores)

lemma putmethod_ok:
  assumes "wf_world w" "typed w" "putmethod cl name v w = Inr w'"
  shows "wf_world w' \<and> typed w' \<and> (\<exists>k k'. class_at cl w = Some k \<and> class_at cl w' = Some k' \<and>
    map_of (methods k') = (map_of (methods k))(name := (if v = 0 then None else Some v)))"
proof -
  have wl: "wf_links w" using assms(1) by (simp add: wf_world_def)
  have n: "name \<noteq> 0" using assms(3) by (auto simp: putmethod_def split: if_splits)
  obtain w1 k1 where c: "clear_hashok cl w = Inr w1" "class_at cl w1 = Some k1"
    "w' = put_class cl (k1\<lparr>methods := put_loop name v (methods k1)\<rparr>) w1"
    using assms(3) by (auto simp: putmethod_def res_bind_Inr_iff deref_class_at split: if_splits)
  have "length (classes w) \<noteq> 0" using c(1) by (cases "length (classes w)") (simp_all add: clear_hashok_def)
  then obtain m where m: "length (classes w) = Suc m" by (cases "length (classes w)") auto
  obtain k where k: "class_at cl w = Some k"
    using c(1) unfolding clear_hashok_def m by (auto simp: res_bind_Inr_iff deref_class_at)
  have w1: "w1 = unhash (heirs w cl) w" using c(1) clear_exact [OF wl k] by simp
  have "cl \<in> heirs w cl" using heirs_split [OF wl k] by blast
  then have k1: "k1 = k\<lparr>hashok := False\<rparr>" using c(2) k by (simp add: w1 class_at_unhash)
  let ?k = "k1\<lparr>methods := put_loop name v (methods k1)\<rparr>"
  have l: "like w w1" unfolding w1 by (rule unhash_like)
  have wm: "wf_methods (methods k)" using wf_linksD [OF wl k] by blast
  have cores: "map_option core (class_at d w') = map_option core (class_at d w)" for d
    unfolding c(3) put_cores [OF c(2), of ?k, simplified core_def, simplified] like_cores [OF l, symmetric]
    using c(2) by (simp add: core_def)
  have wl': "wf_links w'"
  proof (rule wf_links_cores [OF wl cores])
    fix d kd assume d: "class_at d w' = Some kd"
    show "wf_methods (methods kd)"
    proof (cases "d = cl")
      case True
      then have "methods kd = put_loop name v (methods k)" using d c(2,3) k1 by auto
      then show ?thesis using put_loop_ok [OF wm n] by metis
    next
      case False
      then have "class_at d w1 = Some kd" using d c(2,3) by simp
      then show ?thesis using wf_linksD [OF wf_links_like [OF wl l]] by blast
    qed
  qed
  have "wf_world w'"
  proof (rule wf_world_step [OF assms(1) wl'])
    fix d kd assume d: "class_at d w' = Some kd" "hashok kd"
    have "d \<noteq> cl" using d c(2,3) k1 by auto
    then have "class_at d w1 = Some kd" using d(1) c(2,3) by simp
    then have kd: "class_at d w = Some kd" "d \<notin> heirs w cl" using d(2) by (auto simp: w1 class_at_unhash split: if_splits)
    then have "cl \<notin> set (up w d)" by (simp add: heirs_def)
    moreover have "own_entries w' e = own_entries w e" if "e \<noteq> cl" for e
    proof -
      have lm: "live_methods w' = live_methods w1" using c(3) by (simp add: live_methods_def zombie_def fun_eq_iff)
      have ce: "class_at e w' = class_at e w1" using that c(2,3) by simp
      have "own_entries w' e = own_entries w1 e" unfolding own_entries_def lm ce by (rule refl)
      then show ?thesis by (simp only: own_entries_like [OF l])
    qed
    moreover have "zombie w' = zombie w" using c(3) zombie_like [OF l] by (simp add: zombie_def fun_eq_iff)
    ultimately show "\<exists>k. class_at d w = Some k \<and> hashok k \<and> hashtable kd = hashtable k \<and> same_line w w' d \<and>
        (\<forall>e \<in> set (up w d). own_entries w' e = own_entries w e) \<and> (\<forall>f \<in> hfunction ` set (hashtable k). zombie w' f = zombie w f)"
      using kd(1) d(2) same_line_cores [OF cores] by metis
  qed
  moreover have "typed w'"
    using typed_like [OF assms(2) l] c(3)
    by (intro typed_step [OF assms(2)]) (use l same_line_cores [OF cores] in \<open>auto simp: like_def\<close>)
  ultimately show ?thesis using k c(2,3) put_loop_ok [OF wm n] k1 by auto
qed

section \<open>Cells\<close>

lemma class_at_atoms [simp]: "class_at c (w\<lparr>atoms := x\<rparr>) = class_at c w" "class_at c (w\<lparr>ostore := y\<rparr>) = class_at c w"
  "class_at c (w\<lparr>atoms := x, ostore := y\<rparr>) = class_at c w"
  by (simp_all add: class_at_def)

text \<open>The functions that the classes and their tables refer to, and so keep.\<close>

definition held :: "world \<Rightarrow> nat set" where
  "held w = {f. \<exists>c k. class_at c w = Some k \<and> (f \<in> snd ` set (methods k) \<or> f \<in> hfunction ` set (hashtable k))}"

lemma wf_world_rest:
  assumes "wf_world w" "classes w' = classes w" "\<And>f. f \<in> held w \<Longrightarrow> zombie w' f = zombie w f"
  shows "wf_world w'"
proof -
  have at: "class_at c w' = class_at c w" for c by (simp add: class_at_def assms(2))
  have wl: "wf_links w" using assms(1) by (simp add: wf_world_def)
  have own: "own_entries w' c = own_entries w c" for c
  proof (cases "class_at c w")
    case (Some k)
    have "f \<in> held w" if "(p, f) \<in> set (methods k)" for p f using Some that by (force simp: held_def)
    then have "live_methods w' k = live_methods w k" unfolding live_methods_def by (intro filter_cong) (auto simp: assms(3))
    then show ?thesis using Some by (simp add: own_entries_def at)
  qed (simp add: own_entries_def at)
  have wl': "wf_links w'" by (rule wf_links_cores [OF wl]) (use wf_linksD [OF wl] at in simp_all)
  have s: "same_line w w' c" for c by (rule same_line_cores) (simp add: at)
  show ?thesis
  proof (rule wf_world_step [OF assms(1) wl'])
    fix c k' assume c: "class_at c w' = Some k'" "hashok k'"
    have "\<forall>f \<in> hfunction ` set (hashtable k'). zombie w' f = zombie w f"
    proof
      fix f assume "f \<in> hfunction ` set (hashtable k')"
      then have "f \<in> held w" using c(1) by (auto simp: held_def at)
      then show "zombie w' f = zombie w f" by (rule assms(3))
    qed
    then show "\<exists>k. class_at c w = Some k \<and> hashok k \<and> hashtable k' = hashtable k \<and> same_line w w' c \<and>
        (\<forall>d \<in> set (up w c). own_entries w' d = own_entries w d) \<and> (\<forall>f \<in> hfunction ` set (hashtable k). zombie w' f = zombie w f)"
      using c s own by (simp add: at)
  qed
qed

lemma cell_ok:
  assumes "wf_world w" "typed w" "a \<notin> held w" "detail x \<noteq> Instance"
  shows "wf_world (w\<lparr>atoms := (atoms w)(a := x)\<rparr>) \<and> typed (w\<lparr>atoms := (atoms w)(a := x)\<rparr>)"
proof -
  let ?w = "w\<lparr>atoms := (atoms w)(a := x)\<rparr>"
  have s: "same_line w ?w c" for c by (rule same_line_cores) simp
  have "zombie ?w f = zombie w f" if "f \<in> held w" for f
  proof -
    have "f \<noteq> a" using that assms(3) by blast
    then show ?thesis by (simp add: zombie_def)
  qed
  then have "wf_world ?w" by (intro wf_world_rest [OF assms(1)]) simp_all
  moreover have "typed ?w" by (rule typed_step [OF assms(2)]) (use assms(4) s in \<open>auto split: if_splits\<close>)
  ultimately show ?thesis by blast
qed

text \<open>The death of a cell: it stays, as a zombie, while it is referred to.\<close>

definition cell_dies :: "nat \<Rightarrow> world \<Rightarrow> world" where
  "cell_dies a w = w\<lparr>atoms := (atoms w)(a := (atoms w a)\<lparr>detail := Zombie\<rparr>)\<rparr>"

lemma map_of_filter: "map_of xs p = None \<Longrightarrow> map_of (filter Q xs) p = None"
  "map_of xs p = Some v \<Longrightarrow> Q (p, v) \<Longrightarrow> map_of (filter Q xs) p = Some v"
  by (induction xs) (auto split: if_splits)

lemma cell_dies_ok:
  assumes "wf_world w" "typed w"
  shows "wf_world (cell_dies a w) \<and> typed (cell_dies a w)"
proof -
  let ?w = "cell_dies a w"
  have wl: "wf_links w" using assms(1) by (simp add: wf_world_def)
  have at: "class_at c ?w = class_at c w" for c by (simp add: cell_dies_def)
  have z: "zombie ?w f \<longleftrightarrow> f = a \<or> zombie w f" for f by (simp add: zombie_def cell_dies_def)
  have wl': "wf_links ?w" by (rule wf_links_cores [OF wl]) (use wf_linksD [OF wl] at in simp_all)
  have s: "same_line w ?w c" for c by (rule same_line_cores) (simp add: at)
  let ?Q = "\<lambda>(p, v). \<not> zombie ?w (fst v)"
  have own: "own_entries ?w c = filter ?Q (own_entries w c)" for c
  proof (cases "class_at c w")
    case (Some k)
    have "live_methods ?w k = filter (\<lambda>(p, f). \<not> zombie ?w f) (live_methods w k)"
      unfolding live_methods_def filter_filter by (rule filter_cong) (auto simp: z)
    moreover have "filter ?Q (map (\<lambda>(p, f). (p, f, n)) ms) = map (\<lambda>(p, f). (p, f, n)) (filter (\<lambda>(p, f). \<not> zombie ?w f) ms)"
      for n :: nat and ms :: "(nat \<times> nat) list" by (induction ms) auto
    ultimately show ?thesis using Some at [of c] by (simp add: own_entries_def)
  qed (simp add: own_entries_def at)
  have near: "nearest ?w c = map_of (filter ?Q (concat (map (own_entries w) (up w c))))" for c
  proof -
    have o: "own_entries ?w = (\<lambda>c. filter ?Q (own_entries w c))" by (rule ext) (rule own)
    show ?thesis unfolding nearest_def up_same [OF s] o by (simp add: filter_concat comp_def)
  qed
  have "cached ?w c t" if "cached w c t" for c t
    unfolding cached_def
  proof (intro conjI allI impI)
    show "table_ok t" using that by (simp add: cached_def)
    fix p :: nat assume "p \<noteq> 0"
    then have "case look t p of None \<Rightarrow> nearest w c p = None | Some v \<Rightarrow> \<not> zombie w (fst v) \<longrightarrow> nearest w c p = Some v"
      using that unfolding cached_def by blast
    then show "case look t p of None \<Rightarrow> nearest ?w c p = None | Some v \<Rightarrow> \<not> zombie ?w (fst v) \<longrightarrow> nearest ?w c p = Some v"
      unfolding near unfolding nearest_def
      using map_of_filter [of "concat (map (own_entries w) (up w c))" p] z by (cases "look t p") auto
  qed
  then have "wf_world ?w" using wl' assms(1) by (simp add: wf_world_def at)
  moreover have "typed ?w" by (rule typed_step [OF assms(2)]) (use s in \<open>auto simp: cell_dies_def split: if_splits\<close>)
  ultimately show ?thesis by blast
qed

section \<open>Classes\<close>

lemma up_below: "d \<in> set (up w c) \<Longrightarrow> d \<le> c"
proof (induction w c rule: up.induct)
  case (1 w c)
  then show ?case by (subst (asm) up.simps) (force split: option.splits if_splits)
qed

lemma new_ooclass_ok:
  assumes "wf_world w" "typed w" "a \<notin> held w" "new_ooclass cc a name super keys defs w = Inr (r, w')"
  shows "wf_world w' \<and> typed w'"
proof -
  have wl: "wf_links w" using assms(1) by (simp add: wf_world_def)
  obtain sc k where sc: "class_at sc w = Some k" and len: "length keys = length defs"
    and w': "w' = (put_class sc (k\<lparr>subs := length (classes w) # subs k\<rparr>) w)\<lparr>classes := classes (put_class sc (k\<lparr>subs := length (classes w) # subs k\<rparr>) w) @
      [Some \<lparr>cname = name, slotssofar = slotssofar k + length keys, keylist = keys, defaults = defs, csuper = Some sc,
             subs = [], methods = [], hashtable = [], hashok = False, inherits_object = True\<rparr>],
      atoms := (atoms w)(a := \<lparr>aclass = Some cc, detail = Class (length (classes w))\<rparr>)\<rparr>"
    using assms(4) by (auto simp: new_ooclass_def res_bind_Inr_iff deref_class_at Let_def put_class_def split: if_splits detail.splits)
  define c where "c = length (classes w)"
  define new where "new = \<lparr>cname = name, slotssofar = slotssofar k + length keys, keylist = keys, defaults = defs, csuper = Some sc,
             subs = [], methods = [], hashtable = [], hashok = False, inherits_object = True\<rparr>"
  have scc: "sc < c" using class_at_length [OF sc] by (simp add: c_def)
  have old: "class_at d w \<noteq> None \<Longrightarrow> d < c" for d using class_at_length by (auto simp: c_def)
  have at: "class_at d w' = (if d = c then Some new else if d = sc then Some (k\<lparr>subs := c # subs k\<rparr>) else class_at d w)" for d
    using scc by (auto simp: w' class_at_def put_class_def c_def new_def nth_append nth_list_update)
  have s: "same_line w w' d" if "d < c" for d
  proof -
    have "rel_option (\<lambda>k k'. csuper k' = csuper k \<and> keylist k' = keylist k) (class_at e w) (class_at e w')" if "e \<noteq> c" for e
      using that sc by (cases "class_at e w") (auto simp: at)
    then show ?thesis using up_below [of _ w d] that by (fastforce simp: same_line_def)
  qed
  have z: "zombie w' f = zombie w f" if "f \<in> held w" for f
  proof -
    have "f \<noteq> a" using that assms(3) by blast
    then show ?thesis by (simp add: zombie_def w')
  qed
  have own: "own_entries w' d = own_entries w d" if "d \<noteq> c" for d
  proof (cases "class_at d w")
    case None
    then show ?thesis using that sc at [of d] by (auto simp: own_entries_def)
  next
    case (Some kd)
    have "f \<in> held w" if "(p, f) \<in> set (methods kd)" for p f using Some that by (force simp: held_def)
    then have "live_methods w' kd = live_methods w kd" unfolding live_methods_def by (intro filter_cong) (auto simp: z)
    moreover have "live_methods w' (k\<lparr>subs := c # subs k\<rparr>) = live_methods w' k" by (simp add: live_methods_def)
    ultimately show ?thesis using Some that sc by (auto simp: own_entries_def at)
  qed
  have keep: "\<exists>k2. class_at d w' = Some k2 \<and> csuper k2 = csuper kd \<and> set (subs kd) \<subseteq> set (subs k2) \<and> slotssofar k2 = slotssofar kd"
    if "class_at d w = Some kd" for d kd
    using that old [of d] sc by (auto simp: at)
  have "wf_links w'"
    unfolding wf_links_def
  proof (intro allI impI)
    fix d kd assume d: "class_at d w' = Some kd"
    consider "d = c" "kd = new" | "d = sc" "kd = k\<lparr>subs := c # subs k\<rparr>" | "d \<noteq> c" "d \<noteq> sc" "class_at d w = Some kd"
      using d by (auto simp: at split: if_splits)
    then show "wf_methods (methods kd) \<and> linked w' d kd"
    proof cases
      case 1
      then show ?thesis using scc len by (auto simp: new_def wf_methods_def linked_def at)
    next
      case 2
      have l: "wf_methods (methods k)" "linked w sc k" using wf_linksD [OF wl sc] by simp_all
      have "c \<notin> set (subs k)" using child [OF wl sc, of c] old [of c] by auto
      moreover have "\<forall>d \<in> set (c # subs k). \<exists>kd. class_at d w' = Some kd \<and> csuper kd = Some sc"
        using l(2) keep by (fastforce simp: linked_def at new_def)
      moreover have "\<exists>ks. class_at s w' = Some ks \<and> sc \<in> set (subs ks) \<and> slotssofar k = length (keylist k) + slotssofar ks"
        if h: "class_at s w = Some ks" "sc \<in> set (subs ks)" "slotssofar k = length (keylist k) + slotssofar ks" for s ks
        using keep [OF h(1)] h(2,3) by auto
      ultimately show ?thesis using 2 l by (auto simp: linked_def split: option.splits)
    next
      case 3
      have l: "wf_methods (methods kd)" "linked w d kd" using wf_linksD [OF wl 3(3)] by simp_all
      then show ?thesis using 3 sc scc old by (fastforce simp: linked_def at split: option.splits)
    qed
  qed
  moreover have "wf_world w'" if "wf_links w'"
  proof (rule wf_world_step [OF assms(1) that])
    fix d kd assume d: "class_at d w' = Some kd" "hashok kd"
    have dc: "d \<noteq> c" using d by (auto simp: at new_def)
    obtain k0 where k0: "class_at d w = Some k0" "hashok k0" "hashtable kd = hashtable k0"
      using d dc sc by (auto simp: at split: if_splits)
    have "\<forall>f \<in> hfunction ` set (hashtable k0). zombie w' f = zombie w f"
    proof
      fix f assume "f \<in> hfunction ` set (hashtable k0)"
      then have "f \<in> held w" using k0(1) by (auto simp: held_def)
      then show "zombie w' f = zombie w f" by (rule z)
    qed
    moreover have "d < c" using old k0(1) by simp
    moreover have "\<forall>e \<in> set (up w d). own_entries w' e = own_entries w e"
      using own up_below [of _ w d] \<open>d < c\<close> by fastforce
    ultimately show "\<exists>k. class_at d w = Some k \<and> hashok k \<and> hashtable kd = hashtable k \<and> same_line w w' d \<and>
        (\<forall>e \<in> set (up w d). own_entries w' e = own_entries w e) \<and> (\<forall>f \<in> hfunction ` set (hashtable k). zombie w' f = zombie w f)"
      using k0 s by blast
  qed
  moreover have "typed w'"
  proof (rule typed_step [OF assms(2)])
    fix b d assume "class_at d w \<noteq> None"
    then show "same_line w w' d" using s old by blast
  qed (auto simp: w' split: if_splits)
  ultimately show ?thesis by blast
qed

text \<open>A class dies when nothing refers to it: it has no subclass and no instance.\<close>

lemma class_dispose_ok:
  assumes "wf_world w" "typed w" "class_dispose c w = Inr w'"
    "\<And>d kd. class_at d w = Some kd \<Longrightarrow> csuper kd \<noteq> Some c" "\<And>a. detail (atoms w a) = Instance \<Longrightarrow> aclass (atoms w a) \<noteq> Some c"
  shows "wf_world w' \<and> typed w'"
proof -
  have wl: "wf_links w" using assms(1) by (simp add: wf_world_def)
  obtain k where k: "class_at c w = Some k" using assms(3) by (auto simp: class_dispose_def res_bind_Inr_iff deref_class_at)
  have at: "class_at d w' = (if d = c then None else if csuper k = Some d
      then map_option (\<lambda>ks. ks\<lparr>subs := remove1 c (subs ks)\<rparr>) (class_at d w) else class_at d w)" for d
  proof (cases "csuper k")
    case None
    then have "w' = w\<lparr>classes := (classes w)[c := None]\<rparr>" using assms(3) k by (simp add: class_dispose_def deref_class_at [symmetric])
    then show ?thesis using None by (auto simp: class_at_def nth_list_update)
  next
    case (Some s)
    then obtain ks where ks: "s < c" "class_at s w = Some ks" using wf_linksD [OF wl k] by (auto simp: linked_def)
    then have d: "deref s w = Inr ks" by (simp add: deref_class_at)
    have "deref c w = Inr k" using k by (simp add: deref_class_at)
    then have "w' = (put_class s (ks\<lparr>subs := remove1 c (subs ks)\<rparr>) w)\<lparr>classes := (classes (put_class s (ks\<lparr>subs := remove1 c (subs ks)\<rparr>) w))[c := None]\<rparr>"
      using assms(3) Some d by (simp add: class_dispose_def Let_def)
    then show ?thesis using Some ks by (auto simp: class_at_def put_class_def nth_list_update split: if_splits)
  qed
  have rest: "atoms w' = atoms w" "ostore w' = ostore w"
  proof -
    have "deref c w = Inr k" using k by (simp add: deref_class_at)
    then have "atoms w' = atoms w \<and> ostore w' = ostore w" using assms(3)
      by (cases "csuper k"; cases "deref (the (csuper k)) w") (auto simp: class_dispose_def Let_def)
    then show "atoms w' = atoms w" "ostore w' = ostore w" by simp_all
  qed
  have "subs k = []"
  proof (rule ccontr)
    assume "subs k \<noteq> []"
    then obtain d where "d \<in> set (subs k)" by (cases "subs k") auto
    then show False using child [OF wl k] assms(4) by blast
  qed
  then have heir: "heirs w c = {c}" using heirs_split [OF wl k] by simp
  have away: "c \<notin> set (up w d)" if "class_at d w \<noteq> None" "d \<noteq> c" for d
    using that heir by (auto simp: heirs_def)
  have keep: "\<exists>kd'. class_at d w' = Some kd' \<and> csuper kd' = csuper kd \<and> keylist kd' = keylist kd \<and> slotssofar kd' = slotssofar kd \<and>
      methods kd' = methods kd \<and> hashok kd' = hashok kd \<and> hashtable kd' = hashtable kd \<and> defaults kd' = defaults kd \<and>
      subs kd' = (if csuper k = Some d then remove1 c (subs kd) else subs kd)"
    if "class_at d w = Some kd" "d \<noteq> c" for d kd
    using that by (auto simp: at)
  have s: "same_line w w' d" if "class_at d w \<noteq> None" "d \<noteq> c" for d
    unfolding same_line_def
  proof
    fix e assume "e \<in> set (up w d)"
    then have "e \<noteq> c" using away [OF that] by blast
    then show "rel_option (\<lambda>k k'. csuper k' = csuper k \<and> keylist k' = keylist k) (class_at e w) (class_at e w')"
      by (cases "class_at e w") (auto simp: at)
  qed
  have z: "zombie w' = zombie w" by (simp add: zombie_def rest fun_eq_iff)
  have own: "own_entries w' d = own_entries w d" if dc: "d \<noteq> c" for d
  proof (cases "class_at d w")
    case None
    then show ?thesis using dc at [of d] by (simp add: own_entries_def)
  next
    case (Some kd)
    then obtain kd' where "class_at d w' = Some kd'" "slotssofar kd' = slotssofar kd" "methods kd' = methods kd" using keep [OF Some dc] by blast
    then show ?thesis using Some z by (simp add: own_entries_def live_methods_def)
  qed
  have before: "\<exists>kd. class_at d w = Some kd" if "class_at d w' = Some kd'" for d kd'
    using that at [of d] by (auto split: if_splits)
  have "wf_links w'"
    unfolding wf_links_def
  proof (intro allI impI)
    fix d kd' assume d': "class_at d w' = Some kd'"
    then have dc: "d \<noteq> c" using at [of d] by auto
    obtain kd where kd: "class_at d w = Some kd" using before [OF d'] by blast
    then have f: "csuper kd' = csuper kd" "keylist kd' = keylist kd" "slotssofar kd' = slotssofar kd" "methods kd' = methods kd"
      "defaults kd' = defaults kd" "subs kd' = (if csuper k = Some d then remove1 c (subs kd) else subs kd)"
      using keep [OF kd dc] d' by auto
    have l: "wf_methods (methods kd)" "linked w d kd" using wf_linksD [OF wl kd] by simp_all
    have kids: "\<exists>k2. class_at e w' = Some k2 \<and> csuper k2 = Some d" if e: "e \<in> set (subs kd')" for e
    proof -
      have e': "e \<in> set (subs kd)" using e f(6) set_remove1_subset [of c "subs kd"] by (auto split: if_splits)
      obtain k2 where k2: "class_at e w = Some k2" "csuper k2 = Some d" using child [OF wl kd e'] by blast
      have "e \<noteq> c"
      proof
        assume "e = c"
        then have "csuper k = Some d" using k k2 by simp
        then have "subs kd' = remove1 c (subs kd)" using f(6) by simp
        then show False using e \<open>e = c\<close> l(2) by (simp add: linked_def)
      qed
      then show ?thesis using keep [OF k2(1)] k2(2) by auto
    qed
    have par: "\<exists>ks. class_at s w' = Some ks \<and> d \<in> set (subs ks) \<and> slotssofar kd = length (keylist kd) + slotssofar ks"
      if h: "csuper kd = Some s" "class_at s w = Some ks" "d \<in> set (subs ks)" "slotssofar kd = length (keylist kd) + slotssofar ks" for s ks
    proof -
      have "s \<noteq> c" using assms(4) [OF kd] h(1) by auto
      then obtain ks' where ks': "class_at s w' = Some ks'" "slotssofar ks' = slotssofar ks"
        "subs ks' = (if csuper k = Some s then remove1 c (subs ks) else subs ks)" using keep [OF h(2)] by blast
      have "d \<in> set (subs ks')" using ks'(3) h(3) dc by (simp add: in_set_remove1)
      then show ?thesis using ks' h(4) by auto
    qed
    have "distinct (subs kd')" using f(6) l(2) by (auto simp: linked_def intro: distinct_remove1)
    then have "linked w' d kd'" using l(2) kids par f(1-3,5) unfolding linked_def by (auto split: option.splits)
    then show "wf_methods (methods kd') \<and> linked w' d kd'" using l(1) f(4) by simp
  qed
  moreover have "wf_world w'" if "wf_links w'"
  proof (rule wf_world_step [OF assms(1) that])
    fix d kd' assume d: "class_at d w' = Some kd'" "hashok kd'"
    have dc: "d \<noteq> c" using d(1) at [of d] by auto
    obtain kd where kd: "class_at d w = Some kd" using before [OF d(1)] by blast
    have "\<forall>e \<in> set (up w d). own_entries w' e = own_entries w e"
      using own away [of d] kd dc by fastforce
    then show "\<exists>k. class_at d w = Some k \<and> hashok k \<and> hashtable kd' = hashtable k \<and> same_line w w' d \<and>
        (\<forall>e \<in> set (up w d). own_entries w' e = own_entries w e) \<and> (\<forall>f \<in> hfunction ` set (hashtable k). zombie w' f = zombie w f)"
      using keep [OF kd dc] kd d s [of d] dc z by auto
  qed
  moreover have "typed w'"
  proof (rule typed_step [OF assms(2)])
    fix a d assume "detail (atoms w' a) = Instance" "aclass (atoms w a) = Some d" "class_at d w \<noteq> None"
    then show "same_line w w' d" using s assms(5) [of a] rest by auto
  qed (simp add: rest)
  ultimately show ?thesis by blast
qed

section \<open>Objects\<close>

lemma class_slots_names:
  assumes "wf_links w" "class_at c w = Some k"
  shows "\<exists>s. class_slots c w = Inr s \<and> map fst s = slot_names w c"
proof -
  let ?z = "\<lambda>c. case class_at c w of None \<Rightarrow> [] | Some k \<Rightarrow> zip (keylist k) (defaults k)"
  have "res_map (\<lambda>c. res_bind (deref c w) (\<lambda>k. Inr (zip (keylist k) (defaults k)))) (up w c) = Inr (map ?z (up w c))"
  proof (rule res_map_Inr)
    fix d assume "d \<in> set (up w c)"
    then obtain kd where "class_at d w = Some kd" using up_live [OF assms] by blast
    then have "deref d w = Inr kd" "class_at d w = Some kd" by (simp_all add: deref_class_at)
    then show "res_bind (deref d w) (\<lambda>k. Inr (zip (keylist k) (defaults k))) = Inr (?z d)" by simp
  qed
  moreover have "map fst (?z d) = keys_of w d" for d
  proof (cases "class_at d w")
    case (Some kd)
    then have "length (keylist kd) = length (defaults kd)" using wf_linksD [OF assms(1) Some] by (simp add: linked_def)
    then show ?thesis using Some by (simp add: keys_of_def)
  qed (simp add: keys_of_def)
  ultimately show ?thesis using lineage_up [OF assms] by (simp add: class_slots_def slot_names_def map_concat comp_def)
qed

text \<open>Making an object never writes past its slots and leaves none of them uninitialised.\<close>

lemma new_oostruct_exact:
  assumes "wf_world w" "detail (atoms w cl) = Class c" "cl \<noteq> 0" "class_at c w = Some k" "inherits_object k"
  shows "\<exists>s. new_oostruct a cl w = Inr (w\<lparr>atoms := (atoms w)(a := \<lparr>aclass = Some c, detail = Instance\<rparr>), ostore := (ostore w)(a := s)\<rparr>) \<and>
    map fst s = slot_names w c \<and> length s = slotssofar k"
proof -
  have wl: "wf_links w" using assms(1) by (simp add: wf_world_def)
  obtain s where s: "class_slots c w = Inr s" "map fst s = slot_names w c" using class_slots_names [OF wl assms(4)] by blast
  have "length s = length (slot_names w c)" using s(2) by (metis length_map)
  then have "length s = slotssofar k" using length_slot_names [OF wl assms(4)] by simp
  moreover have "deref c w = Inr k" using assms(4) by (simp add: deref_class_at)
  ultimately show ?thesis using s assms(2,3,5) by (auto simp: new_oostruct_def)
qed

lemma new_oostruct_cases:
  assumes "new_oostruct a cl w = Inr w'"
  shows "\<exists>c k s. detail (atoms w cl) = Class c \<and> cl \<noteq> 0 \<and> class_at c w = Some k \<and> inherits_object k \<and>
    w' = w\<lparr>atoms := (atoms w)(a := \<lparr>aclass = Some c, detail = Instance\<rparr>), ostore := (ostore w)(a := s)\<rparr>"
  using assms by (auto simp: new_oostruct_def res_bind_Inr_iff deref_class_at split: detail.splits if_splits)

lemma new_oostruct_ok:
  assumes "wf_world w" "typed w" "a \<notin> held w" "new_oostruct a cl w = Inr w'"
  shows "wf_world w' \<and> typed w'"
proof -
  obtain c k where c: "detail (atoms w cl) = Class c" "cl \<noteq> 0" "class_at c w = Some k" "inherits_object k"
    using new_oostruct_cases [OF assms(4)] by blast
  obtain s where s: "w' = w\<lparr>atoms := (atoms w)(a := \<lparr>aclass = Some c, detail = Instance\<rparr>), ostore := (ostore w)(a := s)\<rparr>"
    "map fst s = slot_names w c" using new_oostruct_exact [OF assms(1) c, of a] assms(4) by auto
  have at: "class_at d w' = class_at d w" for d by (simp add: s(1))
  have names: "slot_names w' d = slot_names w d" for d by (rule slot_names_same, rule same_line_cores) (simp add: at)
  have "wf_world w'"
  proof (rule wf_world_rest [OF assms(1)])
    show "classes w' = classes w" by (simp add: s(1))
    fix f assume "f \<in> held w"
    then have "f \<noteq> a" using assms(3) by blast
    then show "zombie w' f = zombie w f" by (simp add: zombie_def s(1))
  qed
  moreover have "typed w'"
    unfolding typed_def
  proof (intro allI impI)
    fix b assume b: "detail (atoms w' b) = Instance"
    show "\<exists>c. aclass (atoms w' b) = Some c \<and> class_at c w' \<noteq> None \<and> map fst (ostore w' b) = slot_names w' c"
    proof (cases "b = a")
      case True
      have "aclass (atoms w' b) = Some c" "class_at c w' \<noteq> None" using True c(3) at [of c] by (simp_all add: s(1))
      moreover have "map fst (ostore w' b) = slot_names w c" using True s(2) by (simp add: s(1))
      ultimately show ?thesis using names [of c] by metis
    next
      case False
      then have e: "atoms w' b = atoms w b" "ostore w' b = ostore w b" by (simp_all add: s(1))
      obtain d where "aclass (atoms w b) = Some d" "class_at d w \<noteq> None" "map fst (ostore w b) = slot_names w d"
        using b assms(2) e(1) by (auto simp: typed_def)
      then show ?thesis using at [of d] names [of d] e by metis
    qed
  qed
  ultimately show ?thesis by blast
qed

lemma slot_index_name: "slot_index s slots = Some i \<Longrightarrow> i < length slots \<and> fst (slots ! i) = s"
proof -
  assume "slot_index s slots = Some i"
  then obtain js where "filter (\<lambda>i. fst (slots ! i) = s) [0..<length slots] = i # js"
    by (auto simp: slot_index_def Let_def split: list.splits)
  then have "i \<in> set (filter (\<lambda>i. fst (slots ! i) = s) [0..<length slots])" by simp
  then show ?thesis by simp
qed

lemma setslot_keeps:
  "setslot obj path v w = Inr (here, w') \<Longrightarrow> classes w' = classes w \<and> atoms w' = atoms w \<and> (\<forall>a. map fst (ostore w' a) = map fst (ostore w a))"
proof (induction obj path v w arbitrary: here w' rule: setslot.induct)
  case (2 obj s pr v w)
  obtain i here1 w1 where i: "slot_index s (ostore w obj) = Some i" "setslot (snd (ostore w obj ! i)) pr v w = Inr (here1, w1)"
    "w' = (if here1 then w1\<lparr>ostore := (ostore w1)(obj := (ostore w1 obj)[i := (s, v)])\<rparr> else w1)"
    and c: "\<not> (obj = 0 \<or> detail (atoms w obj) \<noteq> Instance)" "\<not> (s = 0 \<or> detail (atoms w s) \<noteq> Symbol)"
    using "2.prems" by (auto simp: res_bind_Inr_iff split: if_splits option.splits)
  have k: "classes w1 = classes w" "atoms w1 = atoms w" "\<forall>a. map fst (ostore w1 a) = map fst (ostore w a)"
    using "2.IH" [OF c i(1,2)] by simp_all
  have n: "i < length (ostore w obj)" "fst (ostore w obj ! i) = s" using slot_index_name [OF i(1)] by simp_all
  have m: "map fst (ostore w1 obj) = map fst (ostore w obj)" using k(3) by blast
  then have "length (ostore w1 obj) = length (ostore w obj)" by (metis length_map)
  then have "map fst (ostore w1 obj) ! i = s" using n m by simp
  then have "map fst ((ostore w1 obj)[i := (s, v)]) = map fst (ostore w obj)" using m
    by (simp add: map_update list_update_same_conv \<open>length (ostore w1 obj) = length (ostore w obj)\<close> n(1))
  then show ?case using k i(3) by auto
qed simp

lemma setslot_ok:
  assumes "wf_world w" "typed w" "setslot obj path v w = Inr (here, w')"
  shows "wf_world w' \<and> typed w'"
proof -
  have k: "classes w' = classes w" "atoms w' = atoms w" "\<forall>a. map fst (ostore w' a) = map fst (ostore w a)"
    using setslot_keeps [OF assms(3)] by simp_all
  have at: "class_at d w' = class_at d w" for d by (simp add: class_at_def k(1))
  have s: "same_line w w' c" for c by (rule same_line_cores) (simp add: at)
  have "wf_world w'" by (rule wf_world_rest [OF assms(1) k(1)]) (simp add: zombie_def k(2))
  moreover have "typed w'" by (rule typed_step [OF assms(2)]) (use k s in auto)
  ultimately show ?thesis by blast
qed

end
