(* ===== verification/ClassProps.thy ===== *)
theory ClassProps
  imports ClassSteps
begin

text \<open>The states that the operations on classes reach, and the properties of the classes and objects.\<close>

section \<open>Reachable states\<close>

definition root_class :: "nat \<Rightarrow> bool \<Rightarrow> lclass" where
  "root_class n obj = \<lparr>cname = n, slotssofar = 0, keylist = [], defaults = [], csuper = None, subs = [], methods = [],
     hashtable = [], hashok = False, inherits_object = obj\<rparr>"

definition init_world :: "nat list \<Rightarrow> (nat \<Rightarrow> atom) \<Rightarrow> world" where
  "init_world ns at = \<lparr>classes = map (\<lambda>n. Some (root_class n (n = 0))) ns, atoms = at, ostore = (\<lambda>_. [])\<rparr>"

text \<open>New cells are at addresses that no class refers to; a class dies when it has neither a subclass nor an instance.\<close>

inductive reachable_classes :: "world \<Rightarrow> bool" where
  init: "\<forall>a. detail (at a) \<noteq> Instance \<Longrightarrow> reachable_classes (init_world ns at)"
| cell: "reachable_classes w \<Longrightarrow> a \<notin> held w \<Longrightarrow> detail x \<noteq> Instance \<Longrightarrow> reachable_classes (w\<lparr>atoms := (atoms w)(a := x)\<rparr>)"
| death: "reachable_classes w \<Longrightarrow> reachable_classes (cell_dies a w)"
| put: "reachable_classes w \<Longrightarrow> putmethod cl name v w = Inr w' \<Longrightarrow> reachable_classes w'"
| lookup: "reachable_classes w \<Longrightarrow> class_at cl w = Some k \<Longrightarrow> p \<noteq> 0 \<Longrightarrow> getmethod mem cl p w = Inr (h, w') \<Longrightarrow> reachable_classes w'"
| make: "reachable_classes w \<Longrightarrow> a \<notin> held w \<Longrightarrow> new_ooclass cc a name super keys defs w = Inr (r, w') \<Longrightarrow> reachable_classes w'"
| dispose: "reachable_classes w \<Longrightarrow> class_dispose c w = Inr w' \<Longrightarrow> (\<And>d kd. class_at d w = Some kd \<Longrightarrow> csuper kd \<noteq> Some c) \<Longrightarrow>
    (\<And>a. detail (atoms w a) = Instance \<Longrightarrow> aclass (atoms w a) \<noteq> Some c) \<Longrightarrow> reachable_classes w'"
| object: "reachable_classes w \<Longrightarrow> a \<notin> held w \<Longrightarrow> new_oostruct a cl w = Inr w' \<Longrightarrow> reachable_classes w'"
| slot: "reachable_classes w \<Longrightarrow> setslot obj path v w = Inr (here, w') \<Longrightarrow> reachable_classes w'"

lemma init_world_ok: 
  assumes "\<forall>a. detail (at a) \<noteq> Instance"
  shows "wf_world (init_world ns at) \<and> typed (init_world ns at)"
proof -
  have "class_at c (init_world ns at) = Some k \<Longrightarrow> \<exists>n b. k = root_class n b" for c k
    by (auto simp: class_at_def init_world_def split: if_splits)
  then show ?thesis using assms
    by (fastforce simp: wf_world_def wf_links_def linked_def wf_methods_def root_class_def typed_def init_world_def)
qed

lemma reachable_ok:
  assumes "reachable_classes w"
  shows "wf_world w \<and> typed w"
  using assms
proof (induction rule: reachable_classes.induct)
  case (init st ns) then show ?case by (rule init_world_ok)
next
  case (cell w a x) then show ?case using cell_ok by blast
next
  case (death w a) then show ?case using cell_dies_ok by blast
next
  case (put w cl name v w') then show ?case using putmethod_ok by blast
next
  case (lookup w cl k p mem h w')
  then show ?case using getmethod_exact [of w cl k p mem] typed_like [of w w'] by auto
next
  case (make w a cc name super keys defs r w') then show ?case using new_ooclass_ok by blast
next
  case (dispose w c w') then show ?case using class_dispose_ok [of w c w'] by blast
next
  case (object w a cl w') then show ?case using new_oostruct_ok by blast
next
  case (slot w obj path v here w') then show ?case using setslot_ok by blast
qed

section \<open>Method lookup\<close>

text \<open>C20: The cached tables of methods are transparent. In every state that the operations reach, \<open>getmethod\<close> answers the method of the nearest
  class, from the given one up, that has a live method of that name, with the number of slots of that class, or nothing when there is none:
  however methods were put, replaced and removed, functions died, tables were built, collided and were enlarged. It changes nothing but the caches and
  dead methods, and always ends; it fails only when a table cannot be allocated or its size overflows.\<close>

theorem method_lookup:
  assumes "reachable_classes w" "class_at cl w = Some k" "p \<noteq> 0"
  shows "getmethod mem cl p w = Inl (Lush ''No memory'') \<or>
    getmethod mem cl p w = Inl (Undef ''size of the table of methods overflows'') \<or>
    (\<exists>h w'. getmethod mem cl p w = Inr (h, w') \<and> like w w' \<and>
      map_option (\<lambda>h. (hfunction h, hsofar h)) h = map_of (concat (map (own_entries w) (up w cl))) p)"
proof -
  have "wf_world w" using reachable_ok [OF assms(1)] by blast
  from getmethod_exact [OF this assms(2,3), of mem] show ?thesis
    unfolding table_errors_def stored_def [abs_def] nearest_def by auto
qed

text \<open>The class of symbol 1, with a method of the same name.\<close>

definition one_class :: world where
  "one_class = \<lparr>classes = [Some ((root_class 0 True)\<lparr>methods := [(1, 2)]\<rparr>)],
     atoms = (\<lambda>a. \<lparr>aclass = Some 0, detail = (if a = 2 then Function else Symbol)\<rparr>), ostore = (\<lambda>_. [])\<rparr>"

lemma one_class_reachable: "reachable_classes one_class"
proof -
  let ?at = "\<lambda>a :: nat. \<lparr>aclass = Some 0, detail = (if a = 2 then Function else Symbol)\<rparr>"
  have "reachable_classes (init_world [0] ?at)" by (rule reachable_classes.init) simp
  moreover have "putmethod 0 1 2 (init_world [0] ?at) = Inr one_class"
    by (simp add: putmethod_def clear_hashok_def deref_def init_world_def root_class_def put_class_def one_class_def)
  ultimately show ?thesis by (rule reachable_classes.put)
qed

lemma method_lookup_witness:
  "getmethod (\<lambda>n. False) 0 1 one_class = Inl (Lush ''No memory'') \<or> getmethod (\<lambda>n. False) 0 1 one_class = Inl (Undef ''size of the table of methods overflows'') \<or>
    (\<exists>h w. getmethod (\<lambda>n. False) 0 1 one_class = Inr (Some h, w) \<and> hfunction h = 2)"
proof -
  have k: "class_at 0 one_class = Some ((root_class 0 True)\<lparr>methods := [(1, 2)]\<rparr>)" by (simp add: class_at_def one_class_def)
  have u: "up one_class 0 = [0]" using up_root [OF k] by (simp add: root_class_def)
  have "own_entries one_class 0 = [(1, 2, 0)]"
    using k by (simp add: own_entries_def live_methods_def zombie_def root_class_def) (simp add: one_class_def)
  then show ?thesis using method_lookup [OF one_class_reachable k, of 1 "\<lambda>n. False"] by (auto simp: u)
qed

section \<open>Objects\<close>



section \<open>Destructors\<close>


lemma nearest_own: "nearest w c p = (case map_of (own_entries w c) p of Some v \<Rightarrow> Some v | None \<Rightarrow>
    map_of (concat (map (own_entries w) (tl (up w c)))) p)"
  by (subst up.simps) (simp add: nearest_def up.simps [of w c] map_add_def split: option.split)









text \<open>An instance, at 4, of the class of \<open>one_class\<close>, whose destructor is 2.\<close>

definition one_object :: world where
  "one_object = one_class\<lparr>atoms := (\<lambda>a. \<lparr>aclass = Some 0, detail = (if a = 2 then Function else if a = 3 then Class 0
     else if a = 4 then Instance else Symbol)\<rparr>)\<rparr>"

lemma one_object_reachable: "reachable_classes one_object"
proof -
  let ?c = "one_class\<lparr>atoms := (atoms one_class)(3 := \<lparr>aclass = Some 0, detail = Class 0\<rparr>)\<rparr>"
  have held: "held one_class = {2}"
    by (auto simp: held_def class_at_def one_class_def root_class_def split: if_splits)
  then have "reachable_classes ?c" by (intro reachable_classes.cell [OF one_class_reachable]) simp_all
  moreover have "held ?c = held one_class" by (simp add: held_def)
  moreover have "new_oostruct 4 3 ?c = Inr one_object"
    by (simp add: new_oostruct_def class_slots_def lineage_def deref_def one_class_def root_class_def one_object_def fun_upd_def)
      (auto simp: fun_eq_iff)
  ultimately show ?thesis using reachable_classes.object [of ?c 4 3 one_object] held by simp
qed


section \<open>The context of a method\<close>

definition same_shape :: "bindings \<Rightarrow> bindings \<Rightarrow> bool" where
  "same_shape st t \<longleftrightarrow> (\<forall>y. list_all2 (\<lambda>b b'. b' = b \<or> (\<exists>u v. b = Own u \<and> b' = Own v)) (st y) (t y))"

lemma push_slots_at: "push_slots obj first slots st y =
    map (Slot obj) (filter (\<lambda>i. fst (slots ! i) = y) [first..<length slots]) @ st y"
proof -
  have "fold (\<lambda>i. push_binding (fst (slots ! i)) (Slot obj i)) (rev js) st y =
      map (Slot obj) (filter (\<lambda>i. fst (slots ! i) = y) js) @ st y" for js
    by (induction js) (auto simp: push_binding_def)
  then show ?thesis by (simp add: push_slots_def)
qed

lemma pop_slots_at: "pop_slots first slots st y = drop (length (filter (\<lambda>i. fst (slots ! i) = y) [first..<length slots])) (st y)"
proof -
  have "fold (\<lambda>i. pop_binding (fst (slots ! i))) js st y = drop (length (filter (\<lambda>i. fst (slots ! i) = y) js)) (st y)" for js
    by (induction js arbitrary: st) (auto simp: pop_binding_def drop_Suc)
  then show ?thesis by (simp add: pop_slots_def)
qed

text \<open>C22: \<open>letslot\<close> runs the function where \<open>this\<close> is the object and each visible slot is bound, by its name, to the slot itself, the slot of the most
  specific class first; the slots that are not visible, and all other symbols, keep their bindings. A function that leaves the stacks of
  bindings as high as they were, whatever it assigns, finds them so again after \<open>letslot\<close>: what was pushed is popped, symbol by symbol.\<close>

theorem letslot_context:
  assumes "obj \<noteq> 0" "detail (atoms w obj) = Instance"
    and "\<forall>s r t x. app s = Inr (r, t, x) \<longrightarrow> same_shape (fst s) t"
  shows "\<exists>inner. hd (inner this) = Own obj \<and>
    (\<forall>y. y \<noteq> this \<longrightarrow> inner y = map (Slot obj) (filter (\<lambda>i. fst (ostore w obj ! i) = y)
       [first_slot howmuch (length (ostore w obj))..<length (ostore w obj)]) @ fst s y) \<and>
    (case app (inner, snd s) of Inl e \<Rightarrow> letslot this obj w howmuch app s = Inl e
     | Inr (r, t, x) \<Rightarrow> \<exists>st. letslot this obj w howmuch app s = Inr (r, st, x) \<and> same_shape (fst s) st)"
proof -
  let ?slots = "ostore w obj"
  let ?first = "first_slot howmuch (length ?slots)"
  let ?vis = "\<lambda>y. filter (\<lambda>i. fst (?slots ! i) = y) [?first..<length ?slots]"
  let ?inner = "push_binding this (Own obj) (push_slots obj ?first ?slots (fst s))"
  have l: "letslot this obj w howmuch app s = res_bind (app (?inner, snd s)) (\<lambda>(r, st, x).
      Inr (r, pop_slots ?first ?slots (pop_binding this st), x))"
    using assms(1,2) by (simp add: letslot_def Let_def)
  have inner: "?inner y = (if y = this then [Own obj] else []) @ map (Slot obj) (?vis y) @ fst s y" for y
    by (simp add: push_binding_def push_slots_at)
  have shape: "same_shape (fst s) (pop_slots ?first ?slots (pop_binding this t))" if "same_shape ?inner t" for t
    unfolding same_shape_def
  proof
    fix y
    have "list_all2 (\<lambda>b b'. b' = b \<or> (\<exists>u v. b = Own u \<and> b' = Own v)) (?inner y) (t y)"
      using that by (simp add: same_shape_def)
    then have "list_all2 (\<lambda>b b'. b' = b \<or> (\<exists>u v. b = Own u \<and> b' = Own v))
        (drop (length (?vis y)) (drop (if y = this then 1 else 0) (?inner y)))
        (drop (length (?vis y)) (drop (if y = this then 1 else 0) (t y)))" by (intro list_all2_dropI)
    moreover have "drop (length (?vis y)) (drop (if y = this then 1 else 0) (?inner y)) = fst s y" unfolding inner by simp
    moreover have "pop_slots ?first ?slots (pop_binding this t) y = drop (length (?vis y)) (drop (if y = this then 1 else 0) (t y))"
      by (simp add: pop_slots_at pop_binding_def drop_Suc)
    ultimately show "list_all2 (\<lambda>b b'. b' = b \<or> (\<exists>u v. b = Own u \<and> b' = Own v)) (fst s y)
        (pop_slots ?first ?slots (pop_binding this t) y)" by simp
  qed
  have "case app (?inner, snd s) of Inl e \<Rightarrow> letslot this obj w howmuch app s = Inl e
     | Inr (r, t, x) \<Rightarrow> \<exists>st. letslot this obj w howmuch app s = Inr (r, st, x) \<and> same_shape (fst s) st"
    using assms(3) [rule_format, of "(?inner, snd s)"] shape unfolding l by (auto split: sum.split)
  moreover have "hd (?inner this) = Own obj" by (simp add: push_binding_def)
  ultimately show ?thesis using inner by (intro exI [of _ ?inner]) auto
qed

lemma letslot_context_witness:
  "\<exists>st. letslot 7 4 one_object 0 (\<lambda>(st, x). Inr (hd (st 7), st, x :: nat)) (\<lambda>_. [], 0) = Inr (Own 4, st, 0)"
proof -
  let ?app = "\<lambda>(st, x). Inr (hd (st 7), st, x :: nat) :: (binding \<times> bindings \<times> nat) res"
  have r: "\<forall>s r t x. ?app s = Inr (r, t, x) \<longrightarrow> same_shape (fst s) t"
    by (auto simp: same_shape_def list_all2_refl)
  have i: "(4 :: nat) \<noteq> 0" "detail (atoms one_object 4) = Instance" by (simp_all add: one_object_def)
  show ?thesis using letslot_context [where app = ?app and obj = 4 and w = one_object and this = 7 and howmuch = 0 and s = "(\<lambda>_. [], 0)", OF i r]
    by auto
qed

text \<open>C24: A method sees the slots of the class that defines it and of its superclasses, and not those of the subclasses that inherit it, provided the
  class has a slot at all. For a class without any, \<open>hx->sofar\<close> is 0, which \<open>letslot\<close> takes for all slots: its methods see, and assign,
  every slot of the object, those of unrelated subclasses too.\<close>

theorem method_sees_own_slots:
  assumes "reachable_classes w" "detail (atoms w a) = Instance" "aclass (atoms w a) = Some c" "d \<in> set (up w c)" "class_at d w = Some k"
  shows "map fst (drop (first_slot (int (slotssofar k)) (length (ostore w a))) (ostore w a)) =
    (if slotssofar k = 0 then concat (map (keys_of w) (up w c)) else concat (map (keys_of w) (up w d)))"
proof -
  have ok: "typed w" "wf_links w" using reachable_ok [OF assms(1)] by (simp_all add: wf_world_def)
  obtain kc where c: "class_at c w = Some kc" "map fst (ostore w a) = slot_names w c" using ok(1) assms(2,3) by (fastforce simp: typed_def)
  have "\<exists>cs. up w c = cs @ up w d"
    using ok(2) c(1) assms(4)
  proof (induction rule: hierarchy_induct)
    case (root c k)
    then show ?case by auto
  next
    case (sub c k s ks)
    show ?case
    proof (cases "d = c")
      case False
      then have "\<exists>cs. up w s = cs @ up w d" using sub by simp
      then show ?thesis using sub.hyps(7) by (metis append_Cons)
    qed simp
  qed
  then obtain pre where pre: "slot_names w c = pre @ slot_names w d" unfolding slot_names_def by (metis concat_append map_append)
  have n: "length (slot_names w d) = slotssofar k" by (rule length_slot_names [OF ok(2) assms(5)])
  have m: "length (ostore w a) = length pre + slotssofar k" using c(2) pre n by (metis length_append length_map)
  show ?thesis
  proof (cases "slotssofar k = 0")
    case True
    then show ?thesis using c(2) by (simp add: first_slot_def slot_names_def)
  next
    case False
    then have "first_slot (int (slotssofar k)) (length (ostore w a)) = length pre" by (simp add: first_slot_def m)
    then show ?thesis using False pre c(2) by (simp add: drop_map [symmetric] slot_names_def)
  qed
qed

lemma method_sees_own_slots_witness:
  "map fst (drop (first_slot 0 (length (ostore one_object 4))) (ostore one_object 4)) = concat (map (keys_of one_object) (up one_object 0))"
proof -
  have k: "class_at 0 one_object = Some ((root_class 0 True)\<lparr>methods := [(1, 2)]\<rparr>)" by (simp add: class_at_def one_object_def one_class_def)
  have i: "detail (atoms one_object 4) = Instance" "aclass (atoms one_object 4) = Some 0" by (simp_all add: one_object_def)
  have "0 \<in> set (up one_object 0)" by (subst up.simps) simp
  from method_sees_own_slots [OF one_object_reachable i this k] show ?thesis by (simp add: root_class_def)
qed

text \<open>Deviation: \<open>getmethod\<close> looks for the empty list, which a message can name, and takes an empty element of the table for a method of
  that name: a class without methods answers an element without function, so that \<open>send_message\<close> raises ``Internal error'' where it means to
  raise ``Not a valid method name''.\<close>

theorem nil_method_found:
  assumes "class_at cl w = Some k" "hashok k" "hashtable k = empty_table 32"
  shows "getmethod mem cl 0 w = Inr (Some \<lparr>hsymbol = 0, hfunction = 0, hsofar = 0\<rparr>, w) \<and>
    (aclass (atoms w obj) = Some cl \<longrightarrow> obj \<noteq> 0 \<longrightarrow> send_message mem u 0 obj 0 args w = Inl (Lush ''Internal error''))"
proof -
  have "deref cl w = Inr k" using assms(1) by (simp add: deref_class_at)
  moreover have "hashtable k ! 0 = \<lparr>hsymbol = 0, hfunction = 0, hsofar = 0\<rparr>" "hashtable k \<noteq> []" unfolding assms(3) by (simp_all add: empty_table_def)
  ultimately have "getmethod mem cl 0 w = Inr (Some \<lparr>hsymbol = 0, hfunction = 0, hsofar = 0\<rparr>, w)"
    using assms(2) by (simp add: getmethod_def numeral_2_eq_2 find_slot_def HASH_def)
  then show ?thesis by (simp add: send_message_def method_called_def)
qed

definition bare_class :: world where
  "bare_class = \<lparr>classes = [Some ((root_class 0 True)\<lparr>hashok := True, hashtable := empty_table 32\<rparr>)],
     atoms = (\<lambda>_. \<lparr>aclass = Some 0, detail = Plain\<rparr>), ostore = (\<lambda>_. [])\<rparr>"

lemma nil_method_found_witness:
  "send_message (\<lambda>n. True) 1 0 4 0 ([] :: nat list) bare_class = Inl (Lush ''Internal error'')"
proof -
  let ?k = "(root_class 0 True)\<lparr>hashok := True, hashtable := empty_table 32\<rparr>"
  have "class_at 0 bare_class = Some ?k" "hashok ?k" "hashtable ?k = empty_table 32" "aclass (atoms bare_class 4) = Some 0"
    by (simp_all add: class_at_def bare_class_def)
  then show ?thesis using nil_method_found [of 0 bare_class ?k "\<lambda>n. True" 4 1 "[] :: nat list"] by simp
qed

end
