(* ===== verification/LispState.thy ===== *)
theory LispState
  imports Args
begin

text \<open>
  The state of the evaluator and its elementary steps: the stacks of values of the symbols
  (\<open>src/src/symbol.c\<close>, here over values instead of cells), the binding of formal arguments
  (\<open>push_args\<close>, \<open>pop_args\<close> and \<open>parse_optional_stuff\<close> of \<open>src/src/function.c\<close>) and the sequencing
  of effects.

  An object is a value of the type \<open>fobj val\<close>: the external objects of this component are the
  functions, written in Lisp (\<open>struct lfunction\<close>, of the class DE, DF or DM) or in C (\<open>struct
  cfunction\<close>, of the class DX or DY; the function called is named). A symbol is its name. A number is
  the rational value of its double, and sums are not rounded.

  The state holds, for every name, the frames of the symbol with the top frame first (the last one is
  the global value), the function that \<open>argeval_ptr\<close> points to (\<open>eval_std\<close> or \<open>eval_nothing\<close>;
  \<open>eval_ptr\<close> is \<open>eval_std\<close>, the debugging evaluator is outside the model), the list
  \<open>error_doc.this_call\<close> of the calls under way, and the height of the stack of arguments of the
  functions of the class DX.
\<close>

section \<open>Objects and state\<close>

datatype lkind = DE | DF | DM

datatype dxfun = Xeval | Xapply | Xmapc | Xrmapc | Xmapcar | Xrmapcar | Xquote | Xand | Xor
  | Xset | Xsetq | Xincr | Xsymbolp | Xfunctionp | Xfuncdef | Xcons | Xcar | Xcdr | Xlistp | Xconsp
  | Xatomp | Xnumberp | Xnull | Xeq0 | Xadd | Xmul | Xsub

datatype dyfun = Yprogn | Yprog1 | Ylet | Yletstar | Yfor | Yeach | Yall | Ylist | Ylambda | Yde
  | Yflambda | Ydf | Ymlambda | Ydm | Ymacro_expand | Yif | Ywhen | Ycond | Ywhile | Ydowhile | Yrepeat

datatype fobj = LFun lkind "fobj val" "fobj val" | DX dxfun | DY dyfun

type_synonym lv = "fobj val"

record sframe =
  sf_locked :: bool
  sf_bound :: bool
  sf_value :: lv

record lstate =
  symbols :: "string \<Rightarrow> sframe list"
  argeval_std :: bool
  this_call :: "lv list"
  dx_sp :: nat

text \<open>A fresh symbol has one frame, which is not bound; \<open>var_define\<close> and \<open>var_set\<close> bind it.\<close>

definition unbound_frame :: sframe where
  "unbound_frame = \<lparr>sf_locked = False, sf_bound = False, sf_value = VNil\<rparr>"

definition pushed_frame :: "lv \<Rightarrow> sframe" where
  "pushed_frame v = \<lparr>sf_locked = False, sf_bound = True, sf_value = v\<rparr>"

section \<open>Sequencing\<close>

type_synonym 'a evm = "lstate \<Rightarrow> ('a \<times> lstate) res"
type_synonym evaluator = "lv \<Rightarrow> lv evm"

definition ev_ret :: "'a \<Rightarrow> 'a evm" where
  "ev_ret v = (\<lambda>s. Inr (v, s))"

definition ev_fail :: "lush_error \<Rightarrow> 'a evm" where
  "ev_fail e = (\<lambda>s. Inl e)"

definition ev_bind :: "'a evm \<Rightarrow> ('a \<Rightarrow> 'b evm) \<Rightarrow> 'b evm" where
  "ev_bind m f = (\<lambda>s. case m s of Inl e \<Rightarrow> Inl e | Inr (x, s') \<Rightarrow> f x s')"

definition ev_then :: "'a evm \<Rightarrow> 'b evm \<Rightarrow> 'b evm" where
  "ev_then m m' = ev_bind m (\<lambda>_. m')"

definition ev_lift :: "'a res \<Rightarrow> 'a evm" where
  "ev_lift r = (case r of Inl e \<Rightarrow> ev_fail e | Inr x \<Rightarrow> ev_ret x)"

lemmas ev_defs = ev_ret_def ev_fail_def ev_bind_def ev_then_def ev_lift_def

lemma ev_bind_simps [simp]:
  "ev_bind (ev_ret x) f = f x"
  "ev_bind (ev_fail e) f = ev_fail e"
  by (simp_all add: ev_defs)

lemma ev_bind_ret [simp]: "ev_bind m ev_ret = m"
  by (rule ext) (auto simp: ev_defs split: sum.splits)

lemma ev_bind_assoc: "ev_bind (ev_bind m f) g = ev_bind m (\<lambda>x. ev_bind (f x) g)"
  by (rule ext) (auto simp: ev_defs split: sum.splits)

section \<open>Values of symbols\<close>

definition upd_frames :: "string \<Rightarrow> sframe list \<Rightarrow> lstate \<Rightarrow> lstate" where
  "upd_frames x fs s = s\<lparr>symbols := (symbols s)(x := fs)\<rparr>"

definition sym_eval :: "string \<Rightarrow> lv evm" where
  "sym_eval x = (\<lambda>s. case symbols s x of
       [] \<Rightarrow> Inl (Undef ''symbol without a frame'')
     | f # _ \<Rightarrow> Inr (if sf_bound f then sf_value f else VNil, s))"

definition sym_push :: "string \<Rightarrow> lv \<Rightarrow> unit evm" where
  "sym_push x v = (\<lambda>s. Inr ((), upd_frames x (pushed_frame v # symbols s x) s))"

definition sym_pop :: "string \<Rightarrow> unit evm" where
  "sym_pop x = (\<lambda>s. case symbols s x of
       [] \<Rightarrow> Inl (Undef ''symbol without a frame'')
     | f # fs \<Rightarrow> Inr ((), if fs \<noteq> [] then upd_frames x fs s else s))"

text \<open>\<open>var_set\<close>, which is also what \<open>setq\<close> does with a symbol (the warning that it prints is left out).\<close>

definition sym_set :: "string \<Rightarrow> lv \<Rightarrow> unit evm" where
  "sym_set x v = (\<lambda>s. case symbols s x of
       [] \<Rightarrow> Inl (Undef ''symbol without a frame'')
     | f # fs \<Rightarrow> if sf_locked f then Inl (Lush ''locked symbol'')
         else Inr ((), upd_frames x (f\<lparr>sf_bound := True, sf_value := v\<rparr> # fs) s))"

definition sym_get :: "string \<Rightarrow> lv evm" where
  "sym_get x = (\<lambda>s. case symbols s x of
       [] \<Rightarrow> Inl (Undef ''symbol without a frame'')
     | f # fs \<Rightarrow> if sf_bound f then Inr (sf_value f, s)
         else Inr (VNil, upd_frames x (f\<lparr>sf_bound := True, sf_value := VNil\<rparr> # fs) s))"

definition sym_set_global :: "string \<Rightarrow> lv \<Rightarrow> unit evm" where
  "sym_set_global x v = (\<lambda>s. case symbols s x of
       [] \<Rightarrow> Inl (Undef ''symbol without a frame'')
     | f # fs \<Rightarrow> (let g = last (f # fs) in if sf_locked g then Inl (Lush ''locked global variable'')
         else Inr ((), upd_frames x (butlast (f # fs) @ [g\<lparr>sf_bound := True, sf_value := v\<rparr>]) s)))"

text \<open>\<open>symbol->value = v\<close> for the frame that is the \<open>h\<close>-th one from the bottom.\<close>

definition sym_store :: "string \<Rightarrow> nat \<Rightarrow> lv \<Rightarrow> unit evm" where
  "sym_store x h v = (\<lambda>s. let fs = symbols s x; k = length fs - h in
     if h = 0 \<or> length fs < h then Inl (Undef ''frame that was freed'')
     else Inr ((), upd_frames x (fs[k := (fs ! k)\<lparr>sf_value := v\<rparr>]) s))"

text \<open>\<open>setq\<close> of \<open>symbol.c\<close>; its form \<open>:object:slot\<close> belongs to the classes.\<close>

definition sym_setq :: "lv \<Rightarrow> lv \<Rightarrow> lv evm" where
  "sym_setq p q = (case p of
       VSym x \<Rightarrow> ev_then (sym_set x q) (ev_ret q)
     | VCons a d \<Rightarrow> (case d of
           VCons b d' \<Rightarrow>
             if a \<noteq> VSym ''scope'' then ev_fail (Lush ''illegal scope syntax'')
             else if d' = VNil then (case b of
                 VSym x \<Rightarrow> ev_then (sym_set_global x q) (ev_ret q)
               | _ \<Rightarrow> ev_fail (Lush ''illegal global scope specification''))
             else ev_fail (Undef ''slot of an object (not modelled)'')
         | _ \<Rightarrow> ev_fail (Lush ''illegal scope syntax''))
     | _ \<Rightarrow> ev_fail (Lush ''neither a symbol nor an explicit scope specification''))"

section \<open>Formal arguments\<close>

definition at_optional :: lv where
  "at_optional = VSym ''&optional''"

definition at_rest :: lv where
  "at_rest = VSym ''&rest''"

text \<open>
  \<open>parse_optional_stuff\<close>: its loop over the optional arguments, then the part that follows. The C code
  calls \<open>push_args\<close> there on symbols only, which is \<open>symbol_push\<close>.
\<close>

definition parse_rest :: "lv \<Rightarrow> lv \<Rightarrow> unit evm" where
  "parse_rest f r = (case f of
       VNil \<Rightarrow> if r = VNil then ev_ret () else ev_fail (Lush ''too many arguments'')
     | VCons a d \<Rightarrow>
         if a \<noteq> at_rest then ev_fail (Lush ''error in &optional syntax'')
         else ev_then (sym_push ''&rest'' VNil) (case d of
             VCons b d' \<Rightarrow> (case b of
                 VSym x \<Rightarrow> if d' = VNil then sym_push x r else ev_fail (Lush ''error in &rest syntax'')
               | _ \<Rightarrow> ev_fail (Lush ''error in &rest syntax''))
           | _ \<Rightarrow> ev_fail (Lush ''error in &rest syntax''))
     | _ \<Rightarrow> ev_fail (Lush ''error in &optional syntax''))"

text \<open>One element of the list of optional arguments: a symbol, or a symbol with its default value.\<close>

definition optional_arg :: "lv \<Rightarrow> (string \<times> lv) option" where
  "optional_arg a = (case a of
       VSym x \<Rightarrow> Some (x, VNil)
     | VCons b d \<Rightarrow> (case b of
           VSym x \<Rightarrow> (case d of VCons z d' \<Rightarrow> if d' = VNil then Some (x, z) else None | _ \<Rightarrow> None)
         | _ \<Rightarrow> None)
     | _ \<Rightarrow> None)"

definition val_consp :: "lv \<Rightarrow> bool" where
  "val_consp v = (case v of VCons _ _ \<Rightarrow> True | _ \<Rightarrow> False)"

definition val_car :: "lv \<Rightarrow> lv" where
  "val_car v = (case v of VCons a _ \<Rightarrow> a | _ \<Rightarrow> VNil)"

definition val_cdr :: "lv \<Rightarrow> lv" where
  "val_cdr v = (case v of VCons _ d \<Rightarrow> d | _ \<Rightarrow> VNil)"

fun parse_optional_loop :: "lv \<Rightarrow> lv \<Rightarrow> unit evm" where
  "parse_optional_loop (VCons a d) r =
     (if a = at_rest then parse_rest (VCons a d) r
      else case optional_arg a of
          None \<Rightarrow> ev_fail (Lush ''error in &optional syntax'')
        | Some (x, z) \<Rightarrow>
            if val_consp r then ev_then (sym_push x (val_car r)) (parse_optional_loop d (val_cdr r))
            else ev_then (sym_push x z) (parse_optional_loop d r))"
| "parse_optional_loop f r = parse_rest f r"

definition parse_optional_stuff :: "lv \<Rightarrow> lv \<Rightarrow> unit evm" where
  "parse_optional_stuff f r =
     (if val_consp f \<and> val_car f = at_optional
      then ev_then (sym_push ''&optional'' VNil) (parse_optional_loop (val_cdr f) r)
      else parse_rest f r)"

fun push_args :: "lv \<Rightarrow> lv \<Rightarrow> unit evm" where
  "push_args (VCons a d) r =
     (if a = at_optional \<or> a = at_rest then parse_optional_stuff (VCons a d) r
      else case r of
          VCons b r' \<Rightarrow> ev_then (push_args a b) (push_args d r')
        | _ \<Rightarrow> ev_fail (Lush ''missing arguments''))"
| "push_args (VSym x) r = sym_push x r"
| "push_args VNil r = (if r = VNil then ev_ret () else ev_fail (Lush ''too many arguments''))"
| "push_args f r = ev_fail (Lush ''missing arguments'')"

fun pop_args :: "lv \<Rightarrow> unit evm" where
  "pop_args (VCons a d) = ev_then (pop_args a) (pop_args d)"
| "pop_args (VSym x) = sym_pop x"
| "pop_args _ = ev_ret ()"

end
