(* ===== verification/Eval.thy ===== *)
theory Eval
  imports LispState
begin

text \<open>
  The evaluator: \<open>eval_std\<close>, \<open>apply\<close>, \<open>progn\<close> and the functions of \<open>src/src/eval.c\<close>, the calls of
  functions of \<open>src/src/function.c\<close> (\<open>de_listeval\<close>, \<open>df_listeval\<close>, \<open>dm_listeval\<close>, \<open>dx_listeval\<close>,
  \<open>dy_listeval\<close>, \<open>generic_listeval\<close> of \<open>src/src/at.c\<close>), and the control structures of
  \<open>src/src/calls.c\<close>.

  Every definition takes as its argument \<open>E\<close> the evaluator that C reaches through \<open>eval\<close>; \<open>ev\<close>, at the
  end, ties the knot with a bound on the depth of the calls of \<open>eval\<close>. The loops that may not end
  (\<open>while\<close>, \<open>do-while\<close> and \<open>for\<close>) take the bound as the number of turns. What a bounded evaluation
  returns does not depend on the bound (theory \<open>EvalLaws\<close>).

  Left out: \<open>CHECK_MACHINE\<close>, which looks for an interruption by the user and for the end of the C stack,
  and zombies.
\<close>

section \<open>Arguments\<close>

definition set_argeval :: "bool \<Rightarrow> unit evm" where
  "set_argeval b = (\<lambda>s. Inr ((), s\<lparr>argeval_std := b\<rparr>))"

text \<open>\<open>(*argeval_ptr)(v)\<close>\<close>

definition argeval :: "evaluator \<Rightarrow> evaluator" where
  "argeval E v = (\<lambda>s. if argeval_std s then E v s else Inr (v, s))"

fun ev_map :: "('a \<Rightarrow> 'b evm) \<Rightarrow> 'a list \<Rightarrow> 'b list evm" where
  "ev_map f [] = ev_ret []"
| "ev_map f (x # xs) = ev_bind (f x) (\<lambda>y. ev_bind (ev_map f xs) (\<lambda>ys. ev_ret (y # ys)))"

definition all_args_eval :: "evaluator \<Rightarrow> lv list \<Rightarrow> lv list evm" where
  "all_args_eval E args = ev_map (argeval E) args"

text \<open>\<open>ARG_NUMBER(n); ALL_ARGS_EVAL;\<close>\<close>

definition n_args :: "evaluator \<Rightarrow> nat \<Rightarrow> lv list \<Rightarrow> lv list evm" where
  "n_args E n args = ev_then (ev_lift (ARG_NUMBER n args)) (all_args_eval E args)"

text \<open>\<open>ARG_NUMBER(1); ARG_EVAL(1);\<close> and a test of \<open>APOINTER(1)\<close>\<close>

definition one_arg :: "evaluator \<Rightarrow> (lv \<Rightarrow> lv) \<Rightarrow> lv list \<Rightarrow> lv evm" where
  "one_arg E f args = ev_bind (n_args E 1 args) (\<lambda>as. ev_ret (f (hd as)))"

fun eval_a_list :: "evaluator \<Rightarrow> evaluator" where
  "eval_a_list E (VCons a d) =
     ev_bind (argeval E a) (\<lambda>v. ev_bind (eval_a_list E d) (\<lambda>l. ev_ret (VCons v l)))"
| "eval_a_list E VNil = ev_ret VNil"
| "eval_a_list E p = E p"

fun progn_loop :: "evaluator \<Rightarrow> lv \<Rightarrow> lv \<Rightarrow> lv evm" where
  "progn_loop E (VCons a d) q = ev_bind (E a) (\<lambda>q. progn_loop E d q)"
| "progn_loop E VNil q = ev_ret q"
| "progn_loop E p q = ev_fail (Lush ''why a pointed list ?'')"

definition progn :: "evaluator \<Rightarrow> evaluator" where
  "progn E p = progn_loop E p VNil"

text \<open>\<open>prog1\<close>: the value of the first one, whatever the others return.\<close>

definition prog1 :: "evaluator \<Rightarrow> evaluator" where
  "prog1 E p = (case p of
       VCons a d \<Rightarrow> ev_bind (E a) (\<lambda>ans. ev_then (progn_loop E d VNil) (ev_ret ans))
     | _ \<Rightarrow> progn_loop E p VNil)"

section \<open>Calls of functions written in Lisp\<close>

definition de_listeval :: "evaluator \<Rightarrow> lv \<Rightarrow> lv \<Rightarrow> lv \<Rightarrow> lv evm" where
  "de_listeval E formal body q = ev_bind (eval_a_list E (val_cdr q)) (\<lambda>l.
     ev_then (push_args formal l) (ev_bind (progn E body) (\<lambda>answer.
     ev_then (pop_args formal) (ev_ret answer))))"

definition df_listeval :: "evaluator \<Rightarrow> lv \<Rightarrow> lv \<Rightarrow> lv \<Rightarrow> lv evm" where
  "df_listeval E formal body q =
     ev_then (push_args formal (val_cdr q)) (ev_bind (progn E body) (\<lambda>answer.
     ev_then (pop_args formal) (ev_ret answer)))"

definition dm_expand :: "evaluator \<Rightarrow> lv \<Rightarrow> lv \<Rightarrow> lv \<Rightarrow> lv evm" where
  "dm_expand E formal body q =
     ev_then (push_args formal q) (ev_bind (progn E body) (\<lambda>answer.
     ev_then (pop_args formal) (ev_ret answer)))"

definition dm_listeval :: "evaluator \<Rightarrow> lv \<Rightarrow> lv \<Rightarrow> lv \<Rightarrow> lv evm" where
  "dm_listeval E formal body q = ev_bind (dm_expand E formal body q) E"

definition lfun_listeval :: "evaluator \<Rightarrow> lkind \<Rightarrow> lv \<Rightarrow> lv \<Rightarrow> lv \<Rightarrow> lv evm" where
  "lfun_listeval E k = (case k of DE \<Rightarrow> de_listeval E | DF \<Rightarrow> df_listeval E | DM \<Rightarrow> dm_listeval E)"

definition dm_macro_expand :: "evaluator \<Rightarrow> lv \<Rightarrow> lv \<Rightarrow> lv evm" where
  "dm_macro_expand E p q = (case p of
       VObj f \<Rightarrow> (case f of
           LFun k formal body \<Rightarrow> if k = DM then dm_expand E formal body q else ev_fail (Lush ''not a macro'')
         | _ \<Rightarrow> ev_fail (Lush ''not a macro''))
     | _ \<Rightarrow> ev_fail (Lush ''not a macro''))"

definition funcdef :: "lv \<Rightarrow> lv" where
  "funcdef p = (case p of
       VObj f \<Rightarrow> (case f of
           LFun k formal body \<Rightarrow> VCons (VSym (case k of DE \<Rightarrow> ''lambda'' | DF \<Rightarrow> ''flambda'' | DM \<Rightarrow> ''mlambda''))
             (VCons formal body)
         | _ \<Rightarrow> VNil)
     | _ \<Rightarrow> VNil)"

text \<open>\<open>lambda\<close>, \<open>flambda\<close>, \<open>mlambda\<close>, and \<open>de\<close>, \<open>df\<close>, \<open>dm\<close>\<close>

definition make_lfun :: "lkind \<Rightarrow> lv \<Rightarrow> lv evm" where
  "make_lfun k q =
     (if val_consp q \<and> val_consp (val_cdr q) then ev_ret (VObj (LFun k (val_car q) (val_cdr q)))
      else ev_fail (Lush ''illegal definition of function''))"

definition define_lfun :: "lkind \<Rightarrow> lv \<Rightarrow> lv evm" where
  "define_lfun k q =
     (if val_consp q \<and> val_consp (val_cdr q) \<and> val_consp (val_cdr (val_cdr q)) then
        (case val_car q of
           VSym x \<Rightarrow> ev_then (sym_set x (VObj (LFun k (val_car (val_cdr q)) (val_cdr (val_cdr q))))) (ev_ret (VSym x))
         | _ \<Rightarrow> ev_fail (Lush ''not a symbol''))
      else ev_fail (Lush ''illegal definition of function''))"

section \<open>\<open>mapc\<close>, \<open>mapcar\<close> and their recursive forms\<close>

definition MAXARGMAPC :: nat where
  "MAXARGMAPC = 8"

text \<open>
  \<open>get_and_shift\<close>: its loop over the lists, with the C variable \<open>flag\<close>, the heads and the tails so far.
  The result says whether there were heads, and whether all of them are lists that are not empty
  (\<open>rflag\<close>).
\<close>

fun shift_loop :: "int \<Rightarrow> lv list \<Rightarrow> (int \<times> lv list \<times> lv list) res" where
  "shift_loop flag [] = Inr (flag, [], [])"
| "shift_loop flag (l # ls) =
     (if val_consp l \<and> flag \<ge> 0 then
        res_bind (shift_loop 1 ls) (\<lambda>(f, items, tails). Inr (f, val_car l # items, val_cdr l # tails))
      else if l \<noteq> VNil then Inl (Lush ''bad list as argument'')
      else if flag \<le> 0 then
        res_bind (shift_loop (- 1) ls) (\<lambda>(f, items, tails). Inr (f, items, l # tails))
      else Inl (Lush ''lists with different length''))"

definition get_and_shift :: "lv list \<Rightarrow> (bool \<times> lv list \<times> lv list) res" where
  "get_and_shift ls = res_bind (shift_loop 0 ls) (\<lambda>(f, items, tails). Inr (f > 0, items, tails))"

definition rflag :: "lv list \<Rightarrow> bool" where
  "rflag items = list_all val_consp items"

text \<open>\<open>build_expr\<close> is \<open>list_val\<close>. The functions called on every turn are arguments.\<close>

definition sizes :: "lv list \<Rightarrow> nat" where
  "sizes ls = sum_list (map size ls)"

lemma size_val_cons: "val_consp l \<Longrightarrow> size l = Suc (size (val_car l) + size (val_cdr l))"
  by (cases l) (auto simp: val_consp_def val_car_def val_cdr_def)

lemma shift_loop_sizes: "shift_loop flag ls = Inr (f, items, tails) \<Longrightarrow>
    sizes items + sizes tails \<le> sizes ls \<and> (flag \<le> 0 \<longrightarrow> f > 0 \<longrightarrow> sizes items + sizes tails < sizes ls)"
proof (induction flag ls arbitrary: f items tails rule: shift_loop.induct)
  case (2 flag l ls)
  then show ?case
    by (fastforce simp: sizes_def size_val_cons res_bind_Inr_iff split: if_splits prod.splits)
qed (simp add: sizes_def)

lemma get_and_shift_sizes:
  assumes "get_and_shift ls = Inr (True, items, tails)"
  shows "sizes items + sizes tails < sizes ls"
  using assms shift_loop_sizes [of 0 ls] by (fastforce simp: get_and_shift_def res_bind_Inr_iff split: prod.splits)

lemma get_and_shift_less:
  assumes "get_and_shift ls = Inr (True, items, tails)"
  shows "sizes items < sizes ls" "sizes tails < sizes ls"
  using get_and_shift_sizes [OF assms] by simp_all


function mapc_loop :: "(lv \<Rightarrow> lv evm) \<Rightarrow> lv list \<Rightarrow> lv \<Rightarrow> lv evm" where
  "mapc_loop A ls result = (case get_and_shift ls of
       Inl e \<Rightarrow> ev_fail e
     | Inr (go, items, tails) \<Rightarrow>
         if go then ev_bind (A (list_val items)) (mapc_loop A tails) else ev_ret result)"
  by pat_completeness auto
termination
  by (relation "measure (\<lambda>(_, ls, _). sizes ls)") (auto dest: get_and_shift_less)

function rmapc_loop :: "(lv \<Rightarrow> lv evm) \<Rightarrow> lv list \<Rightarrow> lv \<Rightarrow> lv evm" where
  "rmapc_loop A ls result = (case get_and_shift ls of
       Inl e \<Rightarrow> ev_fail e
     | Inr (go, items, tails) \<Rightarrow>
         if go then ev_bind (if rflag items then rmapc_loop A items VNil else A (list_val items))
           (rmapc_loop A tails)
         else ev_ret result)"
  by pat_completeness auto
termination
  by (relation "measure (\<lambda>(_, ls, _). sizes ls)") (auto dest: get_and_shift_less)

function mapcar_loop :: "(lv \<Rightarrow> lv evm) \<Rightarrow> lv list \<Rightarrow> lv evm" where
  "mapcar_loop A ls = (case get_and_shift ls of
       Inl e \<Rightarrow> ev_fail e
     | Inr (go, items, tails) \<Rightarrow>
         if go then ev_bind (A (list_val items)) (\<lambda>v.
           ev_bind (mapcar_loop A tails) (\<lambda>l. ev_ret (VCons v l)))
         else ev_ret VNil)"
  by pat_completeness auto
termination
  by (relation "measure (\<lambda>(_, ls). sizes ls)") (auto dest: get_and_shift_less)

function rmapcar_loop :: "(lv \<Rightarrow> lv evm) \<Rightarrow> lv list \<Rightarrow> lv evm" where
  "rmapcar_loop A ls = (case get_and_shift ls of
       Inl e \<Rightarrow> ev_fail e
     | Inr (go, items, tails) \<Rightarrow>
         if go then ev_bind (if rflag items then rmapcar_loop A items else A (list_val items)) (\<lambda>v.
           ev_bind (rmapcar_loop A tails) (\<lambda>l. ev_ret (VCons v l)))
         else ev_ret VNil)"
  by pat_completeness auto
termination
  by (relation "measure (\<lambda>(_, ls). sizes ls)") (auto dest: get_and_shift_less)

declare mapc_loop.simps [simp del] rmapc_loop.simps [simp del] mapcar_loop.simps [simp del]
  rmapcar_loop.simps [simp del]

text \<open>
  The arguments of these functions: \<open>f = APOINTER(1)\<close> and the lists, which are stored in an array of
  \<open>MAXARGMAPC\<close> elements. The test of the number of arguments is the one of the C code.
\<close>

fun map_lists :: "evaluator \<Rightarrow> nat \<Rightarrow> lv list \<Rightarrow> lv list evm" where
  "map_lists E i [] = ev_ret []"
| "map_lists E i (a # as) = ev_bind (argeval E a) (\<lambda>v.
     if \<not> ISLIST v then ev_fail (need_error 2 (int i))
     else if i - 2 \<ge> MAXARGMAPC then ev_fail (Undef ''write past the end of listes'')
     else ev_bind (map_lists E (i + 1) as) (\<lambda>ls. ev_ret (v # ls)))"

definition map_args :: "evaluator \<Rightarrow> lv list \<Rightarrow> (lv \<times> lv list) evm" where
  "map_args E args =
     (if length args < 2 \<or> length args > 2 + MAXARGMAPC then ev_fail (need_error 0 (- 1))
      else ev_bind (argeval E (hd args)) (\<lambda>f. ev_bind (map_lists E 2 (tl args)) (\<lambda>ls. ev_ret (f, ls))))"

section \<open>Functions written in C\<close>

type_synonym caller = "lv \<Rightarrow> lv \<Rightarrow> lv evm"

text \<open>\<open>apply\<close>: the argument \<open>L\<close> is the call of the \<open>list_eval\<close> function of the class of an object.\<close>

definition apply_fn :: "evaluator \<Rightarrow> caller \<Rightarrow> lv \<Rightarrow> lv \<Rightarrow> lv evm" where
  "apply_fn E L q p = ev_bind (E q) (\<lambda>f. ev_then (set_argeval False)
     (ev_bind (L f (VCons q p)) (\<lambda>r. ev_then (set_argeval True) (ev_ret r))))"

fun xeval_loop :: "evaluator \<Rightarrow> lv list \<Rightarrow> lv \<Rightarrow> lv evm" where
  "xeval_loop E [] q = ev_ret q"
| "xeval_loop E (a # as) q = ev_bind (argeval E a) (\<lambda>v. ev_bind (E v) (xeval_loop E as))"

fun xand_loop :: "evaluator \<Rightarrow> lv list \<Rightarrow> lv \<Rightarrow> lv evm" where
  "xand_loop E [] p = ev_ret p"
| "xand_loop E (a # as) p = ev_bind (argeval E a) (\<lambda>p. if p = VNil then ev_ret VNil else xand_loop E as p)"

fun xor_loop :: "evaluator \<Rightarrow> lv list \<Rightarrow> lv evm" where
  "xor_loop E [] = ev_ret VNil"
| "xor_loop E (a # as) = ev_bind (argeval E a) (\<lambda>p. if p \<noteq> VNil then ev_ret p else xor_loop E as)"

text \<open>\<open>xsetq\<close>: the values are computed first, then assigned.\<close>

fun setq_values :: "evaluator \<Rightarrow> lv list \<Rightarrow> (lv \<times> lv) list evm" where
  "setq_values E (a # b # as) =
     ev_bind (argeval E b) (\<lambda>v. ev_bind (setq_values E as) (\<lambda>l. ev_ret ((a, v) # l)))"
| "setq_values E _ = ev_ret []"

fun setq_loop :: "(lv \<times> lv) list \<Rightarrow> lv \<Rightarrow> lv evm" where
  "setq_loop [] q = ev_ret q"
| "setq_loop ((a, v) # l) q = ev_bind (sym_setq a v) (setq_loop l)"

definition xsetq :: "evaluator \<Rightarrow> lv list \<Rightarrow> lv evm" where
  "xsetq E args = (if odd (length args) \<or> length args < 2 then ev_fail (Lush ''two arguments were expected'')
     else ev_bind (setq_values E args) (\<lambda>l. setq_loop l VNil))"

definition xset :: "evaluator \<Rightarrow> lv list \<Rightarrow> lv evm" where
  "xset E args = ev_bind (n_args E 2 args) (\<lambda>as. ev_bind (ev_lift (ASYMBOL 1 as)) (\<lambda>x.
     ev_then (sym_set x (as ! 1)) (ev_ret (as ! 1))))"

definition xincr :: "evaluator \<Rightarrow> lv list \<Rightarrow> lv evm" where
  "xincr E args = ev_bind
     (if length args = 1 then ev_ret 1
      else ev_then (ev_lift (ARG_NUMBER 2 args))
        (ev_bind (argeval E (args ! 1)) (\<lambda>v. ev_lift (AREAL 2 (args[1 := v])))))
     (\<lambda>incr. ev_bind (ev_lift (ASYMBOL 1 args)) (\<lambda>x. ev_bind (sym_get x) (\<lambda>q. case q of
         VNum y \<Rightarrow> ev_then (sym_set x (VNum (incr + y))) (ev_ret (VNum (incr + y)))
       | _ \<Rightarrow> ev_fail (Lush ''not a number''))))"

text \<open>\<open>AREAL(i)\<close> for all the arguments, from the first to the last\<close>

definition reals :: "lv list \<Rightarrow> rat list res" where
  "reals as = res_map (\<lambda>i. AREAL i as) [1..<Suc (length as)]"

definition xadd :: "evaluator \<Rightarrow> lv list \<Rightarrow> lv evm" where
  "xadd E args = ev_bind (all_args_eval E args) (\<lambda>as. ev_bind (ev_lift (reals as)) (\<lambda>xs.
     ev_ret (VNum (foldl (+) 0 xs))))"

definition xmul :: "evaluator \<Rightarrow> lv list \<Rightarrow> lv evm" where
  "xmul E args = ev_bind (all_args_eval E args) (\<lambda>as. ev_bind (ev_lift (reals as)) (\<lambda>xs.
     ev_ret (VNum (foldl (*) 1 xs))))"

definition xsub :: "evaluator \<Rightarrow> lv list \<Rightarrow> lv evm" where
  "xsub E args = (if args = [] then ev_fail (need_error 0 (- 1))
     else ev_bind (all_args_eval E args) (\<lambda>as. ev_bind (ev_lift (reals as)) (\<lambda>xs.
       ev_ret (VNum (if length xs = 1 then - hd xs else foldl (-) (hd xs) (tl xs))))))"

text \<open>\<open>true()\<close>\<close>

definition ltrue :: lv where
  "ltrue = VSym ''t''"

definition is_function :: "lv \<Rightarrow> bool" where
  "is_function v = (case v of VObj _ \<Rightarrow> True | _ \<Rightarrow> False)"

definition ISSYMBOL :: "lv \<Rightarrow> bool" where
  "ISSYMBOL v = (case v of VSym _ \<Rightarrow> True | _ \<Rightarrow> False)"

definition xcar :: "(lv \<Rightarrow> lv) \<Rightarrow> evaluator \<Rightarrow> lv list \<Rightarrow> lv evm" where
  "xcar part E args = ev_bind (n_args E 1 args) (\<lambda>as. ev_bind (ev_lift (ALIST 1 as)) (\<lambda>l. ev_ret (part l)))"

definition pick :: "(lv \<Rightarrow> bool) \<Rightarrow> lv \<Rightarrow> lv" where
  "pick test v = (if test v then v else VNil)"

definition listp_fn :: "lv \<Rightarrow> lv" where
  "listp_fn v = (if v = VNil then ltrue else pick val_consp v)"

definition atomp_fn :: "lv \<Rightarrow> lv" where
  "atomp_fn v = (if v = VNil then ltrue else pick (\<lambda>v. \<not> val_consp v) v)"

definition null_fn :: "lv \<Rightarrow> lv" where
  "null_fn v = (if v = VNil then ltrue else VNil)"

definition eq0_fn :: "lv \<Rightarrow> lv" where
  "eq0_fn v = (case v of VNum x \<Rightarrow> if x = 0 then VNum 0 else VNil | _ \<Rightarrow> VNil)"

definition dx_call :: "evaluator \<Rightarrow> caller \<Rightarrow> dxfun \<Rightarrow> lv list \<Rightarrow> lv evm" where
  "dx_call E L f args = (case f of
       Xeval \<Rightarrow> if args = [] then ev_fail (Lush ''no arguments'') else xeval_loop E args VNil
     | Xapply \<Rightarrow> ev_bind (n_args E 2 args) (\<lambda>as. apply_fn E L (as ! 0) (as ! 1))
     | Xmapc \<Rightarrow> ev_bind (map_args E args) (\<lambda>(f, ls). mapc_loop (apply_fn E L f) ls VNil)
     | Xrmapc \<Rightarrow> ev_bind (map_args E args) (\<lambda>(f, ls). rmapc_loop (apply_fn E L f) ls VNil)
     | Xmapcar \<Rightarrow> ev_bind (map_args E args) (\<lambda>(f, ls). mapcar_loop (apply_fn E L f) ls)
     | Xrmapcar \<Rightarrow> ev_bind (map_args E args) (\<lambda>(f, ls). rmapcar_loop (apply_fn E L f) ls)
     | Xquote \<Rightarrow> ev_then (ev_lift (ARG_NUMBER 1 args)) (ev_ret (hd args))
     | Xand \<Rightarrow> if args = [] then ev_ret ltrue else xand_loop E args VNil
     | Xor \<Rightarrow> xor_loop E args
     | Xset \<Rightarrow> xset E args
     | Xsetq \<Rightarrow> xsetq E args
     | Xincr \<Rightarrow> xincr E args
     | Xsymbolp \<Rightarrow> one_arg E (pick ISSYMBOL) args
     | Xfunctionp \<Rightarrow> one_arg E (pick is_function) args
     | Xfuncdef \<Rightarrow> one_arg E funcdef args
     | Xcons \<Rightarrow> ev_bind (n_args E 2 args) (\<lambda>as. ev_ret (VCons (as ! 0) (as ! 1)))
     | Xcar \<Rightarrow> xcar val_car E args
     | Xcdr \<Rightarrow> xcar val_cdr E args
     | Xlistp \<Rightarrow> one_arg E listp_fn args
     | Xconsp \<Rightarrow> one_arg E (pick val_consp) args
     | Xatomp \<Rightarrow> one_arg E atomp_fn args
     | Xnumberp \<Rightarrow> one_arg E (pick ISNUMBER) args
     | Xnull \<Rightarrow> one_arg E null_fn args
     | Xeq0 \<Rightarrow> one_arg E eq0_fn args
     | Xadd \<Rightarrow> xadd E args
     | Xmul \<Rightarrow> xmul E args
     | Xsub \<Rightarrow> xsub E args)"

section \<open>Local variables\<close>

definition is_binding :: "lv \<Rightarrow> bool" where
  "is_binding pair \<longleftrightarrow> val_consp pair \<and> val_consp (val_cdr pair) \<and> val_cdr (val_cdr pair) = VNil"

definition orthoerr :: lush_error where
  "orthoerr = Lush ''syntax error in variable declaration part''"

fun orthogonalize :: "evaluator \<Rightarrow> lv \<Rightarrow> (lv \<times> lv) evm" where
  "orthogonalize E (VCons pair q) =
     (if is_binding pair then ev_bind (E (val_car (val_cdr pair))) (\<lambda>v.
        ev_bind (orthogonalize E q) (\<lambda>(l1, l2). ev_ret (VCons (val_car pair) l1, VCons v l2)))
      else ev_fail orthoerr)"
| "orthogonalize E VNil = ev_ret (VNil, VNil)"
| "orthogonalize E _ = ev_fail orthoerr"

definition ylet :: "evaluator \<Rightarrow> caller \<Rightarrow> lv \<Rightarrow> lv evm" where
  "ylet E L l = (if \<not> val_consp l then ev_fail (Lush ''bad 'let' construction'')
     else ev_bind (orthogonalize E (val_car l)) (\<lambda>(l1, l2). apply_fn E L (VObj (LFun DF l1 (val_cdr l))) l2))"

fun letstar_push :: "evaluator \<Rightarrow> lv \<Rightarrow> unit evm" where
  "letstar_push E (VCons p q) =
     (if \<not> is_binding p then ev_fail orthoerr
      else case val_car p of
          VSym x \<Rightarrow> ev_bind (E (val_car (val_cdr p))) (\<lambda>ans. ev_then (sym_push x ans) (letstar_push E q))
        | _ \<Rightarrow> ev_fail (Lush ''symbol expected, found''))"
| "letstar_push E VNil = ev_ret ()"
| "letstar_push E _ = ev_fail orthoerr"

fun letstar_pop :: "lv \<Rightarrow> unit evm" where
  "letstar_pop (VCons p q) = ev_then (case val_car p of VSym x \<Rightarrow> sym_pop x | _ \<Rightarrow> ev_ret ()) (letstar_pop q)"
| "letstar_pop _ = ev_ret ()"

definition yletstar :: "evaluator \<Rightarrow> lv \<Rightarrow> lv evm" where
  "yletstar E l = (if \<not> val_consp l then ev_fail (Lush ''bad 'let*' construction'')
     else ev_then (letstar_push E (val_car l)) (ev_bind (progn E (val_cdr l)) (\<lambda>ans.
       ev_then (letstar_pop (val_car l)) (ev_ret ans))))"

text \<open>The number that the next element of the list \<open>p\<close> evaluates to, in \<open>for\<close>\<close>

definition for_num :: "evaluator \<Rightarrow> lv \<Rightarrow> rat evm" where
  "for_num E p = (if \<not> val_consp p then ev_fail (Lush ''not a number'')
     else ev_bind (E (val_car p)) (\<lambda>v. case v of VNum x \<Rightarrow> ev_ret x | _ \<Rightarrow> ev_fail (Lush ''not a number'')))"

primrec for_loop :: "nat \<Rightarrow> evaluator \<Rightarrow> string \<Rightarrow> nat \<Rightarrow> lv \<Rightarrow> bool \<Rightarrow> rat \<Rightarrow> rat \<Rightarrow> rat \<Rightarrow> lv \<Rightarrow> lv evm" where
  "for_loop 0 E x h body up i stop step num = ev_fail NoFuel"
| "for_loop (Suc n) E x h body up i stop step num =
     (if (if up then i \<le> stop else i \<ge> stop) then ev_then (sym_store x h (VNum i))
        (ev_bind (progn E body) (for_loop n E x h body up (i + step) stop step))
      else ev_ret num)"

definition for_step :: "evaluator \<Rightarrow> lv \<Rightarrow> rat evm" where
  "for_step E p = (if val_consp p \<and> val_cdr p = VNil then for_num E p
     else if p \<noteq> VNil then ev_fail (Lush ''bad 'for' syntax'') else ev_ret 1)"

definition height :: "string \<Rightarrow> nat evm" where
  "height x = (\<lambda>s. Inr (length (symbols s x), s))"

definition yfor :: "nat \<Rightarrow> evaluator \<Rightarrow> lv \<Rightarrow> lv evm" where
  "yfor n E l = (if \<not> (val_consp l \<and> val_consp (val_car l)) then ev_fail (Lush ''bad 'for' syntax'')
     else case val_car (val_car l) of
         VSym x \<Rightarrow> (let p = val_cdr (val_car l); body = val_cdr l in
           ev_bind (for_num E p) (\<lambda>start. ev_bind (for_num E (val_cdr p)) (\<lambda>stop.
           ev_bind (for_step E (val_cdr (val_cdr p))) (\<lambda>step.
           ev_then (sym_push x VNil) (ev_bind (height x) (\<lambda>h.
           ev_bind
             (if start \<le> stop \<and> step \<ge> 0 then for_loop n E x h body True start stop step VNil
              else if start \<ge> stop \<and> step \<le> 0 then for_loop n E x h body False start stop step VNil
              else ev_ret VNil)
             (\<lambda>num. ev_then (sym_pop x) (ev_ret num))))))))
       | _ \<Rightarrow> ev_fail (Lush ''not a symbol''))"

fun list_items :: "lv \<Rightarrow> lv list" where
  "list_items (VCons a d) = a # list_items d"
| "list_items _ = []"

fun list_end :: "lv \<Rightarrow> lv" where
  "list_end (VCons a d) = list_end d"
| "list_end v = v"

text \<open>\<open>each\<close> and \<open>all\<close>: the argument \<open>M\<close> is the loop of \<open>mapc\<close> or of \<open>mapcar\<close>.\<close>

definition yeach :: "evaluator \<Rightarrow> caller \<Rightarrow> ((lv \<Rightarrow> lv evm) \<Rightarrow> lv list \<Rightarrow> lv evm) \<Rightarrow> string \<Rightarrow> lv \<Rightarrow> lv evm" where
  "yeach E L M msg l = (if \<not> val_consp l then ev_fail (Lush msg)
     else ev_bind (orthogonalize E (val_car l)) (\<lambda>(l1, l2).
       if length (list_items l2) > MAXARGMAPC then ev_fail (Lush ''Too many variables'')
       else M (apply_fn E L (VObj (LFun DF l1 (val_cdr l)))) (list_items l2)))"

section \<open>Control structures\<close>

definition yif :: "evaluator \<Rightarrow> lv \<Rightarrow> lv evm" where
  "yif E l = (if \<not> (val_consp l \<and> val_consp (val_cdr l)) then ev_fail (Lush ''bad 'if' construction'')
     else ev_bind (E (val_car l)) (\<lambda>q.
       if q \<noteq> VNil then E (val_car (val_cdr l)) else progn E (val_cdr (val_cdr l))))"

definition ywhen :: "evaluator \<Rightarrow> lv \<Rightarrow> lv evm" where
  "ywhen E l = (if \<not> (val_consp l \<and> val_consp (val_cdr l)) then ev_fail (Lush ''bad 'when' construction'')
     else ev_bind (E (val_car l)) (\<lambda>q. if q \<noteq> VNil then progn E (val_cdr l) else ev_ret VNil))"

fun ycond :: "evaluator \<Rightarrow> lv \<Rightarrow> lv evm" where
  "ycond E (VCons q l) =
     (if \<not> val_consp q then ev_fail (Lush ''bad 'cond' construction'')
      else ev_bind (E (val_car q)) (\<lambda>v. if v \<noteq> VNil then progn E (val_cdr q) else ycond E l))"
| "ycond E VNil = ev_ret VNil"
| "ycond E _ = ev_fail (Lush ''why a pointed list ?'')"

primrec while_loop :: "nat \<Rightarrow> evaluator \<Rightarrow> lv \<Rightarrow> lv \<Rightarrow> lv \<Rightarrow> lv evm" where
  "while_loop 0 E c body q1 = ev_fail NoFuel"
| "while_loop (Suc n) E c body q1 =
     ev_bind (E c) (\<lambda>q2. if q2 \<noteq> VNil then ev_bind (progn E body) (while_loop n E c body) else ev_ret q1)"

definition ywhile :: "nat \<Rightarrow> evaluator \<Rightarrow> lv \<Rightarrow> lv evm" where
  "ywhile n E l = (if \<not> val_consp l then ev_fail (Lush ''bad 'while' construction'')
     else while_loop n E (val_car l) (val_cdr l) VNil)"

primrec dowhile_loop :: "nat \<Rightarrow> evaluator \<Rightarrow> lv \<Rightarrow> lv \<Rightarrow> lv evm" where
  "dowhile_loop 0 E c body = ev_fail NoFuel"
| "dowhile_loop (Suc n) E c body = ev_bind (progn E body) (\<lambda>q1.
     ev_bind (E c) (\<lambda>q2. if q2 \<noteq> VNil then dowhile_loop n E c body else ev_ret q1))"

definition ydowhile :: "nat \<Rightarrow> evaluator \<Rightarrow> lv \<Rightarrow> lv evm" where
  "ydowhile n E l = (if \<not> val_consp l then ev_fail (Lush ''bad 'do-while' construction'')
     else dowhile_loop n E (val_car l) (val_cdr l))"

primrec repeat_loop :: "nat \<Rightarrow> evaluator \<Rightarrow> lv \<Rightarrow> lv \<Rightarrow> lv evm" where
  "repeat_loop 0 E body q1 = ev_ret q1"
| "repeat_loop (Suc i) E body q1 = ev_bind (progn E body) (repeat_loop i E body)"

definition yrepeat :: "evaluator \<Rightarrow> lv \<Rightarrow> lv evm" where
  "yrepeat E l = (if \<not> val_consp l then ev_fail (Lush ''bad 'repeat' construction'')
     else ev_bind (E (val_car l)) (\<lambda>q2. case q2 of
         VNum x \<Rightarrow> if x < 0 \<or> x > 1000000000 then ev_fail (Lush ''out of range'')
           else repeat_loop (nat (ctrunc x)) E (val_cdr l) VNil
       | _ \<Rightarrow> ev_fail (Lush ''not a number'')))"

definition ymacro_expand :: "evaluator \<Rightarrow> lv \<Rightarrow> lv evm" where
  "ymacro_expand E l =
     (if \<not> (val_consp l \<and> val_consp (val_car l) \<and> val_cdr l = VNil) then ev_fail (Lush ''syntax error'')
      else ev_bind (E (val_car (val_car l))) (\<lambda>p. dm_macro_expand E p (val_car l)))"

definition dy_call :: "nat \<Rightarrow> evaluator \<Rightarrow> caller \<Rightarrow> dyfun \<Rightarrow> lv \<Rightarrow> lv evm" where
  "dy_call n E L f l = (case f of
       Yprogn \<Rightarrow> progn E l
     | Yprog1 \<Rightarrow> prog1 E l
     | Ylet \<Rightarrow> ylet E L l
     | Yletstar \<Rightarrow> yletstar E l
     | Yfor \<Rightarrow> yfor n E l
     | Yeach \<Rightarrow> yeach E L (\<lambda>A ls. mapc_loop A ls VNil) ''bad 'each' construction'' l
     | Yall \<Rightarrow> yeach E L mapcar_loop ''bad 'all' construction'' l
     | Ylist \<Rightarrow> eval_a_list E l
     | Ylambda \<Rightarrow> make_lfun DE l
     | Yde \<Rightarrow> define_lfun DE l
     | Yflambda \<Rightarrow> make_lfun DF l
     | Ydf \<Rightarrow> define_lfun DF l
     | Ymlambda \<Rightarrow> make_lfun DM l
     | Ydm \<Rightarrow> define_lfun DM l
     | Ymacro_expand \<Rightarrow> ymacro_expand E l
     | Yif \<Rightarrow> yif E l
     | Ywhen \<Rightarrow> ywhen E l
     | Ycond \<Rightarrow> ycond E l
     | Ywhile \<Rightarrow> ywhile n E l
     | Ydowhile \<Rightarrow> ydowhile n E l
     | Yrepeat \<Rightarrow> yrepeat E l)"

section \<open>Calls\<close>

definition DXSTACKSIZE :: nat where
  "DXSTACKSIZE = 3000"

definition set_dx_sp :: "nat \<Rightarrow> unit evm" where
  "set_dx_sp k = (\<lambda>s. Inr ((), s\<lparr>dx_sp := k\<rparr>))"

definition dx_listeval :: "evaluator \<Rightarrow> caller \<Rightarrow> dxfun \<Rightarrow> lv \<Rightarrow> lv evm" where
  "dx_listeval E L f q = (\<lambda>s. let args = list_items (val_cdr q); sp = dx_sp s in
     if args \<noteq> [] \<and> sp + length args \<ge> DXSTACKSIZE then Inl (Lush ''sorry, stack full (Merci Yann)'')
     else if list_end (val_cdr q) \<noteq> VNil then Inl (Lush ''Bad argument list'')
     else ev_then (set_dx_sp (sp + length args)) (ev_bind (dx_call E L f args) (\<lambda>answer.
       ev_then (set_dx_sp sp) (ev_ret answer))) s)"

text \<open>The \<open>list_eval\<close> function of a class of functions\<close>

definition fun_listeval :: "nat \<Rightarrow> evaluator \<Rightarrow> caller \<Rightarrow> fobj \<Rightarrow> lv \<Rightarrow> lv evm" where
  "fun_listeval n E L p q = (case p of
       LFun k formal body \<Rightarrow> lfun_listeval E k formal body q
     | DX f \<Rightarrow> dx_listeval E L f q
     | DY f \<Rightarrow> dy_call n E L f (val_cdr q))"

text \<open>
  \<open>generic_listeval\<close>, the function of the other classes: when the head of the call is a symbol, a
  function is looked for below the top of its stack, down to the first frame without a value.
\<close>

fun stacked_function :: "sframe list \<Rightarrow> fobj option" where
  "stacked_function [] = None"
| "stacked_function (f # fs) =
     (if \<not> sf_bound f then None
      else case sf_value f of VObj p \<Rightarrow> Some p | _ \<Rightarrow> stacked_function fs)"

definition generic_listeval :: "nat \<Rightarrow> evaluator \<Rightarrow> caller \<Rightarrow> lv \<Rightarrow> lv \<Rightarrow> lv evm" where
  "generic_listeval n E L p q = (\<lambda>s.
     case (case val_car q of VSym x \<Rightarrow> stacked_function (tl (symbols s x)) | _ \<Rightarrow> None) of
       Some f \<Rightarrow> fun_listeval n E L f q s
     | None \<Rightarrow> Inl (Lush (if ISLIST p then ''not a function call'' else ''can't evaluate this list'')))"

definition list_eval :: "nat \<Rightarrow> evaluator \<Rightarrow> caller \<Rightarrow> lv \<Rightarrow> lv \<Rightarrow> lv evm" where
  "list_eval n E L p q = (case p of
       VObj f \<Rightarrow> fun_listeval n E L f q
     | _ \<Rightarrow> generic_listeval n E L p q)"

definition enter_call :: "lv \<Rightarrow> unit evm" where
  "enter_call p = (\<lambda>s. Inr ((), s\<lparr>this_call := p # this_call s\<rparr>))"

definition leave_call :: "unit evm" where
  "leave_call = (\<lambda>s. case this_call s of
       [] \<Rightarrow> Inl (Undef ''no call to leave'')
     | _ # cs \<Rightarrow> Inr ((), s\<lparr>this_call := cs\<rparr>))"

definition eval_std :: "evaluator \<Rightarrow> caller \<Rightarrow> evaluator" where
  "eval_std E L p = (case p of
       VCons a d \<Rightarrow> ev_bind (E a) (\<lambda>q.
         ev_then (enter_call p) (ev_then (set_argeval True)
         (ev_bind (L q p) (\<lambda>r. ev_then leave_call (ev_ret r)))))
     | VSym x \<Rightarrow> sym_eval x
     | _ \<Rightarrow> ev_ret p)"

fun ev :: "nat \<Rightarrow> evaluator" and lcall :: "nat \<Rightarrow> caller" where
  "ev 0 p = ev_fail NoFuel"
| "ev (Suc n) p = eval_std (ev n) (lcall n) p"
| "lcall 0 p q = ev_fail NoFuel"
| "lcall (Suc n) p q = list_eval n (ev n) (lcall n) p q"

text \<open>The state after \<open>init_symbol\<close>, \<open>init_function\<close>, \<open>init_eval\<close> and \<open>init_calls\<close>.\<close>

definition dx_define :: "(string \<times> fobj) list" where
  "dx_define = [(''eval'', DX Xeval), (''apply'', DX Xapply), (''mapc'', DX Xmapc), (''rmapc'', DX Xrmapc),
     (''mapcar'', DX Xmapcar), (''rmapcar'', DX Xrmapcar), (''quote'', DX Xquote), (''and'', DX Xand),
     (''or'', DX Xor), (''set'', DX Xset), (''setq'', DX Xsetq), (''incr'', DX Xincr),
     (''symbolp'', DX Xsymbolp), (''functionp'', DX Xfunctionp), (''funcdef'', DX Xfuncdef),
     (''cons'', DX Xcons), (''car'', DX Xcar), (''cdr'', DX Xcdr), (''listp'', DX Xlistp),
     (''consp'', DX Xconsp), (''atomp'', DX Xatomp), (''numberp'', DX Xnumberp), (''null'', DX Xnull),
     (''0='', DX Xeq0), (''+'', DX Xadd), (''*'', DX Xmul), (''-'', DX Xsub)]"

definition dy_define :: "(string \<times> fobj) list" where
  "dy_define = [(''progn'', DY Yprogn), (''prog1'', DY Yprog1), (''let'', DY Ylet), (''let*'', DY Yletstar),
     (''for'', DY Yfor), (''each'', DY Yeach), (''all'', DY Yall), (''list'', DY Ylist),
     (''lambda'', DY Ylambda), (''de'', DY Yde), (''flambda'', DY Yflambda), (''df'', DY Ydf),
     (''mlambda'', DY Ymlambda), (''dm'', DY Ydm), (''macro-expand'', DY Ymacro_expand), (''if'', DY Yif),
     (''when'', DY Ywhen), (''cond'', DY Ycond), (''while'', DY Ywhile), (''do-while'', DY Ydowhile),
     (''repeat'', DY Yrepeat)]"

definition init_symbols :: "string \<Rightarrow> sframe list" where
  "init_symbols x = (case map_of (dx_define @ dy_define) x of
       Some f \<Rightarrow> [\<lparr>sf_locked = True, sf_bound = True, sf_value = VObj f\<rparr>]
     | None \<Rightarrow> if x = ''t'' then [\<lparr>sf_locked = True, sf_bound = True, sf_value = ltrue\<rparr>]
         else if x = ''&optional'' \<or> x = ''&rest'' \<or> x = ''scope'' then [pushed_frame VNil]
         else [unbound_frame])"

definition init_lisp :: lstate where
  "init_lisp = \<lparr>symbols = init_symbols, argeval_std = True, this_call = [], dx_sp = 0\<rparr>"

end
