(* ===== verification/EvalSim.thy ===== *)
theory EvalSim
  imports Eval
begin

text \<open>
  What the evaluator does not depend on: the bound on its depth once the bound is large enough, the
  list of the calls under way, and (for \<open>eval\<close>) what \<open>argeval_ptr\<close> points to.

  \<open>sim b m m'\<close> relates two computations: started in states with the same symbols and the same stack of
  arguments (and the same \<open>argeval_ptr\<close> when \<open>b\<close>), either the first one runs out of its bound, or both
  return the same error, or both return the same value in states related in the same way, and restore
  the list of calls. The rules of \<open>sim_rules\<close> follow the structure of the definitions of \<open>Eval\<close>. The
  locale \<open>two_evaluators\<close> proves them for every function of the component from the same law about the
  functions it calls; the interpretation for \<open>ev n\<close> and \<open>ev (n + k)\<close> closes the recursion.
\<close>

named_theorems sim_rules

definition like_state :: "lstate \<Rightarrow> lstate \<Rightarrow> bool" where
  "like_state s s' \<longleftrightarrow> symbols s = symbols s' \<and> dx_sp s = dx_sp s'"

definition like_outcome :: "lstate \<Rightarrow> lstate \<Rightarrow> ('a \<times> lstate) res \<Rightarrow> ('a \<times> lstate) res \<Rightarrow> bool" where
  "like_outcome s s' r r' = (case r of
       Inl e \<Rightarrow> r' = Inl e
     | Inr (v, t) \<Rightarrow> \<exists>t'. r' = Inr (v, t') \<and> like_state t t' \<and> this_call t = this_call s \<and>
         this_call t' = this_call s' \<and> (argeval_std s = argeval_std s' \<longrightarrow> argeval_std t = argeval_std t') \<and>
         (argeval_std s' \<longrightarrow> argeval_std t'))"

definition sim :: "bool \<Rightarrow> 'a evm \<Rightarrow> 'a evm \<Rightarrow> bool" where
  "sim b m m' \<longleftrightarrow> (\<forall>s s'. like_state s s' \<longrightarrow> (b \<longrightarrow> argeval_std s = argeval_std s') \<longrightarrow>
     m s = Inl NoFuel \<or> like_outcome s s' (m s) (m' s'))"

lemma simI:
  assumes "\<And>s s'. like_state s s' \<Longrightarrow> (b \<Longrightarrow> argeval_std s = argeval_std s') \<Longrightarrow> m s \<noteq> Inl NoFuel \<Longrightarrow>
    like_outcome s s' (m s) (m' s')"
  shows "sim b m m'"
  using assms unfolding sim_def by blast

lemma simD:
  assumes "sim b m m'" "like_state s s'" "b \<longrightarrow> argeval_std s = argeval_std s'" "m s \<noteq> Inl NoFuel"
  shows "like_outcome s s' (m s) (m' s')"
  using assms unfolding sim_def by blast

lemma sim_weaken: "sim False m m' \<Longrightarrow> sim b m m'"
  unfolding sim_def by blast

lemma sim_True: "sim b m m' \<Longrightarrow> sim True m m'"
  unfolding sim_def by blast

lemma like_state_refl [simp]: "like_state s s"
  by (simp add: like_state_def)

lemma sim_ret [sim_rules]: "sim b (ev_ret v) (ev_ret v)"
  by (rule simI) (simp add: ev_ret_def like_outcome_def)

lemma sim_fail [sim_rules]: "sim b (ev_fail e) (ev_fail e)"
  by (rule simI) (simp add: ev_fail_def like_outcome_def)

lemma sim_out_of_fuel [sim_rules]: "sim b (ev_fail NoFuel) m"
  by (rule simI) (simp add: ev_fail_def)

lemma sim_lift [sim_rules]: "sim b (ev_lift r) (ev_lift r)"
  by (cases r) (simp_all add: ev_lift_def sim_ret sim_fail)

lemma sim_bind [sim_rules]:
  assumes m: "sim b m m'" and f: "\<And>x. sim b (f x) (f' x)"
  shows "sim b (ev_bind m f) (ev_bind m' f')"
proof (rule simI)
  fix s s'
  assume s: "like_state s s'" "b \<Longrightarrow> argeval_std s = argeval_std s'" "ev_bind m f s \<noteq> Inl NoFuel"
  have ms: "m s \<noteq> Inl NoFuel" using s(3) by (auto simp: ev_bind_def)
  have out: "like_outcome s s' (m s) (m' s')" using simD [OF m s(1) _ ms] s(2) by blast
  show "like_outcome s s' (ev_bind m f s) (ev_bind m' f' s')"
  proof (cases "m s")
    case (Inl e)
    then show ?thesis using out by (simp add: like_outcome_def ev_bind_def)
  next
    case (Inr vt)
    obtain v t where vt: "m s = Inr (v, t)" using Inr by (cases vt) simp
    then obtain t' where t': "m' s' = Inr (v, t')" "like_state t t'" "this_call t = this_call s"
      "this_call t' = this_call s'" "argeval_std s = argeval_std s' \<longrightarrow> argeval_std t = argeval_std t'"
      "argeval_std s' \<longrightarrow> argeval_std t'"
      using out by (auto simp: like_outcome_def)
    have ft: "f v t \<noteq> Inl NoFuel" using s(3) vt by (simp add: ev_bind_def)
    have "like_outcome t t' (f v t) (f' v t')" by (rule simD [OF f t'(2) _ ft]) (use s(2) t'(5) in blast)
    then show ?thesis using vt t' by (auto simp: like_outcome_def ev_bind_def split: sum.splits prod.splits)
  qed
qed

lemma sim_then [sim_rules]: "sim b m m' \<Longrightarrow> sim b k k' \<Longrightarrow> sim b (ev_then m k) (ev_then m' k')"
  unfolding ev_then_def by (rule sim_bind)

lemma sim_if [sim_rules]:
  "(c \<Longrightarrow> sim b m m') \<Longrightarrow> (\<not> c \<Longrightarrow> sim b k k') \<Longrightarrow> sim b (if c then m else k) (if c then m' else k')"
  by simp

lemma sim_case_val [sim_rules]:
  assumes "sim b m1 m1'" "\<And>x. sim b (m2 x) (m2' x)" "\<And>x. sim b (m3 x) (m3' x)" "\<And>x. sim b (m4 x) (m4' x)"
    "\<And>a d. sim b (m5 a d) (m5' a d)" "\<And>x. sim b (m6 x) (m6' x)" "\<And>x. sim b (m7 x) (m7' x)"
  shows "sim b (case v of VNil \<Rightarrow> m1 | VNum x \<Rightarrow> m2 x | VStr x \<Rightarrow> m3 x | VSym x \<Rightarrow> m4 x | VCons a d \<Rightarrow> m5 a d
        | VGptr x \<Rightarrow> m6 x | VObj x \<Rightarrow> m7 x)
      (case v of VNil \<Rightarrow> m1' | VNum x \<Rightarrow> m2' x | VStr x \<Rightarrow> m3' x | VSym x \<Rightarrow> m4' x | VCons a d \<Rightarrow> m5' a d
        | VGptr x \<Rightarrow> m6' x | VObj x \<Rightarrow> m7' x)"
  using assms by (cases v) simp_all

lemma sim_case_fobj [sim_rules]:
  assumes "\<And>k f d. sim b (m1 k f d) (m1' k f d)" "\<And>x. sim b (m2 x) (m2' x)" "\<And>x. sim b (m3 x) (m3' x)"
  shows "sim b (case v of LFun k f d \<Rightarrow> m1 k f d | DX x \<Rightarrow> m2 x | DY x \<Rightarrow> m3 x)
      (case v of LFun k f d \<Rightarrow> m1' k f d | DX x \<Rightarrow> m2' x | DY x \<Rightarrow> m3' x)"
  using assms by (cases v) simp_all

lemma sim_case_prod [sim_rules]:
  "(\<And>x y. sim b (f x y) (f' x y)) \<Longrightarrow> sim b (case p of (x, y) \<Rightarrow> f x y) (case p of (x, y) \<Rightarrow> f' x y)"
  by (cases p) simp

lemma sim_case_sum [sim_rules]:
  assumes "\<And>x. sim b (f x) (f' x)" "\<And>x. sim b (g x) (g' x)"
  shows "sim b (case r of Inl x \<Rightarrow> f x | Inr x \<Rightarrow> g x) (case r of Inl x \<Rightarrow> f' x | Inr x \<Rightarrow> g' x)"
  using assms by (cases r) simp_all

section \<open>Elementary steps\<close>

lemma sim_core:
  assumes "\<And>s s'. like_state s s' \<Longrightarrow> like_outcome s s' (m s) (m s')"
  shows "sim b m m"
  using assms by (intro simI) blast

lemmas sim_step_defs = like_outcome_def like_state_def upd_frames_def

lemma sim_symbols [sim_rules]:
  "sim b (sym_eval x) (sym_eval x)" "sim b (sym_push x v) (sym_push x v)" "sim b (sym_pop x) (sym_pop x)"
  "sim b (sym_set x v) (sym_set x v)" "sim b (sym_get x) (sym_get x)"
  "sim b (sym_set_global x v) (sym_set_global x v)" "sim b (sym_store x h v) (sym_store x h v)"
  "sim b (height x) (height x)"
  by (rule sim_core; auto simp: sim_step_defs sym_eval_def sym_push_def sym_pop_def sym_set_def sym_get_def
      sym_set_global_def sym_store_def height_def Let_def split: list.splits if_splits)+

lemma sim_set_dx_sp [sim_rules]: "sim b (set_dx_sp k) (set_dx_sp k)"
  by (rule sim_core) (auto simp: sim_step_defs set_dx_sp_def)

lemma sim_set_argeval [sim_rules]: "sim b (set_argeval True) (set_argeval True)"
  by (rule sim_core) (auto simp: sim_step_defs set_argeval_def)

text \<open>After \<open>argeval_ptr\<close> is set, its old value does not matter.\<close>

lemma sim_set_argeval_then:
  assumes "sim True m m'"
  shows "sim b (ev_then (set_argeval True) m) (ev_then (set_argeval True) m')"
proof (rule simI)
  fix s s'
  assume s: "like_state s s'" "ev_then (set_argeval True) m s \<noteq> Inl NoFuel"
  let ?t = "s\<lparr>argeval_std := True\<rparr>" and ?t' = "s'\<lparr>argeval_std := True\<rparr>"
  have "like_outcome ?t ?t' (m ?t) (m' ?t')"
    by (rule simD [OF assms]) (use s in \<open>auto simp: like_state_def ev_defs set_argeval_def\<close>)
  then show "like_outcome s s' (ev_then (set_argeval True) m s) (ev_then (set_argeval True) m' s')"
    by (auto simp: like_outcome_def ev_defs set_argeval_def split: sum.splits)
qed

text \<open>\<open>apply\<close> sets it to \<open>eval_nothing\<close> and back.\<close>

lemma sim_without_argeval:
  assumes "sim True m m'"
  shows "sim b (ev_then (set_argeval False) (ev_bind m (\<lambda>r. ev_then (set_argeval True) (ev_ret r))))
    (ev_then (set_argeval False) (ev_bind m' (\<lambda>r. ev_then (set_argeval True) (ev_ret r))))" (is "sim b (?f m) (?f m')")
proof (rule simI)
  fix s s'
  assume s: "like_state s s'" "?f m s \<noteq> Inl NoFuel"
  let ?t = "s\<lparr>argeval_std := False\<rparr>" and ?t' = "s'\<lparr>argeval_std := False\<rparr>"
  have "like_outcome ?t ?t' (m ?t) (m' ?t')"
    by (rule simD [OF assms]) (use s in \<open>auto simp: like_state_def ev_defs set_argeval_def\<close>)
  then show "like_outcome s s' (?f m s) (?f m' s')"
    by (auto simp: like_outcome_def like_state_def ev_defs set_argeval_def split: sum.splits)
qed

text \<open>The list of calls is restored.\<close>

definition in_call :: "lv \<Rightarrow> 'a evm \<Rightarrow> 'a evm" where
  "in_call p m = ev_then (enter_call p) (ev_bind m (\<lambda>r. ev_then leave_call (ev_ret r)))"

lemma sim_in_call:
  assumes "sim b m m'"
  shows "sim b (in_call p m) (in_call p' m')"
proof (rule simI)
  fix s s'
  assume s: "like_state s s'" "b \<Longrightarrow> argeval_std s = argeval_std s'" "in_call p m s \<noteq> Inl NoFuel"
  let ?t = "s\<lparr>this_call := p # this_call s\<rparr>" and ?t' = "s'\<lparr>this_call := p' # this_call s'\<rparr>"
  have "like_outcome ?t ?t' (m ?t) (m' ?t')"
    by (rule simD [OF assms]) (use s in \<open>auto simp: like_state_def in_call_def ev_defs enter_call_def\<close>)
  then show "like_outcome s s' (in_call p m s) (in_call p' m' s')"
    by (auto simp: like_outcome_def like_state_def in_call_def ev_defs enter_call_def leave_call_def
        split: sum.splits)
qed

lemma like_outcome_guard:
  assumes "m \<noteq> Inl NoFuel \<Longrightarrow> like_outcome s s' m m'" "(if c then Inl e else m) \<noteq> Inl NoFuel"
  shows "like_outcome s s' (if c then Inl e else m) (if c then Inl e else m')"
  using assms by (cases c) (simp_all add: like_outcome_def)

lemma sim_argeval:
  assumes "sim False (E v) (E' v)"
  shows "sim True (argeval E v) (argeval E' v)"
proof (rule simI)
  fix s s'
  assume s: "like_state s s'" "True \<Longrightarrow> argeval_std s = argeval_std s'" "argeval E v s \<noteq> Inl NoFuel"
  show "like_outcome s s' (argeval E v s) (argeval E' v s')"
  proof (cases "argeval_std s")
    case True
    then have "like_outcome s s' (E v s) (E' v s')"
      by (intro simD [OF assms s(1)]) (use s in \<open>auto simp: argeval_def\<close>)
    then show ?thesis using True s by (simp add: argeval_def)
  next
    case False
    then show ?thesis using s by (simp add: argeval_def like_outcome_def)
  qed
qed

text \<open>Binding and unbinding the arguments involves no evaluation.\<close>

lemma sim_sym_setq [sim_rules]: "sim b (sym_setq p q) (sym_setq p q)"
  unfolding sym_setq_def by (intro sim_rules)

lemma sim_parse_rest [sim_rules]: "sim b (parse_rest f r) (parse_rest f r)"
  unfolding parse_rest_def by (intro sim_rules)

lemma sim_parse_optional_loop [sim_rules]: "sim b (parse_optional_loop f r) (parse_optional_loop f r)"
proof (induction f r rule: parse_optional_loop.induct)
  case (1 a d r)
  then show ?case
    by (cases "optional_arg a") (auto intro!: sim_rules split: prod.splits)
qed (auto intro: sim_rules)

lemma sim_parse_optional_stuff [sim_rules]: "sim b (parse_optional_stuff f r) (parse_optional_stuff f r)"
  unfolding parse_optional_stuff_def by (intro sim_rules)

lemma sim_push_args [sim_rules]: "sim b (push_args f r) (push_args f r)"
proof (induction f r rule: push_args.induct)
  case (1 a d r)
  then show ?case by (cases r) (auto intro!: sim_rules)
qed (auto intro: sim_rules)

lemma sim_pop_args [sim_rules]: "sim b (pop_args f) (pop_args f)"
  by (induction f rule: pop_args.induct) (auto intro: sim_rules)

lemma sim_letstar_pop [sim_rules]: "sim b (letstar_pop q) (letstar_pop q)"
  by (induction q rule: letstar_pop.induct) (auto intro!: sim_rules)

lemma sim_setq_loop [sim_rules]: "sim b (setq_loop l q) (setq_loop l q)"
  by (induction l arbitrary: q) (auto intro!: sim_rules)


section \<open>The evaluator\<close>

locale two_evaluators =
  fixes E E' :: evaluator and L L' :: caller
  assumes E_law: "sim False (E p) (E' p)"
    and L_law: "sim True (L p q) (L' p q)"
begin

lemma sim_E [sim_rules]: "sim b (E p) (E' p)"
  by (rule sim_weaken) (rule E_law)

lemma sim_arg [sim_rules]: "sim True (argeval E p) (argeval E' p)"
  by (rule sim_argeval) (rule E_law)

lemma sim_eval_a_list [sim_rules]: "sim True (eval_a_list E p) (eval_a_list E' p)"
  by (induction p) (auto intro!: sim_rules)

lemma sim_progn_loop [sim_rules]: "sim b (progn_loop E p q) (progn_loop E' p q)"
proof (induction p arbitrary: q)
  case (VCons a d)
  then show ?case by (auto intro!: sim_rules)
qed (auto intro: sim_rules)

lemma sim_progn [sim_rules]: "sim b (progn E p) (progn E' p)"
  unfolding progn_def by (rule sim_rules)

lemma sim_prog1: "sim b (prog1 E p) (prog1 E' p)"
  unfolding prog1_def by (intro sim_rules)

lemma sim_dm_expand [sim_rules]: "sim b (dm_expand E formal body q) (dm_expand E' formal body q)"
  unfolding dm_expand_def by (intro sim_rules)

lemma sim_lfun_listeval [sim_rules]: "sim True (lfun_listeval E k formal body q) (lfun_listeval E' k formal body q)"
  unfolding lfun_listeval_def de_listeval_def df_listeval_def dm_listeval_def
  by (cases k) (simp_all, (intro sim_rules)+)

lemma sim_all_args_eval [sim_rules]: "sim True (all_args_eval E args) (all_args_eval E' args)"
  unfolding all_args_eval_def by (induction args) (auto intro!: sim_rules)

lemma sim_n_args [sim_rules]: "sim True (n_args E n args) (n_args E' n args)"
  unfolding n_args_def by (intro sim_rules)

lemma sim_one_arg [sim_rules]: "sim True (one_arg E f args) (one_arg E' f args)"
  unfolding one_arg_def by (intro sim_rules)

lemma sim_map_lists [sim_rules]: "sim True (map_lists E i args) (map_lists E' i args)"
  by (induction args arbitrary: i) (auto intro!: sim_rules)

lemma sim_map_args [sim_rules]: "sim True (map_args E args) (map_args E' args)"
  unfolding map_args_def by (intro sim_rules)

lemma sim_apply_fn [sim_rules]: "sim b (apply_fn E L q p) (apply_fn E' L' q p)"
  unfolding apply_fn_def by (intro sim_bind sim_E sim_without_argeval L_law)

lemma sim_dx_loops [sim_rules]:
  "sim True (xeval_loop E args q) (xeval_loop E' args q)"
  "sim True (xand_loop E args q) (xand_loop E' args q)"
  "sim True (xor_loop E args) (xor_loop E' args)"
  by (induction args arbitrary: q) (auto intro!: sim_rules)

lemma sim_setq_values [sim_rules]: "sim True (setq_values E args) (setq_values E' args)"
  by (induction args rule: induct_list012) (auto intro!: sim_rules)

lemma sim_orthogonalize [sim_rules]: "sim b (orthogonalize E q) (orthogonalize E' q)"
proof (induction q)
  case (VCons a d)
  then show ?case by (auto intro!: sim_rules)
qed (auto intro: sim_rules)

lemma sim_letstar_push [sim_rules]: "sim b (letstar_push E q) (letstar_push E' q)"
proof (induction q)
  case (VCons a d)
  then show ?case by (auto intro!: sim_rules)
qed (auto intro: sim_rules)

lemma sim_for_num [sim_rules]: "sim b (for_num E p) (for_num E' p)" "sim b (for_step E p) (for_step E' p)"
  unfolding for_step_def for_num_def by (intro sim_rules)+

lemma sim_ycond [sim_rules]: "sim b (ycond E l) (ycond E' l)"
proof (induction l)
  case (VCons a d)
  then show ?case by (auto intro!: sim_rules)
qed (auto intro: sim_rules)

lemma sim_repeat_loop [sim_rules]: "sim b (repeat_loop i E body q) (repeat_loop i E' body q)"
  by (induction i arbitrary: q) (auto intro!: sim_rules)

lemma sim_dm_macro_expand [sim_rules]: "sim b (dm_macro_expand E p q) (dm_macro_expand E' p q)"
  unfolding dm_macro_expand_def by (intro sim_rules)

text \<open>The loops with a bound: the second one has a bound at least as large.\<close>

lemma sim_for_loop [sim_rules]:
  "sim b (for_loop n E x h body up i stop step num) (for_loop (n + k) E' x h body up i stop step num)"
  by (induction n arbitrary: i num) (auto intro!: sim_rules)

lemma sim_while_loop [sim_rules]: "sim b (while_loop n E c body q) (while_loop (n + k) E' c body q)"
  by (induction n arbitrary: q) (auto intro!: sim_rules)

lemma sim_dowhile_loop [sim_rules]: "sim b (dowhile_loop n E c body) (dowhile_loop (n + k) E' c body)"
  by (induction n) (auto intro!: sim_rules)

end

text \<open>The four map functions, over any related functions of the items.\<close>

lemma sim_mapc_loop:
  assumes A: "\<And>l. sim b (A l) (A' l)"
  shows "sim b (mapc_loop A ls q) (mapc_loop A' ls q)"
proof (induction "sizes ls" arbitrary: ls q rule: less_induct)
  case less
  show ?case
    by (subst (1 2) mapc_loop.simps) (auto intro!: sim_rules A less get_and_shift_less split: sum.split)
qed

lemma sim_rmapc_loop:
  assumes A: "\<And>l. sim b (A l) (A' l)"
  shows "sim b (rmapc_loop A ls q) (rmapc_loop A' ls q)"
proof (induction "sizes ls" arbitrary: ls q rule: less_induct)
  case less
  show ?case
    by (subst (1 2) rmapc_loop.simps)
      (auto intro!: sim_rules A less dest: get_and_shift_less split: sum.split)
qed

lemma sim_mapcar_loop:
  assumes A: "\<And>l. sim b (A l) (A' l)"
  shows "sim b (mapcar_loop A ls) (mapcar_loop A' ls)"
proof (induction "sizes ls" arbitrary: ls rule: less_induct)
  case less
  show ?case
    by (subst (1 2) mapcar_loop.simps) (auto intro!: sim_rules A less get_and_shift_less split: sum.split)
qed

lemma sim_rmapcar_loop:
  assumes A: "\<And>l. sim b (A l) (A' l)"
  shows "sim b (rmapcar_loop A ls) (rmapcar_loop A' ls)"
proof (induction "sizes ls" arbitrary: ls rule: less_induct)
  case less
  show ?case
    by (subst (1 2) rmapcar_loop.simps)
      (auto intro!: sim_rules A less dest: get_and_shift_less split: sum.split)
qed

lemmas sim_map_rules = sim_mapc_loop sim_rmapc_loop sim_mapcar_loop sim_rmapcar_loop

context two_evaluators
begin

lemma sim_assign [sim_rules]:
  "sim True (xset E args) (xset E' args)" "sim True (xsetq E args) (xsetq E' args)"
  "sim True (xincr E args) (xincr E' args)"
  unfolding xset_def xsetq_def xincr_def by (intro sim_rules)+

lemma sim_numbers [sim_rules]:
  "sim True (xcar part E args) (xcar part E' args)" "sim True (xadd E args) (xadd E' args)"
  "sim True (xmul E args) (xmul E' args)" "sim True (xsub E args) (xsub E' args)"
  unfolding xcar_def xadd_def xmul_def xsub_def by (intro sim_rules)+

lemma sim_dx_call [sim_rules]: "sim True (dx_call E L f args) (dx_call E' L' f args)"
  unfolding dx_call_def
  by (cases f; simp only: dxfun.case; intro sim_rules sim_map_rules)

lemma sim_dx_listeval [sim_rules]: "sim True (dx_listeval E L f q) (dx_listeval E' L' f q)"
proof (rule simI)
  fix s s'
  assume s: "like_state s s'" "True \<Longrightarrow> argeval_std s = argeval_std s'" "dx_listeval E L f q s \<noteq> Inl NoFuel"
  let ?m = "\<lambda>E L. ev_then (set_dx_sp (dx_sp s + length (list_items (val_cdr q))))
    (ev_bind (dx_call E L f (list_items (val_cdr q))) (\<lambda>answer. ev_then (set_dx_sp (dx_sp s)) (ev_ret answer)))"
  have sp: "dx_sp s' = dx_sp s" using s(1) by (simp add: like_state_def)
  have "sim True (?m E L) (?m E' L')" by (intro sim_rules)
  then have m: "?m E L s \<noteq> Inl NoFuel \<Longrightarrow> like_outcome s s' (?m E L s) (?m E' L' s')"
    using s(1,2) by (intro simD) auto
  show "like_outcome s s' (dx_listeval E L f q s) (dx_listeval E' L' f q s')"
    using s(3) unfolding dx_listeval_def Let_def sp by (intro like_outcome_guard m)
qed

lemma sim_ylet [sim_rules]: "sim b (ylet E L l) (ylet E' L' l)" "sim b (yletstar E l) (yletstar E' l)"
  unfolding ylet_def yletstar_def by (intro sim_rules)+

lemma sim_yfor [sim_rules]: "sim b (yfor n E l) (yfor (n + k) E' l)"
  unfolding yfor_def Let_def by (intro sim_rules)

lemma sim_yeach [sim_rules]:
  assumes "\<And>A A' ls. (\<And>x. sim b (A x) (A' x)) \<Longrightarrow> sim b (M A ls) (M A' ls)"
  shows "sim b (yeach E L M msg l) (yeach E' L' M msg l)"
  unfolding yeach_def by (intro sim_rules assms)

lemma sim_control [sim_rules]:
  "sim b (yif E l) (yif E' l)" "sim b (ywhen E l) (ywhen E' l)" "sim b (yrepeat E l) (yrepeat E' l)"
  "sim b (ywhile n E l) (ywhile (n + k) E' l)" "sim b (ydowhile n E l) (ydowhile (n + k) E' l)"
  "sim b (ymacro_expand E l) (ymacro_expand E' l)"
  unfolding yif_def ywhen_def yrepeat_def ywhile_def ydowhile_def ymacro_expand_def by (intro sim_rules)+

lemma sim_make_lfun [sim_rules]:
  "sim b (make_lfun kd l) (make_lfun kd l)" "sim b (define_lfun kd l) (define_lfun kd l)"
  unfolding make_lfun_def define_lfun_def by (intro sim_rules)+

lemma sim_dy_call [sim_rules]: "sim True (dy_call n E L f l) (dy_call (n + k) E' L' f l)"
  unfolding dy_call_def
  by (cases f; simp only: dyfun.case; intro sim_rules sim_map_rules sim_prog1; assumption)

lemma sim_fun_listeval [sim_rules]: "sim True (fun_listeval n E L p q) (fun_listeval (n + k) E' L' p q)"
  unfolding fun_listeval_def by (intro sim_rules)

lemma sim_generic_listeval [sim_rules]:
  "sim True (generic_listeval n E L p q) (generic_listeval (n + k) E' L' p q)"
proof (rule simI)
  fix s s'
  assume s: "like_state s s'" "True \<Longrightarrow> argeval_std s = argeval_std s'" "generic_listeval n E L p q s \<noteq> Inl NoFuel"
  have eq: "symbols s' = symbols s" using s(1) by (simp add: like_state_def)
  show "like_outcome s s' (generic_listeval n E L p q s) (generic_listeval (n + k) E' L' p q s')"
  proof (cases "case val_car q of VSym x \<Rightarrow> stacked_function (tl (symbols s x)) | _ \<Rightarrow> None")
    case None
    then show ?thesis unfolding generic_listeval_def eq by (simp add: like_outcome_def)
  next
    case (Some f)
    have "sim True (fun_listeval n E L f q) (fun_listeval (n + k) E' L' f q)" by (rule sim_rules)
    from simD [OF this s(1)] s(2,3) show ?thesis
      unfolding generic_listeval_def eq using Some by simp
  qed
qed

lemma sim_list_eval: "sim True (list_eval n E L p q) (list_eval (n + k) E' L' p q)"
  unfolding list_eval_def by (intro sim_rules)

lemma sim_eval_std: "sim False (eval_std E L p) (eval_std E' L' p)"
proof (cases p)
  case (VCons a d)
  have "sim False (ev_bind (E a) (\<lambda>q. in_call p (ev_then (set_argeval True) (L q p))))
      (ev_bind (E' a) (\<lambda>q. in_call p (ev_then (set_argeval True) (L' q p))))"
    by (intro sim_bind sim_E sim_in_call sim_set_argeval_then L_law)
  moreover have "ev_bind (E a) (\<lambda>q. in_call p (ev_then (set_argeval True) (L q p))) = eval_std E L p" for E :: evaluator and L :: caller
    using VCons by (simp add: eval_std_def in_call_def ev_then_def ev_bind_assoc)
  ultimately show ?thesis by simp
qed (simp_all add: eval_std_def sim_rules)

end

lemma sim_ev_lcall: "(\<forall>p. sim False (ev n p) (ev (n + k) p)) \<and> (\<forall>p q. sim True (lcall n p q) (lcall (n + k) p q))"
proof (induction n)
  case 0
  then show ?case by (simp add: sim_out_of_fuel)
next
  case (Suc n)
  have "two_evaluators (ev n) (ev (n + k)) (lcall n) (lcall (n + k))"
    by unfold_locales (use Suc in auto)
  then show ?case
    by (simp add: two_evaluators.sim_eval_std two_evaluators.sim_list_eval)
qed

interpretation bounds: two_evaluators "ev n" "ev (n + k)" "lcall n" "lcall (n + k)" for n k
  by unfold_locales (simp_all add: sim_ev_lcall)

end
