(* ===== verification/EvalBalance.thy ===== *)
theory EvalBalance
  imports EvalSim
begin

text \<open>
  The discipline of dynamic binding: an evaluation that returns leaves as many values on the stack of
  every symbol as it found, keeps the frames that are locked, and restores the list of calls and the
  stack of arguments. It holds for programs in which the symbol \<open>&optional\<close> does not occur
  (\<open>no_optional\<close>): \<open>pop_args\<close> takes the symbols of the default value of an optional argument for arguments.

  \<open>opens c P m\<close>: the computation \<open>m\<close>, when it returns, pushes \<open>c x\<close> values on the stack of every
  symbol \<open>x\<close>, and returns a value that satisfies \<open>P\<close>. The locale \<open>plain_evaluator\<close> proves
  \<open>opens 0\<close> for every function of the component from the same law about the functions it calls.
\<close>

named_theorems ok_rules

section \<open>Plain values and states\<close>

function no_optional :: "lv \<Rightarrow> bool" and plain_fun :: "fobj \<Rightarrow> bool" where
  "no_optional VNil = True"
| "no_optional (VNum x) = True"
| "no_optional (VStr x) = True"
| "no_optional (VSym x) = (x \<noteq> ''&optional'')"
| "no_optional (VCons a d) = (no_optional a \<and> no_optional d)"
| "no_optional (VGptr g) = True"
| "no_optional (VObj f) = plain_fun f"
| "plain_fun (LFun k formal body) = (no_optional formal \<and> no_optional body)"
| "plain_fun (DX f) = True"
| "plain_fun (DY g) = True"
  by pat_completeness auto
termination
  by (relation "measure (\<lambda>x. case x of Inl v \<Rightarrow> size_val size v | Inr f \<Rightarrow> size f)") auto

definition plain_frame :: "sframe \<Rightarrow> bool" where
  "plain_frame f \<longleftrightarrow> no_optional (sf_value f) \<and> (sf_locked f \<longrightarrow> sf_bound f)"

definition plain_state :: "lstate \<Rightarrow> bool" where
  "plain_state s \<longleftrightarrow> (\<forall>x. symbols s x \<noteq> [] \<and> list_all plain_frame (symbols s x))"

text \<open>What may happen to a frame: a locked one is left alone, a bound one stays bound.\<close>

definition frame_le :: "sframe \<Rightarrow> sframe \<Rightarrow> bool" where
  "frame_le f g \<longleftrightarrow> sf_locked g = sf_locked f \<and> (sf_locked f \<longrightarrow> g = f) \<and> (sf_bound f \<longrightarrow> sf_bound g)"

definition pushes :: "(string \<Rightarrow> nat) \<Rightarrow> lstate \<Rightarrow> lstate \<Rightarrow> bool" where
  "pushes c s t \<longleftrightarrow> plain_state t \<and> dx_sp t = dx_sp s \<and> this_call t = this_call s \<and>
     (argeval_std s \<longrightarrow> argeval_std t) \<and>
     (\<forall>x. list_all2 frame_le (symbols s x) (drop (c x) (symbols t x)))"

definition opens :: "(string \<Rightarrow> nat) \<Rightarrow> ('a \<Rightarrow> bool) \<Rightarrow> 'a evm \<Rightarrow> bool" where
  "opens c P m \<longleftrightarrow> (\<forall>s v t. plain_state s \<longrightarrow> m s = Inr (v, t) \<longrightarrow> P v \<and> pushes c s t)"

abbreviation ok :: "('a \<Rightarrow> bool) \<Rightarrow> 'a evm \<Rightarrow> bool" where
  "ok \<equiv> opens (\<lambda>_. 0)"

lemma frame_le_refl [simp]: "frame_le f f"
  by (simp add: frame_le_def)

lemma frame_le_trans: "frame_le f g \<Longrightarrow> frame_le g h \<Longrightarrow> frame_le f h"
  by (auto simp: frame_le_def)

lemma frames_refl [simp]: "list_all2 frame_le fs fs"
  by (rule list_all2_refl) simp

lemma frames_trans: "list_all2 frame_le fs gs \<Longrightarrow> list_all2 frame_le gs hs \<Longrightarrow> list_all2 frame_le fs hs"
  by (rule list_all2_trans [of frame_le frame_le frame_le]) (auto intro: frame_le_trans)

lemma pushes_refl: "plain_state s \<Longrightarrow> pushes (\<lambda>_. 0) s s"
  by (simp add: pushes_def)

lemma pushes_trans:
  assumes "pushes c s t" "pushes d t u"
  shows "pushes (\<lambda>x. c x + d x) s u"
proof -
  have "list_all2 frame_le (symbols s x) (drop (c x + d x) (symbols u x))" for x
  proof -
    have "list_all2 frame_le (drop (c x) (symbols t x)) (drop (c x) (drop (d x) (symbols u x)))"
      using assms(2) by (intro list_all2_dropI) (simp add: pushes_def)
    then show ?thesis using assms(1) frames_trans by (fastforce simp: pushes_def)
  qed
  then show ?thesis using assms by (simp add: pushes_def)
qed

lemma pushes_0_trans: "pushes (\<lambda>_. 0) s t \<Longrightarrow> pushes (\<lambda>_. 0) t u \<Longrightarrow> pushes (\<lambda>_. 0) s u"
  using pushes_trans [of "\<lambda>_. 0" s t "\<lambda>_. 0" u] by simp

lemma pushes_plain: "pushes c s t \<Longrightarrow> plain_state t"
  by (simp add: pushes_def)

text \<open>Only the value of an unlocked frame changes.\<close>

lemma plain_frames: "plain_state s \<Longrightarrow> symbols s x \<noteq> [] \<and> list_all plain_frame (symbols s x)"
  by (simp add: plain_state_def)

lemma pushes_upd_frames:
  assumes "plain_state s" "fs \<noteq> []" "list_all plain_frame fs" "list_all2 frame_le (symbols s x) fs"
  shows "pushes (\<lambda>_. 0) s (upd_frames x fs s)"
  using assms by (auto simp: pushes_def plain_state_def upd_frames_def)

section \<open>Rules\<close>

lemma opensI: "(\<And>s v t. plain_state s \<Longrightarrow> m s = Inr (v, t) \<Longrightarrow> P v \<and> pushes c s t) \<Longrightarrow> opens c P m"
  by (simp add: opens_def)

lemma opensD: "opens c P m \<Longrightarrow> plain_state s \<Longrightarrow> m s = Inr (v, t) \<Longrightarrow> P v \<and> pushes c s t"
  by (simp add: opens_def)

lemma ok_ret [ok_rules]: "P v \<Longrightarrow> ok P (ev_ret v)"
  by (rule opensI) (simp add: ev_ret_def pushes_refl)

lemma opens_fail [ok_rules]: "opens c P (ev_fail e)"
  by (rule opensI) (simp add: ev_fail_def)

lemma ok_lift [ok_rules]: "ok (\<lambda>x. r = Inr x) (ev_lift r)"
  by (cases r) (simp_all add: ev_lift_def opens_fail ok_ret)

lemma opens_bind:
  assumes "opens c Q m" "\<And>x. Q x \<Longrightarrow> opens d P (f x)"
  shows "opens (\<lambda>x. c x + d x) P (ev_bind m f)"
proof (rule opensI)
  fix s v t
  assume s: "plain_state s" and r: "ev_bind m f s = Inr (v, t)"
  from r obtain x u where 1: "m s = Inr (x, u)" "f x u = Inr (v, t)"
    by (auto simp: ev_bind_def split: sum.splits)
  from opensD [OF assms(1) s 1(1)] have x: "Q x" "pushes c s u" by simp_all
  from opensD [OF assms(2) [OF x(1)] pushes_plain [OF x(2)] 1(2)]
  show "P v \<and> pushes (\<lambda>x. c x + d x) s t" using pushes_trans x(2) by blast
qed

lemma ok_bind [ok_rules]: "ok Q m \<Longrightarrow> (\<And>x. Q x \<Longrightarrow> ok P (f x)) \<Longrightarrow> ok P (ev_bind m f)"
  using opens_bind [of "\<lambda>_. 0" Q m "\<lambda>_. 0" P f] by simp

lemma opens_then: "opens c Q m \<Longrightarrow> opens d P k \<Longrightarrow> opens (\<lambda>x. c x + d x) P (ev_then m k)"
  unfolding ev_then_def by (rule opens_bind)

lemma ok_then [ok_rules]: "ok Q m \<Longrightarrow> ok P k \<Longrightarrow> ok P (ev_then m k)"
  unfolding ev_then_def by (rule ok_bind)

lemma ok_if [ok_rules]: "(b \<Longrightarrow> ok P m) \<Longrightarrow> (\<not> b \<Longrightarrow> ok P k) \<Longrightarrow> ok P (if b then m else k)"
  by simp

lemma opens_weaken: "opens c P m \<Longrightarrow> (\<And>x. P x \<Longrightarrow> Q x) \<Longrightarrow> opens c Q m"
  unfolding opens_def by blast

lemma ok_case_prod [ok_rules]: "(\<And>x y. p = (x, y) \<Longrightarrow> ok P (f x y)) \<Longrightarrow> ok P (case p of (x, y) \<Rightarrow> f x y)"
  by (cases p) simp

lemma ok_case_sum [ok_rules]:
  "(\<And>x. r = Inl x \<Longrightarrow> ok P (f x)) \<Longrightarrow> (\<And>x. r = Inr x \<Longrightarrow> ok P (g x)) \<Longrightarrow>
   ok P (case r of Inl x \<Rightarrow> f x | Inr x \<Rightarrow> g x)"
  by (cases r) simp_all

lemma ok_case_val [ok_rules]:
  assumes "v = VNil \<Longrightarrow> ok P m1" "\<And>x. v = VNum x \<Longrightarrow> ok P (m2 x)" "\<And>x. v = VStr x \<Longrightarrow> ok P (m3 x)"
    "\<And>x. v = VSym x \<Longrightarrow> ok P (m4 x)" "\<And>a d. v = VCons a d \<Longrightarrow> ok P (m5 a d)"
    "\<And>x. v = VGptr x \<Longrightarrow> ok P (m6 x)" "\<And>x. v = VObj x \<Longrightarrow> ok P (m7 x)"
  shows "ok P (case v of VNil \<Rightarrow> m1 | VNum x \<Rightarrow> m2 x | VStr x \<Rightarrow> m3 x | VSym x \<Rightarrow> m4 x | VCons a d \<Rightarrow> m5 a d
        | VGptr x \<Rightarrow> m6 x | VObj x \<Rightarrow> m7 x)"
  using assms by (cases v) simp_all

lemma ok_case_fobj [ok_rules]:
  assumes "\<And>k f d. v = LFun k f d \<Longrightarrow> ok P (m1 k f d)" "\<And>x. v = DX x \<Longrightarrow> ok P (m2 x)"
    "\<And>x. v = DY x \<Longrightarrow> ok P (m3 x)"
  shows "ok P (case v of LFun k f d \<Rightarrow> m1 k f d | DX x \<Rightarrow> m2 x | DY x \<Rightarrow> m3 x)"
  using assms by (cases v) simp_all

section \<open>Symbols\<close>

lemma ok_sym_eval [ok_rules]: "ok no_optional (sym_eval x)"
proof (rule opensI)
  fix s v t
  assume "plain_state s" "sym_eval x s = Inr (v, t)"
  then show "no_optional v \<and> pushes (\<lambda>_. 0) s t"
    using plain_frames [of s x] by (auto simp: plain_frame_def sym_eval_def pushes_refl split: list.splits if_splits)
qed

lemma ok_sym_set [ok_rules]:
  assumes "no_optional v"
  shows "ok (\<lambda>_. True) (sym_set x v)"
proof (rule opensI)
  fix s u t
  assume s: "plain_state s" "sym_set x v s = Inr (u, t)"
  obtain f fs where f: "symbols s x = f # fs" using plain_frames [OF s(1), of x] by (cases "symbols s x") auto
  have "\<not> sf_locked f" "t = upd_frames x (f\<lparr>sf_bound := True, sf_value := v\<rparr> # fs) s"
    using s(2) f by (auto simp: sym_set_def split: if_splits)
  then show "True \<and> pushes (\<lambda>_. 0) s t"
    using assms s(1) f plain_frames [OF s(1), of x]
    by (auto intro!: pushes_upd_frames simp: frame_le_def plain_frame_def)
qed

lemma ok_sym_get [ok_rules]: "ok no_optional (sym_get x)"
proof (rule opensI)
  fix s v t
  assume s: "plain_state s" "sym_get x s = Inr (v, t)"
  obtain f fs where f: "symbols s x = f # fs" using plain_frames [OF s(1), of x] by (cases "symbols s x") auto
  have p: "plain_frame f" "list_all plain_frame fs" using plain_frames [OF s(1), of x] f by simp_all
  consider "v = sf_value f" "t = s" | "\<not> sf_bound f" "v = VNil"
      "t = upd_frames x (f\<lparr>sf_bound := True, sf_value := VNil\<rparr> # fs) s"
    using s(2) f by (auto simp: sym_get_def split: if_splits)
  then show "no_optional v \<and> pushes (\<lambda>_. 0) s t"
  proof cases
    case 1
    then show ?thesis using p s(1) by (simp add: plain_frame_def pushes_refl)
  next
    case 2
    then show ?thesis using p s(1) f by (auto intro!: pushes_upd_frames simp: frame_le_def plain_frame_def)
  qed
qed

lemma ok_sym_set_global [ok_rules]:
  assumes "no_optional v"
  shows "ok (\<lambda>_. True) (sym_set_global x v)"
proof (rule opensI)
  fix s u t
  assume s: "plain_state s" "sym_set_global x v s = Inr (u, t)"
  let ?fs = "symbols s x"
  let ?gs = "butlast ?fs @ [(last ?fs)\<lparr>sf_bound := True, sf_value := v\<rparr>]"
  have ne: "?fs \<noteq> []" and p: "list_all plain_frame ?fs" using plain_frames [OF s(1), of x] by simp_all
  have t: "\<not> sf_locked (last ?fs)" "t = upd_frames x ?gs s"
    using s(2) ne by (auto simp: sym_set_global_def Let_def split: list.splits if_splits)
  have "list_all2 frame_le (butlast ?fs @ [last ?fs]) ?gs"
    using t(1) by (intro list_all2_appendI) (simp_all add: frame_le_def)
  then have "list_all2 frame_le ?fs ?gs" using ne by simp
  moreover have "list_all plain_frame ?gs"
    using p assms t(1) by (auto simp: list_all_iff plain_frame_def dest: in_set_butlastD)
  ultimately show "True \<and> pushes (\<lambda>_. 0) s t" using s(1) t(2) by (simp add: pushes_upd_frames)
qed

lemma ok_sym_setq [ok_rules]: "no_optional q \<Longrightarrow> ok no_optional (sym_setq p q)"
  unfolding sym_setq_def by (rule ok_rules | assumption)+

lemma ok_setq_loop [ok_rules]: "list_all (\<lambda>(a, v). no_optional v) l \<Longrightarrow> no_optional q \<Longrightarrow> ok no_optional (setq_loop l q)"
  by (induction l arbitrary: q) (auto intro!: ok_rules)

section \<open>Binding and unbinding\<close>

text \<open>How many times a symbol occurs among the formal arguments\<close>

fun occ :: "lv \<Rightarrow> string \<Rightarrow> nat" where
  "occ (VCons a d) x = occ a x + occ d x"
| "occ (VSym y) x = (if x = y then 1 else 0)"
| "occ _ x = 0"

abbreviation one_of :: "string \<Rightarrow> string \<Rightarrow> nat" where
  "one_of y \<equiv> (\<lambda>x. if x = y then 1 else 0)"

lemma opens_sym_push: "no_optional v \<Longrightarrow> opens (one_of y) (\<lambda>_. True) (sym_push y v)"
  by (rule opensI)
    (auto simp: sym_push_def pushes_def plain_state_def upd_frames_def pushed_frame_def plain_frame_def
      split: if_splits)

lemma opens_eq: "opens c P m \<Longrightarrow> c = d \<Longrightarrow> opens d P m"
  by simp

lemma opens_parse_rest:
  assumes "no_optional f" "no_optional r"
  shows "opens (occ f) (\<lambda>_. True) (parse_rest f r)"
proof (cases "\<exists>x. f = VCons at_rest (VCons (VSym x) VNil)")
  case True
  then obtain x where f: "f = VCons at_rest (VCons (VSym x) VNil)" by blast
  have "opens (\<lambda>y. one_of ''&rest'' y + one_of x y) (\<lambda>_. True) (ev_then (sym_push ''&rest'' VNil) (sym_push x r))"
    by (rule opens_then, rule opens_sym_push, simp, rule opens_sym_push, rule assms(2))
  then show ?thesis unfolding f parse_rest_def at_rest_def by (simp add: fun_eq_iff) (erule opens_eq, auto)
next
  case False
  have fail: "opens (\<lambda>y. one_of ''&rest'' y + c y) (\<lambda>_. True) (ev_then (sym_push ''&rest'' VNil) (ev_fail e))" for c e
    by (rule opens_then, rule opens_sym_push, simp, rule opens_fail)
  have rest: "opens (occ f) (\<lambda>_. True) (ev_then (sym_push ''&rest'' VNil) (ev_fail e))" if "f = VCons at_rest d" for d e
    by (rule opens_eq [OF fail [of "occ d"]]) (auto simp: that at_rest_def)
  show ?thesis
    using False rest
    by (auto simp: parse_rest_def opens_fail split: val.splits) (auto simp: opens_def ev_ret_def pushes_def)
qed

lemma opens_push_args: "no_optional f \<Longrightarrow> no_optional r \<Longrightarrow> opens (occ f) (\<lambda>_. True) (push_args f r)"
proof (induction f r rule: push_args.induct)
  case (1 a d r)
  show ?case
  proof (cases "a = at_optional \<or> a = at_rest")
    case True
    then have "a = at_rest" using 1(3) by (auto simp: at_optional_def)
    then have "push_args (VCons a d) r = parse_rest (VCons a d) r"
      by (simp add: parse_optional_stuff_def val_consp_def val_car_def at_rest_def at_optional_def)
    then show ?thesis using opens_parse_rest [OF 1(3,4)] by (simp only:)
  next
    case False
    then show ?thesis
    proof (cases r)
      case (VCons b r')
      have "opens (\<lambda>x. occ a x + occ d x) (\<lambda>_. True) (ev_then (push_args a b) (push_args d r'))"
        using 1 VCons False by (intro opens_then) auto
      then show ?thesis using False VCons by simp
    qed (simp_all add: opens_fail)
  qed
next
  case (3 r)
  then show ?case by (auto simp: opens_fail) (auto simp: opens_def ev_ret_def pushes_def)
next
  case (2 x r)
  show ?case using opens_sym_push [OF 2(2), of x] by simp
qed (simp_all add: opens_fail)

definition pops :: "(string \<Rightarrow> nat) \<Rightarrow> unit evm \<Rightarrow> bool" where
  "pops c m \<longleftrightarrow> (\<forall>s. (\<forall>x. c x < length (symbols s x)) \<longrightarrow>
     m s = Inr ((), s\<lparr>symbols := \<lambda>x. drop (c x) (symbols s x)\<rparr>))"

lemma pops_sym_pop: "pops (one_of y) (sym_pop y)"
  unfolding pops_def
proof (intro allI impI)
  fix s :: lstate
  assume len: "\<forall>x. one_of y x < length (symbols s x)"
  then have "1 < length (symbols s y)" by (metis (full_types))
  then obtain f fs where f: "symbols s y = f # fs" "fs \<noteq> []" by (cases "symbols s y") auto
  then have "(symbols s)(y := fs) = (\<lambda>x. drop (one_of y x) (symbols s x))" by auto
  then show "sym_pop y s = Inr ((), s\<lparr>symbols := \<lambda>x. drop (one_of y x) (symbols s x)\<rparr>)"
    using f by (simp add: sym_pop_def upd_frames_def)
qed

lemma pops_then:
  assumes "pops c m" "pops d k"
  shows "pops (\<lambda>x. c x + d x) (ev_then m k)"
  unfolding pops_def
proof (intro allI impI)
  fix s :: lstate
  assume len: "\<forall>x. c x + d x < length (symbols s x)"
  let ?s = "s\<lparr>symbols := \<lambda>x. drop (c x) (symbols s x)\<rparr>"
  have "m s = Inr ((), ?s)" using assms(1) len add_lessD1 unfolding pops_def by blast
  moreover have "k ?s = Inr ((), ?s\<lparr>symbols := \<lambda>x. drop (d x) (symbols ?s x)\<rparr>)"
  proof -
    have "\<forall>x. d x < length (symbols ?s x)"
      using len by (auto simp: less_diff_conv add.commute)
    then show ?thesis using assms(2) unfolding pops_def by blast
  qed
  ultimately show "ev_then m k s = Inr ((), s\<lparr>symbols := \<lambda>x. drop (c x + d x) (symbols s x)\<rparr>)"
    by (simp add: ev_defs add.commute)
qed

lemma pops_ret: "pops (\<lambda>_. 0) (ev_ret ())"
  by (simp add: pops_def ev_ret_def)

lemma pops_eq: "pops c m \<Longrightarrow> c = d \<Longrightarrow> pops d m"
  by simp

lemma pops_pop_args: "pops (occ f) (pop_args f)"
proof (induction f rule: pop_args.induct)
  case (1 a d)
  from pops_then [OF this] show ?case by simp
next
  case (2 x)
  show ?case using pops_sym_pop [of x] by simp
qed (auto simp: pops_def ev_ret_def)

text \<open>Binding, then a computation that keeps the stacks, then unbinding.\<close>

lemma ok_bracket:
  assumes m1: "opens c Q m1" and m: "\<And>x. Q x \<Longrightarrow> ok P (m x)" and m2: "pops c m2"
  shows "ok P (ev_bind m1 (\<lambda>x. ev_bind (m x) (\<lambda>v. ev_then m2 (ev_ret v))))"
proof (rule opensI)
  fix s v t
  assume s: "plain_state s" "ev_bind m1 (\<lambda>x. ev_bind (m x) (\<lambda>v. ev_then m2 (ev_ret v))) s = Inr (v, t)"
  then obtain x u v' u' where 1: "m1 s = Inr (x, u)" "m x u = Inr (v', u')" "ev_then m2 (ev_ret v') u' = Inr (v, t)"
    by (auto simp: ev_bind_def split: sum.splits)
  from opensD [OF m1 s(1) 1(1)] have x: "Q x" "pushes c s u" by simp_all
  from opensD [OF m [OF x(1)] pushes_plain [OF x(2)] 1(2)] have v: "P v'" "pushes c s u'"
    using pushes_trans [OF x(2), of "\<lambda>_. 0" u'] by simp_all
  have len: "c y < length (symbols u' y)" for y
  proof -
    have "length (symbols s y) = length (symbols u' y) - c y"
      using v(2) by (auto simp: pushes_def dest!: spec [of _ y] list_all2_lengthD)
    then show ?thesis using plain_frames [OF s(1), of y] by (cases "c y < length (symbols u' y)") auto
  qed
  then have t: "v = v'" "t = u'\<lparr>symbols := \<lambda>x. drop (c x) (symbols u' x)\<rparr>"
    using 1(3) m2 by (auto simp: pops_def ev_defs)
  have "plain_state t"
    using pushes_plain [OF v(2)] len
    by (auto simp: t(2) plain_state_def list_all_iff not_le dest: in_set_dropD)
  then show "P v \<and> pushes (\<lambda>_. 0) s t" using v t by (simp add: pushes_def)
qed

lemma ok_bracket_then:
  assumes "opens c (\<lambda>_. True) m1" "ok P m" "pops c m2"
  shows "ok P (ev_then m1 (ev_bind m (\<lambda>v. ev_then m2 (ev_ret v))))"
  unfolding ev_then_def [of m1] by (rule ok_bracket [OF assms(1) _ assms(3)]) (rule assms(2))

lemma ok_in_call: "ok P m \<Longrightarrow> ok P (in_call p m)"
proof (rule opensI)
  fix s v t
  assume m: "ok P m" "plain_state s" "in_call p m s = Inr (v, t)"
  let ?s = "s\<lparr>this_call := p # this_call s\<rparr>"
  obtain u where u: "m ?s = Inr (v, u)" "leave_call u = Inr ((), t)"
    using m(3) by (auto simp: in_call_def ev_defs enter_call_def split: sum.splits)
  have "plain_state ?s" using m(2) by (simp add: plain_state_def)
  from opensD [OF m(1) this u(1)] u(2) show "P v \<and> pushes (\<lambda>_. 0) s t"
    by (auto simp: pushes_def plain_state_def leave_call_def)
qed

lemma ok_set_argeval: "ok (\<lambda>_. True) (set_argeval True)"
  by (rule opensI) (auto simp: set_argeval_def pushes_def plain_state_def)

lemma ok_without_argeval:
  assumes "ok P m"
  shows "ok P (ev_then (set_argeval False) (ev_bind m (\<lambda>r. ev_then (set_argeval True) (ev_ret r))))"
proof (rule opensI)
  fix s v t
  assume s: "plain_state s"
    "ev_then (set_argeval False) (ev_bind m (\<lambda>r. ev_then (set_argeval True) (ev_ret r))) s = Inr (v, t)"
  let ?s = "s\<lparr>argeval_std := False\<rparr>"
  obtain u where u: "m ?s = Inr (v, u)" "t = u\<lparr>argeval_std := True\<rparr>"
    using s(2) by (auto simp: ev_defs set_argeval_def split: sum.splits)
  have "plain_state ?s" using s(1) by (simp add: plain_state_def)
  from opensD [OF assms this u(1)] show "P v \<and> pushes (\<lambda>_. 0) s t"
    by (auto simp: u(2) pushes_def plain_state_def)
qed

lemma ok_argeval:
  assumes "no_optional v" "ok no_optional (E v)"
  shows "ok no_optional (argeval E v)"
proof (rule opensI)
  fix s w t
  assume "plain_state s" "argeval E v s = Inr (w, t)"
  then show "no_optional w \<and> pushes (\<lambda>_. 0) s t"
    using assms opensD [OF assms(2)] by (auto simp: argeval_def pushes_refl split: if_splits)
qed

section \<open>Parts of plain values\<close>

lemma plain_parts [simp]: "no_optional v \<Longrightarrow> no_optional (val_car v)" "no_optional v \<Longrightarrow> no_optional (val_cdr v)"
  by (cases v; simp add: val_car_def val_cdr_def)+

lemma plain_list_items: "no_optional v \<Longrightarrow> list_all no_optional (list_items v)"
  by (induction v) auto

lemma plain_list_val: "list_all no_optional vs \<Longrightarrow> no_optional (list_val vs)"
  by (induction vs) auto

lemma plain_nth: "list_all no_optional vs \<Longrightarrow> i < length vs \<Longrightarrow> no_optional (vs ! i)"
  by (simp add: list_all_length)

lemma plain_hd: "list_all no_optional vs \<Longrightarrow> vs \<noteq> [] \<Longrightarrow> no_optional (hd vs)"
  by (cases vs) auto

lemma plain_funcdef: "no_optional v \<Longrightarrow> no_optional (funcdef v)"
  by (auto simp: funcdef_def split: val.splits fobj.splits lkind.splits)

lemma plain_picks: "no_optional v \<Longrightarrow> no_optional (pick test v)" "no_optional (null_fn v)" "no_optional (eq0_fn v)"
  "no_optional v \<Longrightarrow> no_optional (listp_fn v)" "no_optional v \<Longrightarrow> no_optional (atomp_fn v)" "no_optional ltrue"
  by (auto simp: pick_def null_fn_def eq0_fn_def listp_fn_def atomp_fn_def ltrue_def split: val.splits)

lemma shift_loop_plain: "shift_loop flag ls = Inr (f, items, tails) \<Longrightarrow> list_all no_optional ls \<Longrightarrow>
    list_all no_optional items \<and> list_all no_optional tails"
proof (induction flag ls arbitrary: f items tails rule: shift_loop.induct)
  case (2 flag l ls)
  then show ?case by (fastforce simp: res_bind_Inr_iff split: if_splits prod.splits)
qed simp

lemma get_and_shift_plain: "get_and_shift ls = Inr (b, items, tails) \<Longrightarrow> list_all no_optional ls \<Longrightarrow>
    list_all no_optional items \<and> list_all no_optional tails"
  by (auto simp: get_and_shift_def res_bind_Inr_iff dest: shift_loop_plain split: prod.splits)


lemma get_and_shift_items:
  assumes "get_and_shift ls = Inr (b, items, tails)" "list_all no_optional ls"
  shows "no_optional (list_val items)" "list_all no_optional items" "list_all no_optional tails"
  using get_and_shift_plain [OF assms] by (simp_all add: plain_list_val)

section \<open>The map functions\<close>

lemma ok_bind_plain: "ok no_optional m \<Longrightarrow> (\<And>x. no_optional x \<Longrightarrow> ok P (f x)) \<Longrightarrow> ok P (ev_bind m f)"
  by (rule ok_bind)

text \<open>One turn of a map function\<close>

lemma ok_map_turn:
  assumes ls: "list_all no_optional ls"
    and eq: "m = (case get_and_shift ls of Inl e \<Rightarrow> ev_fail e
      | Inr (go, items, tails) \<Rightarrow> if go then k items tails else done0)"
    and k: "\<And>items tails. sizes items < sizes ls \<Longrightarrow> sizes tails < sizes ls \<Longrightarrow> no_optional (list_val items) \<Longrightarrow>
      list_all no_optional items \<Longrightarrow> list_all no_optional tails \<Longrightarrow> ok no_optional (k items tails)"
    and stop: "ok no_optional done0"
  shows "ok no_optional m"
  using ls k stop get_and_shift_less [of ls] get_and_shift_items [of ls]
  unfolding eq by (auto simp: opens_fail split: sum.split)

lemma ok_mapc_loop:
  assumes A: "\<And>l. no_optional l \<Longrightarrow> ok no_optional (A l)"
  shows "list_all no_optional ls \<Longrightarrow> no_optional q \<Longrightarrow> ok no_optional (mapc_loop A ls q)"
proof (induction "sizes ls" arbitrary: ls q rule: less_induct)
  case less
  show ?case
  proof (rule ok_map_turn [OF less.prems(1) mapc_loop.simps])
    fix items tails
    assume g: "sizes items < sizes ls" "sizes tails < sizes ls" "no_optional (list_val items)" "list_all no_optional items"
      "list_all no_optional tails"
    show "ok no_optional (ev_bind (A (list_val items)) (mapc_loop A tails))"
      by (intro ok_bind_plain ok_if ok_ret) (simp_all add: A less.hyps g)
  qed (simp add: ok_ret less.prems)
qed

lemma ok_rmapc_loop:
  assumes A: "\<And>l. no_optional l \<Longrightarrow> ok no_optional (A l)"
  shows "list_all no_optional ls \<Longrightarrow> no_optional q \<Longrightarrow> ok no_optional (rmapc_loop A ls q)"
proof (induction "sizes ls" arbitrary: ls q rule: less_induct)
  case less
  show ?case
  proof (rule ok_map_turn [OF less.prems(1) rmapc_loop.simps])
    fix items tails
    assume g: "sizes items < sizes ls" "sizes tails < sizes ls" "no_optional (list_val items)" "list_all no_optional items"
      "list_all no_optional tails"
    show "ok no_optional (ev_bind (if rflag items then rmapc_loop A items VNil else A (list_val items)) (rmapc_loop A tails))"
      by (intro ok_bind_plain ok_if ok_ret) (simp_all add: A less.hyps g)
  qed (simp add: ok_ret less.prems)
qed

lemma ok_mapcar_loop:
  assumes A: "\<And>l. no_optional l \<Longrightarrow> ok no_optional (A l)"
  shows "list_all no_optional ls \<Longrightarrow> ok no_optional (mapcar_loop A ls)"
proof (induction "sizes ls" arbitrary: ls rule: less_induct)
  case less
  show ?case
  proof (rule ok_map_turn [OF less.prems(1) mapcar_loop.simps])
    fix items tails
    assume g: "sizes items < sizes ls" "sizes tails < sizes ls" "no_optional (list_val items)" "list_all no_optional items"
      "list_all no_optional tails"
    show "ok no_optional (ev_bind (A (list_val items)) (\<lambda>v. ev_bind (mapcar_loop A tails) (\<lambda>l. ev_ret (VCons v l))))"
      by (intro ok_bind_plain ok_if ok_ret) (simp_all add: A less.hyps g)
  qed (simp add: ok_ret)
qed

lemma ok_rmapcar_loop:
  assumes A: "\<And>l. no_optional l \<Longrightarrow> ok no_optional (A l)"
  shows "list_all no_optional ls \<Longrightarrow> ok no_optional (rmapcar_loop A ls)"
proof (induction "sizes ls" arbitrary: ls rule: less_induct)
  case less
  show ?case
  proof (rule ok_map_turn [OF less.prems(1) rmapcar_loop.simps])
    fix items tails
    assume g: "sizes items < sizes ls" "sizes tails < sizes ls" "no_optional (list_val items)" "list_all no_optional items"
      "list_all no_optional tails"
    show "ok no_optional (ev_bind (if rflag items then rmapcar_loop A items else A (list_val items)) (\<lambda>v. ev_bind (rmapcar_loop A tails) (\<lambda>l. ev_ret (VCons v l))))"
      by (intro ok_bind_plain ok_if ok_ret) (simp_all add: A less.hyps g)
  qed (simp add: ok_ret)
qed

end
