(* ===== verification/EvalSound.thy ===== *)
theory EvalSound
  imports EvalBalance
begin

text \<open>
  The laws of \<open>EvalBalance\<close> for every function of the evaluator: a locale over the evaluator and the
  caller of functions, and its interpretation for \<open>ev n\<close> and \<open>lcall n\<close>.
\<close>

locale plain_evaluator =
  fixes E :: evaluator and L :: caller
  assumes E_plain: "no_optional p \<Longrightarrow> ok no_optional (E p)"
    and L_plain: "no_optional p \<Longrightarrow> no_optional q \<Longrightarrow> ok no_optional (L p q)"
begin

section \<open>Arguments\<close>

lemma ok_arg: "no_optional p \<Longrightarrow> ok no_optional (argeval E p)"
  by (simp add: ok_argeval E_plain)

lemma ok_eval_a_list: "no_optional p \<Longrightarrow> ok no_optional (eval_a_list E p)"
proof (induction p)
  case (VCons a d)
  then show ?case
    by (simp only: eval_a_list.simps no_optional.simps) (intro ok_bind_plain ok_ret ok_arg; simp)
qed (simp_all add: ok_ret E_plain)

lemma ok_progn_loop: "no_optional p \<Longrightarrow> no_optional q \<Longrightarrow> ok no_optional (progn_loop E p q)"
proof (induction p arbitrary: q)
  case (VCons a d)
  then show ?case by (simp only: progn_loop.simps no_optional.simps) (intro ok_bind_plain E_plain; simp)
qed (simp_all add: ok_ret opens_fail)

lemma ok_progn: "no_optional p \<Longrightarrow> ok no_optional (progn E p)"
  by (simp add: progn_def ok_progn_loop)

lemma ok_prog1: "no_optional p \<Longrightarrow> ok no_optional (prog1 E p)"
  unfolding prog1_def
  by (intro ok_case_val ok_bind_plain ok_then [OF ok_progn_loop] ok_ret ok_progn_loop E_plain) simp_all

lemma ok_map_args_eval:
  "list_all no_optional args \<Longrightarrow> ok (\<lambda>vs. list_all no_optional vs \<and> length vs = length args) (ev_map (argeval E) args)"
proof (induction args)
  case (Cons a args)
  then have a: "ok no_optional (argeval E a)"
    and r: "ok (\<lambda>vs. list_all no_optional vs \<and> length vs = length args) (ev_map (argeval E) args)"
    by (simp_all add: ok_arg)
  show ?case unfolding ev_map.simps by (rule ok_bind [OF a], rule ok_bind [OF r], rule ok_ret) simp
qed (simp add: ok_ret)

lemma ok_all_args_eval:
  "list_all no_optional args \<Longrightarrow> ok (\<lambda>vs. list_all no_optional vs \<and> length vs = length args) (all_args_eval E args)"
  by (simp add: all_args_eval_def ok_map_args_eval)

lemma ok_n_args:
  assumes "list_all no_optional args"
  shows "ok (\<lambda>vs. list_all no_optional vs \<and> length vs = n) (n_args E n args)"
proof -
  have "ok (\<lambda>_. length args = n) (ev_lift (ARG_NUMBER n args))"
    by (rule opens_weaken [OF ok_lift]) (simp add: ARG_NUMBER_def split: if_splits)
  then show ?thesis
    unfolding n_args_def ev_then_def
    by (rule ok_bind) (rule opens_weaken [OF ok_all_args_eval [OF assms]], simp)
qed

lemma ok_one_arg:
  assumes "list_all no_optional args" "\<And>v. no_optional v \<Longrightarrow> no_optional (f v)"
  shows "ok no_optional (one_arg E f args)"
  unfolding one_arg_def
  by (rule ok_bind [OF ok_n_args [OF assms(1)]], rule ok_ret) (auto intro!: assms(2) plain_hd)

lemma ok_map_lists: "list_all no_optional args \<Longrightarrow> ok (list_all no_optional) (map_lists E i args)"
proof (induction args arbitrary: i)
  case (Cons a args)
  then have a: "ok no_optional (argeval E a)" and r: "ok (list_all no_optional) (map_lists E (i + 1) args)"
    by (simp_all add: ok_arg)
  show ?case
    unfolding map_lists.simps
    by (rule ok_bind [OF a], intro ok_if opens_fail, rule ok_bind [OF r], rule ok_ret) simp
qed (simp add: ok_ret)

lemma ok_map_args: "list_all no_optional args \<Longrightarrow> ok (\<lambda>(f, ls). no_optional f \<and> list_all no_optional ls) (map_args E args)"
  unfolding map_args_def
  by (rule ok_if, rule opens_fail, rule ok_bind, rule ok_arg, rule plain_hd, assumption, force,
      rule ok_bind, rule ok_map_lists) (cases args; auto intro: ok_ret)+

section \<open>Functions written in Lisp\<close>

lemma ok_dm_expand: "no_optional formal \<Longrightarrow> no_optional body \<Longrightarrow> no_optional q \<Longrightarrow> ok no_optional (dm_expand E formal body q)"
  unfolding dm_expand_def
  by (intro ok_bracket_then [OF opens_push_args _ pops_pop_args] ok_progn)

lemma ok_lfun_listeval:
  "no_optional formal \<Longrightarrow> no_optional body \<Longrightarrow> no_optional q \<Longrightarrow> ok no_optional (lfun_listeval E k formal body q)"
proof (cases k)
  case DE
  assume p: "no_optional formal" "no_optional body" "no_optional q"
  show ?thesis
    unfolding lfun_listeval_def de_listeval_def DE lkind.case
    by (intro ok_bind_plain ok_bracket_then [OF opens_push_args _ pops_pop_args] ok_progn ok_eval_a_list p plain_parts)
next
  case DF
  assume p: "no_optional formal" "no_optional body" "no_optional q"
  show ?thesis
    unfolding lfun_listeval_def df_listeval_def DF lkind.case
    by (intro ok_bracket_then [OF opens_push_args _ pops_pop_args] ok_progn p plain_parts)
next
  case DM
  assume p: "no_optional formal" "no_optional body" "no_optional q"
  show ?thesis
    unfolding lfun_listeval_def dm_listeval_def DM lkind.case
    by (intro ok_bind_plain ok_dm_expand E_plain p)
qed

lemma ok_dm_macro_expand: "no_optional p \<Longrightarrow> no_optional q \<Longrightarrow> ok no_optional (dm_macro_expand E p q)"
  unfolding dm_macro_expand_def
  by (intro ok_case_val ok_case_fobj ok_if opens_fail ok_dm_expand; simp)

section \<open>Functions written in C\<close>

lemma ok_apply_fn: "no_optional q \<Longrightarrow> no_optional p \<Longrightarrow> ok no_optional (apply_fn E L q p)"
  unfolding apply_fn_def by (intro ok_bind_plain ok_without_argeval E_plain L_plain; simp)

lemma ok_xeval_loop: "list_all no_optional args \<Longrightarrow> no_optional q \<Longrightarrow> ok no_optional (xeval_loop E args q)"
  by (induction args arbitrary: q) (auto intro!: ok_ret ok_bind_plain ok_arg E_plain)

lemma ok_xand_loop: "list_all no_optional args \<Longrightarrow> no_optional q \<Longrightarrow> ok no_optional (xand_loop E args q)"
  by (induction args arbitrary: q) (auto intro!: ok_ret ok_bind_plain ok_arg)

lemma ok_xor_loop: "list_all no_optional args \<Longrightarrow> ok no_optional (xor_loop E args)"
  by (induction args) (auto intro!: ok_ret ok_bind_plain ok_arg)

lemma ok_setq_values: "list_all no_optional args \<Longrightarrow> ok (list_all (\<lambda>(a, v). no_optional v)) (setq_values E args)"
proof (induction args rule: induct_list012)
  case (3 a b args)
  then have b: "ok no_optional (argeval E b)" and r: "ok (list_all (\<lambda>(a, v). no_optional v)) (setq_values E args)"
    by (simp_all add: ok_arg)
  show ?case unfolding setq_values.simps by (rule ok_bind [OF b], rule ok_bind [OF r], rule ok_ret) simp
qed (simp_all add: ok_ret)

lemma ok_xsetq: "list_all no_optional args \<Longrightarrow> ok no_optional (xsetq E args)"
  unfolding xsetq_def
  by (intro ok_if opens_fail, rule ok_bind, rule ok_setq_values, assumption) (simp add: ok_setq_loop)

lemma ok_xset: "list_all no_optional args \<Longrightarrow> ok no_optional (xset E args)"
  unfolding xset_def
  by (rule ok_bind, rule ok_n_args, assumption, rule ok_bind, rule ok_lift, rule ok_then, rule ok_sym_set)
    (auto intro!: ok_ret plain_nth)

lemma ok_xincr:
  assumes "list_all no_optional args"
  shows "ok no_optional (xincr E args)"
proof -
  have 1: "ok (\<lambda>_. length args = 2) (ev_lift (ARG_NUMBER 2 args))"
    by (rule opens_weaken [OF ok_lift]) (simp add: ARG_NUMBER_def split: if_splits)
  have 2: "ok (\<lambda>_. True) (ev_bind (argeval E (args ! 1)) (\<lambda>v. ev_lift (AREAL 2 (args[1 := v]))))" if "length args = 2"
    using assms that by (intro ok_bind_plain ok_arg opens_weaken [OF ok_lift] plain_nth) auto
  have 3: "ok (\<lambda>_. True) (if length args = 1 then ev_ret 1
      else ev_then (ev_lift (ARG_NUMBER 2 args))
        (ev_bind (argeval E (args ! 1)) (\<lambda>v. ev_lift (AREAL 2 (args[1 := v])))))"
    unfolding ev_then_def by (intro ok_if ok_ret ok_bind [OF 1] 2) simp_all
  show ?thesis
    unfolding xincr_def
    by (rule ok_bind [OF 3], rule ok_bind [OF ok_lift], rule ok_bind [OF ok_sym_get])
      (intro ok_case_val opens_fail ok_then [OF ok_sym_set] ok_ret; simp)
qed

lemma ok_numbers:
  assumes "list_all no_optional args"
  shows "ok no_optional (xadd E args)" "ok no_optional (xmul E args)" "ok no_optional (xsub E args)"
  unfolding xadd_def xmul_def xsub_def
  by (intro ok_if opens_fail ok_bind [OF ok_all_args_eval [OF assms]] ok_bind [OF ok_lift] ok_ret; simp)+

lemma ok_xcar:
  assumes "list_all no_optional args" "\<And>v. no_optional v \<Longrightarrow> no_optional (part v)"
  shows "ok no_optional (xcar part E args)"
  unfolding xcar_def
proof (rule ok_bind [OF ok_n_args [OF assms(1)]], rule ok_bind [OF ok_lift], rule ok_ret)
  fix as :: "lv list" and l
  assume "list_all no_optional as \<and> length as = 1" "ALIST 1 as = Inr l"
  then have "no_optional l" by (auto simp: ALIST_def APOINTER_def list_all_length split: if_splits)
  then show "no_optional (part l)" by (rule assms(2))
qed

lemma ok_xapply: "list_all no_optional args \<Longrightarrow> ok no_optional (ev_bind (n_args E 2 args) (\<lambda>as. apply_fn E L (as ! 0) (as ! 1)))"
  by (rule ok_bind, rule ok_n_args, assumption, rule ok_apply_fn) (auto intro!: plain_nth)

lemma ok_xcons: "list_all no_optional args \<Longrightarrow> ok no_optional (ev_bind (n_args E 2 args) (\<lambda>as. ev_ret (VCons (as ! 0) (as ! 1))))"
  by (rule ok_bind, rule ok_n_args, assumption, rule ok_ret) (auto intro!: plain_nth)

lemma ok_xquote: "list_all no_optional args \<Longrightarrow> ok no_optional (ev_then (ev_lift (ARG_NUMBER 1 args)) (ev_ret (hd args)))"
  unfolding ev_then_def
  by (rule ok_bind [OF ok_lift], rule ok_ret) (auto simp: ARG_NUMBER_def intro!: plain_hd split: if_splits)

lemma ok_map_call:
  assumes "list_all no_optional args" "\<And>A ls. (\<And>l. no_optional l \<Longrightarrow> ok no_optional (A l)) \<Longrightarrow> list_all no_optional ls \<Longrightarrow> ok no_optional (M A ls)"
  shows "ok no_optional (ev_bind (map_args E args) (\<lambda>(f, ls). M (apply_fn E L f) ls))"
  by (rule ok_bind [OF ok_map_args [OF assms(1)]], rule ok_case_prod, rule assms(2)) (auto intro: ok_apply_fn)

lemmas ok_map_calls =
  ok_map_call [where M = "\<lambda>A ls. mapc_loop A ls VNil", OF _ ok_mapc_loop]
  ok_map_call [where M = "\<lambda>A ls. rmapc_loop A ls VNil", OF _ ok_rmapc_loop]
  ok_map_call [where M = mapcar_loop, OF _ ok_mapcar_loop]
  ok_map_call [where M = rmapcar_loop, OF _ ok_rmapcar_loop]

lemmas ok_dx_rules = ok_map_calls ok_xapply ok_xcons ok_xquote ok_xeval_loop ok_xand_loop ok_xor_loop
  ok_xset ok_xsetq ok_xincr ok_xcar ok_numbers ok_one_arg ok_if ok_ret opens_fail

lemma ok_dx_call: "list_all no_optional args \<Longrightarrow> ok no_optional (dx_call E L f args)"
  unfolding dx_call_def
  by (cases f; simp only: dxfun.case)
    (rule ok_dx_rules | assumption | simp add: plain_picks plain_funcdef)+

section \<open>Local variables\<close>

lemma ok_orthogonalize: "no_optional q \<Longrightarrow> ok (\<lambda>(l1, l2). no_optional l1 \<and> no_optional l2) (orthogonalize E q)"
proof (induction q)
  case (VCons pair q)
  then have r: "ok (\<lambda>(l1, l2). no_optional l1 \<and> no_optional l2) (orthogonalize E q)"
    and e: "ok no_optional (E (val_car (val_cdr pair)))" by (simp_all add: E_plain)
  show ?case
    unfolding orthogonalize.simps
    by (rule ok_if, rule ok_bind [OF e], rule ok_bind [OF r], rule ok_case_prod, rule ok_ret)
      (use VCons(3) in \<open>auto simp: opens_fail\<close>)
qed (simp_all add: ok_ret opens_fail)

lemma plain_let_function: "no_optional l1 \<Longrightarrow> no_optional l \<Longrightarrow> no_optional (VObj (LFun DF l1 (val_cdr l)))"
  by simp

lemma ok_ylet: "no_optional l \<Longrightarrow> ok no_optional (ylet E L l)"
  unfolding ylet_def
  by (rule ok_if, rule opens_fail, rule ok_bind, rule ok_orthogonalize, simp, rule ok_case_prod, rule ok_apply_fn)
    auto

lemma opens_letstar: "no_optional q \<Longrightarrow> \<exists>c. opens c (\<lambda>_. True) (letstar_push E q) \<and> pops c (letstar_pop q)"
proof (induction q)
  case VNil
  have "opens (\<lambda>_. 0) (\<lambda>_. True) (letstar_push E VNil)" "pops (\<lambda>_. 0) (letstar_pop VNil)"
    by (simp_all add: ok_ret pops_ret)
  then show ?case by blast
next
  case (VCons p q)
  then obtain c where c: "opens c (\<lambda>_. True) (letstar_push E q)" "pops c (letstar_pop q)" by auto
  show ?case
  proof (cases "\<exists>y. val_car p = VSym y")
    case True
    then obtain y where y: "val_car p = VSym y" by blast
    have e: "ok no_optional (E (val_car (val_cdr p)))" using VCons(3) by (simp add: E_plain)
    have "opens (\<lambda>x. 0 + (one_of y x + c x)) (\<lambda>_. True)
        (ev_bind (E (val_car (val_cdr p))) (\<lambda>ans. ev_then (sym_push y ans) (letstar_push E q)))"
      by (rule opens_bind [OF e], rule opens_then [OF opens_sym_push c(1)])
    then have "opens (\<lambda>x. one_of y x + c x) (\<lambda>_. True) (letstar_push E (VCons p q))"
      using y by (simp add: opens_fail)
    moreover have "pops (\<lambda>x. one_of y x + c x) (letstar_pop (VCons p q))"
      using pops_then [OF pops_sym_pop c(2), of y] y by simp
    ultimately show ?thesis by blast
  next
    case False
    have "opens c (\<lambda>_. True) (letstar_push E (VCons p q))"
      using False by (cases "val_car p") (auto simp: opens_fail)
    moreover have "pops (\<lambda>x. 0 + c x) (letstar_pop (VCons p q))"
      unfolding letstar_pop.simps
      by (rule pops_then [OF _ c(2)]) (use False pops_ret in \<open>auto split: val.splits\<close>)
    ultimately show ?thesis by auto
  qed
qed (auto simp: opens_fail pops_ret intro!: exI [of _ "\<lambda>_. 0"])

lemma ok_yletstar:
  assumes "no_optional l"
  shows "ok no_optional (yletstar E l)"
proof -
  obtain c where "opens c (\<lambda>_. True) (letstar_push E (val_car l))" "pops c (letstar_pop (val_car l))"
    using opens_letstar [of "val_car l"] assms by auto
  then show ?thesis
    unfolding yletstar_def by (intro ok_if opens_fail ok_bracket_then ok_progn plain_parts assms)
qed

text \<open>The loop of \<open>for\<close> writes to the frame that it pushed, which is unlocked and on the top.\<close>

lemma for_loop_keeps:
  "plain_state s \<Longrightarrow> no_optional body \<Longrightarrow> no_optional num \<Longrightarrow> length (symbols s x) = h \<Longrightarrow> \<not> sf_locked (hd (symbols s x)) \<Longrightarrow>
    for_loop n E x h body up i stop step num s = Inr (v, t) \<Longrightarrow> no_optional v \<and> pushes (\<lambda>_. 0) s t"
proof (induction n arbitrary: i num s)
  case 0
  then show ?case by (simp add: ev_fail_def)
next
  case (Suc n)
  show ?case
  proof (cases "if up then i \<le> stop else i \<ge> stop")
    case False
    then show ?thesis using Suc.prems by (auto simp: ev_ret_def pushes_refl split: if_splits)
  next
    case True
    obtain f fs where f: "symbols s x = f # fs" using plain_frames [OF Suc.prems(1), of x] by (cases "symbols s x") auto
    let ?s = "upd_frames x (f\<lparr>sf_value := VNum i\<rparr> # fs) s"
    have st: "sym_store x h (VNum i) s = Inr ((), ?s)"
      using Suc.prems(4) f by (auto simp: sym_store_def)
    have kept: "pushes (\<lambda>_. 0) s ?s"
      using Suc.prems(1,5) f plain_frames [OF Suc.prems(1), of x]
      by (intro pushes_upd_frames) (auto simp: plain_frame_def frame_le_def)
    from Suc.prems(6) True st obtain w u where
      w: "progn E body ?s = Inr (w, u)" "for_loop n E x h body up (i + step) stop step w u = Inr (v, t)"
      by (auto simp: ev_bind_def ev_then_def split: sum.splits if_splits)
    from opensD [OF ok_progn [OF Suc.prems(2)] pushes_plain [OF kept] w(1)]
    have u: "no_optional w" "pushes (\<lambda>_. 0) ?s u" by simp_all
    have rel: "list_all2 frame_le (f\<lparr>sf_value := VNum i\<rparr> # fs) (symbols u x)"
      using u(2) by (auto simp: pushes_def upd_frames_def dest!: spec [of _ x])
    have "length (symbols u x) = h" "\<not> sf_locked (hd (symbols u x))"
      using rel Suc.prems(4,5) f by (auto simp: list_all2_Cons1 frame_le_def dest: list_all2_lengthD)
    from Suc.IH [OF pushes_plain [OF u(2)] Suc.prems(2) u(1) this w(2)]
    show ?thesis using pushes_0_trans [OF kept pushes_0_trans [OF u(2)]] by simp
  qed
qed

lemma ok_for_num: "no_optional p \<Longrightarrow> ok (\<lambda>_. True) (for_num E p)"
  unfolding for_num_def
  by (intro ok_if opens_fail ok_bind_plain E_plain ok_case_val ok_ret) simp_all

lemma ok_for_step: "no_optional p \<Longrightarrow> ok (\<lambda>_. True) (for_step E p)"
  unfolding for_step_def by (intro ok_if opens_fail ok_for_num ok_ret) simp_all

text \<open>The part of \<open>for\<close> between the push and the pop\<close>

lemma for_loop_ok:
  assumes "no_optional body" "plain_state s"
    "(if start \<le> stop \<and> step \<ge> 0 then for_loop n E x (length (symbols s x)) body True start stop step VNil
      else if start \<ge> stop \<and> step \<le> 0 then for_loop n E x (length (symbols s x)) body False start stop step VNil
      else ev_ret VNil) s = Inr (v, t)" "\<not> sf_locked (hd (symbols s x))"
  shows "no_optional v \<and> pushes (\<lambda>_. 0) s t"
  using assms(3) for_loop_keeps [OF assms(2,1) _ refl assms(4), of VNil] pushes_refl [OF assms(2)]
  by (auto simp: ev_ret_def split: if_splits)

lemma ok_for_body:
  assumes "no_optional body"
  shows "ok no_optional (ev_then (sym_push x VNil) (ev_bind (height x) (\<lambda>h. ev_bind
    (if start \<le> stop \<and> step \<ge> 0 then for_loop n E x h body True start stop step VNil
     else if start \<ge> stop \<and> step \<le> 0 then for_loop n E x h body False start stop step VNil
     else ev_ret VNil)
    (\<lambda>num. ev_then (sym_pop x) (ev_ret num)))))" (is "ok no_optional (ev_then ?push (ev_bind ?h (\<lambda>h. ev_bind (?loop h) ?pop)))")
proof -
  have eq: "ev_then ?push (ev_bind ?h (\<lambda>h. ev_bind (?loop h) ?pop)) =
    ev_then ?push (ev_bind (ev_bind ?h ?loop) ?pop)" by (simp add: ev_bind_assoc)
  let ?m = "ev_then ?push (ev_bind (ev_bind ?h ?loop) ?pop)"
  have "opens (one_of x) no_optional (ev_then ?push (ev_bind ?h ?loop))"
  proof (rule opensI)
    fix s v t
    assume s: "plain_state s" "ev_then ?push (ev_bind ?h ?loop) s = Inr (v, t)"
    let ?s = "upd_frames x (pushed_frame VNil # symbols s x) s"
    have push: "?push s = Inr ((), ?s)" by (simp add: sym_push_def)
    have p: "pushes (one_of x) s ?s"
      using opensD [OF opens_sym_push s(1) push] by simp
    have "?loop (length (symbols ?s x)) ?s = Inr (v, t)"
      using s(2) push by (simp add: ev_then_def ev_bind_def height_def)
    from for_loop_ok [OF assms pushes_plain [OF p] this] show "no_optional v \<and> pushes (one_of x) s t"
      using pushes_trans [OF p, of "\<lambda>_. 0" t] by (simp add: upd_frames_def pushed_frame_def)
  qed
  from ok_bracket [OF this _ pops_sym_pop, where m = ev_ret and P = no_optional]
  have "ok no_optional (ev_bind (ev_then ?push (ev_bind ?h ?loop)) (\<lambda>v. ev_bind (ev_ret v) ?pop))"
    by (simp add: ok_ret)
  then show ?thesis unfolding eq by (simp add: ev_then_def ev_bind_assoc)
qed

lemma ok_yfor: "no_optional l \<Longrightarrow> ok no_optional (yfor n E l)"
  unfolding yfor_def Let_def
  by (intro ok_if opens_fail ok_case_val ok_bind [OF ok_for_num] ok_bind [OF ok_for_step] ok_for_body plain_parts;
      assumption)

lemma ok_yeach:
  assumes "no_optional l" "\<And>A ls. (\<And>l. no_optional l \<Longrightarrow> ok no_optional (A l)) \<Longrightarrow> list_all no_optional ls \<Longrightarrow> ok no_optional (M A ls)"
  shows "ok no_optional (yeach E L M msg l)"
  unfolding yeach_def
  by (rule ok_if, rule opens_fail, rule ok_bind, rule ok_orthogonalize, simp add: assms(1), rule ok_case_prod,
      rule ok_if, rule opens_fail, rule assms(2), rule ok_apply_fn)
    (use assms(1) in \<open>auto simp: plain_list_items\<close>)

section \<open>Control structures\<close>

lemma ok_make_lfun: "no_optional l \<Longrightarrow> ok no_optional (make_lfun k l)"
  unfolding make_lfun_def by (intro ok_if opens_fail ok_ret) simp

lemma ok_define_lfun: "no_optional l \<Longrightarrow> ok no_optional (define_lfun k l)"
  unfolding define_lfun_def
  by (intro ok_if opens_fail ok_case_val ok_then [OF ok_sym_set] ok_ret) (simp_all, metis no_optional.simps(4) plain_parts(1))

lemma ok_ycond: "no_optional l \<Longrightarrow> ok no_optional (ycond E l)"
proof (induction l)
  case (VCons q l)
  then show ?case
    by (simp only: ycond.simps no_optional.simps) (intro ok_if opens_fail ok_bind_plain E_plain ok_progn; simp)
qed (simp_all add: ok_ret opens_fail)

lemma ok_while_loop: "no_optional c \<Longrightarrow> no_optional body \<Longrightarrow> no_optional q \<Longrightarrow> ok no_optional (while_loop n E c body q)"
  by (induction n arbitrary: q) (auto intro!: opens_fail ok_bind_plain E_plain ok_progn ok_ret)

lemma ok_dowhile_loop: "no_optional c \<Longrightarrow> no_optional body \<Longrightarrow> ok no_optional (dowhile_loop n E c body)"
  by (induction n) (auto intro!: opens_fail ok_bind_plain E_plain ok_progn ok_ret)

lemma ok_repeat_loop: "no_optional body \<Longrightarrow> no_optional q \<Longrightarrow> ok no_optional (repeat_loop i E body q)"
  by (induction i arbitrary: q) (auto intro!: ok_bind_plain ok_progn ok_ret)

lemma ok_control:
  assumes "no_optional l"
  shows "ok no_optional (yif E l)" "ok no_optional (ywhen E l)" "ok no_optional (ywhile n E l)" "ok no_optional (ydowhile n E l)"
    "ok no_optional (yrepeat E l)" "ok no_optional (ymacro_expand E l)"
  unfolding yif_def ywhen_def ywhile_def ydowhile_def yrepeat_def ymacro_expand_def
  by (intro ok_if opens_fail ok_bind_plain E_plain ok_progn ok_ret ok_while_loop ok_dowhile_loop ok_case_val
      ok_repeat_loop ok_dm_macro_expand; simp add: assms)+

lemmas ok_dy_rules = ok_progn ok_prog1 ok_ylet ok_yletstar ok_yfor
  ok_yeach [where M = "\<lambda>A ls. mapc_loop A ls VNil", OF _ ok_mapc_loop]
  ok_yeach [where M = mapcar_loop, OF _ ok_mapcar_loop]
  ok_eval_a_list ok_make_lfun ok_define_lfun ok_control ok_ycond

lemma ok_dy_call: "no_optional l \<Longrightarrow> ok no_optional (dy_call n E L f l)"
  unfolding dy_call_def
  by (cases f; simp only: dyfun.case) (rule ok_dy_rules | assumption | simp)+

section \<open>Calls\<close>

lemma ok_dx_listeval:
  assumes "no_optional q"
  shows "ok no_optional (dx_listeval E L f q)"
proof (rule opensI)
  fix s v t
  assume s: "plain_state s" "dx_listeval E L f q s = Inr (v, t)"
  let ?args = "list_items (val_cdr q)"
  let ?s = "s\<lparr>dx_sp := dx_sp s + length ?args\<rparr>"
  obtain u where u: "dx_call E L f ?args ?s = Inr (v, u)" "t = u\<lparr>dx_sp := dx_sp s\<rparr>"
    using s(2) by (auto simp: dx_listeval_def Let_def ev_defs set_dx_sp_def split: if_splits sum.splits)
  have "plain_state ?s" using s(1) by (simp add: plain_state_def)
  from opensD [OF ok_dx_call this u(1)] assms show "no_optional v \<and> pushes (\<lambda>_. 0) s t"
    by (simp add: plain_list_items u(2) pushes_def plain_state_def)
qed

lemma ok_fun_listeval: "plain_fun p \<Longrightarrow> no_optional q \<Longrightarrow> ok no_optional (fun_listeval n E L p q)"
  unfolding fun_listeval_def
  by (intro ok_case_fobj ok_lfun_listeval ok_dx_listeval ok_dy_call) simp_all

lemma stacked_function_plain: "list_all plain_frame fs \<Longrightarrow> stacked_function fs = Some p \<Longrightarrow> plain_fun p"
  by (induction fs) (auto simp: plain_frame_def split: if_splits val.splits)

lemma ok_generic_listeval:
  assumes "no_optional q"
  shows "ok no_optional (generic_listeval n E L p q)"
proof (rule opensI)
  fix s v t
  assume s: "plain_state s" "generic_listeval n E L p q s = Inr (v, t)"
  then obtain x f where x: "stacked_function (tl (symbols s x)) = Some f" "fun_listeval n E L f q s = Inr (v, t)"
    by (auto simp: generic_listeval_def split: option.splits val.splits)
  have "list_all plain_frame (tl (symbols s x))"
    using plain_frames [OF s(1), of x] by (cases "symbols s x") auto
  then have "plain_fun f" using x(1) by (rule stacked_function_plain)
  from opensD [OF ok_fun_listeval [OF this assms] s(1) x(2)] show "no_optional v \<and> pushes (\<lambda>_. 0) s t" .
qed

lemma ok_list_eval: "no_optional p \<Longrightarrow> no_optional q \<Longrightarrow> ok no_optional (list_eval n E L p q)"
  unfolding list_eval_def
  by (intro ok_case_val ok_fun_listeval ok_generic_listeval) simp_all

lemma ok_eval_std: "no_optional p \<Longrightarrow> ok no_optional (eval_std E L p)"
proof (cases p)
  case (VCons a d)
  assume p: "no_optional p"
  have "ok no_optional (ev_bind (E a) (\<lambda>q. in_call p (ev_then (set_argeval True) (L q p))))"
    by (intro ok_bind_plain ok_in_call ok_then [OF ok_set_argeval] E_plain L_plain p) (use p VCons in auto)
  then show ?thesis using VCons by (simp add: eval_std_def in_call_def ev_then_def ev_bind_assoc)
qed (simp_all add: eval_std_def ok_sym_eval ok_ret)

end

lemma plain_ev_lcall: "(\<forall>p. no_optional p \<longrightarrow> ok no_optional (ev n p)) \<and>
    (\<forall>p q. no_optional p \<longrightarrow> no_optional q \<longrightarrow> ok no_optional (lcall n p q))"
proof (induction n)
  case 0
  then show ?case by (simp add: opens_fail)
next
  case (Suc n)
  have "plain_evaluator (ev n) (lcall n)" by unfold_locales (use Suc in auto)
  then show ?case by (simp add: plain_evaluator.ok_eval_std plain_evaluator.ok_list_eval)
qed

interpretation lisp: plain_evaluator "ev n" "lcall n" for n
  by unfold_locales (simp_all add: plain_ev_lcall)

text \<open>The state after initialisation is plain.\<close>

lemma init_functions: "list_all (\<lambda>(x, f). plain_fun f) (dx_define @ dy_define)"
  unfolding dx_define_def dy_define_def by simp

lemma init_frames: "map_of (dx_define @ dy_define) x = Some f \<Longrightarrow> plain_fun f"
  using init_functions by (auto simp: list_all_iff simp del: map_of_append dest!: map_of_SomeD)

lemma plain_init_symbols: "init_symbols x \<noteq> [] \<and> list_all plain_frame (init_symbols x)"
proof (cases "map_of (dx_define @ dy_define) x")
  case None
  then show ?thesis
    by (simp add: init_symbols_def plain_frame_def unbound_frame_def pushed_frame_def ltrue_def del: map_of_append)
next
  case (Some f)
  then show ?thesis
    using init_frames [OF Some] by (simp add: init_symbols_def plain_frame_def del: map_of_append)
qed

lemma plain_init_lisp: "plain_state init_lisp"
  by (simp add: plain_state_def init_lisp_def plain_init_symbols)

end
