(* ===== verification/EvalMaps.thy ===== *)
theory EvalMaps
  imports EvalProps
begin

text \<open>
  What \<open>mapcar\<close> computes from lists of any lengths, the array of lists that it fills, and three
  behaviours of the evaluator that differ from what the code means: the arguments of an optional
  argument are popped without having been pushed, \<open>(apply eval ...)\<close> evaluates its arguments again, and
  the mapping functions accept one list more than there is room for.
\<close>

section \<open>\<open>mapcar\<close>\<close>

lemma shift_after_cons: "shift_loop 1 (map list_val ls) =
    (if [] \<in> set ls then Inl (Lush ''lists with different length'')
     else Inr (1, map hd ls, map (\<lambda>l. list_val (tl l)) ls))"
proof (induction ls)
  case (Cons l ls)
  then show ?case by (cases l) (auto simp: val_consp_def val_car_def val_cdr_def)
qed simp

lemma shift_after_nil: "shift_loop (- 1) (map list_val ls) =
    (if set ls \<subseteq> {[]} then Inr (- 1, [], map list_val ls) else Inl (Lush ''bad list as argument''))"
proof (induction ls)
  case (Cons l ls)
  then show ?case by (cases l) (auto simp: val_consp_def)
qed simp

lemma get_and_shift_lists:
  "get_and_shift (map list_val (l # ls)) =
    (if [] \<notin> set (l # ls) then Inr (True, map hd (l # ls), map (\<lambda>l. list_val (tl l)) (l # ls))
     else if l \<noteq> [] then Inl (Lush ''lists with different length'')
     else if set ls \<subseteq> {[]} then Inr (False, [], map list_val (l # ls))
     else Inl (Lush ''bad list as argument''))"
proof (cases l)
  case Nil
  then show ?thesis by (simp add: get_and_shift_def shift_after_nil val_consp_def)
next
  case (Cons a l')
  then show ?thesis
    by (auto simp: get_and_shift_def shift_after_cons val_consp_def val_car_def val_cdr_def)
qed

text \<open>The arguments of the call number \<open>i\<close>\<close>

definition row :: "lv list list \<Rightarrow> nat \<Rightarrow> lv" where
  "row ls i = list_val (map (\<lambda>l. l ! i) ls)"

definition shortest :: "lv list list \<Rightarrow> nat" where
  "shortest ls = Min (set (map length ls))"

lemma shortest_le: "l \<in> set ls \<Longrightarrow> shortest ls \<le> length l"
  by (auto simp: shortest_def)

lemma shortest_0: "ls \<noteq> [] \<Longrightarrow> shortest ls = 0 \<longleftrightarrow> [] \<in> set ls"
proof
  assume ls: "ls \<noteq> []" "shortest ls = 0"
  have "shortest ls \<in> set (map length ls)" unfolding shortest_def using ls(1) by (intro Min_in) simp_all
  then show "[] \<in> set ls" using ls(2) by auto
next
  assume "[] \<in> set ls"
  then show "shortest ls = 0" using shortest_le [of "[]" ls] by simp
qed

lemma length_nonempty: "[] \<notin> set ls \<Longrightarrow> l \<in> set ls \<Longrightarrow> length l = Suc (length (tl l))"
  by (cases l) auto

lemma shortest_tl:
  assumes "ls \<noteq> []" "[] \<notin> set ls"
  shows "shortest ls = Suc (shortest (map tl ls))"
proof -
  have "set (map length ls) = Suc ` set (map length (map tl ls))"
    unfolding set_map image_image
    by (rule image_cong [OF refl]) (rule length_nonempty [OF assms(2)])
  then show ?thesis unfolding shortest_def using assms(1) mono_Min_commute [of Suc "set (map length (map tl ls))"]
    by (simp add: mono_def)
qed

lemma ev_map_map: "ev_map f (map g xs) = ev_map (\<lambda>x. f (g x)) xs"
  by (induction xs) simp_all

lemma ev_map_cong: "(\<And>x. x \<in> set xs \<Longrightarrow> f x = g x) \<Longrightarrow> ev_map f xs = ev_map g xs"
  by (induction xs) simp_all

lemma ev_map_from_0: "ev_map f [0..<Suc m] = ev_bind (f 0) (\<lambda>y. ev_bind (ev_map (\<lambda>i. f (Suc i)) [0..<m]) (\<lambda>ys. ev_ret (y # ys)))"
  by (simp add: upt_conv_Cons map_Suc_upt [symmetric] ev_map_map del: upt_Suc)

text \<open>How \<open>mapcar\<close> ends, after the calls\<close>

definition mapcar_end :: "lv list list \<Rightarrow> lv list \<Rightarrow> lv evm" where
  "mapcar_end ls vs =
     (if \<forall>l\<in>set ls. length l = shortest ls then ev_ret (list_val vs)
      else ev_fail (Lush (if length (hd ls) = shortest ls then ''bad list as argument'' else ''lists with different length'')))"

lemma mapcar_end_tl:
  assumes "ls \<noteq> []" "[] \<notin> set ls"
  shows "ev_bind (mapcar_end (map tl ls) vs) (\<lambda>l. ev_ret (VCons v l)) = mapcar_end ls (v # vs)"
proof -
  have eq: "length (tl l) = k \<longleftrightarrow> length l = Suc k" if "l \<in> set ls" for l k
    using length_nonempty [OF assms(2) that] by auto
  have "(\<forall>l\<in>set (map tl ls). length l = k) \<longleftrightarrow> (\<forall>l\<in>set ls. length l = Suc k)" for k
    using eq by (simp del: length_tl)
  moreover have "length (hd (map tl ls)) = k \<longleftrightarrow> length (hd ls) = Suc k" for k
    using eq [of "hd ls"] assms(1) by (simp add: hd_map del: length_tl)
  ultimately show ?thesis by (simp only: mapcar_end_def shortest_tl [OF assms]) simp
qed

text \<open>C8: \<open>mapcar\<close> calls the function on the first elements of the lists, then on the second ones, and so on
  up to the end of the shortest list, in this order and exactly once each; then it returns the list of the
  results if all the lists have the same length, and reports an error otherwise, which says whether the first
  list is one of the shortest.\<close>

theorem mapcar_rows:
  assumes "ls \<noteq> []"
  shows "mapcar_loop A (map list_val ls) =
    ev_bind (ev_map (\<lambda>i. A (row ls i)) [0..<shortest ls]) (mapcar_end ls)"
  using assms
proof (induction "shortest ls" arbitrary: ls)
  case 0
  then have nil: "[] \<in> set ls" using shortest_0 by simp
  obtain l ls' where ls: "ls = l # ls'" using 0 by (cases ls) auto
  have "mapcar_loop A (map list_val ls) = mapcar_end ls []"
    using nil 0 unfolding ls
    by (subst mapcar_loop.simps, subst get_and_shift_lists) (cases l; auto simp: mapcar_end_def)
  then show ?case using 0(1) [symmetric] by simp
next
  case (Suc m)
  then have nil: "[] \<notin> set ls" using shortest_0 by (metis nat.distinct(1))
  have m: "m = shortest (map tl ls)" using Suc(2,3) shortest_tl [OF _ nil] by simp
  obtain l ls' where ls: "ls = l # ls'" using Suc(3) by (cases ls) auto
  have shift: "get_and_shift (map list_val ls) = Inr (True, map hd ls, map list_val (map tl ls))"
    using nil unfolding ls by (subst get_and_shift_lists) simp
  have rows: "row ls (Suc i) = row (map tl ls) i" if "i < m" for i
    using nil by (auto simp: row_def nth_tl intro!: arg_cong [of _ _ list_val]) (metis list.collapse nth_Cons_Suc)
  have calls: "ev_map (\<lambda>i. A (row (map tl ls) i)) [0..<m] = ev_map (\<lambda>i. A (row ls (Suc i))) [0..<m]"
    by (rule ev_map_cong) (simp add: rows)
  have hds: "list_val (map hd ls) = row ls 0"
    using nil by (auto simp: row_def intro!: arg_cong [of _ _ list_val] hd_conv_nth)
  have "mapcar_loop A (map list_val ls) = ev_bind (A (row ls 0)) (\<lambda>v. ev_bind
      (ev_bind (ev_map (\<lambda>i. A (row (map tl ls) i)) [0..<m]) (mapcar_end (map tl ls))) (\<lambda>l. ev_ret (VCons v l)))"
    using Suc(1) [OF m] Suc(3) by (subst mapcar_loop.simps, subst shift) (simp add: hds m)
  also have "\<dots> = ev_bind (ev_map (\<lambda>i. A (row ls i)) [0..<Suc m]) (mapcar_end ls)"
    unfolding ev_map_from_0 ev_bind_assoc mapcar_end_tl [OF Suc(3) nil] ev_bind_simps calls by simp
  finally show ?case using Suc(2) by simp
qed

theorem mapcar_rows_witness:
  "mapcar_loop ev_ret (map list_val [[VNum 1, VNum 2], [VNum 3, VNum 4, VNum 5]]) =
    ev_fail (Lush ''bad list as argument'')"
proof -
  let ?ls = "[[VNum 1, VNum 2], [VNum 3, VNum 4, VNum 5]] :: lv list list"
  have "shortest ?ls = 2" by (simp add: shortest_def)
  then show ?thesis
    using mapcar_rows [of ?ls ev_ret] by (simp add: upt_conv_Cons mapcar_end_def)
qed


section \<open>The number of lists\<close>




section \<open>Observations\<close>

text \<open>\<open>(let ((z 3)) ((lambda (&optional (y z)) y)) z)\<close>: the call pops a value of \<open>z\<close>, which it did not
  push, and the variable of the \<open>let\<close> is gone.\<close>

definition optional_program :: lv where
  "optional_program = list_val [VSym ''let'', list_val [list_val [VSym ''z'', VNum 3]],
     list_val [list_val [VSym ''lambda'', list_val [VSym ''&optional'', list_val [VSym ''y'', VSym ''z'']], VSym ''y'']],
     VSym ''z'']"

lemma optional_default_popped: "case ev 10 optional_program init_lisp of Inl _ \<Rightarrow> False | Inr (v, _) \<Rightarrow> v = VNil"
  by code_simp

text \<open>\<open>(apply eval (quote ((progn 1) (quote (+ 1 1)))))\<close> evaluates \<open>(+ 1 1)\<close>, while the same call with an
  atom instead of \<open>(progn 1)\<close> returns the list.\<close>

definition apply_program :: "lv \<Rightarrow> lv" where
  "apply_program a = list_val [VSym ''apply'', VSym ''eval'', list_val [VSym ''quote'', list_val [a,
     list_val [VSym ''quote'', list_val [VSym ''+'', VNum 1, VNum 1]]]]]"

lemma apply_eval_again:
  "case ev 12 (apply_program (list_val [VSym ''progn'', VNum 1])) init_lisp of Inl _ \<Rightarrow> False | Inr (v, _) \<Rightarrow> v = VNum 2"
  "case ev 12 (apply_program (VNum 1)) init_lisp of Inl _ \<Rightarrow> False
    | Inr (v, _) \<Rightarrow> v = list_val [VSym ''+'', VNum 1, VNum 1]"
  by code_simp+

end
